(* ===== verification/Prelude.thy ===== *)
theory Prelude
  imports Main "HOL-Library.Multiset" "HOL-Library.Char_ord"
begin

text \<open>
  Shared vocabulary of the development: the string and identifier types of the
  TypeScript sources, decimal rendering of numbers in log and error messages, the
  \<open>Array.join\<close> and \<open>find\<close> idioms, and the generic list and map lemmas that the component
  theories rewrite with.

  JavaScript strings are lists of characters here; identifiers (cuid primary keys) are
  strings, and times are milliseconds since the epoch as natural numbers or integers.
  A thrown \<open>Error\<close> is the left side of a sum, a returned value the right side.
\<close>

named_theorems branch_simps "definitions whose unfolding exposes the branches of an operation"

type_synonym ident = string
type_synonym millis = int

text \<open>A class of characters such as \<open>[a-z]\<close>, by its first and its last one.\<close>

definition char_in :: "char \<Rightarrow> string \<Rightarrow> bool" where
  "char_in c bounds \<longleftrightarrow> hd bounds \<le> c \<and> c \<le> last bounds"

text \<open>Template-literal rendering of a non-negative integer.\<close>

fun nat_str :: "nat \<Rightarrow> string" where
  "nat_str n = (if n < 10 then [char_of (48 + n)] else nat_str (n div 10) @ [char_of (48 + n mod 10)])"

declare nat_str.simps [simp del]

text \<open>Reading the digits again, so different numbers are printed differently.\<close>

definition digits_value :: "string \<Rightarrow> nat" where
  "digits_value s = foldl (\<lambda>n c. 10 * n + (of_char c - 48)) 0 s"

lemma digits_value_nat_str [simp]: "digits_value (nat_str n) = n"
proof (induction n rule: nat_str.induct)
  case (1 n)
  then show ?case
    by (subst nat_str.simps) (simp add: digits_value_def)
qed

lemma inj_nat_str: "inj nat_str"
  by (metis digits_value_nat_str injI)

definition digit :: "char \<Rightarrow> bool" where
  "digit c \<longleftrightarrow> char_in c ''09''"

lemma digit_char_of: "d < 10 \<Longrightarrow> digit (char_of (48 + d :: nat))"
  by (auto simp: digit_def char_in_def less_eq_char_def)

lemma nat_str_digits: "\<forall>c \<in> set (nat_str n). digit c"
  by (induction n rule: nat_str.induct) (subst nat_str.simps, auto simp: digit_char_of)

lemma nat_str_nonempty [simp]: "nat_str n \<noteq> []"
  by (subst nat_str.simps) simp

definition int_str :: "int \<Rightarrow> string" where
  "int_str i = (if i < 0 then CHR ''-'' # nat_str (nat (- i)) else nat_str (nat i))"

text \<open>\<open>xs.join(sep)\<close>\<close>

fun join_with :: "'a list \<Rightarrow> 'a list list \<Rightarrow> 'a list" where
  "join_with sep [] = []"
| "join_with sep [x] = x"
| "join_with sep (x # y # ys) = x @ sep @ join_with sep (y # ys)"

text \<open>What \<open>\s\<close> matches, \<open>s.trim()\<close> and \<open>s.trimEnd()\<close>, and a string between double quotes.\<close>

definition js_space :: "char \<Rightarrow> bool" where
  "js_space c \<longleftrightarrow> c \<in> set [CHR '' '', CHR 0x09, CHR 0x0A, CHR 0x0B, CHR 0x0C, CHR 0x0D, CHR 0xA0]"

text \<open>
  \<open>s.toLowerCase()\<close> on the characters of a HOL string, the code points below 256, whose lower-case forms lie below
  256 too; \<open>s.toUpperCase()\<close> on ASCII, for method names; and \<open>s.split(c)\<close>.
\<close>

definition latin_capital :: "char \<Rightarrow> bool" where
  "latin_capital c \<longleftrightarrow> CHR 0xC0 \<le> c \<and> c \<le> CHR 0xDE \<and> c \<noteq> CHR 0xD7"

definition js_lower :: "string \<Rightarrow> string" where
  "js_lower s = map (\<lambda>c. if char_in c ''AZ'' \<or> latin_capital c then char_of (of_char c + 32 :: nat) else c) s"

definition js_upper :: "string \<Rightarrow> string" where
  "js_upper s = map (\<lambda>c. if char_in c ''az'' then char_of (of_char c - 32 :: nat) else c) s"

fun split_on :: "char \<Rightarrow> string \<Rightarrow> string list" where
  "split_on c [] = [[]]"
| "split_on c (x # xs) =
     (if x = c then [] # split_on c xs
      else (case split_on c xs of [] \<Rightarrow> [[x]] | p # ps \<Rightarrow> (x # p) # ps))"

lemma split_on_nonempty [simp]: "split_on c s \<noteq> []"
  by (induction s) (auto split: list.split)

lemma split_on_word: "c \<notin> set w \<Longrightarrow> split_on c w = [w]"
  by (induction w) auto

lemma split_on_append: "c \<notin> set w \<Longrightarrow> split_on c (w @ c # s) = w # split_on c s"
  by (induction w) auto

lemma split_on_free: "p \<in> set (split_on c s) \<Longrightarrow> c \<notin> set p"
  by (induction s arbitrary: p) (auto split: if_splits list.splits)

definition js_trimEnd :: "string \<Rightarrow> string" where
  "js_trimEnd s = rev (dropWhile js_space (rev s))"

definition js_trim :: "string \<Rightarrow> string" where
  "js_trim s = js_trimEnd (dropWhile js_space s)"

definition quoted :: "string \<Rightarrow> string" where
  "quoted s = CHR 0x22 # s @ [CHR 0x22]"

text \<open>\<open>value ?? fallback\<close>: the nullish-coalescing operator.\<close>

definition nullish :: "'a option \<Rightarrow> 'a \<Rightarrow> 'a" where
  "nullish v d = (case v of None \<Rightarrow> d | Some x \<Rightarrow> x)"

lemma nullish_simps [simp]: "nullish None d = d" "nullish (Some x) d = x"
  by (simp_all add: nullish_def)

text \<open>A nullable string is truthy when it is present and not empty.\<close>

definition truthy :: "string option \<Rightarrow> bool" where
  "truthy v = (case v of None \<Rightarrow> False | Some s \<Rightarrow> s \<noteq> [])"

lemma truthy_simps [simp]: "\<not> truthy None" "truthy (Some s) \<longleftrightarrow> s \<noteq> []"
  by (simp_all add: truthy_def)

text \<open>\<open>xs.find(p)\<close> is \<open>List.find\<close>; its result is an element that satisfies the test.\<close>

lemma find_SomeD: "List.find P xs = Some x \<Longrightarrow> x \<in> set xs \<and> P x"
  by (induction xs) (auto split: if_splits)

lemma find_NoneD: "List.find P xs = None \<Longrightarrow> \<forall>x \<in> set xs. \<not> P x"
  by (induction xs) (auto split: if_splits)

lemma find_map_id:
  "distinct (map f xs) \<Longrightarrow> x \<in> set xs \<Longrightarrow> List.find (\<lambda>y. f y = f x) xs = Some x"
  by (induction xs) auto

text \<open>Rows keyed by an identifier: \<open>update({ where: { id } })\<close> rewrites the row in place.\<close>

definition update_row :: "('r \<Rightarrow> 'k) \<Rightarrow> 'k \<Rightarrow> ('r \<Rightarrow> 'r) \<Rightarrow> 'r list \<Rightarrow> 'r list" where
  "update_row key k f rows = map (\<lambda>r. if key r = k then f r else r) rows"

lemma length_update_row [simp]: "length (update_row key k f rows) = length rows"
  by (simp add: update_row_def)

lemma update_row_keys [simp]:
  assumes "\<And>r. key (f r) = key r"
  shows "map key (update_row key k f rows) = map key rows"
  using assms by (auto simp: update_row_def)

lemma update_row_other:
  assumes "\<And>r. key r = k \<Longrightarrow> g (f r) = g r"
  shows "map g (update_row key k f rows) = map g rows"
  using assms by (auto simp: update_row_def)

lemma set_update_row:
  "set (update_row key k f rows) =
     {r \<in> set rows. key r \<noteq> k} \<union> f ` {r \<in> set rows. key r = k}"
  by (auto simp: update_row_def)

lemma update_row_absent: "k \<notin> key ` set rows \<Longrightarrow> update_row key k f rows = rows"
  by (induction rows) (auto simp: update_row_def)

lemma update_row_nth:
  assumes "distinct (map key rows)" and "i < length rows" and "key (rows ! i) = k"
  shows "update_row key k f rows = rows[i := f (rows ! i)]"
proof (rule nth_equalityI)
  fix j assume j: "j < length (update_row key k f rows)"
  then have "key (rows ! j) = k \<longleftrightarrow> j = i"
    using assms by (auto simp: distinct_conv_nth)
  with j show "update_row key k f rows ! j = rows[i := f (rows ! i)] ! j"
    by (auto simp: update_row_def)
qed simp

lemma find_map_stable: "(\<And>x. P (f x) = P x) \<Longrightarrow> List.find P (map f xs) = map_option f (List.find P xs)"
  by (induction xs) auto

lemma count_list_concat: "count_list (concat xss) x = (\<Sum>xs \<leftarrow> xss. count_list xs x)"
  by (induction xss) auto

lemma distinct_count_list: "(\<And>x. count_list xs x \<le> 1) \<Longrightarrow> distinct xs"
proof (induction xs)
  case Nil
  then show ?case by simp
next
  case (Cons a xs)
  have "count_list xs x \<le> 1" for x
    using Cons.prems [of x] by (simp split: if_splits)
  moreover have "count_list xs a = 0"
    using Cons.prems [of a] by simp
  ultimately show ?case
    using Cons.IH by (simp add: count_list_0_iff)
qed

text \<open>Splitting what was joined.\<close>

lemma split_on_join:
  "xs \<noteq> [] \<Longrightarrow> \<forall>x \<in> set xs. c \<notin> set x \<Longrightarrow> split_on c (join_with [c] xs) = xs"
proof (induction "[c]" xs rule: join_with.induct)
  case (2 x)
  then show ?case by (simp add: split_on_word)
next
  case (3 x y ys)
  then show ?case by (simp add: split_on_append)
qed simp

lemma join_split_on: "join_with [c] (split_on c s) = s"
proof (induction s)
  case step: (Cons x xs)
  show ?case
  proof (cases "split_on c xs")
    case (Cons p ps)
    with step.IH show ?thesis by (cases ps) auto
  qed simp
qed simp

text \<open>\<open>Map.set\<close> on pairs in insertion order.\<close>

fun set_pair :: "'k \<Rightarrow> 'v \<Rightarrow> ('k \<times> 'v) list \<Rightarrow> ('k \<times> 'v) list" where
  "set_pair k v [] = [(k, v)]"
| "set_pair k v ((k', v') # xs) = (if k' = k then (k, v) # xs else (k', v') # set_pair k v xs)"

lemma map_of_set_pair [simp]: "map_of (set_pair k v m) = (map_of m)(k \<mapsto> v)"
  by (induction k v m rule: set_pair.induct) auto

lemma fst_set_pair: "fst ` set (set_pair k v m) = insert k (fst ` set m)" "distinct (map fst m) \<Longrightarrow> distinct (map fst (set_pair k v m))"
proof -
  show keys: "fst ` set (set_pair k v m) = insert k (fst ` set m)" for m
    by (induction k v m rule: set_pair.induct) auto
  then have "set (map fst (set_pair k v m)) = insert k (set (map fst m))" for m by simp
  then show "distinct (map fst m) \<Longrightarrow> distinct (map fst (set_pair k v m))"
    by (induction k v m rule: set_pair.induct) auto
qed

end
