(* ===== verification/Dependency_Order.thy ===== *)
theory Dependency_Order
  imports Prelude
begin

text \<open>
  \<open>src/services/orchestration.ts\<close>, the dependency resolution of deployment plans:
  \<open>detectCycle\<close> (depth-first search over shared mutable sets) and
  \<open>resolveDependencyOrder\<close> (Kahn's algorithm by levels).
\<close>

section \<open>Model\<close>

text \<open>
  \<open>ServiceOrderInput\<close>: what the resolver reads of a service. The resolver is generic in
  \<open>T extends ServiceOrderInput\<close>, here any extension of the record. Of a dependency row only
  \<open>dependsOnId\<close> is read; its type (the second component) matters to the plan builder.
\<close>

datatype dependency_type = HealthBefore | DeployAfter

record service_order_input =
  so_id :: ident
  so_name :: string
  so_dependencies :: "(ident \<times> dependency_type) list"

definition so_deps :: "'z service_order_input_scheme \<Rightarrow> ident list" where
  "so_deps s = map fst (so_dependencies s)"

text \<open>
  \<open>detectCycle\<close> mutates the two sets it is given. A call returns the cycle it found, if any,
  with the sets as it leaves them. The depth of the recursion is bounded by fuel; a call that
  runs out of it returns \<open>None\<close>, and \<open>detect_enough\<close> below shows the fuel used suffices.
  An id that is not in the map is marked visited, pushed on the recursion stack and
  never popped, as in the source.
\<close>

type_synonym dfs_result = "(string list option \<times> ident set \<times> ident set) option"

fun detect :: "nat \<Rightarrow> (ident \<rightharpoonup> 'z service_order_input_scheme) \<Rightarrow> ident \<Rightarrow> ident set \<Rightarrow> ident set \<Rightarrow> dfs_result"
  and detect_deps :: "nat \<Rightarrow> (ident \<rightharpoonup> 'z service_order_input_scheme) \<Rightarrow> 'z service_order_input_scheme \<Rightarrow> ident list
        \<Rightarrow> ident set \<Rightarrow> ident set \<Rightarrow> dfs_result" where
  "detect 0 services sid visited stack = None"
| "detect (Suc n) services sid visited stack =
     (let visited1 = insert sid visited; stack1 = insert sid stack in
      case services sid of
        None \<Rightarrow> Some (None, visited1, stack1)
      | Some service \<Rightarrow>
          (case detect_deps n services service (so_deps service) visited1 stack1 of
             None \<Rightarrow> None
           | Some (Some cycle, v, s) \<Rightarrow> Some (Some cycle, v, s)
           | Some (None, v, s) \<Rightarrow> Some (None, v, s - {sid})))"
| "detect_deps n services service [] visited stack = Some (None, visited, stack)"
| "detect_deps n services service (dep # deps) visited stack =
     (if dep \<notin> visited then
        (case detect n services dep visited stack of
           None \<Rightarrow> None
         | Some (Some cycle, v, s) \<Rightarrow> Some (Some (so_name service # cycle), v, s)
         | Some (None, v, s) \<Rightarrow> detect_deps n services service deps v s)
      else if dep \<in> stack then
        Some (Some [so_name service,
                    (case services dep of None \<Rightarrow> dep
                     | Some d \<Rightarrow> if so_name d = [] then dep else so_name d)], visited, stack)
      else detect_deps n services service deps visited stack)"

text \<open>The loop of \<open>resolveDependencyOrder\<close> that starts a search at every unvisited service.\<close>

fun detect_all :: "nat \<Rightarrow> (ident \<rightharpoonup> 'z service_order_input_scheme) \<Rightarrow> 'z service_order_input_scheme list
    \<Rightarrow> ident set \<Rightarrow> ident set \<Rightarrow> dfs_result" where
  "detect_all n services [] visited stack = Some (None, visited, stack)"
| "detect_all n services (x # xs) visited stack =
     (if so_id x \<notin> visited then
        (case detect n services (so_id x) visited stack of
           None \<Rightarrow> None
         | Some (Some cycle, v, s) \<Rightarrow> Some (Some cycle, v, s)
         | Some (None, v, s) \<Rightarrow> detect_all n services xs v s)
      else detect_all n services xs visited stack)"

text \<open>The three maps: services by id, in-degrees and adjacency lists.\<close>

definition service_map :: "'z service_order_input_scheme list \<Rightarrow> (ident \<rightharpoonup> 'z service_order_input_scheme)" where
  "service_map services = fold (\<lambda>s m. m(so_id s \<mapsto> s)) services Map.empty"

definition degree_of :: "(ident \<rightharpoonup> int) \<Rightarrow> ident \<Rightarrow> int" where
  "degree_of d x = (case d x of None \<Rightarrow> 0 | Some n \<Rightarrow> n)"

definition adj_of :: "(ident \<rightharpoonup> ident list) \<Rightarrow> ident \<Rightarrow> ident list" where
  "adj_of adj x = (case adj x of None \<Rightarrow> [] | Some ys \<Rightarrow> ys)"

fun add_edges :: "(ident \<rightharpoonup> 'z service_order_input_scheme) \<Rightarrow> ident \<Rightarrow> ident list
    \<Rightarrow> (ident \<rightharpoonup> int) \<times> (ident \<rightharpoonup> ident list) \<Rightarrow> (ident \<rightharpoonup> int) \<times> (ident \<rightharpoonup> ident list)" where
  "add_edges smap sid [] (d, adj) = (d, adj)"
| "add_edges smap sid (dep # deps) (d, adj) =
     add_edges smap sid deps
       (if smap dep \<noteq> None
        then (d(sid \<mapsto> degree_of d sid + 1), adj(dep \<mapsto> adj_of adj dep @ [sid]))
        else (d, adj))"

definition init_graph :: "'z service_order_input_scheme list \<Rightarrow> (ident \<rightharpoonup> int) \<times> (ident \<rightharpoonup> ident list)" where
  "init_graph services =
     (fold (\<lambda>s d. d(so_id s \<mapsto> 0)) services Map.empty,
      fold (\<lambda>s a. a(so_id s \<mapsto> [])) services Map.empty)"

definition build_graph :: "'z service_order_input_scheme list \<Rightarrow> (ident \<rightharpoonup> int) \<times> (ident \<rightharpoonup> ident list)" where
  "build_graph services =
     fold (\<lambda>s g. add_edges (service_map services) (so_id s) (so_deps s) g) services (init_graph services)"

text \<open>One level: decrement every dependent of every queued service, collecting those that reach zero.\<close>

fun release_dependents :: "(ident \<rightharpoonup> 'z service_order_input_scheme) \<Rightarrow> ident list
    \<Rightarrow> (ident \<rightharpoonup> int) \<times> 'z service_order_input_scheme list \<Rightarrow> (ident \<rightharpoonup> int) \<times> 'z service_order_input_scheme list" where
  "release_dependents smap [] (d, next) = (d, next)"
| "release_dependents smap (x # xs) (d, next) =
     (let newDegree = degree_of d x - 1; d' = d(x \<mapsto> newDegree) in
      release_dependents smap xs
        (d', if newDegree = 0 then (case smap x of None \<Rightarrow> next | Some s \<Rightarrow> next @ [s]) else next))"

definition release_level :: "(ident \<rightharpoonup> 'z service_order_input_scheme) \<Rightarrow> (ident \<rightharpoonup> ident list)
    \<Rightarrow> 'z service_order_input_scheme list \<Rightarrow> (ident \<rightharpoonup> int) \<Rightarrow> (ident \<rightharpoonup> int) \<times> 'z service_order_input_scheme list" where
  "release_level smap adj queue d =
     fold (\<lambda>s st. release_dependents smap (adj_of adj (so_id s)) st) queue (d, [])"

fun kahn_levels :: "nat \<Rightarrow> (ident \<rightharpoonup> 'z service_order_input_scheme) \<Rightarrow> (ident \<rightharpoonup> ident list)
    \<Rightarrow> (ident \<rightharpoonup> int) \<Rightarrow> 'z service_order_input_scheme list \<Rightarrow> 'z service_order_input_scheme list list option" where
  "kahn_levels n smap adj d [] = Some []"
| "kahn_levels 0 smap adj d queue = None"
| "kahn_levels (Suc n) smap adj d queue =
     (case release_level smap adj queue d of
        (d', next) \<Rightarrow> map_option (\<lambda>ls. queue # ls) (kahn_levels n smap adj d' next))"

datatype order_error = CircularDependency "string list" | NotAllOrdered | OrderOutOfFuel

text \<open>
  The searches are bounded by the number of ids that occur (services and their
  dependencies), the level loop by the number of services; \<open>OrderOutOfFuel\<close> is the value no
  call returns (\<open>resolve_returns\<close>).
\<close>

definition dfs_fuel :: "'z service_order_input_scheme list \<Rightarrow> nat" where
  "dfs_fuel services = Suc (length services + sum_list (map (length \<circ> so_deps) services))"

definition resolveDependencyOrder ::
    "'z service_order_input_scheme list \<Rightarrow> order_error + 'z service_order_input_scheme list list" where
  "resolveDependencyOrder services =
     (if services = [] then Inr []
      else let smap = service_map services; (d, adj) = build_graph services in
        case detect_all (dfs_fuel services) smap services {} {} of
          None \<Rightarrow> Inl OrderOutOfFuel
        | Some (Some cycle, _, _) \<Rightarrow> Inl (CircularDependency cycle)
        | Some (None, _, _) \<Rightarrow>
            (case kahn_levels (length services) smap adj d
                    (filter (\<lambda>s. d (so_id s) = Some 0) services) of
               None \<Rightarrow> Inl OrderOutOfFuel
             | Some levels \<Rightarrow>
                 if sum_list (map length levels) \<noteq> length services then Inl NotAllOrdered
                 else Inr levels))"


section \<open>The search for cycles\<close>

text \<open>The dependency relation among the services of the map.\<close>

definition dep_edges :: "(ident \<rightharpoonup> 'z service_order_input_scheme) \<Rightarrow> (ident \<times> ident) set" where
  "dep_edges services = {(a, b). \<exists>s. services a = Some s \<and> b \<in> set (so_deps s)}"

text \<open>Searches only add to the visited set.\<close>

lemma detect_visited_mono:
  shows detect_visited: "detect n services sid v st = Some (r, v', st') \<Longrightarrow> v \<subseteq> v'"
    and detect_deps_visited: "detect_deps n services service deps v st = Some (r, v', st') \<Longrightarrow> v \<subseteq> v'"
proof (induction n services sid v st and n services service deps v st arbitrary: r v' st' and r v' st'
    rule: detect_detect_deps.induct)
  case (2 n services sid visited stack)
  then show ?case
    by (cases "services sid") (auto simp: Let_def split: option.splits prod.splits)
next
  case (4 n services service dep deps visited stack)
  show ?case
  proof (cases "dep \<notin> visited")
    case True
    with "4.prems" "4.IH"(1) "4.IH"(2) show ?thesis
      by (auto split: option.splits prod.splits) blast+
  next
    case False
    with "4.prems" "4.IH"(3) show ?thesis
      by (auto split: if_splits)
  qed
qed auto

definition deps_within :: "ident set \<Rightarrow> (ident \<rightharpoonup> 'z service_order_input_scheme) \<Rightarrow> bool" where
  "deps_within U services \<longleftrightarrow> (\<forall>i s. services i = Some s \<longrightarrow> set (so_deps s) \<subseteq> U)"

lemma deps_withinD: "deps_within U services \<Longrightarrow> services i = Some s \<Longrightarrow> set (so_deps s) \<subseteq> U"
  by (simp add: deps_within_def)

lemma detect_fuel_suffices:
  assumes "finite U" and "deps_within U services"
  shows "sid \<in> U \<Longrightarrow> sid \<notin> v \<Longrightarrow> card (U - v) \<le> n \<Longrightarrow> detect n services sid v st \<noteq> None"
    and "set deps \<subseteq> U \<Longrightarrow> card (U - v) \<le> n \<Longrightarrow> detect_deps n services service deps v st \<noteq> None"
  using assms(2)
proof (induction n services sid v st and n services service deps v st
    rule: detect_detect_deps.induct)
  case (1 services sid visited stack)
  then have "U - visited \<noteq> {}" by blast
  with \<open>finite U\<close> have "0 < card (U - visited)" by (simp add: card_gt_0_iff)
  with 1 show ?case by simp
next
  case (2 n services sid visited stack)
  have "Suc (card (U - visited - {sid})) = card (U - visited)"
    using "2.prems" \<open>finite U\<close> by (intro card_Suc_Diff1) auto
  moreover have "U - visited - {sid} = U - insert sid visited" by blast
  ultimately have le: "card (U - insert sid visited) \<le> n"
    using "2.prems"(3) by simp
  show ?case
  proof (cases "services sid")
    case None
    then show ?thesis by simp
  next
    case (Some service)
    then have "detect_deps n services service (so_deps service) (insert sid visited) (insert sid stack) \<noteq> None"
      using "2.IH" [OF refl refl Some] le deps_withinD [OF "2.prems"(4) Some] "2.prems"(4) by simp
    then show ?thesis using Some by (auto simp: Let_def split: option.splits)
  qed
next
  case (3 n services service visited stack)
  then show ?case by simp
next
  case (4 n services service dep deps visited stack)
  show ?case
  proof (cases "dep \<notin> visited")
    case True
    with 4 have "detect n services dep visited stack \<noteq> None" by simp
    then obtain r v s where d: "detect n services dep visited stack = Some (r, v, s)" by auto
    have "card (U - v) \<le> card (U - visited)"
      using detect_visited [OF d] \<open>finite U\<close> by (intro card_mono) auto
    then have le: "card (U - v) \<le> n" using 4 by simp
    show ?thesis
    proof (cases r)
      case None
      then have "detect_deps n services service deps v s \<noteq> None"
        using "4.IH"(2) [OF True d] 4 le by simp
      then show ?thesis using True d None by simp
    next
      case (Some c)
      then show ?thesis using True d by simp
    qed
  next
    case False
    with 4 show ?thesis by auto
  qed
qed


text \<open>
  On a closed map (every dependency is itself in the map) the recursion stack holds ancestors
  of the current service only, so a reported cycle is a cycle of the relation.
\<close>

lemma detect_sound_closed:
  assumes "deps_within (dom services) services"
  shows "detect n services sid v st = Some (r, v', st') \<Longrightarrow> services sid \<noteq> None \<Longrightarrow>
           (\<forall>x \<in> st. (x, sid) \<in> (dep_edges services)\<^sup>*) \<Longrightarrow>
           (r = None \<longrightarrow> st' \<subseteq> st) \<and> (r \<noteq> None \<longrightarrow> \<not> acyclic (dep_edges services))"
    and "detect_deps n services service deps v st = Some (r, v', st') \<Longrightarrow>
           \<exists>sid. services sid = Some service \<and> set deps \<subseteq> set (so_deps service)
             \<and> (\<forall>x \<in> st. (x, sid) \<in> (dep_edges services)\<^sup>*) \<Longrightarrow>
           (r = None \<longrightarrow> st' \<subseteq> st) \<and> (r \<noteq> None \<longrightarrow> \<not> acyclic (dep_edges services))"
  using assms
proof (induction n services sid v st and n services service deps v st arbitrary: r v' st' and r v' st'
    rule: detect_detect_deps.induct)
  case (1 services sid visited stack)
  then show ?case by simp
next
  case (2 n services sid visited stack)
  from "2.prems"(2) obtain service where sv: "services sid = Some service" by auto
  with "2.prems"(1) obtain r0 v0 s0 where
    d: "detect_deps n services service (so_deps service) (insert sid visited) (insert sid stack) = Some (r0, v0, s0)"
    by (auto simp: Let_def split: option.splits prod.splits)
  have "\<exists>i. services i = Some service \<and> set (so_deps service) \<subseteq> set (so_deps service)
             \<and> (\<forall>x \<in> insert sid stack. (x, i) \<in> (dep_edges services)\<^sup>*)"
    using sv "2.prems"(3) by (intro exI [of _ sid]) simp
  from "2.IH" [OF refl refl sv d this "2.prems"(4)]
  have ih: "(r0 = None \<longrightarrow> s0 \<subseteq> insert sid stack) \<and> (r0 \<noteq> None \<longrightarrow> \<not> acyclic (dep_edges services))" .
  from "2.prems"(1) sv d have "r = r0" "r0 = None \<longrightarrow> st' = s0 - {sid}"
    by (auto simp: Let_def split: option.splits)
  with ih show ?case by auto
next
  case (3 n services service visited stack)
  then show ?case by simp
next
  case (4 n services service dep deps visited stack)
  from "4.prems"(2) obtain sid where sid: "services sid = Some service"
    "set (dep # deps) \<subseteq> set (so_deps service)" "\<forall>x \<in> stack. (x, sid) \<in> (dep_edges services)\<^sup>*"
    by blast
  then have edge: "(sid, dep) \<in> dep_edges services" by (simp add: dep_edges_def)
  show ?case
  proof (cases "dep \<notin> visited")
    case True
    with "4.prems"(1) obtain r0 v0 s0 where d: "detect n services dep visited stack = Some (r0, v0, s0)"
      by (auto split: option.splits)
    have "\<forall>x \<in> stack. (x, dep) \<in> (dep_edges services)\<^sup>*"
      using sid(3) edge by (meson rtrancl.rtrancl_into_rtrancl)
    moreover have "services dep \<noteq> None"
      using deps_withinD [OF "4.prems"(3) sid(1)] sid(2) by auto
    ultimately have ih: "(r0 = None \<longrightarrow> s0 \<subseteq> stack) \<and> (r0 \<noteq> None \<longrightarrow> \<not> acyclic (dep_edges services))"
      using "4.IH"(1) [OF True d] "4.prems"(3) by simp
    show ?thesis
    proof (cases r0)
      case None
      have "\<exists>i. services i = Some service \<and> set deps \<subseteq> set (so_deps service)
             \<and> (\<forall>x \<in> s0. (x, i) \<in> (dep_edges services)\<^sup>*)"
        using sid ih None by (intro exI [of _ sid]) auto
      moreover have "detect_deps n services service deps v0 s0 = Some (r, v', st')"
        using "4.prems"(1) True d None by simp
      ultimately have "(r = None \<longrightarrow> st' \<subseteq> s0) \<and> (r \<noteq> None \<longrightarrow> \<not> acyclic (dep_edges services))"
        using "4.IH"(2) [OF True d] None "4.prems"(3) by simp
      with ih None show ?thesis by auto
    next
      case (Some c)
      with "4.prems"(1) True d ih show ?thesis by auto
    qed
  next
    case False
    show ?thesis
    proof (cases "dep \<in> stack")
      case True
      with sid(3) edge have "(dep, dep) \<in> (dep_edges services)\<^sup>+"
        by (meson rtrancl_into_trancl1)
      with "4.prems"(1) False True show ?thesis by (auto simp: acyclic_def)
    next
      case nostack: False
      with "4.prems" False sid "4.IH"(3) [OF _ nostack] show ?thesis by auto
    qed
  qed
qed

lemma detect_all_sound_closed:
  assumes "deps_within (dom services) services"
  shows "detect_all n services xs v {} = Some (r, v', st') \<Longrightarrow> \<forall>x \<in> set xs. services (so_id x) \<noteq> None \<Longrightarrow>
     r \<noteq> None \<Longrightarrow> \<not> acyclic (dep_edges services)"
proof (induction xs arbitrary: v)
  case Nil
  then show ?case by simp
next
  case (Cons x xs)
  show ?case
  proof (cases "so_id x \<in> v")
    case True
    with Cons show ?thesis by auto
  next
    case False
    with Cons.prems(1) obtain r0 v0 s0 where
      d: "detect n services (so_id x) v {} = Some (r0, v0, s0)"
      by (auto split: option.splits)
    from detect_sound_closed(1) [OF assms d] Cons.prems(2)
    have "(r0 = None \<longrightarrow> s0 \<subseteq> {}) \<and> (r0 \<noteq> None \<longrightarrow> \<not> acyclic (dep_edges services))" by auto
    with Cons False d show ?thesis by (cases r0) auto
  qed
qed

lemma detect_all_fuel:
  assumes "finite U" and "deps_within U services"
  shows "card (U - v) \<le> n \<Longrightarrow> so_id ` set xs \<subseteq> U \<Longrightarrow> detect_all n services xs v st \<noteq> None"
proof (induction xs arbitrary: v st)
  case Nil
  then show ?case by simp
next
  case (Cons x xs)
  show ?case
  proof (cases "so_id x \<in> v")
    case True
    with Cons show ?thesis by auto
  next
    case False
    then have "detect n services (so_id x) v st \<noteq> None"
      using detect_fuel_suffices(1) [OF assms] Cons.prems by auto
    then obtain r0 v0 s0 where d: "detect n services (so_id x) v st = Some (r0, v0, s0)" by auto
    have "card (U - v0) \<le> card (U - v)"
      using detect_visited [OF d] \<open>finite U\<close> by (intro card_mono) auto
    then show ?thesis using Cons False d by (cases r0) auto
  qed
qed


section \<open>The maps of the resolver\<close>

lemma service_map_fold:
  "fold (\<lambda>s m. m(so_id s \<mapsto> s)) xs m x = Some s \<Longrightarrow> m x = Some s \<or> (s \<in> set xs \<and> so_id s = x)"
proof (induction xs arbitrary: m)
  case Nil
  then show ?case by simp
next
  case (Cons a xs)
  from Cons.IH [of "m(so_id a \<mapsto> a)"] Cons.prems show ?case by (auto split: if_splits)
qed

lemma service_map_SomeD: "service_map xs x = Some s \<Longrightarrow> s \<in> set xs \<and> so_id s = x"
  unfolding service_map_def by (drule service_map_fold) simp

lemma dom_service_map_fold: "dom (fold (\<lambda>s m. m(so_id s \<mapsto> s)) xs m) = dom m \<union> so_id ` set xs"
  by (induction xs arbitrary: m) auto

lemma dom_service_map [simp]: "dom (service_map xs) = so_id ` set xs"
  by (simp add: service_map_def dom_service_map_fold)

lemma service_map_distinct:
  assumes "distinct (map so_id xs)" and "s \<in> set xs"
  shows "service_map xs (so_id s) = Some s"
proof -
  have "so_id s \<in> dom (service_map xs)" using assms(2) by simp
  then obtain t where t: "service_map xs (so_id s) = Some t" by blast
  with service_map_SomeD have "t \<in> set xs" "so_id t = so_id s" by auto
  with assms have "t = s" by (meson distinct_map inj_onD)
  with t show ?thesis by simp
qed

text \<open>The in-plan dependencies of a service.\<close>

definition in_deps :: "'z service_order_input_scheme list \<Rightarrow> 'z service_order_input_scheme \<Rightarrow> ident list" where
  "in_deps services s = filter (\<lambda>x. x \<in> so_id ` set services) (so_deps s)"

lemma in_deps_alt: "in_deps services s = filter (\<lambda>x. service_map services x \<noteq> None) (so_deps s)"
  unfolding in_deps_def dom_service_map [symmetric] dom_def by simp

lemma add_edges_degree:
  "degree_of (fst (add_edges smap sid deps (d, adj))) y =
     degree_of d y + (if y = sid then int (length (filter (\<lambda>x. smap x \<noteq> None) deps)) else 0)"
proof (induction deps arbitrary: d adj)
  case Nil
  then show ?case by simp
next
  case (Cons dep deps)
  then show ?case by (auto simp: degree_of_def)
qed

lemma add_edges_count:
  "count_list (adj_of (snd (add_edges smap sid deps (d, adj))) q) y =
     count_list (adj_of adj q) y + (if y = sid \<and> smap q \<noteq> None then count_list deps q else 0)"
proof (induction deps arbitrary: d adj)
  case Nil
  then show ?case by simp
next
  case (Cons dep deps)
  then show ?case by (cases "smap dep \<noteq> None") (auto simp: adj_of_def)
qed

lemma add_edges_dom: "dom d \<subseteq> dom (fst (add_edges smap sid deps (d, adj)))"
proof (induction deps arbitrary: d adj)
  case Nil
  then show ?case by simp
next
  case (Cons dep deps)
  have "dom d \<subseteq> dom (d(sid \<mapsto> degree_of d sid + 1))" by auto
  then have "dom d \<subseteq> dom (fst (add_edges smap sid deps (d(sid \<mapsto> degree_of d sid + 1), adj')))" for adj'
    using Cons by (rule order_trans)
  with Cons [of d] show ?case by simp
qed

lemma fold_edges_degree:
  "degree_of (fst (fold (\<lambda>s g. add_edges smap (so_id s) (so_deps s) g) xs g)) y =
     degree_of (fst g) y +
       (\<Sum>s \<leftarrow> xs. if so_id s = y then int (length (filter (\<lambda>x. smap x \<noteq> None) (so_deps s))) else 0)"
proof (induction xs arbitrary: g)
  case Nil
  then show ?case by simp
next
  case (Cons s xs)
  show ?case by (cases g) (auto simp: Cons.IH add_edges_degree)
qed

lemma fold_edges_count:
  "count_list (adj_of (snd (fold (\<lambda>s g. add_edges smap (so_id s) (so_deps s) g) xs g)) q) y =
     count_list (adj_of (snd g) q) y +
       (\<Sum>s \<leftarrow> xs. if so_id s = y \<and> smap q \<noteq> None then count_list (so_deps s) q else 0)"
proof (induction xs arbitrary: g)
  case Nil
  then show ?case by simp
next
  case (Cons s xs)
  show ?case by (cases g) (auto simp: Cons.IH add_edges_count)
qed

lemma fold_edges_dom:
  "dom (fst g) \<subseteq> dom (fst (fold (\<lambda>s g. add_edges smap (so_id s) (so_deps s) g) xs g))"
proof (induction xs arbitrary: g)
  case Nil
  then show ?case by simp
next
  case (Cons s xs)
  have "dom (fst g) \<subseteq> dom (fst (add_edges smap (so_id s) (so_deps s) g))"
    using add_edges_dom by (metis prod.collapse)
  also have "\<dots> \<subseteq> dom (fst (fold (\<lambda>s g. add_edges smap (so_id s) (so_deps s) g) xs
      (add_edges smap (so_id s) (so_deps s) g)))"
    by (rule Cons.IH)
  finally show ?case by simp
qed

lemma init_degree0: "degree_of (fst (init_graph xs)) y = 0"
proof -
  have "degree_of m y = 0 \<Longrightarrow> degree_of (fold (\<lambda>s d. d(so_id s \<mapsto> 0)) xs m) y = 0" for m
    by (induction xs arbitrary: m) (auto simp: degree_of_def)
  then show ?thesis by (simp add: init_graph_def degree_of_def)
qed

lemma init_dom: "dom (fst (init_graph xs)) = so_id ` set xs"
proof -
  have "dom (fold (\<lambda>s d. d(so_id s \<mapsto> (0::int))) xs m) = dom m \<union> so_id ` set xs" for m
    by (induction xs arbitrary: m) auto
  then show ?thesis by (simp add: init_graph_def)
qed

lemma init_adj: "adj_of (snd (init_graph xs)) y = []"
proof -
  have "adj_of m y = [] \<Longrightarrow> adj_of (fold (\<lambda>s a. a(so_id s \<mapsto> [])) xs m) y = []" for m
    by (induction xs arbitrary: m) (auto simp: adj_of_def)
  then show ?thesis by (simp add: init_graph_def adj_of_def)
qed

lemma sum_list_by_id:
  assumes "distinct (map so_id xs)" and "s \<in> set xs"
  shows "(\<Sum>t \<leftarrow> xs. if so_id t = so_id s \<and> P then f t else (0::'n::comm_monoid_add)) = (if P then f s else 0)"
  using assms
proof (induction xs)
  case Nil
  then show ?case by simp
next
  case (Cons x xs)
  show ?case
  proof (cases "x = s")
    case True
    with Cons.prems have "\<forall>t \<in> set xs. so_id t \<noteq> so_id s" by (auto simp: image_iff)
    then have "(\<Sum>t \<leftarrow> xs. if so_id t = so_id s \<and> P then f t else 0) = (\<Sum>t \<leftarrow> xs. 0)"
      by (intro arg_cong [where f = sum_list] map_cong) auto
    with True show ?thesis by auto
  next
    case False
    with Cons show ?thesis by auto
  qed
qed

lemma count_list_filter: "count_list (filter P xs) q = (if P q then count_list xs q else 0)"
  by (induction xs) auto

lemma build_graph_degree:
  assumes "distinct (map so_id xs)" and "s \<in> set xs"
  shows "degree_of (fst (build_graph xs)) (so_id s) = int (length (in_deps xs s))"
proof -
  have "degree_of (fst (build_graph xs)) (so_id s) =
      (\<Sum>t \<leftarrow> xs. if so_id t = so_id s \<and> True
          then int (length (filter (\<lambda>x. service_map xs x \<noteq> None) (so_deps t))) else 0)"
    by (simp add: build_graph_def fold_edges_degree init_degree0)
  also have "\<dots> = int (length (in_deps xs s))"
    by (subst sum_list_by_id [OF assms]) (simp add: in_deps_alt)
  finally show ?thesis .
qed

lemma build_graph_count:
  assumes "distinct (map so_id xs)" and "s \<in> set xs"
  shows "count_list (adj_of (snd (build_graph xs)) q) (so_id s) = count_list (in_deps xs s) q"
proof -
  have "count_list (adj_of (snd (build_graph xs)) q) (so_id s) =
      (\<Sum>t \<leftarrow> xs. if so_id t = so_id s \<and> service_map xs q \<noteq> None then count_list (so_deps t) q else 0)"
    by (simp add: build_graph_def fold_edges_count init_adj)
  also have "\<dots> = (if service_map xs q \<noteq> None then count_list (so_deps s) q else 0)"
    by (rule sum_list_by_id [OF assms])
  also have "\<dots> = count_list (in_deps xs s) q"
    by (simp add: in_deps_alt count_list_filter)
  finally show ?thesis .
qed

lemma build_graph_adj_ids:
  "set (adj_of (snd (build_graph xs)) q) \<subseteq> so_id ` set xs"
proof
  fix y assume "y \<in> set (adj_of (snd (build_graph xs)) q)"
  then have "0 < count_list (adj_of (snd (build_graph xs)) q) y"
    using count_list_0_iff neq0_conv by metis
  then have "0 < (\<Sum>s \<leftarrow> xs. if so_id s = y \<and> service_map xs q \<noteq> None then count_list (so_deps s) q else 0)"
    by (simp add: build_graph_def fold_edges_count init_adj)
  then have "\<exists>s \<in> set xs. so_id s = y"
    by (rule contrapos_pp) simp
  then show "y \<in> so_id ` set xs" by auto
qed

lemma build_graph_dom: "so_id ` set xs \<subseteq> dom (fst (build_graph xs))"
  unfolding build_graph_def using fold_edges_dom [of "init_graph xs"] by (simp add: init_dom)


section \<open>Kahn's levels\<close>

lemma release_append:
  "release_dependents smap (xs @ ys) st = release_dependents smap ys (release_dependents smap xs st)"
  by (induction smap xs st rule: release_dependents.induct) (simp_all add: Let_def)

lemma release_acc:
  "release_dependents smap xs (d, acc) =
     (fst (release_dependents smap xs (d, [])), acc @ snd (release_dependents smap xs (d, [])))"
proof (induction xs arbitrary: d acc)
  case Nil
  then show ?case by simp
next
  case (Cons x xs)
  let ?d = "d(x \<mapsto> degree_of d x - 1)"
  let ?new = "if degree_of d x - 1 = 0 then (case smap x of None \<Rightarrow> [] | Some s \<Rightarrow> [s]) else []"
  have step: "release_dependents smap (x # xs) (d, b) = release_dependents smap xs (?d, b @ ?new)" for b
    by (auto simp: Let_def split: option.splits)
  show ?case
    by (simp only: step Cons [of ?d "acc @ ?new"] Cons [of ?d "?new"] fst_conv snd_conv append_assoc append_Nil)
qed

lemma release_degree:
  "degree_of (fst (release_dependents smap xs (d, acc))) y = degree_of d y - int (count_list xs y)"
  by (induction xs arbitrary: d acc) (auto simp: Let_def degree_of_def)

lemma release_count:
  assumes "\<And>x s. smap x = Some s \<Longrightarrow> so_id s = x" and "set xs \<subseteq> dom smap"
  shows "count_list (map so_id (snd (release_dependents smap xs (d, [])))) y =
           (if 0 < degree_of d y \<and> degree_of d y \<le> int (count_list xs y) then 1 else 0)"
  using assms(2)
proof (induction xs arbitrary: d)
  case Nil
  then show ?case by simp
next
  case (Cons x xs)
  let ?d = "d(x \<mapsto> degree_of d x - 1)"
  from Cons.prems obtain s where s: "smap x = Some s" "so_id s = x"
    using assms(1) by auto
  have deg: "degree_of ?d z = (if z = x then degree_of d x - 1 else degree_of d z)" for z
    by (simp add: degree_of_def)
  have ih: "count_list (map so_id (snd (release_dependents smap xs (?d, [])))) y =
      (if 0 < degree_of ?d y \<and> degree_of ?d y \<le> int (count_list xs y) then 1 else 0)"
    using Cons by simp
  have "snd (release_dependents smap (x # xs) (d, [])) =
      (if degree_of d x = 1 then [s] else []) @ snd (release_dependents smap xs (?d, []))"
    using s by (simp add: Let_def release_acc [of smap xs _ "[s]"])
  then show ?case using ih s by (auto simp: deg)
qed

lemma release_members:
  "s \<in> set (snd (release_dependents smap xs (d, acc))) \<Longrightarrow> s \<in> set acc \<or> s \<in> ran smap"
proof (induction xs arbitrary: d acc)
  case Nil
  then show ?case by simp
next
  case (Cons x xs)
  from Cons.prems Cons.IH show ?case
    by (auto simp: Let_def ran_def split: if_splits option.splits) fastforce+
qed

lemma release_level_flat:
  "release_level smap adj queue d =
     release_dependents smap (concat (map (\<lambda>s. adj_of adj (so_id s)) queue)) (d, [])"
proof -
  have "fold (\<lambda>s st. release_dependents smap (adj_of adj (so_id s)) st) queue st =
      release_dependents smap (concat (map (\<lambda>s. adj_of adj (so_id s)) queue)) st" for st
    by (induction queue arbitrary: st) (auto simp: release_append)
  then show ?thesis by (simp add: release_level_def)
qed

text \<open>
  The loop invariant: \<open>P\<close> holds the ids of the services already put in a level, the queue the next
  level; a degree counts the in-plan dependencies that are still outside \<open>P\<close>.
\<close>

definition kahn_inv :: "'z service_order_input_scheme list \<Rightarrow> ident set \<Rightarrow> 'z service_order_input_scheme list
    \<Rightarrow> (ident \<rightharpoonup> int) \<Rightarrow> bool" where
  "kahn_inv xs P queue d \<longleftrightarrow>
     distinct (map so_id queue) \<and> set queue \<subseteq> set xs \<and> so_id ` set queue \<inter> P = {} \<and> P \<subseteq> so_id ` set xs \<and>
     (\<forall>s \<in> set xs. degree_of d (so_id s) = int (length (filter (\<lambda>x. x \<notin> P) (in_deps xs s)))) \<and>
     (\<forall>s \<in> set xs. so_id s \<in> P \<union> so_id ` set queue \<longleftrightarrow> degree_of d (so_id s) = 0)"

lemma kahn_inv_queue:
  "kahn_inv xs P queue d \<Longrightarrow> so_id ` set queue \<inter> P = {} \<and> set queue \<subseteq> set xs"
  by (simp add: kahn_inv_def)

lemma sum_count_list:
  "distinct qs \<Longrightarrow> (\<Sum>q \<leftarrow> qs. count_list ys q) = length (filter (\<lambda>x. x \<in> set qs) ys)"
proof (induction ys)
  case Nil
  then show ?case by simp
next
  case (Cons y ys)
  have "(\<Sum>q \<leftarrow> qs. count_list (y # ys) q) =
      (\<Sum>q \<leftarrow> qs. count_list ys q) + (\<Sum>q \<leftarrow> qs. if y = q then 1 else 0)"
    by (induction qs) auto
  moreover have "(\<Sum>q \<leftarrow> qs. if y = q then 1 else 0) = (if y \<in> set qs then 1 else 0 :: nat)"
    using Cons.prems by (induction qs) auto
  ultimately show ?case using Cons by simp
qed

lemma length_filter_split:
  "(\<And>x. x \<in> set ys \<Longrightarrow> B x \<Longrightarrow> A x) \<Longrightarrow>
     int (length (filter A ys)) - int (length (filter B ys)) = int (length (filter (\<lambda>x. A x \<and> \<not> B x) ys))"
  by (induction ys) auto


lemma kahn_step_degree:
  assumes dist: "distinct (map so_id xs)" and inv: "kahn_inv xs P queue d" and s: "s \<in> set xs"
  shows "int (count_list (concat (map (\<lambda>q. adj_of (snd (build_graph xs)) (so_id q)) queue)) (so_id s)) =
           int (length (filter (\<lambda>x. x \<in> so_id ` set queue) (in_deps xs s)))"
proof -
  have "count_list (concat (map (\<lambda>q. adj_of (snd (build_graph xs)) (so_id q)) queue)) (so_id s) =
      (\<Sum>q \<leftarrow> map so_id queue. count_list (in_deps xs s) q)"
    by (simp add: count_list_concat build_graph_count [OF dist s] comp_def)
  also have "\<dots> = length (filter (\<lambda>x. x \<in> set (map so_id queue)) (in_deps xs s))"
    using inv by (intro sum_count_list) (simp add: kahn_inv_def)
  finally show ?thesis by simp
qed

lemma kahn_step:
  assumes dist: "distinct (map so_id xs)" and inv: "kahn_inv xs P queue d"
    and rel: "release_level (service_map xs) (snd (build_graph xs)) queue d = (d', next)"
  shows "kahn_inv xs (P \<union> so_id ` set queue) next d'"
    and "\<And>s. s \<in> set next \<Longrightarrow> \<exists>x \<in> set (in_deps xs s). x \<in> so_id ` set queue"
proof -
  let ?flat = "concat (map (\<lambda>q. adj_of (snd (build_graph xs)) (so_id q)) queue)"
  let ?P = "P \<union> so_id ` set queue"
  have d': "d' = fst (release_dependents (service_map xs) ?flat (d, []))"
    and nx: "next = snd (release_dependents (service_map xs) ?flat (d, []))"
    using rel by (simp_all add: release_level_flat)
  have sub: "set next \<subseteq> set xs"
  proof
    fix s assume "s \<in> set next"
    then have "s \<in> ran (service_map xs)" unfolding nx by (auto dest: release_members)
    then show "s \<in> set xs" by (auto simp: ran_def dest: service_map_SomeD)
  qed
  have flat: "set ?flat \<subseteq> dom (service_map xs)" using build_graph_adj_ids by (auto simp del: dom_def)
  have cnt: "count_list (map so_id next) y =
      (if 0 < degree_of d y \<and> degree_of d y \<le> int (count_list ?flat y) then 1 else 0)" for y
    unfolding nx by (rule release_count [OF _ flat]) (simp add: service_map_SomeD)
  have deg: "degree_of d' y = degree_of d y - int (count_list ?flat y)" for y
    by (simp add: d' release_degree)
  have degs: "degree_of d' (so_id s) = int (length (filter (\<lambda>x. x \<notin> ?P) (in_deps xs s)))"
    if "s \<in> set xs" for s
  proof -
    have "degree_of d' (so_id s) = int (length (filter (\<lambda>x. x \<notin> P) (in_deps xs s)))
        - int (length (filter (\<lambda>x. x \<in> so_id ` set queue) (in_deps xs s)))"
      using inv that by (simp add: deg kahn_step_degree [OF dist inv that] kahn_inv_def)
    also have "\<dots> = int (length (filter (\<lambda>x. x \<notin> P \<and> x \<notin> so_id ` set queue) (in_deps xs s)))"
      using inv by (intro length_filter_split) (auto simp: kahn_inv_def)
    finally show ?thesis by simp
  qed
  have next_iff: "y \<in> so_id ` set next \<longleftrightarrow> 0 < degree_of d y \<and> degree_of d' y \<le> 0" for y
    using cnt [of y] count_list_0_iff [of "map so_id next" y] by (auto simp: deg split: if_splits)
  have ge0: "0 \<le> degree_of d' (so_id s)" if "s \<in> set xs" for s
    using degs [OF that] by simp
  have old: "so_id s \<in> ?P \<longleftrightarrow> degree_of d (so_id s) = 0" if "s \<in> set xs" for s
    using inv that by (auto simp: kahn_inv_def)
  have "distinct (map so_id next)"
    by (rule distinct_count_list) (simp add: cnt)
  moreover have "so_id ` set next \<inter> ?P = {}"
  proof -
    have "so_id s \<notin> ?P" if "s \<in> set next" for s
    proof -
      have "s \<in> set xs" using that sub by blast
      moreover have "0 < degree_of d (so_id s)" using that next_iff [of "so_id s"] by auto
      ultimately show ?thesis using old by auto
    qed
    then show ?thesis by blast
  qed
  moreover have "so_id s \<in> ?P \<union> so_id ` set next \<longleftrightarrow> degree_of d' (so_id s) = 0"
    if "s \<in> set xs" for s
    using old [OF that] next_iff [of "so_id s"] ge0 [OF that] deg [of "so_id s"] by auto
  moreover have "?P \<subseteq> so_id ` set xs" using inv by (auto simp: kahn_inv_def)
  ultimately show "kahn_inv xs ?P next d'"
    unfolding kahn_inv_def by (intro conjI ballI sub degs) assumption+
  show "\<exists>x \<in> set (in_deps xs s). x \<in> so_id ` set queue" if "s \<in> set next" for s
  proof -
    have sx: "s \<in> set xs" using that sub by blast
    have "0 < degree_of d (so_id s)" "degree_of d' (so_id s) \<le> 0"
      using that next_iff [of "so_id s"] by auto
    then have "0 < count_list ?flat (so_id s)" using deg [of "so_id s"] by simp
    then have "filter (\<lambda>x. x \<in> so_id ` set queue) (in_deps xs s) \<noteq> []"
      using kahn_step_degree [OF dist inv sx] by auto
    then show ?thesis by (auto simp: filter_empty_conv)
  qed
qed


text \<open>What a level list promises: dependencies sit in strictly earlier levels, and no service
  waits longer than it must.\<close>

fun deps_earlier :: "('z service_order_input_scheme \<Rightarrow> ident list) \<Rightarrow> ident set \<Rightarrow> 'z service_order_input_scheme list list \<Rightarrow> bool" where
  "deps_earlier deps P [] = True"
| "deps_earlier deps P (l # ls) =
     ((\<forall>s \<in> set l. set (deps s) \<subseteq> P) \<and> deps_earlier deps (P \<union> so_id ` set l) ls)"

fun levels_tight :: "('z service_order_input_scheme \<Rightarrow> ident list) \<Rightarrow> 'z service_order_input_scheme list list \<Rightarrow> bool" where
  "levels_tight deps (l1 # l2 # ls) =
     ((\<forall>s \<in> set l2. \<exists>x \<in> set (deps s). x \<in> so_id ` set l1) \<and> levels_tight deps (l2 # ls))"
| "levels_tight deps ls = True"

lemma kahn_start:
  assumes "distinct (map so_id xs)"
  shows "kahn_inv xs {} (filter (\<lambda>s. fst (build_graph xs) (so_id s) = Some 0) xs) (fst (build_graph xs))"
proof -
  have some: "fst (build_graph xs) (so_id s) = Some 0 \<longleftrightarrow> degree_of (fst (build_graph xs)) (so_id s) = 0"
    if "s \<in> set xs" for s
    using build_graph_dom [of xs] that by (fastforce simp: degree_of_def split: option.splits)
  have "so_id s \<in> so_id ` set (filter (\<lambda>s. fst (build_graph xs) (so_id s) = Some 0) xs)
      \<longleftrightarrow> fst (build_graph xs) (so_id s) = Some 0" if "s \<in> set xs" for s
    using that by (auto simp: image_iff)
  then show ?thesis
    using assms by (auto simp: kahn_inv_def build_graph_degree distinct_map_filter some)
qed

definition kahn_result :: "'z service_order_input_scheme list \<Rightarrow> ident set \<Rightarrow> 'z service_order_input_scheme list list \<Rightarrow> bool" where
  "kahn_result xs P ls \<longleftrightarrow>
     deps_earlier (in_deps xs) P ls \<and> levels_tight (in_deps xs) ls \<and> [] \<notin> set ls \<and>
     distinct (map so_id (concat ls)) \<and> so_id ` set (concat ls) \<inter> P = {} \<and> set (concat ls) \<subseteq> set xs \<and>
     (\<forall>s \<in> set xs. so_id s \<notin> P \<union> so_id ` set (concat ls) \<longrightarrow>
        (\<exists>x \<in> set (in_deps xs s). x \<notin> P \<union> so_id ` set (concat ls)))"

lemma kahn_result_Cons:
  assumes res: "kahn_result xs (P \<union> so_id ` set queue) ls"
    and first: "\<And>s. s \<in> set queue \<Longrightarrow> set (in_deps xs s) \<subseteq> P"
    and tight: "levels_tight (in_deps xs) (queue # ls)"
    and q: "distinct (map so_id queue)" "so_id ` set queue \<inter> P = {}" "set queue \<subseteq> set xs" "queue \<noteq> []"
  shows "kahn_result xs P (queue # ls)"
proof -
  let ?Q = "so_id ` set queue" and ?L = "so_id ` set (concat ls)"
  have ids: "so_id ` set (concat (queue # ls)) = ?Q \<union> ?L" by auto
  have dis: "?L \<inter> (P \<union> ?Q) = {}" "distinct (map so_id (concat ls))"
    using res by (simp_all only: kahn_result_def)
  have dist: "distinct (map so_id (concat (queue # ls)))"
    using dis q(1) by (simp del: set_concat) blast
  have rest: "\<exists>x \<in> set (in_deps xs s). x \<notin> P \<union> (?Q \<union> ?L)"
    if "s \<in> set xs" "so_id s \<notin> P \<union> (?Q \<union> ?L)" for s
    using res that unfolding kahn_result_def Un_assoc by blast
  have early: "deps_earlier (in_deps xs) P (queue # ls)" "[] \<notin> set (queue # ls)"
    "set (concat (queue # ls)) \<subseteq> set xs"
    using res first q by (auto simp: kahn_result_def)
  show ?thesis
    unfolding kahn_result_def ids using early tight dist rest dis(1) q(2) by blast
qed

lemma kahn_run:
  assumes "distinct (map so_id xs)"
  shows "kahn_inv xs P queue d \<Longrightarrow> card (so_id ` set xs - P) \<le> n \<Longrightarrow>
    \<exists>ls. kahn_levels n (service_map xs) (snd (build_graph xs)) d queue = Some ls \<and>
         kahn_result xs P ls \<and> (ls \<noteq> [] \<longrightarrow> hd ls = queue)"
proof (induction n arbitrary: P queue d)
  case (0 P queue d)
  then have all: "so_id ` set xs \<subseteq> P" by simp
  have "x \<notin> set queue" for x
  proof
    assume "x \<in> set queue"
    with kahn_inv_queue [OF "0.prems"(1)] have "so_id x \<notin> P" "so_id x \<in> so_id ` set xs" by auto
    with all show False by blast
  qed
  then have "queue = []" by (cases queue) auto
  then show ?case using 0 \<open>so_id ` set xs \<subseteq> P\<close> by (auto simp: kahn_result_def)
next
  case (Suc n P queue d)
  show ?case
  proof (cases "queue = []")
    case True
    have "\<exists>x \<in> set (in_deps xs s). x \<notin> P" if "s \<in> set xs" "so_id s \<notin> P" for s
    proof -
      have "length (filter (\<lambda>x. x \<notin> P) (in_deps xs s)) \<noteq> 0"
        using Suc.prems(1) that True by (auto simp: kahn_inv_def)
      then show ?thesis by (auto simp: filter_empty_conv)
    qed
    with True show ?thesis by (auto simp: kahn_result_def)
  next
    case False
    let ?P = "P \<union> so_id ` set queue"
    obtain d' "next" where rel: "release_level (service_map xs) (snd (build_graph xs)) queue d = (d', next)"
      by fastforce
    note step = kahn_step [OF assms Suc.prems(1) rel]
    have sub: "so_id ` set queue \<subseteq> so_id ` set xs - P"
      using Suc.prems(1) by (auto simp: kahn_inv_def)
    have "so_id ` set xs - ?P \<subset> so_id ` set xs - P"
      using sub False by (auto simp: neq_Nil_conv)
    then have "card (so_id ` set xs - ?P) < card (so_id ` set xs - P)"
      by (intro psubset_card_mono) auto
    with Suc.prems(2) have "card (so_id ` set xs - ?P) \<le> n" by simp
    from Suc.IH [OF step(1) this] obtain ls where
      ls: "kahn_levels n (service_map xs) (snd (build_graph xs)) d' next = Some ls"
      "kahn_result xs ?P ls" "ls \<noteq> [] \<longrightarrow> hd ls = next" by blast
    have first: "set (in_deps xs s) \<subseteq> P" if "s \<in> set queue" for s
    proof -
      have "s \<in> set xs" "so_id s \<in> P \<union> so_id ` set queue" using Suc.prems(1) that by (auto simp: kahn_inv_def)
      then have "length (filter (\<lambda>x. x \<notin> P) (in_deps xs s)) = 0"
        using Suc.prems(1) by (auto simp: kahn_inv_def)
      then show ?thesis by (auto simp: filter_empty_conv)
    qed
    have tight: "levels_tight (in_deps xs) (queue # ls)"
      using ls(2,3) step(2) by (cases ls) (auto simp: kahn_result_def)
    have q: "distinct (map so_id queue)" "so_id ` set queue \<inter> P = {}" "set queue \<subseteq> set xs"
      using Suc.prems(1) by (auto simp: kahn_inv_def)
    have "kahn_result xs P (queue # ls)"
      by (rule kahn_result_Cons [OF ls(2) first tight q False])
    with False ls(1) rel show ?thesis
      by (cases queue) (auto simp: Let_def)
  qed
qed


section \<open>Properties\<close>

text \<open>The edges among the planned services.\<close>

definition plan_edges :: "'z service_order_input_scheme list \<Rightarrow> (ident \<times> ident) set" where
  "plan_edges xs = {(a, b). \<exists>s \<in> set xs. so_id s = a \<and> b \<in> set (in_deps xs s)}"

lemma resolve_cases:
  assumes "distinct (map so_id xs)"
  obtains (order) ls where "resolveDependencyOrder xs = Inr ls" "kahn_result xs {} ls"
      "length (concat ls) = length xs"
  | (cycle) c v s where "resolveDependencyOrder xs = Inl (CircularDependency c)"
      "detect_all (dfs_fuel xs) (service_map xs) xs {} {} = Some (Some c, v, s)"
  | (stuck) ls where "resolveDependencyOrder xs = Inl NotAllOrdered" "kahn_result xs {} ls"
      "length (concat ls) \<noteq> length xs"
proof (cases "xs = []")
  case True
  have "kahn_result [] {} []" by (simp add: kahn_result_def)
  with True show ?thesis by (intro order [of "[]"]) (auto simp: resolveDependencyOrder_def)
next
  case False
  let ?U = "so_id ` set xs \<union> (\<Union>s \<in> set xs. set (so_deps s))"
  have "card (so_id ` set xs) \<le> length xs" by (metis card_image_le card_length finite_set order_trans)
  moreover have "card (\<Union>s \<in> set xs. set (so_deps s)) \<le> sum_list (map (length \<circ> so_deps) xs)"
    using card_length [of "concat (map so_deps xs)"] by (simp add: length_concat comp_def)
  ultimately have "card (?U - {}) \<le> dfs_fuel xs"
    using card_Un_le [of "so_id ` set xs" "\<Union>s \<in> set xs. set (so_deps s)"]
    by (simp add: dfs_fuel_def)
  moreover have "deps_within ?U (service_map xs)"
    by (auto simp: deps_within_def dest: service_map_SomeD)
  ultimately have "detect_all (dfs_fuel xs) (service_map xs) xs {} {} \<noteq> None"
    by (intro detect_all_fuel [of ?U]) auto
  then obtain r v s where det: "detect_all (dfs_fuel xs) (service_map xs) xs {} {} = Some (r, v, s)"
    by auto
  have "card (so_id ` set xs - {}) \<le> length xs"
    by (simp add: card_image_le card_length le_trans [OF card_image_le])
  from kahn_run [OF assms kahn_start [OF assms] this] obtain ls where
    ls: "kahn_levels (length xs) (service_map xs) (snd (build_graph xs)) (fst (build_graph xs))
           (filter (\<lambda>s. fst (build_graph xs) (so_id s) = Some 0) xs) = Some ls" "kahn_result xs {} ls"
    by blast
  show ?thesis
  proof (cases r)
    case (Some c)
    with det False show ?thesis
      by (intro cycle [of c v s]) (auto simp: resolveDependencyOrder_def Let_def split: prod.splits)
  next
    case None
    with det False ls(1) have "resolveDependencyOrder xs =
        (if sum_list (map length ls) \<noteq> length xs then Inl NotAllOrdered else Inr ls)"
      by (cases "build_graph xs") (simp add: resolveDependencyOrder_def Let_def)
    with ls(2) show ?thesis
      by (cases "length (concat ls) = length xs") (auto intro: order stuck simp: length_concat)
  qed
qed

lemma kahn_result_perm:
  assumes "kahn_result xs {} ls" and "length (concat ls) = length xs" and "distinct (map so_id xs)"
  shows "mset (concat ls) = mset xs"
proof -
  have d: "distinct (concat ls)" "distinct xs" "set (concat ls) \<subseteq> set xs"
    using assms by (auto simp: kahn_result_def distinct_map)
  have "set (concat ls) = set xs"
    using d assms(2) by (metis card_subset_eq distinct_card finite_set)
  with d show ?thesis by (simp only: set_eq_iff_mset_eq_distinct)
qed

text \<open>C14: A resolved order is a partition of the services into non-empty levels: every in-plan
  dependency of a service lies in a strictly earlier level, and every service after the first
  level depends on one of the level just before it, so no service waits longer than it must.\<close>

theorem resolve_order_correct:
  assumes "distinct (map so_id xs)" and "resolveDependencyOrder xs = Inr levels"
  shows "mset (concat levels) = mset xs \<and> [] \<notin> set levels \<and>
    deps_earlier (in_deps xs) {} levels \<and> levels_tight (in_deps xs) levels"
  using assms(1)
proof (cases rule: resolve_cases)
  case (order ls)
  with assms kahn_result_perm [of xs ls] show ?thesis by (auto simp: kahn_result_def)
qed (use assms in auto)

text \<open>A plan of three services: a web service over an API over a database.\<close>

definition sample_plan :: "service_order_input list" where
  "sample_plan =
     [\<lparr>so_id = ''w'', so_name = ''web'', so_dependencies = [(''p'', DeployAfter), (''d'', DeployAfter)]\<rparr>,
      \<lparr>so_id = ''d'', so_name = ''db'', so_dependencies = []\<rparr>,
      \<lparr>so_id = ''p'', so_name = ''api'', so_dependencies = [(''d'', DeployAfter)]\<rparr>]"

definition sample_levels :: "service_order_input list list" where
  "sample_levels =
     [[\<lparr>so_id = ''d'', so_name = ''db'', so_dependencies = []\<rparr>],
      [\<lparr>so_id = ''p'', so_name = ''api'', so_dependencies = [(''d'', DeployAfter)]\<rparr>],
      [\<lparr>so_id = ''w'', so_name = ''web'', so_dependencies = [(''p'', DeployAfter), (''d'', DeployAfter)]\<rparr>]]"

lemma sample_plan_resolves: "resolveDependencyOrder sample_plan = Inr sample_levels"
  by code_simp

lemma sample_plan_distinct: "distinct (map so_id sample_plan)"
  by (simp add: sample_plan_def)

theorem resolve_order_correct_witness:
  "deps_earlier (in_deps sample_plan) {} sample_levels"
  using resolve_order_correct [OF sample_plan_distinct sample_plan_resolves] by simp

lemma deps_earlier_rank:
  "deps_earlier f P ls \<Longrightarrow> distinct (map so_id (concat ls)) \<Longrightarrow>
     \<exists>r :: ident \<Rightarrow> nat. \<forall>s \<in> set (concat ls). \<forall>b \<in> set (f s). b \<notin> P \<longrightarrow> r b < r (so_id s)"
proof (induction ls arbitrary: P)
  case Nil
  then show ?case by simp
next
  case (Cons l ls)
  have "\<exists>r :: ident \<Rightarrow> nat. \<forall>s \<in> set (concat ls). \<forall>b \<in> set (f s).
      b \<notin> P \<union> so_id ` set l \<longrightarrow> r b < r (so_id s)"
    by (rule Cons.IH) (use Cons.prems in auto)
  then obtain r :: "ident \<Rightarrow> nat" where
    r: "\<forall>s \<in> set (concat ls). \<forall>b \<in> set (f s). b \<notin> P \<union> so_id ` set l \<longrightarrow> r b < r (so_id s)"
    by blast
  have sep: "so_id s \<notin> so_id ` set l" if "s \<in> set (concat ls)" for s
    using Cons.prems(2) that by auto
  have "\<forall>s \<in> set (concat (l # ls)). \<forall>b \<in> set (f s). b \<notin> P \<longrightarrow>
      (if b \<in> so_id ` set l then 0 else Suc (r b)) < (if so_id s \<in> so_id ` set l then 0 else Suc (r (so_id s)))"
  proof (intro ballI impI)
    fix s b assume s: "s \<in> set (concat (l # ls))" and b: "b \<in> set (f s)" "b \<notin> P"
    have "s \<notin> set l" using Cons.prems(1) b by auto
    then have "s \<in> set (concat ls)" using s by simp
    then have "so_id s \<notin> so_id ` set l" "b \<notin> so_id ` set l \<longrightarrow> r b < r (so_id s)"
      using sep r b by blast+
    then show "(if b \<in> so_id ` set l then 0 else Suc (r b)) < (if so_id s \<in> so_id ` set l then 0 else Suc (r (so_id s)))"
      by simp
  qed
  then show ?case by (intro exI)
qed

lemma resolved_acyclic:
  assumes "distinct (map so_id xs)" and "resolveDependencyOrder xs = Inr levels"
  shows "acyclic (plan_edges xs)"
proof -
  from assms(1) have "deps_earlier (in_deps xs) {} levels \<and> distinct (map so_id (concat levels))
      \<and> set (concat levels) = set xs"
  proof (cases rule: resolve_cases)
    case (order ls)
    with assms kahn_result_perm [of xs ls] show ?thesis
      by (auto simp: kahn_result_def dest: mset_eq_setD)
  qed (use assms in auto)
  then obtain r :: "ident \<Rightarrow> nat" where
    "\<forall>s \<in> set xs. \<forall>b \<in> set (in_deps xs s). r b < r (so_id s)"
    using deps_earlier_rank [of "in_deps xs" "{}" levels] by auto
  then have "(plan_edges xs)\<inverse> \<subseteq> measure r" by (auto simp: plan_edges_def)
  then have "wf ((plan_edges xs)\<inverse>)" using wf_subset wf_measure by blast
  then show ?thesis using wf_acyclic by fastforce
qed

text \<open>Nothing outside the plan is depended on: then the search and the levels agree with the graph.\<close>

definition closed_plan :: "'z service_order_input_scheme list \<Rightarrow> bool" where
  "closed_plan xs \<longleftrightarrow> (\<forall>s \<in> set xs. set (so_deps s) \<subseteq> so_id ` set xs)"

lemma closed_in_deps: "closed_plan xs \<Longrightarrow> s \<in> set xs \<Longrightarrow> in_deps xs s = so_deps s"
  unfolding closed_plan_def in_deps_def by (subst filter_True) auto

lemma stuck_cyclic:
  assumes "distinct (map so_id xs)" and "kahn_result xs {} ls" and "length (concat ls) \<noteq> length xs"
  shows "\<not> acyclic (plan_edges xs)"
proof
  assume ac: "acyclic (plan_edges xs)"
  have "plan_edges xs \<subseteq> so_id ` set xs \<times> so_id ` set xs"
    by (auto simp: plan_edges_def in_deps_def)
  then have "finite (plan_edges xs)" by (rule finite_subset) auto
  with ac have wf: "wf ((plan_edges xs)\<inverse>)"
    by (intro finite_acyclic_wf) (simp_all add: acyclic_converse)
  let ?R = "so_id ` set xs - so_id ` set (concat ls)"
  have "?R \<noteq> {}"
  proof
    assume "?R = {}"
    then have "card (so_id ` set xs) \<le> card (so_id ` set (concat ls))" by (intro card_mono) auto
    moreover have "card (so_id ` set xs) = length xs"
      using assms(1) by (metis distinct_card length_map set_map)
    moreover have "card (so_id ` set (concat ls)) \<le> length (concat ls)"
      by (metis card_length length_map set_map)
    moreover have "length (concat ls) \<le> length xs"
    proof -
      have "distinct (concat ls)" "set (concat ls) \<subseteq> set xs"
        using assms(2) by (auto simp: kahn_result_def distinct_map)
      then show ?thesis by (metis card_length card_mono distinct_card finite_set order_trans)
    qed
    ultimately show False using assms(3) by simp
  qed
  then obtain m where m: "m \<in> ?R" "\<And>y. (y, m) \<in> (plan_edges xs)\<inverse> \<Longrightarrow> y \<notin> ?R"
    using wfE_min' [OF wf] by metis
  then obtain s where s: "s \<in> set xs" "so_id s = m" by auto
  with m(1) assms(2) obtain x where x: "x \<in> set (in_deps xs s)" "x \<notin> so_id ` set (concat ls)"
    by (auto simp: kahn_result_def)
  then have "(m, x) \<in> plan_edges xs" using s by (auto simp: plan_edges_def)
  moreover have "x \<in> ?R" using x by (auto simp: in_deps_def)
  ultimately show False using m(2) by blast
qed

lemma closed_edges:
  assumes "distinct (map so_id xs)" and "closed_plan xs"
  shows "dep_edges (service_map xs) = plan_edges xs"
  using service_map_distinct [OF assms(1)] closed_in_deps [OF assms(2)]
  by (fastforce simp: dep_edges_def plan_edges_def dest: service_map_SomeD)

text \<open>C15: An order is resolved exactly when the graph has no cycle, for a plan that contains all the
  services its members depend on.\<close>

theorem resolve_iff_acyclic:
  assumes "distinct (map so_id xs)" and "closed_plan xs"
  shows "(\<exists>levels. resolveDependencyOrder xs = Inr levels) \<longleftrightarrow> acyclic (plan_edges xs)"
  using assms(1)
proof (cases rule: resolve_cases)
  case (order ls)
  with resolved_acyclic [OF assms(1)] show ?thesis by auto
next
  case (cycle c v s)
  have "deps_within (dom (service_map xs)) (service_map xs)"
    using assms(2) by (auto simp: deps_within_def closed_plan_def dest: service_map_SomeD)
  from detect_all_sound_closed [OF this cycle(2)] have "\<not> acyclic (plan_edges xs)"
    using closed_edges [OF assms] service_map_distinct [OF assms(1)] by simp
  with cycle(1) show ?thesis by simp
next
  case (stuck ls)
  with stuck_cyclic [OF assms(1)] show ?thesis by auto
qed

theorem resolve_iff_acyclic_witness: "acyclic (plan_edges sample_plan)"
proof -
  have "closed_plan sample_plan" by (simp add: closed_plan_def sample_plan_def so_deps_def)
  from resolve_iff_acyclic [OF sample_plan_distinct this] sample_plan_resolves show ?thesis by auto
qed

text \<open>C26: Resolution terminates: the depth-first search and the level loop always finish within
  their bounds, whatever the graph, so every call returns levels or one of the two errors.\<close>

theorem resolve_returns:
  assumes "distinct (map so_id xs)"
  shows "resolveDependencyOrder xs \<noteq> Inl OrderOutOfFuel"
  using assms by (cases rule: resolve_cases) auto

theorem resolve_returns_witness: "resolveDependencyOrder sample_plan \<noteq> Inl OrderOutOfFuel"
  by (rule resolve_returns [OF sample_plan_distinct])

text \<open>Two selected services that depend on the same service outside the selection.\<close>

definition shared_external :: "ident \<Rightarrow> string \<Rightarrow> ident \<Rightarrow> string \<Rightarrow> ident \<Rightarrow> service_order_input list" where
  "shared_external a na b nb x =
     [\<lparr>so_id = a, so_name = na, so_dependencies = [(x, DeployAfter)]\<rparr>, \<lparr>so_id = b, so_name = nb, so_dependencies = [(x, DeployAfter)]\<rparr>]"

text \<open>Two services that depend on one service outside the plan are refused as a circular
  dependency although the plan has no edge at all: the search leaves an id that is not in
  the map on its recursion stack.\<close>

theorem shared_external_rejected:
  assumes "a \<noteq> b" and "x \<noteq> a" and "x \<noteq> b"
  shows "resolveDependencyOrder (shared_external a na b nb x) = Inl (CircularDependency [nb, x]) \<and>
    plan_edges (shared_external a na b nb x) = {}"
proof
  show "plan_edges (shared_external a na b nb x) = {}"
    using assms by (auto simp: plan_edges_def in_deps_def so_deps_def shared_external_def)
  show "resolveDependencyOrder (shared_external a na b nb x) = Inl (CircularDependency [nb, x])"
    using assms by (simp add: so_deps_def shared_external_def resolveDependencyOrder_def dfs_fuel_def service_map_def
        build_graph_def init_graph_def Let_def split: prod.splits)
qed

theorem shared_external_rejected_witness:
  "resolveDependencyOrder (shared_external ''a'' ''api'' ''w'' ''web'' ''d'') =
     Inl (CircularDependency [''web'', ''d''])"
  using shared_external_rejected [of "''a''" "''w''" "''d''" "''api''" "''web''"] by simp

end
