(* ===== verification/Plan_Builder.thy ===== *)
theory Plan_Builder
  imports Dependency_Order
begin

text \<open>
  \<open>src/services/orchestration.ts\<close>, \<open>buildDeploymentPlan\<close> and \<open>groupStepsByLevel\<close>, with the status
  constants of \<open>src/lib/constants.ts\<close> and the plan rows of \<open>prisma/schema.prisma\<close> that the
  orchestration reads and writes.
\<close>

section \<open>Data\<close>

datatype plan_status =
  PlanPending | PlanRunning | PlanCompleted | PlanFailed | PlanCancelled | PlanRolledBack

datatype step_status =
  StepPending | StepRunning | StepSuccess | StepFailed | StepSkipped | StepRolledBack

datatype step_action = ActDeploy | ActHealthCheck | ActRollback

record service_deployment =
  sd_id :: ident
  sd_server_name :: string

text \<open>\<open>ServiceWithDeps\<close>: a service template with its dependencies and its deployments.\<close>

record service_with_deps = service_order_input +
  sv_imageTag :: string
  sv_containerImageId :: ident
  sv_healthCheckUrl :: "string option"
  sv_deployments :: "service_deployment list"

record build_plan_options =
  bo_environmentId :: ident
  bo_containerImageId :: "ident option"
  bo_serviceIds :: "ident list option"
  bo_imageTag :: string
  bo_triggerType :: string
  bo_triggeredBy :: string
  bo_userId :: "ident option"
  bo_autoRollback :: "bool option"
  bo_parallelExecution :: "bool option"

text \<open>A row of \<open>DeploymentPlan\<close>; the text column \<open>logs\<close> is the list of its lines.\<close>

record deployment_plan =
  pl_id :: ident
  pl_name :: string
  pl_status :: plan_status
  pl_imageTag :: string
  pl_triggerType :: string
  pl_triggeredBy :: string
  pl_autoRollback :: bool
  pl_parallelExecution :: bool
  pl_environmentId :: ident
  pl_containerImageId :: "ident option"
  pl_userId :: "ident option"
  pl_startedAt :: "millis option"
  pl_completedAt :: "millis option"
  pl_error :: "string option"
  pl_logs :: "(millis \<times> string) list option"

text \<open>A step to create: the literal object pushed on \<open>stepsToCreate\<close>.\<close>

record step_to_create =
  sc_deploymentPlanId :: ident
  sc_serviceId :: ident
  sc_serviceDeploymentId :: ident
  sc_order :: nat
  sc_action :: step_action
  sc_targetTag :: string
  sc_previousTag :: string

datatype build_error =
    NoSelection
  | NoServicesFound
  | NoDeploymentsAttached "string list"
  | OrderError order_error

section \<open>Building a plan\<close>

definition find_plan_services ::
    "service_with_deps list \<Rightarrow> build_plan_options \<Rightarrow> build_error + service_with_deps list" where
  "find_plan_services db options =
     (if truthy (bo_containerImageId options) then
        Inr (filter (\<lambda>s. Some (sv_containerImageId s) = bo_containerImageId options) db)
      else (case bo_serviceIds options of
              Some (i # is) \<Rightarrow> Inr (filter (\<lambda>s. so_id s \<in> set (i # is)) db)
            | _ \<Rightarrow> Inl NoSelection))"

definition plan_name :: "build_plan_options \<Rightarrow> service_with_deps list \<Rightarrow> string" where
  "plan_name options services =
     (if truthy (bo_containerImageId options) then ''Deploy '' @ bo_imageTag options
      else ''Deploy '' @ join_with '', '' (take 3 (map so_name services))
             @ (if length services > 3 then ''...'' else []))"

definition new_plan :: "ident \<Rightarrow> build_plan_options \<Rightarrow> service_with_deps list \<Rightarrow> deployment_plan" where
  "new_plan planId options services =
     \<lparr>pl_id = planId, pl_name = plan_name options services, pl_status = PlanPending,
      pl_imageTag = bo_imageTag options, pl_triggerType = bo_triggerType options,
      pl_triggeredBy = bo_triggeredBy options,
      pl_autoRollback = nullish (bo_autoRollback options) True,
      pl_parallelExecution = nullish (bo_parallelExecution options) False,
      pl_environmentId = bo_environmentId options,
      pl_containerImageId = bo_containerImageId options, pl_userId = bo_userId options,
      pl_startedAt = None, pl_completedAt = None, pl_error = None, pl_logs = None\<rparr>"

definition make_step :: "ident \<Rightarrow> build_plan_options \<Rightarrow> service_with_deps \<Rightarrow> service_deployment
    \<Rightarrow> nat \<Rightarrow> step_action \<Rightarrow> step_to_create" where
  "make_step planId options service sd order action =
     \<lparr>sc_deploymentPlanId = planId, sc_serviceId = so_id service, sc_serviceDeploymentId = sd_id sd,
      sc_order = order, sc_action = action, sc_targetTag = bo_imageTag options,
      sc_previousTag = sv_imageTag service\<rparr>"

definition needs_health_check :: "service_with_deps \<Rightarrow> bool" where
  "needs_health_check service \<longleftrightarrow>
     (\<exists>d \<in> set (so_dependencies service). snd d = HealthBefore) \<or> truthy (sv_healthCheckUrl service)"

text \<open>The innermost loop: one deploy step per deployment, and a health-check step behind it.\<close>

fun deployment_steps :: "ident \<Rightarrow> build_plan_options \<Rightarrow> service_with_deps \<Rightarrow> service_deployment list
    \<Rightarrow> nat \<times> step_to_create list \<Rightarrow> nat \<times> step_to_create list" where
  "deployment_steps planId options service [] (stepOrder, steps) = (stepOrder, steps)"
| "deployment_steps planId options service (sd # sds) (stepOrder, steps) =
     (let deploy = make_step planId options service sd stepOrder ActDeploy in
      if needs_health_check service then
        deployment_steps planId options service sds
          (stepOrder + 2, steps @ [deploy, make_step planId options service sd (stepOrder + 1) ActHealthCheck])
      else deployment_steps planId options service sds (stepOrder + 1, steps @ [deploy]))"

definition plan_steps :: "ident \<Rightarrow> build_plan_options \<Rightarrow> service_with_deps list list \<Rightarrow> step_to_create list" where
  "plan_steps planId options levels =
     snd (fold (fold (\<lambda>service. deployment_steps planId options service (sv_deployments service)))
            levels (0, []))"

definition buildDeploymentPlan :: "ident \<Rightarrow> service_with_deps list \<Rightarrow> build_plan_options
    \<Rightarrow> build_error + (deployment_plan \<times> step_to_create list)" where
  "buildDeploymentPlan planId db options =
     (case find_plan_services db options of
        Inl e \<Rightarrow> Inl e
      | Inr services \<Rightarrow>
          if services = [] then Inl NoServicesFound
          else let empty = map so_name (filter (\<lambda>s. sv_deployments s = []) services) in
            if empty \<noteq> [] then Inl (NoDeploymentsAttached empty)
            else (case resolveDependencyOrder services of
                    Inl e \<Rightarrow> Inl (OrderError e)
                  | Inr levels \<Rightarrow> Inr (new_plan planId options services, plan_steps planId options levels)))"

text \<open>\<open>groupStepsByLevel\<close>: an insertion-ordered map from the order number of a step to the steps with it.\<close>

fun insert_group :: "nat \<Rightarrow> 's \<Rightarrow> (nat \<times> 's list) list \<Rightarrow> (nat \<times> 's list) list" where
  "insert_group k s [] = [(k, [s])]"
| "insert_group k s ((k', ss) # gs) = (if k = k' then (k', ss @ [s]) # gs else (k', ss) # insert_group k s gs)"

definition groupStepsByLevel :: "('s \<Rightarrow> nat) \<Rightarrow> 's list \<Rightarrow> (nat \<times> 's list) list" where
  "groupStepsByLevel order steps = fold (\<lambda>s. insert_group (order s) s) steps []"

section \<open>Shape of the steps\<close>

lemma mset_concat_map_perm: "mset xs = mset ys \<Longrightarrow> mset (concat (map f xs)) = mset (concat (map f ys))"
  by (metis mset_concat mset_map sum_mset_sum_list)

text \<open>The steps of one service on its deployments, from a first order number.\<close>

fun service_steps :: "ident \<Rightarrow> build_plan_options \<Rightarrow> service_with_deps \<Rightarrow> service_deployment list \<Rightarrow> nat
    \<Rightarrow> step_to_create list" where
  "service_steps planId options service [] n = []"
| "service_steps planId options service (sd # sds) n =
     make_step planId options service sd n ActDeploy #
       (if needs_health_check service
        then make_step planId options service sd (n + 1) ActHealthCheck # service_steps planId options service sds (n + 2)
        else service_steps planId options service sds (n + 1))"

lemma deployment_steps_eq:
  "deployment_steps planId options service sds (n, acc) =
     (n + length (service_steps planId options service sds n), acc @ service_steps planId options service sds n)"
  by (induction sds arbitrary: n acc) (auto simp: Let_def)

lemma upt_front: "[n ..< n + Suc k] = n # [Suc n ..< Suc n + k]"
  by (simp add: upt_conv_Cons del: upt_Suc)

lemma service_steps_orders:
  "map sc_order (service_steps planId options service sds n) =
     [n ..< n + length (service_steps planId options service sds n)]"
proof (induction sds arbitrary: n)
  case Nil
  then show ?case by simp
next
  case (Cons sd sds)
  show ?case
  proof (cases "needs_health_check service")
    case True
    let ?k = "length (service_steps planId options service sds (n + 2))"
    have "[n ..< n + Suc (Suc ?k)] = n # Suc n # [n + 2 ..< n + 2 + ?k]"
      using upt_front [of n "Suc ?k"] upt_front [of "Suc n" ?k] by simp
    with True Cons [of "n + 2"] show ?thesis by (simp add: make_step_def del: upt_Suc)
  next
    case False
    let ?k = "length (service_steps planId options service sds (n + 1))"
    have "[n ..< n + Suc ?k] = n # [n + 1 ..< n + 1 + ?k]"
      using upt_front [of n ?k] by simp
    with False Cons [of "n + 1"] show ?thesis by (simp add: make_step_def del: upt_Suc)
  qed
qed

definition emit_service :: "ident \<Rightarrow> build_plan_options \<Rightarrow> service_with_deps
    \<Rightarrow> nat \<times> step_to_create list \<Rightarrow> nat \<times> step_to_create list" where
  "emit_service planId options service st = deployment_steps planId options service (sv_deployments service) st"

lemma plan_steps_flat:
  "plan_steps planId options levels = snd (fold (emit_service planId options) (concat levels) (0, []))"
proof -
  have "fold (fold (emit_service planId options)) levels st = fold (emit_service planId options) (concat levels) st" for st
    by (induction levels arbitrary: st) auto
  then show ?thesis by (simp add: plan_steps_def emit_service_def [abs_def])
qed

text \<open>The steps of a run of services, numbered from \<open>n\<close>.\<close>

fun emitted :: "ident \<Rightarrow> build_plan_options \<Rightarrow> nat \<Rightarrow> service_with_deps list \<Rightarrow> step_to_create list" where
  "emitted planId options n [] = []"
| "emitted planId options n (s # ss) =
     (let steps = service_steps planId options s (sv_deployments s) n in
      steps @ emitted planId options (n + length steps) ss)"

lemma emit_fold:
  "fold (emit_service planId options) ss (n, acc) =
     (n + length (emitted planId options n ss), acc @ emitted planId options n ss)"
  by (induction ss arbitrary: n acc) (simp_all add: emit_service_def deployment_steps_eq Let_def)

lemma emitted_append:
  "emitted planId options n (ss @ ts) =
     emitted planId options n ss @ emitted planId options (n + length (emitted planId options n ss)) ts"
  by (induction ss arbitrary: n) (simp_all add: Let_def add.assoc)

lemma emitted_orders:
  "map sc_order (emitted planId options n ss) = [n ..< n + length (emitted planId options n ss)]"
proof (induction ss arbitrary: n)
  case Nil
  then show ?case by simp
next
  case (Cons s ss)
  let ?a = "service_steps planId options s (sv_deployments s) n"
  let ?b = "emitted planId options (n + length ?a) ss"
  have "[n ..< n + (length ?a + length ?b)] = [n ..< n + length ?a] @ [n + length ?a ..< n + length ?a + length ?b]"
    using upt_add_eq_append [of n "n + length ?a" "length ?b"] by (simp add: add.assoc)
  then show ?case
    by (simp add: Let_def service_steps_orders Cons)
qed

lemma service_steps_members:
  assumes "c \<in> set (service_steps planId options service sds n)"
  shows "sc_serviceId c = so_id service \<and> sc_serviceDeploymentId c \<in> sd_id ` set sds"
  using assms by (induction sds arbitrary: n) (auto simp: make_step_def split: if_splits)

lemma emitted_members:
  assumes "c \<in> set (emitted planId options n ss)"
  shows "\<exists>s \<in> set ss. sc_serviceId c = so_id s \<and> sc_serviceDeploymentId c \<in> sd_id ` set (sv_deployments s)"
  using assms
proof (induction ss arbitrary: n)
  case Nil
  then show ?case by simp
next
  case (Cons s ss)
  from Cons.prems consider
    "c \<in> set (service_steps planId options s (sv_deployments s) n)"
    | "c \<in> set (emitted planId options (n + length (service_steps planId options s (sv_deployments s) n)) ss)"
    by (auto simp: Let_def)
  then show ?case
    using Cons.IH by cases (auto dest: service_steps_members)
qed

lemma service_steps_deploys:
  "map sc_serviceDeploymentId (filter (\<lambda>c. sc_action c = ActDeploy) (service_steps planId options service sds n)) =
     map sd_id sds"
  by (induction sds arbitrary: n) (auto simp: make_step_def)

lemma emitted_deploys:
  "map sc_serviceDeploymentId (filter (\<lambda>c. sc_action c = ActDeploy) (emitted planId options n ss)) =
     concat (map (map sd_id \<circ> sv_deployments) ss)"
  by (induction ss arbitrary: n) (simp_all add: Let_def service_steps_deploys)

lemma plan_steps_emitted: "plan_steps planId options levels = emitted planId options 0 (concat levels)"
  by (simp add: plan_steps_flat emit_fold)

lemma build_cases:
  assumes "buildDeploymentPlan planId db options = Inr (plan, steps)"
  obtains services levels where "find_plan_services db options = Inr services"
    "\<forall>s \<in> set services. sv_deployments s \<noteq> []" "services \<noteq> []"
    "resolveDependencyOrder services = Inr levels"
    "plan = new_plan planId options services" "steps = emitted planId options 0 (concat levels)"
proof -
  from assms obtain services where s: "find_plan_services db options = Inr services"
    by (auto simp: buildDeploymentPlan_def split: sum.splits)
  with assms have ne: "services \<noteq> []" "filter (\<lambda>s. sv_deployments s = []) services = []"
    by (auto simp: buildDeploymentPlan_def Let_def split: if_splits)
  with s assms obtain levels where "resolveDependencyOrder services = Inr levels"
    "plan = new_plan planId options services" "steps = plan_steps planId options levels"
    by (auto simp: buildDeploymentPlan_def Let_def split: sum.splits)
  with s ne show ?thesis by (intro that) (auto simp: plan_steps_emitted filter_empty_conv)
qed

section \<open>Properties\<close>

lemma group_singletons:
  "distinct (map order ss) \<Longrightarrow> fst ` set gs \<inter> order ` set ss = {} \<Longrightarrow>
     fold (\<lambda>s. insert_group (order s) s) ss gs = gs @ map (\<lambda>s. (order s, [s])) ss"
proof (induction ss arbitrary: gs)
  case Nil
  then show ?case by simp
next
  case (Cons s ss)
  have new: "k \<notin> fst ` set gs \<Longrightarrow> insert_group k x gs = gs @ [(k, [x])]" for k x
    by (induction gs) auto
  have "insert_group (order s) s gs = gs @ [(order s, [s])]"
    using Cons.prems by (intro new) auto
  moreover have "fst ` set (gs @ [(order s, [s])]) \<inter> order ` set ss = {}"
    using Cons.prems by auto
  ultimately show ?case using Cons by simp
qed

text \<open>The steps of a built plan are numbered consecutively from 0, so the groups that the parallel
  mode runs concurrently hold exactly one step each: nothing ever runs in parallel.\<close>

theorem parallel_groups_are_singletons:
  assumes "buildDeploymentPlan planId db options = Inr (plan, steps)"
  shows "map sc_order steps = [0 ..< length steps] \<and>
    groupStepsByLevel sc_order steps = map (\<lambda>c. (sc_order c, [c])) steps"
  using assms
proof (cases rule: build_cases)
  case (1 services levels)
  then have o: "map sc_order steps = [0 ..< length steps]"
    using emitted_orders [of planId options 0 "concat levels"] by simp
  then have "distinct (map sc_order steps)" by simp
  then show ?thesis
    using o group_singletons [of sc_order steps "[]"] by (simp add: groupStepsByLevel_def)
qed

text \<open>Two services in one plan: \<open>web\<close> waits for \<open>api\<close> with a \<open>health_before\<close> dependency.\<close>

definition sample_services :: "service_with_deps list" where
  "sample_services =
     [\<lparr>so_id = ''w'', so_name = ''web'', so_dependencies = [(''a'', HealthBefore)], sv_imageTag = ''1'',
       sv_containerImageId = ''i'', sv_healthCheckUrl = None,
       sv_deployments = [\<lparr>sd_id = ''w1'', sd_server_name = ''s1''\<rparr>]\<rparr>,
      \<lparr>so_id = ''a'', so_name = ''api'', so_dependencies = [], sv_imageTag = ''1'',
       sv_containerImageId = ''i'', sv_healthCheckUrl = None,
       sv_deployments = [\<lparr>sd_id = ''a1'', sd_server_name = ''s1''\<rparr>, \<lparr>sd_id = ''a2'', sd_server_name = ''s2''\<rparr>]\<rparr>]"

definition sample_options :: build_plan_options where
  "sample_options =
     \<lparr>bo_environmentId = ''e'', bo_containerImageId = Some ''i'', bo_serviceIds = None, bo_imageTag = ''2'',
      bo_triggerType = ''manual'', bo_triggeredBy = ''ops'', bo_userId = None, bo_autoRollback = None,
      bo_parallelExecution = Some True\<rparr>"

definition sample_steps :: "step_to_create list" where
  "sample_steps = snd (projr (buildDeploymentPlan ''p'' sample_services sample_options))"

lemma sample_find: "find_plan_services sample_services sample_options = Inr sample_services"
  by code_simp

lemma sample_build:
  "buildDeploymentPlan ''p'' sample_services sample_options =
     Inr (new_plan ''p'' sample_options sample_services, sample_steps)"
  by code_simp

lemma sample_services_distinct: "distinct (map so_id sample_services)"
  by code_simp

theorem parallel_groups_are_singletons_witness:
  "groupStepsByLevel sc_order sample_steps = map (\<lambda>c. (sc_order c, [c])) sample_steps \<and> length sample_steps = 4"
proof -
  have "length sample_steps = 4" by code_simp
  with parallel_groups_are_singletons [OF sample_build] show ?thesis by simp
qed

lemma deps_earlier_split:
  "deps_earlier f P ls \<Longrightarrow> s \<in> set (concat ls) \<Longrightarrow>
     \<exists>as bs. concat ls = as @ bs \<and> s \<in> set bs \<and> set (f s) \<subseteq> P \<union> so_id ` set as"
proof (induction ls arbitrary: P)
  case Nil
  then show ?case by simp
next
  case (Cons l ls)
  show ?case
  proof (cases "s \<in> set l")
    case True
    with Cons.prems show ?thesis by (intro exI [of _ "[]"] exI [of _ "concat (l # ls)"]) auto
  next
    case False
    with Cons obtain as bs where "concat ls = as @ bs" "s \<in> set bs" "set (f s) \<subseteq> P \<union> so_id ` set l \<union> so_id ` set as"
      by force
    then show ?thesis by (intro exI [of _ "l @ as"] exI [of _ bs]) auto
  qed
qed

lemma emitted_order_range:
  assumes "c \<in> set (emitted planId options n ss)"
  shows "n \<le> sc_order c \<and> sc_order c < n + length (emitted planId options n ss)"
proof -
  have "sc_order c \<in> set (map sc_order (emitted planId options n ss))" using assms by simp
  then show ?thesis unfolding emitted_orders by simp
qed

lemma emitted_serviceId:
  "c \<in> set (emitted planId options n ss) \<Longrightarrow> sc_serviceId c \<in> so_id ` set ss"
  using emitted_members by fastforce

text \<open>Steps of services that stand earlier in the order carry smaller numbers.\<close>

lemma emitted_split_orders:
  assumes "distinct (map so_id (as @ bs))" and "b \<in> so_id ` set as" and "s \<in> set bs"
    and "c \<in> set (emitted planId options 0 (as @ bs))" and "sc_serviceId c = b"
    and "c' \<in> set (emitted planId options 0 (as @ bs))" and "sc_serviceId c' = so_id s"
  shows "sc_order c < sc_order c'"
proof -
  let ?n = "length (emitted planId options 0 as)"
  have "b \<notin> so_id ` set bs" "so_id s \<notin> so_id ` set as"
    using assms(1-3) by auto
  then have "c \<notin> set (emitted planId options ?n bs)" "c' \<notin> set (emitted planId options 0 as)"
    using assms(5,7) emitted_serviceId by metis+
  then have "c \<in> set (emitted planId options 0 as)" "c' \<in> set (emitted planId options ?n bs)"
    using assms(4,6) by (auto simp: emitted_append)
  then show ?thesis
    using emitted_order_range [of c planId options 0 as] emitted_order_range [of c' planId options ?n bs] by simp
qed

text \<open>C5: A built plan deploys every deployment of the selected services exactly once and has at least
  one step, and every step of a service carries a larger order number than every step of the services
  it depends on.\<close>

theorem built_plan_covers_in_order:
  assumes "distinct (map so_id services)" and "find_plan_services db options = Inr services"
    and "buildDeploymentPlan planId db options = Inr (plan, steps)"
  shows "mset (map sc_serviceDeploymentId (filter (\<lambda>c. sc_action c = ActDeploy) steps)) =
      mset (concat (map (map sd_id \<circ> sv_deployments) services)) \<and> steps \<noteq> [] \<and>
    (\<forall>s \<in> set services. \<forall>b \<in> set (in_deps services s). \<forall>c \<in> set steps. \<forall>c' \<in> set steps.
       sc_serviceId c = b \<longrightarrow> sc_serviceId c' = so_id s \<longrightarrow> sc_order c < sc_order c')"
  using assms(3)
proof (cases rule: build_cases)
  case (1 services' levels)
  with assms(2) have [simp]: "services' = services" by simp
  from 1 have steps: "steps = emitted planId options 0 (concat levels)" by simp
  from resolve_order_correct [OF assms(1)] 1 have
    perm: "mset (concat levels) = mset services" and deps: "deps_earlier (in_deps services) {} levels" by auto
  have cover: "mset (map sc_serviceDeploymentId (filter (\<lambda>c. sc_action c = ActDeploy) steps)) =
      mset (concat (map (map sd_id \<circ> sv_deployments) services))"
    unfolding steps emitted_deploys using perm by (intro mset_concat_map_perm)
  moreover have "steps \<noteq> []"
  proof
    assume "steps = []"
    with cover have "concat (map (map sd_id \<circ> sv_deployments) services) = []" by simp
    with 1 show False by (cases services) auto
  qed
  moreover have "sc_order c < sc_order c'"
    if "s \<in> set services" "b \<in> set (in_deps services s)" "c \<in> set steps" "c' \<in> set steps"
      "sc_serviceId c = b" "sc_serviceId c' = so_id s" for s b c c'
  proof -
    from that(1) perm have "s \<in> set (concat levels)" by (metis mset_eq_setD)
    from deps_earlier_split [OF deps this] obtain as bs where
      ab: "concat levels = as @ bs" "s \<in> set bs" "set (in_deps services s) \<subseteq> so_id ` set as" by auto
    have "mset (map so_id (concat levels)) = mset (map so_id services)" using perm by (metis mset_map)
    then have "distinct (map so_id (as @ bs))"
      using assms(1) unfolding ab(1) by (metis mset_eq_imp_distinct_iff)
    then show ?thesis
      using emitted_split_orders [of as bs b s c planId options c'] ab that steps by auto
  qed
  ultimately show ?thesis by blast
qed

theorem built_plan_covers_in_order_witness:
  "map sc_serviceDeploymentId sample_steps = [''a1'', ''a2'', ''w1'', ''w1''] \<and>
   {(c, c'). c \<in> set sample_steps \<and> c' \<in> set sample_steps \<and> sc_serviceId c = ''a'' \<and> sc_serviceId c' = ''w''}
     \<subseteq> {(c, c'). sc_order c < sc_order c'}"
proof -
  have "map sc_serviceDeploymentId sample_steps = [''a1'', ''a2'', ''w1'', ''w1'']" by code_simp
  moreover have "\<exists>s \<in> set sample_services. so_id s = ''w'' \<and> ''a'' \<in> set (in_deps sample_services s)"
    by (simp add: sample_services_def in_deps_def so_deps_def)
  then have "\<forall>c \<in> set sample_steps. \<forall>c' \<in> set sample_steps.
       sc_serviceId c = ''a'' \<longrightarrow> sc_serviceId c' = ''w'' \<longrightarrow> sc_order c < sc_order c'"
    using built_plan_covers_in_order [OF sample_services_distinct sample_find sample_build] by metis
  ultimately show ?thesis by blast
qed

lemma service_steps_health:
  "(\<exists>c \<in> set (service_steps planId options service sds n). sc_action c = ActHealthCheck) \<longleftrightarrow>
     needs_health_check service \<and> sds \<noteq> []"
  by (induction sds arbitrary: n) (auto simp: make_step_def)

lemma emitted_health:
  assumes "distinct (map so_id ss)" and "s \<in> set ss"
  shows "(\<exists>c \<in> set (emitted planId options n ss). sc_serviceId c = so_id s \<and> sc_action c = ActHealthCheck) \<longleftrightarrow>
     needs_health_check s \<and> sv_deployments s \<noteq> []"
  using assms
proof (induction ss arbitrary: n)
  case Nil
  then show ?case by simp
next
  case (Cons a ss)
  let ?own = "service_steps planId options a (sv_deployments a) n"
  let ?rest = "emitted planId options (n + length ?own) ss"
  show ?case
  proof (cases "s = a")
    case True
    with Cons.prems have "sc_serviceId c \<noteq> so_id s" if "c \<in> set ?rest" for c
      using emitted_members [OF that] by auto
    moreover have "sc_serviceId c = so_id s" if "c \<in> set ?own" for c
      using service_steps_members [OF that] True by simp
    ultimately show ?thesis
      using service_steps_health [of planId options a "sv_deployments a" n] True
      by (auto simp: Let_def)
  next
    case False
    with Cons.prems have "sc_serviceId c \<noteq> so_id s" if "c \<in> set ?own" for c
      using service_steps_members [OF that] by auto
    moreover have "(\<exists>c \<in> set ?rest. sc_serviceId c = so_id s \<and> sc_action c = ActHealthCheck) \<longleftrightarrow>
        needs_health_check s \<and> sv_deployments s \<noteq> []"
      using False Cons.prems by (intro Cons.IH) auto
    moreover have "set (emitted planId options n (a # ss)) = set ?own \<union> set ?rest"
      by (simp add: Let_def)
    ultimately show ?thesis by blast
  qed
qed

text \<open>A plan has a health-check step for a service exactly when that service itself has a health-check
  URL or waits for another service with a \<open>health_before\<close> dependency; being waited for is not a reason.\<close>

theorem health_step_iff_own_need:
  assumes "distinct (map so_id services)" and "find_plan_services db options = Inr services"
    and "buildDeploymentPlan planId db options = Inr (plan, steps)" and "s \<in> set services"
  shows "(\<exists>c \<in> set steps. sc_serviceId c = so_id s \<and> sc_action c = ActHealthCheck) \<longleftrightarrow>
    (\<exists>d \<in> set (so_dependencies s). snd d = HealthBefore) \<or> truthy (sv_healthCheckUrl s)"
  using assms(3)
proof (cases rule: build_cases)
  case (1 services' levels)
  with assms(2) have [simp]: "services' = services" by simp
  from resolve_order_correct [OF assms(1)] 1 have perm: "mset (concat levels) = mset services" by auto
  have "mset (map so_id (concat levels)) = mset (map so_id services)" using perm by (metis mset_map)
  then have "distinct (map so_id (concat levels))" using assms(1) by (metis mset_eq_imp_distinct_iff)
  moreover have "s \<in> set (concat levels)" using perm assms(4) by (metis mset_eq_setD)
  ultimately show ?thesis
    using emitted_health [of "concat levels" s planId options 0] 1 assms(4) by (simp add: needs_health_check_def)
qed

theorem health_step_iff_own_need_witness:
  "\<not> (\<exists>c \<in> set sample_steps. sc_serviceId c = ''a'' \<and> sc_action c = ActHealthCheck) \<and>
   (\<exists>c \<in> set sample_steps. sc_serviceId c = ''w'' \<and> sc_action c = ActHealthCheck)"
  using health_step_iff_own_need [OF sample_services_distinct sample_find sample_build, of "sample_services ! 0"]
    health_step_iff_own_need [OF sample_services_distinct sample_find sample_build, of "sample_services ! 1"]
  by (simp add: sample_services_def)

end
