(* ===== verification/Effects.thy ===== *)
theory Effects
  imports Prelude
begin

text \<open>
  Asynchronous functions that read and write a state and may throw. A call takes the state and
  returns the thrown message or the value, with the state it leaves behind: what was written before
  a throw stays written, as in the sources, where nothing is undone by an exception. \<open>andThen\<close> is
  \<open>await\<close>, \<open>catching\<close> is \<open>try ... catch\<close> with a handler that may throw again, \<open>trap\<close> turns the outcome
  into a value.

  \<open>keeps f m\<close> says that \<open>m\<close> leaves the observation \<open>f\<close> of the state unchanged; its rules are
  collected in \<open>keeps_intros\<close>, so that frame conditions of long handlers are proved by one
  method call. \<open>total m\<close>
  says that \<open>m\<close> never throws.
\<close>

type_synonym ('s, 'a) io = "'s \<Rightarrow> (string + 'a) \<times> 's"

definition ret :: "'a \<Rightarrow> ('s, 'a) io" where
  "ret x s = (Inr x, s)"

definition throw :: "string \<Rightarrow> ('s, 'a) io" where
  "throw e s = (Inl e, s)"

definition andThen :: "('s, 'a) io \<Rightarrow> ('a \<Rightarrow> ('s, 'b) io) \<Rightarrow> ('s, 'b) io" where
  "andThen m f s = (case m s of (Inl e, s') \<Rightarrow> (Inl e, s') | (Inr x, s') \<Rightarrow> f x s')"

definition catching :: "('s, 'a) io \<Rightarrow> (string \<Rightarrow> ('s, 'a) io) \<Rightarrow> ('s, 'a) io" where
  "catching m h s = (case m s of (Inl e, s') \<Rightarrow> h e s' | (Inr x, s') \<Rightarrow> (Inr x, s'))"

definition trap :: "('s, 'a) io \<Rightarrow> ('s, string + 'a) io" where
  "trap m s = (case m s of (r, s') \<Rightarrow> (Inr r, s'))"

definition reads :: "('s \<Rightarrow> 'a) \<Rightarrow> ('s, 'a) io" where
  "reads f s = (Inr (f s), s)"

definition writes :: "('s \<Rightarrow> 's) \<Rightarrow> ('s, unit) io" where
  "writes f s = (Inr (), f s)"

definition whenever :: "bool \<Rightarrow> ('s, unit) io \<Rightarrow> ('s, unit) io" where
  "whenever b m = (if b then m else ret ())"

text \<open>\<open>findUniqueOrThrow\<close>: the row or the client's not-found error.\<close>

definition the_row :: "'a option \<Rightarrow> ('s, 'a) io" where
  "the_row r = (case r of None \<Rightarrow> throw ''No record was found for a query.'' | Some x \<Rightarrow> ret x)"

text \<open>\<open>for (const x of xs) await f(x)\<close>: the first exception leaves the loop.\<close>

fun for_each :: "('a \<Rightarrow> ('s, unit) io) \<Rightarrow> 'a list \<Rightarrow> ('s, unit) io" where
  "for_each f [] = ret ()"
| "for_each f (x # xs) = andThen (f x) (\<lambda>_. for_each f xs)"

text \<open>\<open>for (const x of xs) results.push(await f(x))\<close>.\<close>

fun collect :: "('a \<Rightarrow> ('s, 'b) io) \<Rightarrow> 'a list \<Rightarrow> ('s, 'b list) io" where
  "collect f [] = ret []"
| "collect f (x # xs) = andThen (f x) (\<lambda>y. andThen (collect f xs) (\<lambda>ys. ret (y # ys)))"

named_theorems io_simps "evaluation of the effect combinators"

lemma io_eval [io_simps]:
  "ret x s = (Inr x, s)" "throw e s = (Inl e, s)" "reads f s = (Inr (f s), s)" "writes w s = (Inr (), w s)"
  by (simp_all add: ret_def throw_def reads_def writes_def)

lemma andThen_eval [io_simps]:
  "m s = (Inr x, s') \<Longrightarrow> andThen m f s = f x s'"
  "m s = (Inl e, s') \<Longrightarrow> andThen m f s = (Inl e, s')"
  by (simp_all add: andThen_def)

lemma andThen_simps [simp]:
  "andThen (ret x) f = f x" "andThen (throw e) f = throw e"
  by (simp_all add: andThen_def io_simps fun_eq_iff)

lemma andThen_state [io_simps]:
  "andThen (reads g) f s = f (g s) s" "andThen (writes w) h s = h () (w s)"
  by (simp_all add: andThen_def io_eval)

lemma andThen_assoc: "andThen (andThen m f) g = andThen m (\<lambda>x. andThen (f x) g)"
  by (simp add: andThen_def fun_eq_iff split: prod.split sum.split)

lemma for_each_append: "for_each f (xs @ ys) = andThen (for_each f xs) (\<lambda>_. for_each f ys)"
  by (induction xs) (simp_all add: andThen_assoc)

lemma andThen_InrE:
  assumes "andThen m f s = (Inr y, s'')"
  obtains x s' where "m s = (Inr x, s')" "f x s' = (Inr y, s'')"
  using assms by (auto simp: andThen_def split: prod.splits sum.splits)

lemma andThen_cases:
  assumes "andThen m f s = (r, s'')"
  obtains (threw) e where "m s = (Inl e, s'')" "r = Inl e"
  | (ran) x s' where "m s = (Inr x, s')" "f x s' = (r, s'')"
  using assms by (auto simp: andThen_def split: prod.splits sum.splits)

lemma catching_cases:
  assumes "catching m h s = (r, s'')"
  obtains (ok) x where "m s = (Inr x, s'')" "r = Inr x"
  | (caught) e s' where "m s = (Inl e, s')" "h e s' = (r, s'')"
  using assms by (auto simp: catching_def split: prod.splits sum.splits)

text \<open>Frame conditions.\<close>

named_theorems keeps_intros "rules for frame conditions of effectful code"

definition keeps :: "('s \<Rightarrow> 'o) \<Rightarrow> ('s, 'a) io \<Rightarrow> bool" where
  "keeps f m \<longleftrightarrow> (\<forall>s. f (snd (m s)) = f s)"

lemma keepsI: "(\<And>s. f (snd (m s)) = f s) \<Longrightarrow> keeps f m"
  by (simp add: keeps_def)

lemma keepsD: "keeps f m \<Longrightarrow> m s = (r, s') \<Longrightarrow> f s' = f s"
  by (metis keeps_def snd_conv)

lemma keeps_weaken: "keeps obs m \<Longrightarrow> (\<And>s s'. obs s' = obs s \<Longrightarrow> f s' = f s) \<Longrightarrow> keeps f m"
  unfolding keeps_def by blast

lemma keeps_pure [keeps_intros]:
  "keeps f (ret x)" "keeps f (throw e)" "keeps f (reads g)" "keeps f (the_row r)"
  by (auto simp: keeps_def io_simps the_row_def split: option.split)

lemma keeps_writes [keeps_intros]: "(\<And>s. f (w s) = f s) \<Longrightarrow> keeps f (writes w)"
  by (simp add: keeps_def io_simps)

lemma keeps_andThen [keeps_intros]:
  "keeps f m \<Longrightarrow> (\<And>x. keeps f (g x)) \<Longrightarrow> keeps f (andThen m g)"
  by (auto simp: keeps_def andThen_def split: prod.split sum.split) (metis snd_conv)+

lemma keeps_catching [keeps_intros]:
  "keeps f m \<Longrightarrow> (\<And>e. keeps f (h e)) \<Longrightarrow> keeps f (catching m h)"
  by (auto simp: keeps_def catching_def split: prod.split sum.split) (metis snd_conv)+

lemma keeps_trap [keeps_intros]: "keeps f m \<Longrightarrow> keeps f (trap m)"
  by (auto simp: keeps_def trap_def split: prod.split) (metis snd_conv)

lemma keeps_whenever [keeps_intros]: "(b \<Longrightarrow> keeps f m) \<Longrightarrow> keeps f (whenever b m)"
  by (simp add: whenever_def keeps_pure)

lemma keeps_if [keeps_intros]:
  "(b \<Longrightarrow> keeps f m) \<Longrightarrow> (\<not> b \<Longrightarrow> keeps f n) \<Longrightarrow> keeps f (if b then m else n)"
  by simp

lemma keeps_case_option [keeps_intros]:
  "(r = None \<Longrightarrow> keeps f m) \<Longrightarrow> (\<And>x. r = Some x \<Longrightarrow> keeps f (g x)) \<Longrightarrow>
     keeps f (case r of None \<Rightarrow> m | Some x \<Rightarrow> g x)"
  by (cases r) auto

lemma keeps_case_sum [keeps_intros]:
  "(\<And>e. r = Inl e \<Longrightarrow> keeps f (h e)) \<Longrightarrow> (\<And>x. r = Inr x \<Longrightarrow> keeps f (g x)) \<Longrightarrow>
     keeps f (case r of Inl e \<Rightarrow> h e | Inr x \<Rightarrow> g x)"
  by (cases r) auto

lemma keeps_case_prod [keeps_intros]: "(\<And>a b. p = (a, b) \<Longrightarrow> keeps f (g a b)) \<Longrightarrow> keeps f (case p of (a, b) \<Rightarrow> g a b)"
  by (cases p) auto

lemma keeps_case_prod_app [keeps_intros]:
  "(\<And>a b. p = (a, b) \<Longrightarrow> keeps f (g a b y)) \<Longrightarrow> keeps f ((case p of (a, b) \<Rightarrow> g a b) y)"
  by (cases p) auto

lemma keeps_Let [keeps_intros]: "keeps f (g x) \<Longrightarrow> keeps f (let y = x in g y)"
  by simp

lemma keeps_for_each [keeps_intros]: "(\<And>x. x \<in> set xs \<Longrightarrow> keeps f (g x)) \<Longrightarrow> keeps f (for_each g xs)"
  by (induction xs) (auto intro: keeps_intros)

lemma keeps_collect [keeps_intros]: "(\<And>x. x \<in> set xs \<Longrightarrow> keeps f (g x)) \<Longrightarrow> keeps f (collect g xs)"
  by (induction xs) (auto intro!: keeps_intros)

text \<open>Code that cannot throw.\<close>

definition total :: "('s, 'a) io \<Rightarrow> bool" where
  "total m \<longleftrightarrow> (\<forall>s. \<exists>x. fst (m s) = Inr x)"

lemma totalD: "total m \<Longrightarrow> \<exists>x s'. m s = (Inr x, s')"
  unfolding total_def by (metis prod.collapse)

lemma total_intros [intro!]:
  "total (ret x)" "total (reads g)" "total (writes w)" "total (trap m)"
  by (auto simp: total_def io_simps trap_def split: prod.split)

lemma total_andThen [intro!]: "total m \<Longrightarrow> (\<And>x. total (g x)) \<Longrightarrow> total (andThen m g)"
  unfolding total_def by (auto simp: andThen_def split: prod.split sum.split) (metis Inl_Inr_False fst_conv)

lemma total_catching [intro!]: "(\<And>e. total (h e)) \<Longrightarrow> total (catching m h)"
  by (auto simp: total_def catching_def split: prod.split sum.split)

lemma total_whenever [intro!]: "total m \<Longrightarrow> total (whenever b m)"
  by (auto simp: whenever_def)

lemma total_case_option [intro!]:
  "total m \<Longrightarrow> (\<And>x. total (g x)) \<Longrightarrow> total (case r of None \<Rightarrow> m | Some x \<Rightarrow> g x)"
  by (cases r) auto

lemma total_case_prod [intro!]: "(\<And>a b. total (g a b)) \<Longrightarrow> total (case p of (a, b) \<Rightarrow> g a b)"
  by (cases p) auto

lemma total_if [intro!]: "total m \<Longrightarrow> total n \<Longrightarrow> total (if b then m else n)"
  by simp

lemma total_case_sum [intro!]:
  "(\<And>e. total (h e)) \<Longrightarrow> (\<And>x. total (g x)) \<Longrightarrow> total (case r of Inl e \<Rightarrow> h e | Inr x \<Rightarrow> g x)"
  by (cases r) auto

lemma total_collect [intro!]: "(\<And>x. total (g x)) \<Longrightarrow> total (collect g xs)"
  by (induction xs) auto

text \<open>A postcondition of every run that returns.\<close>

definition ensures :: "('s, 'a) io \<Rightarrow> ('a \<Rightarrow> 's \<Rightarrow> bool) \<Rightarrow> bool" where
  "ensures m P \<longleftrightarrow> (\<forall>s x s'. m s = (Inr x, s') \<longrightarrow> P x s')"

lemma ensuresD: "ensures m P \<Longrightarrow> m s = (Inr x, s') \<Longrightarrow> P x s'"
  by (simp add: ensures_def)

lemma ensures_andThen: "(\<And>x. ensures (f x) P) \<Longrightarrow> ensures (andThen m f) P"
  unfolding ensures_def by (metis andThen_InrE)

lemma ensures_bind:
  "ensures m P \<Longrightarrow> (\<And>x s. P x s \<Longrightarrow> ensures (f x) Q) \<Longrightarrow> ensures (andThen m f) Q"
  unfolding ensures_def by (metis andThen_InrE)

lemma ensures_ret: "(\<And>s. P x s) \<Longrightarrow> ensures (ret x) P"
  by (simp add: ensures_def io_simps)

lemma ensures_catching:
  "ensures m P \<Longrightarrow> (\<And>e. ensures (h e) P) \<Longrightarrow> ensures (catching m h) P"
  unfolding ensures_def by (metis catching_cases sum.inject(2))

lemma ensures_if: "ensures m P \<Longrightarrow> ensures n P \<Longrightarrow> ensures (if b then m else n) P"
  by simp

text \<open>The same, when the last action must keep what an earlier one established.\<close>

lemma ensures_keeps:
  assumes "ensures m P" and "\<And>x. keeps obs (f x)"
    and "\<And>x s s'. P x s \<Longrightarrow> obs s' = obs s \<Longrightarrow> Q s'"
  shows "ensures (andThen m f) (\<lambda>_. Q)"
proof -
  have "Q s''" if "andThen m f s = (Inr y, s'')" for s y s''
    using that
  proof (rule andThen_InrE)
    fix x s' assume "m s = (Inr x, s')" and "f x s' = (Inr y, s'')"
    then show "Q s''"
      using ensuresD [OF assms(1)] keepsD [OF assms(2)] assms(3) by blast
  qed
  then show ?thesis by (auto simp: ensures_def)
qed

lemma ensures_first: "ensures m (\<lambda>_ _. Q) \<Longrightarrow> ensures (andThen m f) (\<lambda>_ _. Q)"
  unfolding ensures_def by (metis andThen_InrE)

text \<open>Invariants: what holds before holds after, whether the code returns or throws.\<close>

named_theorems preserves_intros "rules for invariants of effectful code"

definition preserves :: "('s \<Rightarrow> bool) \<Rightarrow> ('s, 'a) io \<Rightarrow> bool" where
  "preserves I m \<longleftrightarrow> (\<forall>s. I s \<longrightarrow> I (snd (m s)))"

lemma preservesI: "(\<And>s. I s \<Longrightarrow> I (snd (m s))) \<Longrightarrow> preserves I m"
  by (simp add: preserves_def)

lemma preservesD: "preserves I m \<Longrightarrow> I s \<Longrightarrow> m s = (r, s') \<Longrightarrow> I s'"
  by (metis preserves_def snd_conv)

lemma preserves_keeps:
  "keeps obs m \<Longrightarrow> (\<And>s s'. I s \<Longrightarrow> obs s' = obs s \<Longrightarrow> I s') \<Longrightarrow> preserves I m"
  unfolding preserves_def keeps_def by blast

lemma preserves_pure [preserves_intros]:
  "preserves I (ret x)" "preserves I (throw e)" "preserves I (reads g)" "preserves I (the_row r)"
  by (auto simp: preserves_def io_simps the_row_def split: option.split)

lemma preserves_writes [preserves_intros]: "(\<And>s. I s \<Longrightarrow> I (w s)) \<Longrightarrow> preserves I (writes w)"
  by (simp add: preserves_def io_simps)

lemma preserves_andThen [preserves_intros]:
  "preserves I m \<Longrightarrow> (\<And>x. preserves I (g x)) \<Longrightarrow> preserves I (andThen m g)"
  by (auto simp: preserves_def andThen_def split: prod.split sum.split)

lemma preserves_catching [preserves_intros]:
  "preserves I m \<Longrightarrow> (\<And>e. preserves I (h e)) \<Longrightarrow> preserves I (catching m h)"
  by (auto simp: preserves_def catching_def split: prod.split sum.split)

lemma preserves_trap [preserves_intros]: "preserves I m \<Longrightarrow> preserves I (trap m)"
  by (auto simp: preserves_def trap_def split: prod.split)

lemma preserves_whenever [preserves_intros]: "(b \<Longrightarrow> preserves I m) \<Longrightarrow> preserves I (whenever b m)"
  by (simp add: whenever_def preserves_pure)

lemma preserves_if [preserves_intros]:
  "(b \<Longrightarrow> preserves I m) \<Longrightarrow> (\<not> b \<Longrightarrow> preserves I n) \<Longrightarrow> preserves I (if b then m else n)"
  by simp

lemma preserves_case_option [preserves_intros]:
  "(r = None \<Longrightarrow> preserves I m) \<Longrightarrow> (\<And>x. r = Some x \<Longrightarrow> preserves I (g x)) \<Longrightarrow>
     preserves I (case r of None \<Rightarrow> m | Some x \<Rightarrow> g x)"
  by (cases r) auto

lemma preserves_case_sum [preserves_intros]:
  "(\<And>e. r = Inl e \<Longrightarrow> preserves I (h e)) \<Longrightarrow> (\<And>x. r = Inr x \<Longrightarrow> preserves I (g x)) \<Longrightarrow>
     preserves I (case r of Inl e \<Rightarrow> h e | Inr x \<Rightarrow> g x)"
  by (cases r) auto

lemma preserves_case_prod [preserves_intros]:
  "(\<And>a b. p = (a, b) \<Longrightarrow> preserves I (g a b)) \<Longrightarrow> preserves I (case p of (a, b) \<Rightarrow> g a b)"
  by (cases p) auto

lemma preserves_Let [preserves_intros]: "preserves I (g x) \<Longrightarrow> preserves I (let y = x in g y)"
  by simp

lemma preserves_for_each [preserves_intros]:
  "(\<And>x. x \<in> set xs \<Longrightarrow> preserves I (g x)) \<Longrightarrow> preserves I (for_each g xs)"
  by (induction xs) (auto intro: preserves_intros)

lemma preserves_collect [preserves_intros]: "(\<And>x. x \<in> set xs \<Longrightarrow> preserves I (g x)) \<Longrightarrow> preserves I (collect g xs)"
  by (induction xs) (auto intro!: preserves_intros)

text \<open>What every element of a collected list satisfies, when later actions preserve it.\<close>

lemma collect_all2:
  assumes run: "collect g xs s = (Inr ys, s')" and "I s"
    and inv: "\<And>x. x \<in> set xs \<Longrightarrow> preserves I (g x)"
    and est: "\<And>x s y s'. x \<in> set xs \<Longrightarrow> I s \<Longrightarrow> g x s = (Inr y, s') \<Longrightarrow> P x y s'"
    and stays: "\<And>x y z. x \<in> set xs \<Longrightarrow> z \<in> set xs \<Longrightarrow> preserves (P x y) (g z)"
  shows "list_all2 (\<lambda>x y. P x y s') xs ys"
  using assms
proof (induction xs arbitrary: s ys)
  case Nil
  then show ?case by (simp add: io_simps)
next
  case (Cons x xs)
  from Cons.prems(1) obtain y s1 zs where y: "g x s = (Inr y, s1)" and zs: "collect g xs s1 = (Inr zs, s')" "ys = y # zs"
    by (auto elim!: andThen_InrE simp: io_simps)
  have "preserves I (g x)" by (rule Cons.prems(3)) simp
  then have I1: "I s1" using Cons.prems(2) y by (rule preservesD)
  have later: "preserves (P x y) (collect g xs)"
    by (intro preserves_intros Cons.prems(5)) auto
  have "P x y s1" by (rule Cons.prems(4) [OF _ Cons.prems(2) y]) simp
  then have "P x y s'" by (rule preservesD [OF later _ zs(1)])
  moreover have "list_all2 (\<lambda>x y. P x y s') xs zs"
    by (rule Cons.IH [OF zs(1) I1]) (use Cons.prems(3-5) in auto)
  ultimately show ?case by (simp add: zs(2))
qed

end
