(* ===== verification/Hosts.thy ===== *)
theory Hosts
  imports Effects
begin

text \<open>
  The rows and the remote machines that the deployment components work on: servers, service
  templates, their per-server deployments, container images with their digests, deployment rows
  and the audit trail of emitted events (\<open>prisma/schema.prisma\<close>); the docker, SSH and registry
  clients as a record of functions on an abstract world; \<open>shellEscape\<close> of \<open>src/lib/ssh.ts\<close>,
  \<open>determineHealthStatus\<close> and \<open>determineOverallStatus\<close> of \<open>src/services/servers.ts\<close>,
  \<open>validateGeneratedCompose\<close> of \<open>src/services/compose.ts\<close> and \<open>recordTagDeployment\<close> of
  \<open>src/services/image-management.ts\<close>.
\<close>

section \<open>Rows\<close>

datatype deployment_status = DepPending | DepDeploying | DepSuccess | DepFailed

datatype log_line = Stamped millis string | Plain string

record server_row =
  srv_id :: ident
  srv_name :: string
  srv_hostname :: string
  srv_dockerMode :: string
  srv_serverType :: string
  srv_environmentId :: ident

record image_row =
  ci_id :: ident
  ci_imageName :: string
  ci_registryConnectionId :: "ident option"
  ci_updateAvailable :: bool
  ci_deployedDigestId :: "ident option"

record digest_row =
  dg_id :: ident
  dg_imageId :: ident
  dg_tags :: "string list"
  dg_manifestDigest :: string
  dg_pushedAt :: millis

record image_history_row =
  ih_id :: ident
  ih_imageId :: ident
  ih_tag :: string
  ih_digest :: "string option"
  ih_deployedBy :: "string option"
  ih_status :: string
  ih_imageDigestId :: "ident option"

record service_row =
  se_id :: ident
  se_name :: string
  se_imageTag :: string
  se_imageId :: ident
  se_deployStrategy :: string
  se_healthCheckUrl :: "string option"
  se_healthWaitMs :: int
  se_healthRetries :: int
  se_healthIntervalMs :: int

text \<open>A row of \<open>ServiceDeployment\<close>: one service on one server.\<close>

record sd_row =
  dp_id :: ident
  dp_serviceId :: ident
  dp_serverId :: ident
  dp_containerName :: string
  dp_composePath :: "string option"
  dp_status :: string
  dp_discoveryStatus :: string
  dp_containerStatus :: string
  dp_healthStatus :: string
  dp_lastCheckedAt :: "millis option"
  dp_lastDeployedAt :: "millis option"
  dp_imageDigestId :: "ident option"

text \<open>A row of \<open>Deployment\<close>: one run of \<open>deployService\<close>.\<close>

record deployment_row =
  de_id :: ident
  de_imageTag :: string
  de_previousTag :: "string option"
  de_status :: deployment_status
  de_triggeredBy :: string
  de_serviceId :: ident
  de_serviceDeploymentId :: ident
  de_userId :: "ident option"
  de_logs :: "log_line list"
  de_completedAt :: "millis option"
  de_durationMs :: "millis option"
  de_historyId :: "ident option"

record config_artifact =
  ca_name :: string
  ca_content :: string
  ca_mountPath :: string
  ca_isBinary :: bool

record artifacts =
  ar_composeName :: string
  ar_composeContent :: string
  ar_configFiles :: "config_artifact list"

text \<open>Commands sent to a machine that change it, in the order they were issued.\<close>

datatype remote_op =
    OpConnect ident
  | OpDisconnect ident
  | OpExec ident string
  | OpWriteFile ident string string
  | OpWriteBinary ident string string
  | OpPull ident string
  | OpComposePull ident string string
  | OpComposeUp ident string string bool bool
  | OpRestart ident string

datatype event =
    DeployProgress ident ident deployment_status ident
  | PlanProgress ident ident string ident
  | SystemNotice string ident "(string \<times> string option) list"
  | Webhook string ident "(string \<times> string option) list"
  | AuditEntry string ident ident "(string \<times> string option) list"

record 'w store =
  db_world :: 'w
  db_ops :: "remote_op list"
  db_servers :: "server_row list"
  db_services :: "service_row list"
  db_sds :: "sd_row list"
  db_images :: "image_row list"
  db_digests :: "digest_row list"
  db_imageHistory :: "image_history_row list"
  db_deployments :: "deployment_row list"
  db_artifacts :: "(ident \<times> artifacts) list"
  db_autoManageCompose :: "ident list"
  db_defaultLogLines :: nat
  db_events :: "event list"

section \<open>Clients of remote machines\<close>

record client =
  cl_docker :: bool
  cl_ssh :: bool
  cl_error :: "string option"
  cl_mode :: string
  cl_needsConnect :: bool

record exec_result =
  ex_code :: int
  ex_stdout :: string
  ex_stderr :: string

record container_health =
  ch_state :: string
  ch_running :: bool
  ch_health :: "string option"

record url_result =
  ur_success :: bool
  ur_statusCode :: "nat option"
  ur_error :: "string option"

text \<open>What parsing a compose file yields: a parse error, or the keys of its \<open>services\<close> section.\<close>

datatype compose_doc = BadYaml string | NotADocument | NoServices | ServiceKeys "string list"

text \<open>
  The world is whatever the remote machines, the registry and the clock are; every call may change
  it and may throw. \<open>h_effect\<close> runs a command that changes a machine.
\<close>

record 'w host =
  h_now :: "'w \<Rightarrow> millis"
  h_newId :: "nat \<Rightarrow> ident"
  h_createClient :: "server_row \<Rightarrow> 'w \<Rightarrow> (string + client) \<times> 'w"
  h_effect :: "remote_op \<Rightarrow> 'w \<Rightarrow> (string + exec_result) \<times> 'w"
  h_listContainers :: "ident \<Rightarrow> 'w \<Rightarrow> (string + (string \<times> string) list) \<times> 'w"
  h_containerLogs :: "ident \<Rightarrow> string \<Rightarrow> nat \<Rightarrow> 'w \<Rightarrow> (string + string) \<times> 'w"
  h_containerHealth :: "ident \<Rightarrow> string \<Rightarrow> 'w \<Rightarrow> (string + container_health) \<times> 'w"
  h_checkUrl :: "ident \<Rightarrow> string \<Rightarrow> 'w \<Rightarrow> (string + url_result) \<times> 'w"
  h_sleep :: "int \<Rightarrow> 'w \<Rightarrow> 'w"
  h_generateArtifacts :: "sd_row \<Rightarrow> service_row \<Rightarrow> 'w \<Rightarrow> (string + artifacts) \<times> 'w"
  h_parseCompose :: "string \<Rightarrow> compose_doc"
  h_socketAuth :: "ident \<Rightarrow> 'w \<Rightarrow> (string + string option) \<times> 'w"
  h_registryLogin :: "ident \<Rightarrow> ident \<Rightarrow> 'w \<Rightarrow> (string + (bool \<times> string option)) \<times> 'w"

text \<open>A call on the world inside the store, and a command that is also recorded.\<close>

definition on_world :: "('w \<Rightarrow> (string + 'a) \<times> 'w) \<Rightarrow> (('w, 'z) store_scheme, 'a) io" where
  "on_world f s = (case f (db_world s) of (r, w) \<Rightarrow> (r, s\<lparr>db_world := w\<rparr>))"

definition remote :: "'w host \<Rightarrow> remote_op \<Rightarrow> (('w, 'z) store_scheme, exec_result) io" where
  "remote h op s =
     (case h_effect h op (db_world s) of
        (r, w) \<Rightarrow> (r, s\<lparr>db_world := w, db_ops := db_ops s @ [op]\<rparr>))"

definition now :: "'w host \<Rightarrow> ('w, 'z) store_scheme \<Rightarrow> millis" where
  "now h s = h_now h (db_world s)"

definition emit :: "event \<Rightarrow> (('w, 'z) store_scheme, unit) io" where
  "emit e = writes (\<lambda>s. s\<lparr>db_events := db_events s @ [e]\<rparr>)"

text \<open>A call on the store from a handler that has local variables beside it.\<close>

definition on_store :: "(('w, 'z) store_scheme, 'a) io \<Rightarrow> ('l \<times> ('w, 'z) store_scheme, 'a) io" where
  "on_store m st = (case m (snd st) of (r, s) \<Rightarrow> (r, (fst st, s)))"

section \<open>Shell quoting\<close>

text \<open>\<open>value.replace(/'/g, ...)\<close> between single quotes.\<close>

definition shellEscape :: "string \<Rightarrow> string" where
  "shellEscape value =
     CHR 0x27 # concat (map (\<lambda>c. if c = CHR 0x27 then [CHR 0x27, CHR 0x5C, CHR 0x27, CHR 0x27] else [c]) value)
       @ [CHR 0x27]"

text \<open>
  Specification: how a POSIX shell reads the first word of a command line. Between single quotes
  every character stands for itself; outside of quotes a backslash takes the next character
  literally, and any other character that is not a quote ends the literal part.
\<close>

fun sh_word :: "bool \<Rightarrow> string \<Rightarrow> (string \<times> string) option" where
  "sh_word True [] = None"
| "sh_word True (c # cs) =
     (if c = CHR 0x27 then sh_word False cs
      else map_option (\<lambda>(w, r). (c # w, r)) (sh_word True cs))"
| "sh_word False [] = Some ([], [])"
| "sh_word False [c] = (if c = CHR 0x27 \<or> c = CHR 0x5C then None else Some ([], [c]))"
| "sh_word False (c # c' # cs) =
     (if c = CHR 0x27 then sh_word True (c' # cs)
      else if c = CHR 0x5C then map_option (\<lambda>(w, r). (c' # w, r)) (sh_word False cs)
      else Some ([], c # c' # cs))"

section \<open>Health statuses\<close>

definition determineHealthStatus :: "string option \<Rightarrow> bool \<Rightarrow> url_result option \<Rightarrow> string" where
  "determineHealthStatus containerHealth running urlHealth =
     (if \<not> running then ''unknown''
      else if containerHealth = Some ''healthy'' then ''healthy''
      else if containerHealth = Some ''unhealthy'' then ''unhealthy''
      else (case urlHealth of
              Some u \<Rightarrow> if ur_success u then ''healthy'' else ''unhealthy''
            | None \<Rightarrow> if \<not> truthy containerHealth then ''none'' else ''unknown''))"

definition determineOverallStatus :: "string \<Rightarrow> bool \<Rightarrow> string \<Rightarrow> string" where
  "determineOverallStatus containerState running healthStatus =
     (if \<not> running then (if containerState = ''not_found'' then ''not_found'' else ''stopped'')
      else if healthStatus = ''unhealthy'' then ''unhealthy''
      else if healthStatus = ''healthy'' then ''healthy''
      else ''running'')"

section \<open>Compose validation\<close>

definition validateGeneratedCompose :: "(string \<Rightarrow> compose_doc) \<Rightarrow> string \<Rightarrow> string \<Rightarrow> string option" where
  "validateGeneratedCompose parse composeContent containerName =
     (case parse composeContent of
        BadYaml err \<Rightarrow> Some (''Generated compose for '' @ quoted containerName @ '' is not valid YAML: '' @ err)
      | NotADocument \<Rightarrow>
          Some (''Generated compose for '' @ quoted containerName @ '' did not parse to a compose document'')
      | NoServices \<Rightarrow>
          Some (''Generated compose for '' @ quoted containerName @ '' has no '' @ quoted ''services:'' @ '' section'')
      | ServiceKeys keys \<Rightarrow>
          if containerName \<notin> set keys
          then Some (''Compose service key mismatch: deploy targets '' @ quoted containerName
                     @ '' but the compose file defines service(s) [''
                     @ (if join_with '', '' keys = [] then ''none'' else join_with '', '' keys)
                     @ '']. The compose file must contain a service keyed exactly on '' @ quoted containerName
                     @ ''. If you maintain this compose file by hand, rename the service to ''
                     @ quoted containerName @ ''.'')
          else None)"

section \<open>Image history\<close>

text \<open>The digest that carries the tag among the image's fifty most recent ones.\<close>

definition digest_of_tag :: "digest_row list \<Rightarrow> ident \<Rightarrow> string \<Rightarrow> digest_row option" where
  "digest_of_tag digests imageId tag =
     List.find (\<lambda>d. tag \<in> set (dg_tags d))
       (take 50 (rev (sort_key dg_pushedAt (filter (\<lambda>d. dg_imageId d = imageId) digests))))"

definition recordTagDeployment :: "'w host \<Rightarrow> ident \<Rightarrow> string \<Rightarrow> string option \<Rightarrow> string option \<Rightarrow> string \<Rightarrow> ident option
    \<Rightarrow> (('w, 'z) store_scheme, image_history_row) io" where
  "recordTagDeployment h imageId tag digest deployedBy status imageDigestId s =
     (let found = (if \<not> truthy imageDigestId \<and> status = ''success''
                   then digest_of_tag (db_digests s) imageId tag else None);
          digestId = (case found of Some d \<Rightarrow> Some (dg_id d) | None \<Rightarrow> imageDigestId);
          manifest = (case found of Some d \<Rightarrow> (if truthy digest then digest else Some (dg_manifestDigest d)) | None \<Rightarrow> digest);
          s1 = (if status = ''success''
                then s\<lparr>db_images := update_row ci_id imageId
                         (\<lambda>i. i\<lparr>ci_updateAvailable := False,
                               ci_deployedDigestId := (if truthy digestId then digestId else ci_deployedDigestId i)\<rparr>)
                         (db_images s)\<rparr>
                else s);
          linked = map se_id (filter (\<lambda>e. se_imageId e = imageId) (db_services s));
          s2 = (if status = ''success'' \<and> truthy digestId
                then s1\<lparr>db_sds := map (\<lambda>d. if dp_serviceId d \<in> set linked then d\<lparr>dp_imageDigestId := digestId\<rparr> else d)
                                    (db_sds s1)\<rparr>
                else s1);
          row = \<lparr>ih_id = h_newId h (length (db_imageHistory s)), ih_imageId = imageId, ih_tag = tag, ih_digest = manifest,
                 ih_deployedBy = deployedBy, ih_status = status, ih_imageDigestId = digestId\<rparr>
      in (Inr row, s2\<lparr>db_imageHistory := db_imageHistory s2 @ [row]\<rparr>))"

section \<open>Lemmas\<close>

lemma keeps_remote [keeps_intros]:
  "(\<And>s w ops. f (s\<lparr>db_world := w, db_ops := ops\<rparr>) = f s) \<Longrightarrow> keeps f (remote h op)"
  by (auto simp: keeps_def remote_def split: prod.split)

lemma keeps_on_world [keeps_intros]:
  "(\<And>s w. f (s\<lparr>db_world := w\<rparr>) = f s) \<Longrightarrow> keeps f (on_world g)"
  by (auto simp: keeps_def on_world_def split: prod.split)

lemma keeps_emit [keeps_intros]:
  "(\<And>s. f (s\<lparr>db_events := db_events s @ [e]\<rparr>) = f s) \<Longrightarrow> keeps f (emit e)"
  by (auto simp: emit_def intro: keeps_intros)

lemma total_emit [intro!]: "total (emit e)"
  by (auto simp: emit_def)

lemma keeps_recordTagDeployment:
  assumes "\<And>s x. f (s\<lparr>db_images := x\<rparr>) = f s" and "\<And>s x. f (s\<lparr>db_sds := x\<rparr>) = f s"
    and "\<And>s x. f (s\<lparr>db_imageHistory := x\<rparr>) = f s"
  shows "keeps f (recordTagDeployment h i t d b st g)"
  using assms by (auto simp: keeps_def recordTagDeployment_def Let_def)

lemma preserves_on_world [preserves_intros]:
  "(\<And>s w. I s \<Longrightarrow> I (s\<lparr>db_world := w\<rparr>)) \<Longrightarrow> preserves I (on_world g)"
  by (auto simp: preserves_def on_world_def split: prod.split)

lemma preserves_remote [preserves_intros]:
  "(\<And>s w ops. I s \<Longrightarrow> I (s\<lparr>db_world := w, db_ops := ops\<rparr>)) \<Longrightarrow> preserves I (remote h op)"
  by (auto simp: preserves_def remote_def split: prod.split)

lemma preserves_emit [preserves_intros]:
  "(\<And>s. I s \<Longrightarrow> I (s\<lparr>db_events := db_events s @ [e]\<rparr>)) \<Longrightarrow> preserves I (emit e)"
  by (auto simp: emit_def intro: preserves_intros)

lemma total_recordTagDeployment [intro!]: "total (recordTagDeployment h i t d b st g)"
  by (auto simp: total_def recordTagDeployment_def Let_def)

lemma keeps_on_store [keeps_intros]: "(\<And>l. keeps (\<lambda>s. f (l, s)) m) \<Longrightarrow> keeps f (on_store m)"
  by (auto simp: keeps_def on_store_def split: prod.split) (metis snd_conv)

lemma total_on_store [intro!]: "total m \<Longrightarrow> total (on_store m)"
  by (auto simp: total_def on_store_def split: prod.split) (metis fst_conv)

lemma preserves_on_store [preserves_intros]:
  "(\<And>l. preserves (\<lambda>s. I (l, s)) m) \<Longrightarrow> preserves I (on_store m)"
  by (auto simp: preserves_def on_store_def split: prod.split) (metis snd_conv)

lemma sh_word_escaped:
  "sh_word True (concat (map (\<lambda>c. if c = CHR 0x27 then [CHR 0x27, CHR 0x5C, CHR 0x27, CHR 0x27] else [c]) v)
      @ CHR 0x27 # rest) = map_option (\<lambda>(w, r). (v @ w, r)) (sh_word False rest)"
proof (induction v)
  case Nil
  then show ?case by (cases "sh_word False rest") auto
next
  case (Cons c v)
  show ?case
  proof (cases "c = CHR 0x27")
    case True
    obtain d ds where d: "concat (map (\<lambda>c. if c = CHR 0x27 then [CHR 0x27, CHR 0x5C, CHR 0x27, CHR 0x27] else [c]) v)
      @ CHR 0x27 # rest = d # ds"
      by (cases "concat (map (\<lambda>c. if c = CHR 0x27 then [CHR 0x27, CHR 0x5C, CHR 0x27, CHR 0x27] else [c]) v)") auto
    with True Cons show ?thesis
      by (cases "sh_word False rest") auto
  next
    case False
    with Cons show ?thesis by (cases "sh_word False rest") auto
  qed
qed

text \<open>C25: A shell reads an escaped value back as that value, exactly one literal word, whatever
  characters it holds, and leaves the rest of the command line untouched.\<close>

theorem shell_reads_back:
  "sh_word False (shellEscape v @ CHR '' '' # rest) = Some (v, CHR '' '' # rest)"
proof -
  let ?esc = "concat (map (\<lambda>c. if c = CHR 0x27 then [CHR 0x27, CHR 0x5C, CHR 0x27, CHR 0x27] else [c]) v)"
  have "sh_word False (CHR '' '' # rest) = Some ([], CHR '' '' # rest)"
    by (cases rest) auto
  with sh_word_escaped [of v "CHR '' '' # rest"]
  have "sh_word True (?esc @ CHR 0x27 # CHR '' '' # rest) = Some (v, CHR '' '' # rest)" by simp
  moreover obtain d ds where "?esc @ CHR 0x27 # CHR '' '' # rest = d # ds"
    by (cases ?esc) auto
  ultimately show ?thesis by (simp add: shellEscape_def)
qed

end
