(* ===== verification/Deploy.thy ===== *)
theory Deploy
  imports Hosts
begin

text \<open>
  \<open>src/services/deploy.ts\<close>: \<open>deployService\<close> (one deployment on one server) and
  \<open>deployServiceTemplate\<close> (all deployments of a service). The local variables of
  \<open>deployService\<close> that its \<open>catch\<close> block and its closures share (the log lines, the client, the
  flag \<open>containerLogsCaptured\<close>, the mutable \<open>deployment.composePath\<close>) are the record
  \<open>deploy_locals\<close>, which the handler threads beside the store. The generator of the artifacts
  (\<open>src/services/compose.ts\<close>), the registry login and the docker and SSH clients are functions of
  the host. The two background tasks of the success path (update check, image pruning) are not
  modelled: the handler does not wait for them and they do not write what is modelled here.
\<close>

section \<open>State of a run\<close>

record deploy_options =
  op_imageTag :: "string option"
  op_generateArtifacts :: bool
  op_pullImage :: bool
  op_previousTagOverride :: "string option option"

record deploy_result =
  dr_deploymentId :: ident
  dr_status :: deployment_status
  dr_logs :: "log_line list"
  dr_previousTag :: "string option"

record deploy_locals =
  lc_logs :: "log_line list"
  lc_client :: "client option"
  lc_captured :: bool
  lc_composePath :: "string option"

record deploy_ctx =
  dc_sd :: sd_row
  dc_server :: server_row
  dc_service :: service_row
  dc_image :: image_row
  dc_imageTag :: string
  dc_rowId :: ident
  dc_userId :: "ident option"
  dc_triggeredBy :: string
  dc_startTime :: millis
  dc_options :: deploy_options

type_synonym ('w, 'z, 'a) deploy_io = "(deploy_locals \<times> ('w, 'z) store_scheme, 'a) io"

definition log_plain :: "string \<Rightarrow> ('w, 'z, unit) deploy_io" where
  "log_plain msg = writes (apfst (\<lambda>l. l\<lparr>lc_logs := lc_logs l @ [Plain msg]\<rparr>))"

definition log :: "'w host \<Rightarrow> string \<Rightarrow> ('w, 'z, unit) deploy_io" where
  "log h msg = writes (\<lambda>(l, s). (l\<lparr>lc_logs := lc_logs l @ [Stamped (now h s) msg]\<rparr>, s))"

text \<open>\<open>path.dirname\<close> of Node on POSIX paths: drop trailing separators, then the last component.\<close>

definition dirname :: "string \<Rightarrow> string" where
  "dirname p =
     (if p = [] then ''.''
      else let cut = dropWhile (\<lambda>c. c = CHR ''/'') (dropWhile (\<lambda>c. c \<noteq> CHR ''/'')
                        (dropWhile (\<lambda>c. c = CHR ''/'') (rev p)));
               keep = drop 1 (dropWhile (\<lambda>c. c \<noteq> CHR ''/'') (dropWhile (\<lambda>c. c = CHR ''/'') (rev p)))
           in if keep = [] then (if hd p = CHR ''/'' then ''/'' else ''.'')
              else if cut = [] \<and> keep = ''/'' then ''//'' else rev keep)"

section \<open>The phases of a deployment\<close>

text \<open>\<open>captureContainerLogs\<close>: once, best effort, only when there is a client.\<close>

definition captureContainerLogs :: "'w host \<Rightarrow> deploy_ctx \<Rightarrow> ('w, 'z, unit) deploy_io" where
  "captureContainerLogs h c =
     andThen (reads (\<lambda>(l, s). (lc_client l, lc_captured l, db_defaultLogLines s))) (\<lambda>(client, captured, tail).
     case client of
       None \<Rightarrow> ret ()
     | Some cl \<Rightarrow>
         if \<not> cl_docker cl \<or> captured then ret ()
         else let name = dp_containerName (dc_sd c) in
           catching
             (andThen (on_store (on_world (h_containerLogs h (srv_id (dc_server c)) name tail))) (\<lambda>out.
              andThen (log_plain (CHR 0x0A # ''--- container logs ('' @ name @ '', last '' @ nat_str tail @ '' lines) ---'')) (\<lambda>_.
              andThen (log_plain (if js_trim out = [] then ''(no output)'' else js_trim out)) (\<lambda>_.
              writes (apfst (\<lambda>l. l\<lparr>lc_captured := True\<rparr>))))))
             (\<lambda>err. log_plain (CHR 0x0A # ''--- container logs unavailable ('' @ name @ ''): '' @ err @ '' ---'')))"

text \<open>How many deployments on the server use a compose file.\<close>

definition compose_users :: "('w, 'z) store_scheme \<Rightarrow> ident \<Rightarrow> string \<Rightarrow> nat" where
  "compose_users s serverId composePath =
     length (filter (\<lambda>d. dp_serverId d = serverId \<and> dp_composePath d = Some composePath) (db_sds s))"

definition deployDir :: "deploy_ctx \<Rightarrow> string" where
  "deployDir c = (case dp_composePath (dc_sd c) of
     Some p \<Rightarrow> if p = [] then ''/opt/'' @ se_name (dc_service c) else dirname p
   | None \<Rightarrow> ''/opt/'' @ se_name (dc_service c))"

definition connect_client :: "'w host \<Rightarrow> deploy_ctx \<Rightarrow> ('w, 'z, client) deploy_io" where
  "connect_client h c =
     andThen (on_store (on_world (h_createClient h (dc_server c)))) (\<lambda>cl.
     andThen (writes (apfst (\<lambda>l. l\<lparr>lc_client := Some cl\<rparr>))) (\<lambda>_.
     if \<not> cl_docker cl
     then throw (case cl_error cl of Some e \<Rightarrow> if e = [] then ''Failed to create Docker client'' else e
                   | None \<Rightarrow> ''Failed to create Docker client'')
     else
       andThen (whenever (cl_needsConnect cl \<and> cl_ssh cl)
                  (andThen (on_store (remote h (OpConnect (srv_id (dc_server c))))) (\<lambda>_. ret ()))) (\<lambda>_.
       andThen (log h (''Connected to '' @ srv_name (dc_server c) @ '' ('' @ cl_mode cl @ '' mode)'')) (\<lambda>_.
       andThen (whenever (cl_ssh cl)
                  (andThen (on_store (remote h (OpExec (srv_id (dc_server c)) (''mkdir -p '' @ shellEscape (deployDir c)))))
                     (\<lambda>_. ret ()))) (\<lambda>_.
       ret cl)))))"

definition ends_with :: "string \<Rightarrow> string \<Rightarrow> bool" where
  "ends_with suffix s \<longleftrightarrow> length suffix \<le> length s \<and> drop (length s - length suffix) s = suffix"

definition upload_config :: "'w host \<Rightarrow> deploy_ctx \<Rightarrow> config_artifact \<Rightarrow> ('w, 'z, unit) deploy_io" where
  "upload_config h c cf =
     (let srv = srv_id (dc_server c); path = ca_mountPath cf in
      andThen (on_store (remote h (OpExec srv (''mkdir -p '' @ shellEscape (dirname path))))) (\<lambda>_.
      andThen (log h (''Writing config file: '' @ ca_name cf @ '' -> '' @ path)) (\<lambda>_.
      andThen (on_store (remote h (if ca_isBinary cf then OpWriteBinary srv path (ca_content cf)
                                   else OpWriteFile srv path (ca_content cf)))) (\<lambda>_.
      whenever (ends_with ''.env'' (ca_name cf))
        (andThen (on_store (remote h (OpExec srv (''chmod 600 '' @ shellEscape path)))) (\<lambda>_. ret ()))))))"

text \<open>Read back the file that is validated: the shared operator file, or the generated content.\<close>

definition compose_to_validate :: "'w host \<Rightarrow> deploy_ctx \<Rightarrow> bool \<Rightarrow> string \<Rightarrow> artifacts \<Rightarrow> ('w, 'z, string) deploy_io" where
  "compose_to_validate h c shared composePath art =
     (if shared then
        andThen (on_store (remote h (OpExec (srv_id (dc_server c)) (''cat '' @ shellEscape composePath)))) (\<lambda>existing.
        if ex_code existing \<noteq> 0
        then throw (''Failed to read shared compose file at '' @ composePath @ '': ''
                    @ (if js_trim (ex_stderr existing) = [] then ''file not found'' else js_trim (ex_stderr existing)))
        else ret (ex_stdout existing))
      else ret (ar_composeContent art))"

definition write_compose :: "'w host \<Rightarrow> deploy_ctx \<Rightarrow> bool \<Rightarrow> string \<Rightarrow> artifacts \<Rightarrow> ('w, 'z, unit) deploy_io" where
  "write_compose h c shared composePath art =
     (if shared then log h (''Compose file '' @ composePath @ '' is shared and operator-maintained; not rewriting it'')
      else let srv = srv_id (dc_server c); tmp = composePath @ ''.tmp.'' @ dc_rowId c in
        andThen (log h (''Writing compose file to '' @ composePath)) (\<lambda>_.
        andThen (on_store (remote h (OpWriteFile srv tmp (ar_composeContent art)))) (\<lambda>_.
        andThen (on_store (remote h (OpExec srv (''mv -f '' @ shellEscape tmp @ '' '' @ shellEscape composePath)))) (\<lambda>_.
        ret ()))))"

text \<open>The opt-in that records the generated path on a deployment that has none.\<close>

definition manage_compose_path :: "'w host \<Rightarrow> deploy_ctx \<Rightarrow> string \<Rightarrow> ('w, 'z, unit) deploy_io" where
  "manage_compose_path h c composePath =
     andThen (reads (\<lambda>(l, s). (lc_composePath l, db_autoManageCompose s))) (\<lambda>(current, auto).
     if truthy current then ret ()
     else if srv_environmentId (dc_server c) \<in> set auto then
       andThen (on_store (writes (\<lambda>s. s\<lparr>db_sds := update_row dp_id (dp_id (dc_sd c))
                  (\<lambda>d. d\<lparr>dp_composePath := Some composePath\<rparr>) (db_sds s)\<rparr>))) (\<lambda>_.
       andThen (writes (apfst (\<lambda>l. l\<lparr>lc_composePath := Some composePath\<rparr>))) (\<lambda>_.
       on_store (emit (AuditEntry ''service_deployment_compose_path_set'' (dp_id (dc_sd c))
                  (srv_environmentId (dc_server c)) [(''source'', Some ''generator''), (''composePath'', Some composePath)]))))
     else log h ''Auto-managed compose is disabled for this environment; leaving composePath unset. Enable Auto-Manage Compose Files in Operations settings or set a compose path manually to deploy via compose.'')"

definition generate_artifacts :: "'w host \<Rightarrow> deploy_ctx \<Rightarrow> ('w, 'z, unit) deploy_io" where
  "generate_artifacts h c =
     andThen (log h ''Generating deployment artifacts...'') (\<lambda>_.
     andThen (whenever (dc_imageTag c \<noteq> se_imageTag (dc_service c))
                (on_store (writes (\<lambda>s. s\<lparr>db_services := update_row se_id (se_id (dc_service c))
                   (\<lambda>e. e\<lparr>se_imageTag := dc_imageTag c\<rparr>) (db_services s)\<rparr>)))) (\<lambda>_.
     andThen (reads (\<lambda>(l, s). case List.find (\<lambda>e. se_id e = se_id (dc_service c)) (db_services s) of
                Some e \<Rightarrow> e | None \<Rightarrow> dc_service c)) (\<lambda>service.
     andThen (on_store (on_world (h_generateArtifacts h (dc_sd c) service))) (\<lambda>art.
     andThen (reads (\<lambda>(l, s). (lc_composePath l, s))) (\<lambda>(current, s).
     let composePath = (if truthy current then the current else deployDir c @ ''/'' @ ar_composeName art);
         shared = current \<noteq> None \<and> 1 < compose_users s (dp_serverId (dc_sd c)) composePath in
     andThen (compose_to_validate h c shared composePath art) (\<lambda>content.
     case validateGeneratedCompose (h_parseCompose h) content (dp_containerName (dc_sd c)) of
       Some e \<Rightarrow> throw e
     | None \<Rightarrow>
         andThen (write_compose h c shared composePath art) (\<lambda>_.
         andThen (for_each (upload_config h c) (ar_configFiles art)) (\<lambda>_.
         andThen (on_store (writes (\<lambda>s. s\<lparr>db_artifacts := db_artifacts s @ [(dc_rowId c, art)]\<rparr>))) (\<lambda>_.
         andThen (log h ''Artifacts saved'') (\<lambda>_.
         manage_compose_path h c composePath))))))))))"

definition registry_auth :: "'w host \<Rightarrow> deploy_ctx \<Rightarrow> client \<Rightarrow> ('w, 'z, unit) deploy_io" where
  "registry_auth h c cl =
     (case ci_registryConnectionId (dc_image c) of
        None \<Rightarrow> ret ()
      | Some r \<Rightarrow>
          if r = [] then ret ()
          else if cl_ssh cl then
            andThen (on_store (on_world (h_registryLogin h (srv_id (dc_server c)) r))) (\<lambda>(loggedIn, hostName).
            whenever loggedIn
              (log h (''Logged in to registry '' @ (if truthy hostName then the hostName else ''docker.io''))))
          else andThen (on_store (on_world (h_socketAuth h r))) (\<lambda>_. ret ()))"

definition pull_image :: "'w host \<Rightarrow> deploy_ctx \<Rightarrow> ('w, 'z, unit) deploy_io" where
  "pull_image h c =
     (let fullImage = ci_imageName (dc_image c) @ '':'' @ dc_imageTag c in
      andThen (log h (''Pulling image: '' @ fullImage)) (\<lambda>_.
      andThen (on_store (remote h (OpPull (srv_id (dc_server c)) fullImage))) (\<lambda>_.
      log h ''Image pulled successfully'')))"

definition roll_out :: "'w host \<Rightarrow> deploy_ctx \<Rightarrow> client \<Rightarrow> ('w, 'z, unit) deploy_io" where
  "roll_out h c cl =
     andThen (reads (\<lambda>(l, s). (lc_composePath l, s))) (\<lambda>(current, s).
     let srv = srv_id (dc_server c); name = dp_containerName (dc_sd c) in
     if truthy current \<and> cl_ssh cl then
       let path = the current in
       andThen (log h (''Running docker compose up for '' @ path)) (\<lambda>_.
       andThen (on_store (remote h (OpComposePull srv path name))) (\<lambda>_.
       andThen (on_store (remote h (OpComposeUp srv path name True
                  (1 < compose_users s (dp_serverId (dc_sd c)) path)))) (\<lambda>_.
       log h ''Compose up completed'')))
     else
       andThen (log h (''Restarting container: '' @ name)) (\<lambda>_.
       andThen (on_store (remote h (OpRestart srv name))) (\<lambda>_.
       log h ''Container restarted'')))"

definition verify_running :: "'w host \<Rightarrow> deploy_ctx \<Rightarrow> ('w, 'z, unit) deploy_io" where
  "verify_running h c =
     (let name = dp_containerName (dc_sd c) in
      andThen (on_store (on_world (h_listContainers h (srv_id (dc_server c))))) (\<lambda>containers.
      case List.find (\<lambda>k. fst k = name) containers of
        Some (_, state) \<Rightarrow>
          if state = ''running'' then log h (''Container '' @ name @ '' is running'')
          else throw (''Container '' @ name @ '' is not running after deploy'')
      | None \<Rightarrow> throw (''Container '' @ name @ '' is not running after deploy'')))"

text \<open>\<open>sshClient.disconnect()\<close>\<close>

definition disconnect :: "'w host \<Rightarrow> deploy_ctx \<Rightarrow> ('w, 'z, unit) deploy_io" where
  "disconnect h c =
     andThen (reads (\<lambda>(l, s). lc_client l)) (\<lambda>client.
     whenever (case client of Some cl \<Rightarrow> cl_ssh cl | None \<Rightarrow> False)
       (andThen (trap (on_store (remote h (OpDisconnect (srv_id (dc_server c)))))) (\<lambda>_. ret ())))"

text \<open>Both ends of the handler write the \<open>Deployment\<close> row, the image history and the events.\<close>

definition finish_row :: "'w host \<Rightarrow> deploy_ctx \<Rightarrow> deployment_status \<Rightarrow> string \<Rightarrow> ('w, 'z, unit) deploy_io" where
  "finish_row h c status historyStatus =
     andThen (on_store (recordTagDeployment h (ci_id (dc_image c)) (dc_imageTag c) None (Some (dc_triggeredBy c))
                historyStatus None)) (\<lambda>entry.
     andThen (writes (\<lambda>(l, s). (l, s\<lparr>db_deployments := update_row de_id (dc_rowId c)
                (\<lambda>d. d\<lparr>de_status := status, de_logs := lc_logs l, de_completedAt := Some (now h s),
                      de_durationMs := Some (now h s - dc_startTime c), de_historyId := Some (ih_id entry)\<rparr>)
                (db_deployments s)\<rparr>))) (\<lambda>_.
     on_store (emit (DeployProgress (dc_rowId c) (se_id (dc_service c)) status (srv_environmentId (dc_server c))))))"

definition outcome_payload :: "deploy_ctx \<Rightarrow> (string \<times> string option) list" where
  "outcome_payload c =
     [(''serviceName'', Some (se_name (dc_service c))), (''serviceId'', Some (se_id (dc_service c))),
      (''imageName'', Some (ci_imageName (dc_image c))), (''imageTag'', Some (dc_imageTag c)),
      (''serverName'', Some (srv_name (dc_server c)))]"

definition deploy_succeeded :: "'w host \<Rightarrow> deploy_ctx \<Rightarrow> ('w, 'z, unit) deploy_io" where
  "deploy_succeeded h c =
     andThen (writes (\<lambda>(l, s). (l, s\<lparr>db_sds := update_row dp_id (dp_id (dc_sd c))
                (\<lambda>d. d\<lparr>dp_status := ''running'', dp_discoveryStatus := ''found'',
                      dp_lastCheckedAt := Some (now h s), dp_lastDeployedAt := Some (now h s)\<rparr>) (db_sds s)\<rparr>))) (\<lambda>_.
     andThen (finish_row h c DepSuccess ''success'') (\<lambda>_.
     andThen (on_store (emit (SystemNotice ''system.deployment_success'' (srv_environmentId (dc_server c)) (outcome_payload c)))) (\<lambda>_.
     on_store (emit (Webhook ''deployment.completed'' (srv_environmentId (dc_server c))
                ((''deploymentId'', Some (dc_rowId c)) # outcome_payload c @ [(''status'', Some ''success'')]))))))"

definition deploy_failed :: "'w host \<Rightarrow> deploy_ctx \<Rightarrow> string \<Rightarrow> ('w, 'z, unit) deploy_io" where
  "deploy_failed h c err =
     andThen (log h (''ERROR: '' @ err)) (\<lambda>_.
     andThen (captureContainerLogs h c) (\<lambda>_.
     andThen (disconnect h c) (\<lambda>_.
     andThen (finish_row h c DepFailed ''failed'') (\<lambda>_.
     andThen (on_store (emit (SystemNotice ''system.deployment_failed'' (srv_environmentId (dc_server c))
                (outcome_payload c @ [(''error'', Some err)])))) (\<lambda>_.
     on_store (emit (Webhook ''deployment.failed'' (srv_environmentId (dc_server c))
                ((''deploymentId'', Some (dc_rowId c)) # outcome_payload c @ [(''status'', Some ''failed''), (''error'', Some err)]))))))))"

text \<open>The \<open>try\<close> block up to the first write of a success.\<close>

definition deploy_body :: "'w host \<Rightarrow> deploy_ctx \<Rightarrow> ('w, 'z, unit) deploy_io" where
  "deploy_body h c =
     andThen (on_store (writes (\<lambda>s. s\<lparr>db_deployments := update_row de_id (dc_rowId c)
                (\<lambda>d. d\<lparr>de_status := DepDeploying\<rparr>) (db_deployments s)\<rparr>))) (\<lambda>_.
     andThen (on_store (emit (DeployProgress (dc_rowId c) (se_id (dc_service c)) DepDeploying (srv_environmentId (dc_server c))))) (\<lambda>_.
     andThen (log h (''Starting deployment of '' @ se_name (dc_service c) @ '' on '' @ srv_name (dc_server c)
                @ '' with tag '' @ dc_imageTag c)) (\<lambda>_.
     andThen (connect_client h c) (\<lambda>cl.
     andThen (whenever (op_generateArtifacts (dc_options c) \<and> cl_ssh cl) (generate_artifacts h c)) (\<lambda>_.
     andThen (registry_auth h c cl) (\<lambda>_.
     andThen (whenever (op_pullImage (dc_options c)) (pull_image h c)) (\<lambda>_.
     andThen (roll_out h c cl) (\<lambda>_.
     andThen (verify_running h c) (\<lambda>_.
     andThen (captureContainerLogs h c) (\<lambda>_.
     andThen (whenever (cl_ssh cl) (andThen (on_store (remote h (OpDisconnect (srv_id (dc_server c))))) (\<lambda>_. ret ()))) (\<lambda>_.
     deploy_succeeded h c)))))))))))"

text \<open>The joined row of \<open>findUniqueOrThrow\<close> with its server, service and container image.\<close>

definition load_sd :: "('w, 'z) store_scheme \<Rightarrow> ident \<Rightarrow> (sd_row \<times> server_row \<times> service_row \<times> image_row) option" where
  "load_sd s sdId =
     (case List.find (\<lambda>d. dp_id d = sdId) (db_sds s) of
        None \<Rightarrow> None
      | Some d \<Rightarrow>
         (case (List.find (\<lambda>v. srv_id v = dp_serverId d) (db_servers s), List.find (\<lambda>e. se_id e = dp_serviceId d) (db_services s)) of
            (Some v, Some e) \<Rightarrow>
              (case List.find (\<lambda>i. ci_id i = se_imageId e) (db_images s) of
                 Some i \<Rightarrow> Some (d, v, e, i) | None \<Rightarrow> None)
          | _ \<Rightarrow> None))"

definition deployment_ctx :: "'w host \<Rightarrow> ident \<Rightarrow> string \<Rightarrow> ident option \<Rightarrow> deploy_options \<Rightarrow> ('w, 'z) store_scheme
    \<Rightarrow> sd_row \<times> server_row \<times> service_row \<times> image_row \<Rightarrow> deploy_ctx" where
  "deployment_ctx h sdId triggeredBy userId options s = (\<lambda>(d, v, e, i).
     \<lparr>dc_sd = d, dc_server = v, dc_service = e, dc_image = i,
      dc_imageTag = (if truthy (op_imageTag options) then the (op_imageTag options) else se_imageTag e),
      dc_rowId = h_newId h (length (db_deployments s)), dc_userId = userId, dc_triggeredBy = triggeredBy,
      dc_startTime = now h s, dc_options = options\<rparr>)"

definition previous_tag :: "deploy_ctx \<Rightarrow> string option" where
  "previous_tag c = (case op_previousTagOverride (dc_options c) of
     Some t \<Rightarrow> t | None \<Rightarrow> Some (se_imageTag (dc_service c)))"

definition deployment_row_of :: "deploy_ctx \<Rightarrow> ident \<Rightarrow> deployment_row" where
  "deployment_row_of c sdId =
     \<lparr>de_id = dc_rowId c, de_imageTag = dc_imageTag c, de_previousTag = previous_tag c, de_status = DepPending,
      de_triggeredBy = dc_triggeredBy c, de_serviceId = se_id (dc_service c), de_serviceDeploymentId = sdId,
      de_userId = dc_userId c, de_logs = [], de_completedAt = None, de_durationMs = None, de_historyId = None\<rparr>"

text \<open>The \<open>try\<close> and the \<open>catch\<close>, each with the result it returns.\<close>

definition run_deployment :: "'w host \<Rightarrow> deploy_ctx \<Rightarrow> ('w, 'z, deployment_status) deploy_io" where
  "run_deployment h c =
     catching (andThen (deploy_body h c) (\<lambda>_. ret DepSuccess))
       (\<lambda>err. andThen (deploy_failed h c err) (\<lambda>_. ret DepFailed))"

definition deployService :: "'w host \<Rightarrow> ident \<Rightarrow> string \<Rightarrow> ident option \<Rightarrow> deploy_options
    \<Rightarrow> (('w, 'z) store_scheme, deploy_result) io" where
  "deployService h sdId triggeredBy userId options =
     andThen (reads (\<lambda>s. (s, load_sd s sdId))) (\<lambda>(s, joined).
     andThen (the_row joined) (\<lambda>j.
     let c = deployment_ctx h sdId triggeredBy userId options s j in
     andThen (writes (\<lambda>s. s\<lparr>db_deployments := db_deployments s @ [deployment_row_of c sdId]\<rparr>)) (\<lambda>_ s.
     let locals = \<lparr>lc_logs = [], lc_client = None, lc_captured = False, lc_composePath = dp_composePath (dc_sd c)\<rparr> in
     (case run_deployment h c (locals, s) of
        (r, l, s') \<Rightarrow>
          (map_sum id (\<lambda>status. \<lparr>dr_deploymentId = dc_rowId c, dr_status = status, dr_logs = lc_logs l,
             dr_previousTag = previous_tag c\<rparr>) r, s')))))"

section \<open>A service on all its servers\<close>

record template_result =
  tr_results :: "(ident \<times> deploy_result option \<times> string option) list"
  tr_halted :: bool
  tr_error :: "string option"

fun deploy_each_sequential :: "(ident \<Rightarrow> (('w, 'z) store_scheme, deploy_result) io) \<Rightarrow> ident list
    \<Rightarrow> (('w, 'z) store_scheme, (ident \<times> deploy_result option \<times> string option) list \<times> bool) io" where
  "deploy_each_sequential deploy [] = ret ([], False)"
| "deploy_each_sequential deploy (sd # sds) =
     andThen (trap (deploy sd)) (\<lambda>r.
     case r of
       Inl e \<Rightarrow> ret ([(sd, None, Some e)], True)
     | Inr result \<Rightarrow>
         if dr_status result \<noteq> DepSuccess then ret ([(sd, Some result, None)], True)
         else andThen (deploy_each_sequential deploy sds) (\<lambda>(results, halted).
              ret ((sd, Some result, None) # results, halted)))"

text \<open>The parallel strategy, with the fan-out in list order.\<close>

fun deploy_each_parallel :: "(ident \<Rightarrow> (('w, 'z) store_scheme, deploy_result) io) \<Rightarrow> ident list
    \<Rightarrow> (('w, 'z) store_scheme, (ident \<times> deploy_result option \<times> string option) list) io" where
  "deploy_each_parallel deploy [] = ret []"
| "deploy_each_parallel deploy (sd # sds) =
     andThen (trap (deploy sd)) (\<lambda>r.
     andThen (deploy_each_parallel deploy sds) (\<lambda>results.
     ret ((case r of Inl e \<Rightarrow> (sd, None, Some e) | Inr result \<Rightarrow> (sd, Some result, None)) # results)))"

definition deployServiceTemplate :: "'w host \<Rightarrow> ident \<Rightarrow> string \<Rightarrow> ident option \<Rightarrow> string option \<Rightarrow> deploy_options
    \<Rightarrow> (('w, 'z) store_scheme, template_result) io" where
  "deployServiceTemplate h serviceId triggeredBy userId strategy options =
     andThen (reads (\<lambda>s. (List.find (\<lambda>e. se_id e = serviceId) (db_services s),
                map dp_id (filter (\<lambda>d. dp_serviceId d = serviceId) (db_sds s))))) (\<lambda>(found, sds).
     andThen (the_row found) (\<lambda>service.
     if sds = [] then
       ret \<lparr>tr_results = [], tr_halted = True,
            tr_error = Some ''Service has no deployments - add at least one server before deploying''\<rparr>
     else
       let deploy = (\<lambda>sd. deployService h sd triggeredBy userId
             (options\<lparr>op_previousTagOverride := Some (Some (se_imageTag service))\<rparr>)) in
       if nullish strategy (se_deployStrategy service) = ''parallel'' then
         andThen (deploy_each_parallel deploy sds) (\<lambda>results.
         ret \<lparr>tr_results = results, tr_halted = False, tr_error = None\<rparr>)
       else
         andThen (deploy_each_sequential deploy sds) (\<lambda>(results, halted).
         ret \<lparr>tr_results = results, tr_halted = halted, tr_error = None\<rparr>)))"

section \<open>Frames and totality of the phases\<close>

lemma total_log [intro!]: "total (log h m)" "total (log_plain m)"
  by (auto simp: log_def log_plain_def)

lemmas phase_defs = log_def log_plain_def captureContainerLogs_def connect_client_def upload_config_def
  compose_to_validate_def write_compose_def manage_compose_path_def generate_artifacts_def registry_auth_def
  pull_image_def roll_out_def verify_running_def disconnect_def finish_row_def deploy_succeeded_def
  deploy_failed_def deploy_body_def Let_def

text \<open>No phase changes which deployment rows there are.\<close>

lemma keeps_row_ids_body [keeps_intros]:
  "keeps (\<lambda>st. map de_id (db_deployments (snd st))) (deploy_body h c)"
  unfolding phase_defs
  by (intro keeps_intros keeps_recordTagDeployment) (simp_all add: case_prod_beta)

lemma keeps_row_ids_failed [keeps_intros]:
  "keeps (\<lambda>st. map de_id (db_deployments (snd st))) (deploy_failed h c err)"
  unfolding phase_defs
  by (intro keeps_intros keeps_recordTagDeployment) (simp_all add: case_prod_beta)

lemma total_finish_row [intro!]: "total (finish_row h c st hst)"
  by (auto simp: finish_row_def)

lemma total_deploy_failed: "total (deploy_failed h c err)"
  by (auto simp: deploy_failed_def captureContainerLogs_def disconnect_def Let_def)

section \<open>Every deployment settles\<close>

definition settled :: "deploy_ctx \<Rightarrow> deployment_status \<Rightarrow> deploy_locals \<times> ('w, 'z) store_scheme \<Rightarrow> bool" where
  "settled c status st \<longleftrightarrow>
     (\<forall>d \<in> set (db_deployments (snd st)). de_id d = dc_rowId c \<longrightarrow>
        de_status d = status \<and> de_logs d = lc_logs (fst st) \<and> de_completedAt d \<noteq> None)"

lemma settled_obs:
  "settled c status s \<Longrightarrow> (fst s', db_deployments (snd s')) = (fst s, db_deployments (snd s)) \<Longrightarrow> settled c status s'"
  by (simp add: settled_def)

lemma finish_row_settles: "ensures (finish_row h c status hst) (\<lambda>_. settled c status)"
proof -
  have "ensures (writes (\<lambda>(l, s). (l, s\<lparr>db_deployments := update_row de_id (dc_rowId c)
                (\<lambda>d. d\<lparr>de_status := status, de_logs := lc_logs l, de_completedAt := Some (now h s),
                      de_durationMs := Some (now h s - dc_startTime c), de_historyId := Some hid\<rparr>)
                (db_deployments s)\<rparr>))) (\<lambda>_. settled c status)" for hid
    by (auto simp: ensures_def io_simps settled_def update_row_def)
  note row = this
  show ?thesis
    unfolding finish_row_def
    by (rule ensures_andThen, rule ensures_keeps [OF row, where obs = "\<lambda>st. (fst st, db_deployments (snd st))"])
       (auto intro!: keeps_intros keeps_recordTagDeployment intro: settled_obs)
qed

lemma deploy_succeeded_settles: "ensures (deploy_succeeded h c) (\<lambda>_. settled c DepSuccess)"
  unfolding deploy_succeeded_def
  by (intro ensures_andThen [of "\<lambda>_. andThen (finish_row h c DepSuccess ''success'') _"]
        ensures_keeps [OF finish_row_settles, where obs = "\<lambda>st. (fst st, db_deployments (snd st))"])
     (auto intro!: keeps_intros intro: settled_obs)

lemma deploy_body_settles: "ensures (deploy_body h c) (\<lambda>_. settled c DepSuccess)"
  unfolding deploy_body_def by (intro ensures_andThen deploy_succeeded_settles)

lemma deploy_failed_settles: "ensures (deploy_failed h c err) (\<lambda>_. settled c DepFailed)"
  unfolding deploy_failed_def
  by (intro ensures_andThen [of "\<lambda>_. andThen (captureContainerLogs h c) _"]
        ensures_andThen [of "\<lambda>_. andThen (disconnect h c) _"]
        ensures_andThen [of "\<lambda>_. andThen (finish_row h c DepFailed ''failed'') _"]
        ensures_keeps [OF finish_row_settles, where obs = "\<lambda>st. (fst st, db_deployments (snd st))"])
     (auto intro!: keeps_intros intro: settled_obs)

lemma keeps_row_ids_run [keeps_intros]:
  "keeps (\<lambda>st. map de_id (db_deployments (snd st))) (run_deployment h c)"
  unfolding run_deployment_def by (intro keeps_intros)

lemma run_deployment_cases:
  assumes "run_deployment h c st = (r, st')"
  obtains (success) "deploy_body h c st = (Inr (), st')" "r = Inr DepSuccess" "settled c DepSuccess st'"
  | (failure) err s1 where "deploy_body h c st = (Inl err, s1)" "deploy_failed h c err s1 = (Inr (), st')"
      "r = Inr DepFailed" "settled c DepFailed st'"
  using assms unfolding run_deployment_def
proof (rule catching_cases)
  fix x assume "andThen (deploy_body h c) (\<lambda>_. ret DepSuccess) st = (Inr x, st')" and "r = Inr x"
  then have body: "deploy_body h c st = (Inr (), st')" "r = Inr DepSuccess"
    by (auto simp: io_simps elim!: andThen_InrE)
  with success ensuresD [OF deploy_body_settles body(1)] show thesis by simp
next
  fix err s1 assume "andThen (deploy_body h c) (\<lambda>_. ret DepSuccess) st = (Inl err, s1)"
    and handler: "andThen (deploy_failed h c err) (\<lambda>_. ret DepFailed) s1 = (r, st')"
  then have body: "deploy_body h c st = (Inl err, s1)"
    by (auto simp: io_simps elim!: andThen_cases)
  obtain s2 where "deploy_failed h c err s1 = (Inr (), s2)"
    using totalD [OF total_deploy_failed, of h c err s1] by auto
  with handler have "deploy_failed h c err s1 = (Inr (), st')" "r = Inr DepFailed"
    by (auto simp: andThen_def io_simps)
  with body failure ensuresD [OF deploy_failed_settles this(1)] show thesis by blast
qed

lemma deployService_cases:
  assumes "load_sd s sdId = Some j"
  obtains c l status l' s' where "c = deployment_ctx h sdId triggeredBy userId options s j"
    "l = \<lparr>lc_logs = [], lc_client = None, lc_captured = False, lc_composePath = dp_composePath (dc_sd c)\<rparr>"
    "run_deployment h c (l, s\<lparr>db_deployments := db_deployments s @ [deployment_row_of c sdId]\<rparr>) = (Inr status, l', s')"
    "deployService h sdId triggeredBy userId options s =
       (Inr \<lparr>dr_deploymentId = dc_rowId c, dr_status = status, dr_logs = lc_logs l', dr_previousTag = previous_tag c\<rparr>, s')"
proof -
  let ?c = "deployment_ctx h sdId triggeredBy userId options s j"
  let ?l = "\<lparr>lc_logs = [], lc_client = None, lc_captured = False, lc_composePath = dp_composePath (dc_sd ?c)\<rparr>"
  obtain r l' s' where run:
    "run_deployment h ?c (?l, s\<lparr>db_deployments := db_deployments s @ [deployment_row_of ?c sdId]\<rparr>) = (r, l', s')"
    by (metis surj_pair)
  then obtain status where "r = Inr status" by (cases rule: run_deployment_cases) auto
  with run assms show ?thesis
    by (intro that [OF refl refl]) (auto simp: deployService_def the_row_def Let_def io_simps)
qed

text \<open>C18: A call of \<open>deployService\<close> on rows that exist never throws: it returns success or failure, the
  deployment row that it created carries that status, the returned log and a completion time, and no
  row is left in a pending or deploying state by it.\<close>

theorem deployService_settles:
  assumes "load_sd s sdId = Some j"
  shows "\<exists>r s'. deployService h sdId triggeredBy userId options s = (Inr r, s') \<and>
    dr_status r \<in> {DepSuccess, DepFailed} \<and> dr_deploymentId r \<in> de_id ` set (db_deployments s') \<and>
    (\<forall>d \<in> set (db_deployments s'). de_id d = dr_deploymentId r \<longrightarrow>
       de_status d = dr_status r \<and> de_logs d = dr_logs r \<and> de_completedAt d \<noteq> None)"
proof (rule deployService_cases [OF assms])
  fix c l status l' s'
  assume run: "run_deployment h c (l, s\<lparr>db_deployments := db_deployments s @ [deployment_row_of c sdId]\<rparr>) = (Inr status, l', s')"
    and call: "deployService h sdId triggeredBy userId options s =
       (Inr \<lparr>dr_deploymentId = dc_rowId c, dr_status = status, dr_logs = lc_logs l', dr_previousTag = previous_tag c\<rparr>, s')"
  from run have "status \<in> {DepSuccess, DepFailed} \<and> settled c status (l', s')"
    by (cases rule: run_deployment_cases) auto
  moreover have "map de_id (db_deployments s') = map de_id (db_deployments s) @ [dc_rowId c]"
    using keepsD [OF keeps_row_ids_run run] by (simp add: deployment_row_of_def)
  then have "de_id ` set (db_deployments s') = insert (dc_rowId c) (de_id ` set (db_deployments s))"
    by (metis list.set_map set_append list.simps(15) empty_set Un_insert_right sup_bot_right)
  ultimately show ?thesis using call by (auto simp: settled_def)
qed

text \<open>A host whose commands succeed: container \<open>web\<close> runs, and compose files define \<open>web\<close>.\<close>

definition sample_host :: "unit host" where
  "sample_host =
     \<lparr>h_now = (\<lambda>_. 5), h_newId = (\<lambda>n. ''id'' @ nat_str n),
      h_createClient = (\<lambda>_ w. (Inr \<lparr>cl_docker = True, cl_ssh = True, cl_error = None, cl_mode = ''ssh'', cl_needsConnect = True\<rparr>, w)),
      h_effect = (\<lambda>_ w. (Inr \<lparr>ex_code = 0, ex_stdout = [], ex_stderr = []\<rparr>, w)),
      h_listContainers = (\<lambda>_ w. (Inr [(''web'', ''running'')], w)),
      h_containerLogs = (\<lambda>_ _ _ w. (Inr ''up'', w)),
      h_containerHealth = (\<lambda>_ _ w. (Inr \<lparr>ch_state = ''running'', ch_running = True, ch_health = Some ''healthy''\<rparr>, w)),
      h_checkUrl = (\<lambda>_ _ w. (Inr \<lparr>ur_success = True, ur_statusCode = Some 200, ur_error = None\<rparr>, w)),
      h_sleep = (\<lambda>_ w. w),
      h_generateArtifacts = (\<lambda>_ _ w. (Inr \<lparr>ar_composeName = ''c.yml'', ar_composeContent = ''x'', ar_configFiles = []\<rparr>, w)),
      h_parseCompose = (\<lambda>_. ServiceKeys [''web'']),
      h_socketAuth = (\<lambda>_ w. (Inr None, w)),
      h_registryLogin = (\<lambda>_ _ w. (Inr (True, None), w))\<rparr>"

definition sample_sd :: "ident \<Rightarrow> string option \<Rightarrow> sd_row" where
  "sample_sd i path =
     \<lparr>dp_id = i, dp_serviceId = ''s'', dp_serverId = ''v'', dp_containerName = ''web'', dp_composePath = path,
      dp_status = ''unknown'', dp_discoveryStatus = ''pending'', dp_containerStatus = ''unknown'',
      dp_healthStatus = ''unknown'', dp_lastCheckedAt = None, dp_lastDeployedAt = None, dp_imageDigestId = None\<rparr>"

definition sample_store :: "unit store" where
  "sample_store =
     \<lparr>db_world = (), db_ops = [],
      db_servers = [\<lparr>srv_id = ''v'', srv_name = ''host'', srv_hostname = ''h'', srv_dockerMode = ''ssh'',
                     srv_serverType = ''remote'', srv_environmentId = ''e''\<rparr>],
      db_services = [\<lparr>se_id = ''s'', se_name = ''web'', se_imageTag = ''1'', se_imageId = ''i'',
                      se_deployStrategy = ''sequential'', se_healthCheckUrl = None, se_healthWaitMs = 10,
                      se_healthRetries = 3, se_healthIntervalMs = 5\<rparr>],
      db_sds = [sample_sd ''a'' None, sample_sd ''b'' (Some ''/srv/c.yml'')],
      db_images = [\<lparr>ci_id = ''i'', ci_imageName = ''r/web'', ci_registryConnectionId = None,
                    ci_updateAvailable = True, ci_deployedDigestId = None\<rparr>],
      db_digests = [], db_imageHistory = [], db_deployments = [], db_artifacts = [],
      db_autoManageCompose = [''e''], db_defaultLogLines = 50, db_events = []\<rparr>"

definition sample_deploy_options :: deploy_options where
  "sample_deploy_options =
     \<lparr>op_imageTag = Some ''2'', op_generateArtifacts = True, op_pullImage = True, op_previousTagOverride = None\<rparr>"

lemma sample_loads:
  "load_sd sample_store ''a'' =
     Some (sample_sd ''a'' None, hd (db_servers sample_store), hd (db_services sample_store), hd (db_images sample_store))"
  by code_simp

theorem deployService_settles_witness:
  "\<exists>r s'. deployService sample_host ''a'' ''ops'' None sample_deploy_options sample_store = (Inr r, s') \<and>
     dr_status r \<in> {DepSuccess, DepFailed}"
  using deployService_settles [OF sample_loads] by blast

text \<open>C19: When the machine never lists the deployment's container as running, a deployment of it fails:
  success is only reported after the container was seen running.\<close>

theorem container_down_never_succeeds:
  assumes "load_sd s sdId = Some (d, v, e, i)"
    and "\<And>w cs w'. h_listContainers h (srv_id v) w = (Inr cs, w') \<Longrightarrow>
      (case List.find (\<lambda>k. fst k = dp_containerName d) cs of Some k \<Rightarrow> snd k \<noteq> ''running'' | None \<Rightarrow> True)"
    and "deployService h sdId triggeredBy userId options s = (Inr r, s')"
  shows "dr_status r = DepFailed"
proof (rule deployService_cases [OF assms(1), of h triggeredBy userId options])
  fix c l status l' s1
  assume c: "c = deployment_ctx h sdId triggeredBy userId options s (d, v, e, i)"
    and run: "run_deployment h c (l, s\<lparr>db_deployments := db_deployments s @ [deployment_row_of c sdId]\<rparr>) = (Inr status, l', s1)"
    and call: "deployService h sdId triggeredBy userId options s =
       (Inr \<lparr>dr_deploymentId = dc_rowId c, dr_status = status, dr_logs = lc_logs l', dr_previousTag = previous_tag c\<rparr>, s1)"
  have ctx: "dc_server c = v" "dc_sd c = d" by (simp_all add: c deployment_ctx_def)
  have "ensures (verify_running h c) (\<lambda>_ _. False)"
    unfolding ensures_def verify_running_def Let_def ctx
    by (auto simp: on_store_def on_world_def io_simps dest!: assms(2)
        split: prod.splits option.splits if_splits elim!: andThen_InrE)
  note down = this
  have "ensures (deploy_body h c) (\<lambda>_ _. False)"
    unfolding deploy_body_def
    by (rule ensures_andThen, rule ensures_andThen, rule ensures_andThen, rule ensures_andThen, rule ensures_andThen,
        rule ensures_andThen, rule ensures_andThen, rule ensures_andThen, rule ensures_first, rule down)
  with run have "status = DepFailed"
    by (cases rule: run_deployment_cases) (auto dest: ensuresD)
  with call assms(3) show ?thesis by auto
qed

theorem container_down_never_succeeds_witness:
  "dr_status (projr (fst (deployService (sample_host\<lparr>h_listContainers := (\<lambda>_ w. (Inr [(''web'', ''exited'')], w))\<rparr>)
     ''a'' ''ops'' None sample_deploy_options sample_store))) = DepFailed"
proof -
  let ?h = "sample_host\<lparr>h_listContainers := (\<lambda>_ w. (Inr [(''web'', ''exited'')], w))\<rparr>"
  obtain r s' where r: "deployService ?h ''a'' ''ops'' None sample_deploy_options sample_store = (Inr r, s')"
    using deployService_cases [OF sample_loads] by metis
  have "dr_status r = DepFailed"
    by (rule container_down_never_succeeds [OF sample_loads _ r]) auto
  with r show ?thesis by simp
qed

section \<open>Compose paths of operators\<close>

text \<open>The compose paths by deployment, and the invariant of a run for the paths at its start.\<close>

definition paths :: "('w, 'z) store_scheme \<Rightarrow> (ident \<times> string option) list" where
  "paths s = map (\<lambda>d. (dp_id d, dp_composePath d)) (db_sds s)"

definition kept_path :: "ident \<times> string option \<Rightarrow> ident \<times> string option \<Rightarrow> bool" where
  "kept_path p q \<longleftrightarrow> fst q = fst p \<and> (truthy (snd p) \<longrightarrow> q = p)"

definition paths_inv :: "deploy_ctx \<Rightarrow> (ident \<times> string option) list \<Rightarrow> deploy_locals \<times> ('w, 'z) store_scheme \<Rightarrow> bool" where
  "paths_inv c before st \<longleftrightarrow>
     list_all2 kept_path before (paths (snd st)) \<and>
     (\<not> truthy (lc_composePath (fst st)) \<longrightarrow>
        paths (snd st) = before \<and> (\<forall>p. (dp_id (dc_sd c), p) \<in> set before \<longrightarrow> \<not> truthy p))"

lemma paths_inv_obs:
  "paths_inv c before s \<Longrightarrow> (lc_composePath (fst s'), paths (snd s')) = (lc_composePath (fst s), paths (snd s)) \<Longrightarrow>
     paths_inv c before s'"
  by (simp add: paths_inv_def)

lemma kept_own_path:
  assumes "\<forall>p. (i, p) \<in> set (map (\<lambda>d. (dp_id d, dp_composePath d)) ds) \<longrightarrow> \<not> truthy p"
  shows "list_all2 kept_path (map (\<lambda>d. (dp_id d, dp_composePath d)) ds)
    (map (\<lambda>d. (dp_id d, dp_composePath d)) (update_row dp_id i (\<lambda>d. d\<lparr>dp_composePath := q\<rparr>) ds))"
  using assms by (induction ds) (auto simp: kept_path_def update_row_def)

lemma preserves_manage:
  fixes h :: "'w host"
  assumes "path \<noteq> []"
  shows "preserves (paths_inv c before :: deploy_locals \<times> ('w, 'z) store_scheme \<Rightarrow> bool) (manage_compose_path h c path)"
proof (rule preservesI)
  fix st :: "deploy_locals \<times> ('w, 'z) store_scheme"
  assume inv: "paths_inv c before st"
  show "paths_inv c before (snd (manage_compose_path h c path st))"
  proof (cases "truthy (lc_composePath (fst st)) \<or> srv_environmentId (dc_server c) \<notin> set (db_autoManageCompose (snd st))")
    case True
    with inv show ?thesis
      by (auto simp: manage_compose_path_def io_simps case_prod_beta log_def paths_inv_def paths_def)
  next
    case False
    with inv kept_own_path [of "dp_id (dc_sd c)" "db_sds (snd st)"]
    have "list_all2 kept_path before (paths ((snd st)\<lparr>db_sds := update_row dp_id (dp_id (dc_sd c))
        (\<lambda>d. d\<lparr>dp_composePath := Some path\<rparr>) (db_sds (snd st))\<rparr>))"
      by (auto simp: paths_inv_def paths_def)
    with False inv assms show ?thesis
      by (auto simp: manage_compose_path_def andThen_def on_store_def emit_def io_simps case_prod_beta paths_inv_def paths_def)
  qed
qed

lemma preserves_paths_step:
  "keeps (\<lambda>st. (lc_composePath (fst st), paths (snd st))) m \<Longrightarrow> preserves (paths_inv c before) m"
  by (rule preserves_keeps) (auto intro: paths_inv_obs)

lemma paths_of_updates [simp]:
  "(\<And>d. dp_id (f d) = dp_id d \<and> dp_composePath (f d) = dp_composePath d) \<Longrightarrow>
     paths (s\<lparr>db_sds := update_row dp_id i f ds\<rparr>) = paths (s\<lparr>db_sds := ds\<rparr>)"
  by (simp add: paths_def update_row_def)

lemma paths_frame [simp]:
  "paths (s\<lparr>db_sds := map (\<lambda>d. if P d then d\<lparr>dp_imageDigestId := g\<rparr> else d) (db_sds s)\<rparr>) = paths s"
  "paths (s\<lparr>db_sds := db_sds s\<rparr>) = paths s" "paths (s\<lparr>db_world := w\<rparr>) = paths s"
  "paths (s\<lparr>db_ops := ops\<rparr>) = paths s" "paths (s\<lparr>db_services := es\<rparr>) = paths s"
  "paths (s\<lparr>db_images := is\<rparr>) = paths s" "paths (s\<lparr>db_imageHistory := ihs\<rparr>) = paths s"
  "paths (s\<lparr>db_deployments := rows\<rparr>) = paths s" "paths (s\<lparr>db_artifacts := as\<rparr>) = paths s"
  "paths (s\<lparr>db_events := evs\<rparr>) = paths s"
  by (simp_all add: paths_def comp_def)

lemma keeps_paths_recordTag [keeps_intros]: "keeps (\<lambda>s. (x, paths s)) (recordTagDeployment h i t d b st g)"
  by (simp add: keeps_def recordTagDeployment_def Let_def paths_def comp_def)

text \<open>Every phase but the generation of artifacts leaves the compose paths alone.\<close>

lemma keeps_paths_phases:
  "keeps (\<lambda>st. (lc_composePath (fst st), paths (snd st))) (log h msg)"
  "keeps (\<lambda>st. (lc_composePath (fst st), paths (snd st))) (captureContainerLogs h c)"
  "keeps (\<lambda>st. (lc_composePath (fst st), paths (snd st))) (connect_client h c)"
  "keeps (\<lambda>st. (lc_composePath (fst st), paths (snd st))) (upload_config h c cf)"
  "keeps (\<lambda>st. (lc_composePath (fst st), paths (snd st))) (compose_to_validate h c shared path art)"
  "keeps (\<lambda>st. (lc_composePath (fst st), paths (snd st))) (write_compose h c shared path art)"
  "keeps (\<lambda>st. (lc_composePath (fst st), paths (snd st))) (registry_auth h c cl)"
  "keeps (\<lambda>st. (lc_composePath (fst st), paths (snd st))) (pull_image h c)"
  "keeps (\<lambda>st. (lc_composePath (fst st), paths (snd st))) (roll_out h c cl)"
  "keeps (\<lambda>st. (lc_composePath (fst st), paths (snd st))) (verify_running h c)"
  "keeps (\<lambda>st. (lc_composePath (fst st), paths (snd st))) (disconnect h c)"
  unfolding phase_defs by (intro keeps_intros; simp add: case_prod_beta)+

lemma keeps_paths_ends:
  "keeps (\<lambda>st. (lc_composePath (fst st), paths (snd st))) (deploy_succeeded h c)"
  "keeps (\<lambda>st. (lc_composePath (fst st), paths (snd st))) (finish_row h c status hst)"
  unfolding deploy_succeeded_def finish_row_def
  by (intro keeps_intros; simp add: case_prod_beta)+

lemma keeps_paths_failed: "keeps (\<lambda>st. (lc_composePath (fst st), paths (snd st))) (deploy_failed h c err)"
  unfolding deploy_failed_def by (intro keeps_paths_phases keeps_paths_ends keeps_intros; simp)

lemmas preserves_phases = keeps_paths_phases [THEN preserves_paths_step] keeps_paths_ends [THEN preserves_paths_step]
  keeps_paths_failed [THEN preserves_paths_step]

lemma paths_inv_frame:
  "paths_inv c before (l, s) \<Longrightarrow> paths s' = paths s \<Longrightarrow> paths_inv c before (l, s')"
  by (simp add: paths_inv_def)

lemma preserves_generate: "preserves (paths_inv c before) (generate_artifacts h c)"
  unfolding generate_artifacts_def Let_def
  by (intro preserves_intros preserves_manage preserves_phases)
     (auto elim: paths_inv_frame simp: truthy_def split: option.splits)

lemma preserves_body: "preserves (paths_inv c before) (deploy_body h c)"
  unfolding deploy_body_def
  by (intro preserves_intros preserves_generate preserves_phases) (auto elim: paths_inv_frame)

text \<open>A deployment never changes the compose path of any deployment that has one: only a deployment
  without a path of its own may be given the generated one.\<close>

theorem operator_compose_paths_kept:
  assumes "distinct (map dp_id (db_sds s))"
    and "deployService h sdId triggeredBy userId options s = (r, s')"
    and "d \<in> set (db_sds s)" and "dp_composePath d = Some p" and "p \<noteq> []"
  shows "\<exists>d' \<in> set (db_sds s'). dp_id d' = dp_id d \<and> dp_composePath d' = Some p"
proof (cases "load_sd s sdId")
  case None
  with assms show ?thesis by (auto simp: deployService_def the_row_def io_simps)
next
  case (Some j)
  obtain d0 v e i where j: "j = (d0, v, e, i)" by (cases j)
  have d0: "d0 \<in> set (db_sds s)"
    using Some j by (auto simp: load_sd_def split: option.splits dest!: find_SomeD)
  from Some show ?thesis
  proof (rule deployService_cases [of s sdId j h triggeredBy userId options])
    fix c l status l' s1
    assume c: "c = deployment_ctx h sdId triggeredBy userId options s j"
      and l: "l = \<lparr>lc_logs = [], lc_client = None, lc_captured = False, lc_composePath = dp_composePath (dc_sd c)\<rparr>"
      and run: "run_deployment h c (l, s\<lparr>db_deployments := db_deployments s @ [deployment_row_of c sdId]\<rparr>) = (Inr status, l', s1)"
      and call: "deployService h sdId triggeredBy userId options s =
       (Inr \<lparr>dr_deploymentId = dc_rowId c, dr_status = status, dr_logs = lc_logs l', dr_previousTag = previous_tag c\<rparr>, s1)"
    have own: "dc_sd c = d0" by (simp add: c j deployment_ctx_def)
    have "p = dp_composePath d0" if "(dp_id d0, p) \<in> set (paths s)" for p
    proof -
      from that obtain d1 where "d1 \<in> set (db_sds s)" "dp_id d1 = dp_id d0" "p = dp_composePath d1"
        by (auto simp: paths_def)
      with d0 assms(1) show ?thesis by (metis distinct_map inj_onD)
    qed
    then have start: "paths_inv c (paths s) (l, s\<lparr>db_deployments := db_deployments s @ [deployment_row_of c sdId]\<rparr>)"
      by (auto simp: paths_inv_def own l kept_path_def list_all2_refl)
    have "preserves (paths_inv c (paths s)) (run_deployment h c)"
      unfolding run_deployment_def by (intro preserves_intros preserves_body preserves_phases)
    from preservesD [OF this start run] have "list_all2 kept_path (paths s) (paths s1)"
      by (simp add: paths_inv_def)
    moreover have "(dp_id d, Some p) \<in> set (paths s)" using assms(3,4) by (force simp: paths_def)
    ultimately obtain q where "q \<in> set (paths s1)" "kept_path (dp_id d, Some p) q"
      by (metis list_all2_conv_all_nth in_set_conv_nth)
    with assms(2,5) call show ?thesis by (auto simp: kept_path_def paths_def)
  qed
qed

theorem operator_compose_paths_kept_witness:
  "\<exists>d \<in> set (db_sds (snd (deployService sample_host ''a'' ''ops'' None sample_deploy_options sample_store))).
     dp_id d = ''b'' \<and> dp_composePath d = Some ''/srv/c.yml''"
proof -
  obtain r s' where call: "deployService sample_host ''a'' ''ops'' None sample_deploy_options sample_store = (r, s')"
    by (metis surj_pair)
  have "distinct (map dp_id (db_sds sample_store))" by code_simp
  from operator_compose_paths_kept [OF this call, of "sample_sd ''b'' (Some ''/srv/c.yml'')" "''/srv/c.yml''"] call
  show ?thesis by (simp add: sample_store_def sample_sd_def)
qed

section \<open>Rollouts of a template\<close>

definition succeeded :: "ident \<times> deploy_result option \<times> string option \<Rightarrow> bool" where
  "succeeded = (\<lambda>(sd, result, err). case result of Some r \<Rightarrow> dr_status r = DepSuccess | None \<Rightarrow> False)"

lemma sequential_results:
  "\<exists>results halted s'. deploy_each_sequential deploy sds s = (Inr (results, halted), s') \<and>
     map fst results = take (length results) sds \<and>
     (if halted then results \<noteq> [] \<and> \<not> succeeded (last results) \<and> (\<forall>r \<in> set (butlast results). succeeded r)
      else length results = length sds \<and> (\<forall>r \<in> set results. succeeded r))"
proof (induction sds arbitrary: s)
  case Nil
  then show ?case by (intro exI [of _ "[]"] exI [of _ False]) (simp add: io_simps)
next
  case (Cons sd sds)
  obtain r s1 where d: "deploy sd s = (r, s1)" by (metis surj_pair)
  show ?case
  proof (cases "\<exists>result. r = Inr result \<and> dr_status result = DepSuccess")
    case True
    then obtain result where result: "r = Inr result" "dr_status result = DepSuccess" by blast
    from Cons [of s1] obtain results halted s' where
      rest: "deploy_each_sequential deploy sds s1 = (Inr (results, halted), s')"
      "map fst results = take (length results) sds"
      "if halted then results \<noteq> [] \<and> \<not> succeeded (last results) \<and> (\<forall>r \<in> set (butlast results). succeeded r)
       else length results = length sds \<and> (\<forall>r \<in> set results. succeeded r)" by blast
    have "deploy_each_sequential deploy (sd # sds) s = (Inr ((sd, Some result, None) # results, halted), s')"
      using d result rest(1) by (simp add: trap_def andThen_def io_simps)
    with rest(2,3) result show ?thesis
      by (intro exI [of _ "(sd, Some result, None) # results"]) (auto simp: succeeded_def)
  next
    case False
    let ?failed = "(sd, case r of Inl e \<Rightarrow> None | Inr x \<Rightarrow> Some x, case r of Inl e \<Rightarrow> Some e | Inr x \<Rightarrow> None)"
    from False d have "deploy_each_sequential deploy (sd # sds) s = (Inr ([?failed], True), s1)"
      by (cases r) (auto simp: trap_def andThen_def io_simps)
    moreover have "\<not> succeeded ?failed" using False by (cases r) (auto simp: succeeded_def)
    ultimately show ?thesis by (intro exI [of _ "[?failed]"]) auto
  qed
qed

lemma sequential_all:
  assumes "\<And>sd s r s'. deploy sd s = (Inr r, s') \<Longrightarrow> Q r"
  shows "deploy_each_sequential deploy sds s = (Inr (results, halted), s') \<Longrightarrow>
     (sd, Some r, err) \<in> set results \<Longrightarrow> Q r"
proof (induction sds arbitrary: s results halted s')
  case Nil
  then show ?case by (auto simp: io_simps)
next
  case (Cons a sds)
  obtain x s1 where d: "deploy a s = (x, s1)" by (metis surj_pair)
  show ?case
  proof (cases x)
    case (Inl e)
    with d Cons.prems show ?thesis by (auto simp: trap_def andThen_def io_simps)
  next
    case (Inr y)
    with d Cons.prems show ?thesis
      by (auto simp: trap_def andThen_def io_simps split: if_splits prod.splits sum.splits
          dest: assms intro: Cons.IH)
  qed
qed

text \<open>What a deployment row says from its creation on: its id, its deployment, its tag and the tag to go back to.\<close>

definition row_heads :: "('w, 'z) store_scheme \<Rightarrow> (ident \<times> ident \<times> string \<times> string option) list" where
  "row_heads s = map (\<lambda>d. (de_id d, de_serviceDeploymentId d, de_imageTag d, de_previousTag d)) (db_deployments s)"

lemma row_heads_simps [simp]:
  "row_heads (s\<lparr>db_world := w\<rparr>) = row_heads s" "row_heads (s\<lparr>db_ops := ops\<rparr>) = row_heads s"
  "row_heads (s\<lparr>db_services := es\<rparr>) = row_heads s" "row_heads (s\<lparr>db_sds := ds\<rparr>) = row_heads s"
  "row_heads (s\<lparr>db_images := is\<rparr>) = row_heads s" "row_heads (s\<lparr>db_imageHistory := ihs\<rparr>) = row_heads s"
  "row_heads (s\<lparr>db_artifacts := as\<rparr>) = row_heads s" "row_heads (s\<lparr>db_events := es'\<rparr>) = row_heads s"
  by (simp_all add: row_heads_def)

lemma row_heads_update [simp]:
  "row_heads (s\<lparr>db_deployments := update_row de_id i (\<lambda>d. d\<lparr>de_status := DepDeploying\<rparr>) (db_deployments s)\<rparr>) = row_heads s"
  "row_heads (s\<lparr>db_deployments := update_row de_id i (\<lambda>d. d\<lparr>de_status := st, de_logs := ls, de_completedAt := t, de_durationMs := u,
      de_historyId := hid\<rparr>) (db_deployments s)\<rparr>) = row_heads s"
  by (simp_all add: row_heads_def update_row_other)

lemma keeps_heads_body: "keeps (\<lambda>st. row_heads (snd st)) (deploy_body h c)"
  unfolding phase_defs by (intro keeps_intros keeps_recordTagDeployment) (simp_all add: case_prod_beta)

lemma keeps_heads_failed: "keeps (\<lambda>st. row_heads (snd st)) (deploy_failed h c err)"
  unfolding phase_defs by (intro keeps_intros keeps_recordTagDeployment) (simp_all add: case_prod_beta)

text \<open>A call of \<open>deployService\<close> adds one row, or throws before it has written anything.\<close>

lemma deployService_adds_row:
  assumes "deployService h sdId triggeredBy userId options s = (x, s')"
  shows "case x of Inl e \<Rightarrow> s' = s
    | Inr r \<Rightarrow> \<exists>tag. row_heads s' = row_heads s @ [(dr_deploymentId r, sdId, tag, dr_previousTag r)] \<and>
        (\<forall>t. op_previousTagOverride options = Some t \<longrightarrow> dr_previousTag r = t) \<and>
        (truthy (op_imageTag options) \<longrightarrow> Some tag = op_imageTag options)"
proof (cases "load_sd s sdId")
  case None
  with assms show ?thesis by (auto simp: deployService_def the_row_def io_simps)
next
  case (Some j)
  then show ?thesis
  proof (rule deployService_cases [of s sdId j h triggeredBy userId options])
    fix c l status l' s1
    assume c: "c = deployment_ctx h sdId triggeredBy userId options s j"
      and run: "run_deployment h c (l, s\<lparr>db_deployments := db_deployments s @ [deployment_row_of c sdId]\<rparr>) = (Inr status, l', s1)"
      and call: "deployService h sdId triggeredBy userId options s =
       (Inr \<lparr>dr_deploymentId = dc_rowId c, dr_status = status, dr_logs = lc_logs l', dr_previousTag = previous_tag c\<rparr>, s1)"
    have "keeps (\<lambda>st. row_heads (snd st)) (run_deployment h c)"
      unfolding run_deployment_def by (intro keeps_intros keeps_heads_body keeps_heads_failed)
    from keepsD [OF this run] have "row_heads s1 = row_heads s @ [(dc_rowId c, sdId, dc_imageTag c, previous_tag c)]"
      by (simp add: row_heads_def deployment_row_of_def)
    moreover have "previous_tag c = t" if "op_previousTagOverride options = Some t" for t
      using that by (simp add: c previous_tag_def deployment_ctx_def split: prod.splits)
    moreover have "truthy (op_imageTag options) \<longrightarrow> Some (dc_imageTag c) = op_imageTag options"
      by (cases j) (auto simp: c deployment_ctx_def truthy_def split: option.splits)
    ultimately show ?thesis using call assms by auto
  qed
qed

text \<open>The rows of a rollout: one for every deployment that returned.\<close>

lemma sequential_rows:
  assumes adds: "\<And>sd s x s'. deploy sd s = (x, s') \<Longrightarrow>
     case x of Inl e \<Rightarrow> row_heads s' = row_heads s
     | Inr r \<Rightarrow> row_heads s' = row_heads s @ [(dr_deploymentId r, sd, tag, prev)]"
  shows "deploy_each_sequential deploy sds s = (Inr (results, halted), s') \<Longrightarrow>
     row_heads s' = row_heads s @ List.map_filter (\<lambda>(sd, r, err). map_option (\<lambda>r. (dr_deploymentId r, sd, tag, prev)) r) results"
proof (induction sds arbitrary: s results halted s')
  case Nil
  then show ?case by (auto simp: io_simps map_filter_simps)
next
  case (Cons a sds)
  obtain x s1 where d: "deploy a s = (x, s1)" by (metis surj_pair)
  show ?case
  proof (cases x)
    case (Inl e)
    with d Cons.prems adds [OF d] show ?thesis by (auto simp: trap_def andThen_def io_simps map_filter_simps)
  next
    case (Inr y)
    show ?thesis
    proof (cases "dr_status y = DepSuccess")
      case False
      with d Inr Cons.prems adds [OF d] show ?thesis by (auto simp: trap_def andThen_def io_simps map_filter_simps)
    next
      case True
      with d Inr Cons.prems obtain rest where rest: "deploy_each_sequential deploy sds s1 = (Inr (rest, halted), s')"
        "results = (a, Some y, None) # rest"
        by (auto simp: trap_def andThen_def io_simps split: prod.splits sum.splits)
      from Cons.IH [OF rest(1)] adds [OF d] Inr rest(2) show ?thesis by (simp add: map_filter_simps)
    qed
  qed
qed

text \<open>C20: A sequential rollout of a service to a tag deploys its deployments in order up to the first one that does not
  succeed and stops there; it is reported as halted exactly then. The deployment rows it adds are those of the deployments
  that returned, in their order and each once, with the new tag and, as the tag to go back to, the one the service had
  before the rollout.\<close>

theorem template_halts_at_first_failure:
  assumes "List.find (\<lambda>e. se_id e = serviceId) (db_services s) = Some e"
    and "map dp_id (filter (\<lambda>d. dp_serviceId d = serviceId) (db_sds s)) = sds" and "sds \<noteq> []"
    and "nullish strategy (se_deployStrategy e) \<noteq> ''parallel''" and "op_imageTag options = Some tag" and "tag \<noteq> []"
  shows "\<exists>res s'. deployServiceTemplate h serviceId triggeredBy userId strategy options s = (Inr res, s') \<and>
    map fst (tr_results res) = take (length (tr_results res)) sds \<and>
    (if tr_halted res
     then tr_results res \<noteq> [] \<and> \<not> succeeded (last (tr_results res)) \<and> (\<forall>r \<in> set (butlast (tr_results res)). succeeded r)
     else length (tr_results res) = length sds \<and> (\<forall>r \<in> set (tr_results res). succeeded r)) \<and>
    map (\<lambda>d. (de_id d, de_serviceDeploymentId d, de_imageTag d, de_previousTag d)) (db_deployments s') =
      map (\<lambda>d. (de_id d, de_serviceDeploymentId d, de_imageTag d, de_previousTag d)) (db_deployments s) @
      List.map_filter (\<lambda>(sd, r, err). map_option (\<lambda>r. (dr_deploymentId r, sd, tag, Some (se_imageTag e))) r) (tr_results res)"
proof -
  let ?deploy = "\<lambda>sd. deployService h sd triggeredBy userId (options\<lparr>op_previousTagOverride := Some (Some (se_imageTag e))\<rparr>)"
  obtain results halted s' where
    run: "deploy_each_sequential ?deploy sds s = (Inr (results, halted), s')"
    and facts: "map fst results = take (length results) sds"
      "if halted then results \<noteq> [] \<and> \<not> succeeded (last results) \<and> (\<forall>r \<in> set (butlast results). succeeded r)
       else length results = length sds \<and> (\<forall>r \<in> set results. succeeded r)"
    using sequential_results [of ?deploy sds s] by blast
  have "row_heads s' = row_heads s @
      List.map_filter (\<lambda>(sd, r, err). map_option (\<lambda>r. (dr_deploymentId r, sd, tag, Some (se_imageTag e))) r) results"
  proof (rule sequential_rows [OF _ run])
    fix sd :: ident and s s' :: "('a, 'b) store_scheme" and x
    assume "?deploy sd s = (x, s')"
    from deployService_adds_row [OF this] assms(5,6) show "case x of Inl e \<Rightarrow> row_heads s' = row_heads s
      | Inr r \<Rightarrow> row_heads s' = row_heads s @ [(dr_deploymentId r, sd, tag, Some (se_imageTag e))]"
      by (auto split: sum.splits)
  qed
  moreover have "deployServiceTemplate h serviceId triggeredBy userId strategy options s =
      (Inr \<lparr>tr_results = results, tr_halted = halted, tr_error = None\<rparr>, s')"
    using assms run by (simp add: deployServiceTemplate_def the_row_def Let_def io_simps andThen_def)
  ultimately show ?thesis using facts by (auto simp: row_heads_def)
qed

theorem template_halts_at_first_failure_witness:
  "\<exists>res s'. deployServiceTemplate sample_host ''s'' ''ops'' None None sample_deploy_options sample_store = (Inr res, s') \<and>
     map fst (tr_results res) = take (length (tr_results res)) [''a'', ''b''] \<and>
     map (\<lambda>d. (de_id d, de_serviceDeploymentId d, de_imageTag d, de_previousTag d)) (db_deployments s') =
       List.map_filter (\<lambda>(sd, r, err). map_option (\<lambda>r. (dr_deploymentId r, sd, ''2'', Some ''1'')) r) (tr_results res)"
proof -
  have "List.find (\<lambda>e. se_id e = ''s'') (db_services sample_store) = Some (hd (db_services sample_store))"
    "map dp_id (filter (\<lambda>d. dp_serviceId d = ''s'') (db_sds sample_store)) = [''a'', ''b'']"
    "nullish None (se_deployStrategy (hd (db_services sample_store))) \<noteq> ''parallel''"
    by (simp_all add: sample_store_def sample_sd_def)
  from template_halts_at_first_failure [OF this(1,2) _ this(3), of sample_deploy_options "''2''" sample_host "''ops''" None] show ?thesis
    by (auto simp: sample_deploy_options_def sample_store_def)
qed

end
