(* ===== verification/Health_Verification.thy ===== *)
theory Health_Verification
  imports Deploy
begin

text \<open>
  \<open>src/services/health-verification.ts\<close>: the health gate of orchestrated deployments,
  \<open>verifyServiceHealth\<close>, and \<open>quickHealthCheck\<close>. The local state of a verification is its list of
  log lines, beside the store. The retry loop recurses on the number of attempts that are left.
\<close>

record health_result =
  hr_healthy :: bool
  hr_containerStatus :: string
  hr_healthStatus :: string
  hr_urlCheck :: "url_result option"
  hr_attempts :: int
  hr_logs :: "log_line list"

record health_options =
  ho_waitMs :: "int option"
  ho_maxRetries :: "int option"
  ho_intervalMs :: "int option"

type_synonym ('w, 'z, 'a) health_io = "(log_line list \<times> ('w, 'z) store_scheme, 'a) io"

definition hlog :: "'w host \<Rightarrow> string \<Rightarrow> ('w, 'z, unit) health_io" where
  "hlog h msg = writes (\<lambda>(l, s). (l @ [Stamped (now h s) msg], s))"

definition sleep :: "'w host \<Rightarrow> int \<Rightarrow> ('w, 'z, unit) health_io" where
  "sleep h ms = on_store (writes (\<lambda>s. s\<lparr>db_world := h_sleep h ms (db_world s)\<rparr>))"

definition update_sd :: "ident \<Rightarrow> ('w host \<Rightarrow> ('w, 'z) store_scheme \<Rightarrow> sd_row \<Rightarrow> sd_row) \<Rightarrow> 'w host \<Rightarrow> ('w, 'z, unit) health_io" where
  "update_sd i f h = on_store (writes (\<lambda>s. s\<lparr>db_sds := update_row dp_id i (f h s) (db_sds s)\<rparr>))"

definition url_text :: "url_result \<Rightarrow> string" where
  "url_text u = (case ur_statusCode u of
     Some n \<Rightarrow> if n \<noteq> 0 then nat_str n else nullish (ur_error u) ''undefined''
   | None \<Rightarrow> nullish (ur_error u) ''undefined'')"

text \<open>The URL check of one attempt; it needs an SSH client.\<close>

definition check_url :: "'w host \<Rightarrow> server_row \<Rightarrow> service_row \<Rightarrow> client \<Rightarrow> ('w, 'z, url_result option) health_io" where
  "check_url h v e cl =
     (if truthy (se_healthCheckUrl e) \<and> cl_ssh cl then
        let url = the (se_healthCheckUrl e) in
        andThen (on_store (on_world (h_checkUrl h (srv_id v) url))) (\<lambda>u.
        andThen (hlog h (''URL check ('' @ url @ ''): '' @ (if ur_success u then ''success'' else ''failed'') @ '' - '' @ url_text u)) (\<lambda>_.
        ret (Some u)))
      else ret None)"

text \<open>What an attempt knows from the ones before it: container status, health status, URL check.\<close>

type_synonym last_seen = "string \<times> string \<times> url_result option"

definition healthy_result :: "last_seen \<Rightarrow> int \<Rightarrow> health_result" where
  "healthy_result = (\<lambda>(c, hs, u) n.
     \<lparr>hr_healthy = True, hr_containerStatus = c, hr_healthStatus = hs, hr_urlCheck = u, hr_attempts = n, hr_logs = []\<rparr>)"

definition unhealthy_result :: "last_seen \<Rightarrow> int \<Rightarrow> health_result" where
  "unhealthy_result = (\<lambda>(c, hs, u) n.
     \<lparr>hr_healthy = False, hr_containerStatus = c, hr_healthStatus = hs, hr_urlCheck = u, hr_attempts = n, hr_logs = []\<rparr>)"

text \<open>One attempt: the new statuses, and the status to record when it ends the verification.\<close>

definition health_attempt :: "'w host \<Rightarrow> sd_row \<Rightarrow> server_row \<Rightarrow> service_row \<Rightarrow> client \<Rightarrow> int \<Rightarrow> int \<Rightarrow> url_result option
    \<Rightarrow> ('w, 'z, last_seen \<times> string option) health_io" where
  "health_attempt h d v e cl maxRetries attempt lastUrl =
     andThen (hlog h (''Health check attempt '' @ int_str attempt @ ''/'' @ int_str maxRetries)) (\<lambda>_.
     andThen (on_store (on_world (h_containerHealth h (srv_id v) (dp_containerName d)))) (\<lambda>ch.
     andThen (check_url h v e cl) (\<lambda>u.
     let urlCheck = (case u of Some x \<Rightarrow> Some x | None \<Rightarrow> lastUrl);
         hs = determineHealthStatus (ch_health ch) (ch_running ch) u;
         overall = determineOverallStatus (ch_state ch) (ch_running ch) hs in
     andThen (hlog h (''Container: '' @ ch_state ch @ '', Health: '' @ hs @ '', Overall: '' @ overall)) (\<lambda>_.
     ret ((ch_state ch, hs, urlCheck),
       if hs = ''healthy'' then Some overall
       else if hs = ''none'' \<and> ch_running ch then Some ''running''
       else None)))))"

fun health_loop :: "'w host \<Rightarrow> sd_row \<Rightarrow> server_row \<Rightarrow> service_row \<Rightarrow> client \<Rightarrow> int \<Rightarrow> int \<Rightarrow> nat \<Rightarrow> int \<Rightarrow> last_seen
    \<Rightarrow> ('w, 'z, health_result) health_io" where
  "health_loop h d v e cl maxRetries intervalMs 0 attempt (lastC, lastH, lastU) =
     andThen (hlog h (''Health verification failed after '' @ int_str maxRetries @ '' attempts'')) (\<lambda>_.
     andThen (update_sd (dp_id d) (\<lambda>h s r. r\<lparr>dp_containerStatus := lastC, dp_healthStatus := lastH,
                dp_lastCheckedAt := Some (now h s)\<rparr>) h) (\<lambda>_.
     ret (unhealthy_result (lastC, lastH, lastU) attempt)))"
| "health_loop h d v e cl maxRetries intervalMs (Suc left) attempt (lastC, lastH, lastU) =
     andThen (health_attempt h d v e cl maxRetries (attempt + 1) lastU) (\<lambda>((c, hs, u), verdict).
     case verdict of
       Some status \<Rightarrow>
         andThen (hlog h (if hs = ''healthy'' then ''Service '' @ se_name e @ '' is healthy on '' @ srv_name v
                          else ''Service '' @ se_name e @ '' is running (no health check configured)'')) (\<lambda>_.
         andThen (update_sd (dp_id d) (\<lambda>h s r. r\<lparr>dp_containerStatus := c, dp_healthStatus := hs, dp_status := status,
                    dp_lastCheckedAt := Some (now h s)\<rparr>) h) (\<lambda>_.
         ret (healthy_result (c, hs, u) (attempt + 1))))
     | None \<Rightarrow>
         andThen (whenever (left \<noteq> 0)
                    (andThen (hlog h (''Waiting '' @ int_str intervalMs @ ''ms before next attempt...'')) (\<lambda>_. sleep h intervalMs))) (\<lambda>_.
         health_loop h d v e cl maxRetries intervalMs left (attempt + 1) (c, hs, u)))"

definition unknown_seen :: last_seen where
  "unknown_seen = (''unknown'', ''unknown'', None)"

definition connect_and_check :: "'w host \<Rightarrow> sd_row \<Rightarrow> server_row \<Rightarrow> service_row \<Rightarrow> client \<Rightarrow> int \<Rightarrow> int
    \<Rightarrow> ('w, 'z, health_result) health_io" where
  "connect_and_check h d v e cl maxRetries intervalMs =
     andThen (whenever (cl_needsConnect cl \<and> cl_ssh cl)
                (andThen (on_store (remote h (OpConnect (srv_id v)))) (\<lambda>_. ret ()))) (\<lambda>_.
     andThen (hlog h (''Connected to '' @ srv_name v)) (\<lambda>_.
     health_loop h d v e cl maxRetries intervalMs (nat maxRetries) 0 unknown_seen))"

text \<open>\<open>finally\<close>: the SSH client is closed on every way out; what closing throws takes the place of the result.\<close>

definition close_client :: "'w host \<Rightarrow> server_row \<Rightarrow> client \<Rightarrow> ('w, 'z, unit) health_io" where
  "close_client h v cl =
     whenever (cl_ssh cl) (andThen (on_store (remote h (OpDisconnect (srv_id v)))) (\<lambda>_. ret ()))"

definition verify_body :: "'w host \<Rightarrow> sd_row \<Rightarrow> server_row \<Rightarrow> service_row \<Rightarrow> health_options \<Rightarrow> ('w, 'z, health_result) health_io" where
  "verify_body h d v e options =
     (let waitMs = nullish (ho_waitMs options) (se_healthWaitMs e);
          maxRetries = nullish (ho_maxRetries options) (se_healthRetries e);
          intervalMs = nullish (ho_intervalMs options) (se_healthIntervalMs e) in
      andThen (hlog h (''Starting health verification for '' @ se_name e @ '' on '' @ srv_name v)) (\<lambda>_.
      andThen (hlog h (''Config: waitMs='' @ int_str waitMs @ '', maxRetries='' @ int_str maxRetries
                 @ '', intervalMs='' @ int_str intervalMs)) (\<lambda>_.
      andThen (whenever (0 < waitMs)
                 (andThen (hlog h (''Waiting '' @ int_str waitMs @ ''ms for service to stabilize...'')) (\<lambda>_. sleep h waitMs))) (\<lambda>_.
      andThen (on_store (on_world (h_createClient h v))) (\<lambda>cl.
      if \<not> cl_docker cl then
        andThen (hlog h (''ERROR: Failed to create client: '' @ nullish (cl_error cl) ''undefined'')) (\<lambda>_.
        ret (unhealthy_result unknown_seen 0))
      else
        andThen (catching (connect_and_check h d v e cl maxRetries intervalMs)
                   (\<lambda>err. andThen (hlog h (''ERROR: '' @ err)) (\<lambda>_. ret (unhealthy_result unknown_seen 0)))) (\<lambda>result.
        andThen (close_client h v cl) (\<lambda>_. ret result)))))))"

text \<open>The joined row of \<open>findUniqueOrThrow\<close> with its server and its service.\<close>

definition load_deployment :: "('w, 'z) store_scheme \<Rightarrow> ident \<Rightarrow> (sd_row \<times> server_row \<times> service_row) option" where
  "load_deployment s sdId =
     (case List.find (\<lambda>d. dp_id d = sdId) (db_sds s) of
        None \<Rightarrow> None
      | Some d \<Rightarrow>
         (case (List.find (\<lambda>v. srv_id v = dp_serverId d) (db_servers s), List.find (\<lambda>e. se_id e = dp_serviceId d) (db_services s)) of
            (Some v, Some e) \<Rightarrow> Some (d, v, e)
          | _ \<Rightarrow> None))"

definition verifyServiceHealth :: "'w host \<Rightarrow> ident \<Rightarrow> health_options \<Rightarrow> (('w, 'z) store_scheme, health_result) io" where
  "verifyServiceHealth h sdId options =
     andThen (reads (\<lambda>s. load_deployment s sdId)) (\<lambda>joined.
     andThen (the_row joined) (\<lambda>(d, v, e) s.
     case verify_body h d v e options ([], s) of
       (r, logs, s') \<Rightarrow> (map_sum id (\<lambda>res. res\<lparr>hr_logs := logs\<rparr>) r, s')))"

text \<open>\<open>quickHealthCheck\<close>: one look without retries; every failure after the client exists is "unknown".\<close>

definition quick_body :: "'w host \<Rightarrow> sd_row \<Rightarrow> server_row \<Rightarrow> service_row \<Rightarrow> client
    \<Rightarrow> (('w, 'z) store_scheme, string \<times> string \<times> bool) io" where
  "quick_body h d v e cl =
     andThen (whenever (cl_needsConnect cl \<and> cl_ssh cl) (andThen (remote h (OpConnect (srv_id v))) (\<lambda>_. ret ()))) (\<lambda>_.
     andThen (on_world (h_containerHealth h (srv_id v) (dp_containerName d))) (\<lambda>ch.
     andThen (if truthy (se_healthCheckUrl e) \<and> cl_ssh cl
              then andThen (on_world (h_checkUrl h (srv_id v) (the (se_healthCheckUrl e)))) (\<lambda>u. ret (Some u))
              else ret None) (\<lambda>u.
     ret (ch_state ch, determineHealthStatus (ch_health ch) (ch_running ch) u, ch_running ch))))"

definition quickHealthCheck :: "'w host \<Rightarrow> ident \<Rightarrow> (('w, 'z) store_scheme, string \<times> string \<times> bool) io" where
  "quickHealthCheck h sdId =
     andThen (reads (\<lambda>s. load_deployment s sdId)) (\<lambda>joined.
     andThen (the_row joined) (\<lambda>(d, v, e).
     andThen (on_world (h_createClient h v)) (\<lambda>cl.
     if \<not> cl_docker cl then ret (''unknown'', ''unknown'', False)
     else
       andThen (catching (quick_body h d v e cl) (\<lambda>_. ret (''unknown'', ''unknown'', False))) (\<lambda>result.
       andThen (whenever (cl_ssh cl) (andThen (remote h (OpDisconnect (srv_id v))) (\<lambda>_. ret ()))) (\<lambda>_.
       ret result)))))"

section \<open>Outcomes of a verification\<close>

lemma sample_deployment_loads:
  "load_deployment sample_store ''a'' =
     Some (sample_sd ''a'' None, hd (db_servers sample_store), hd (db_services sample_store))"
  by code_simp

text \<open>The machine reported the container as running, with the state of the result and a health that gives its status.\<close>

definition seen_running :: "'w host \<Rightarrow> sd_row \<Rightarrow> server_row \<Rightarrow> string \<Rightarrow> string \<Rightarrow> bool" where
  "seen_running h d v state health \<longleftrightarrow>
     (\<exists>w ch w' u. h_containerHealth h (srv_id v) (dp_containerName d) w = (Inr ch, w') \<and> ch_running ch \<and>
        ch_state ch = state \<and> determineHealthStatus (ch_health ch) True u = health)"

text \<open>The deployment's row carries the two statuses of the result.\<close>

definition recorded :: "ident \<Rightarrow> health_result \<Rightarrow> ('w, 'z) store_scheme \<Rightarrow> bool" where
  "recorded i r s \<longleftrightarrow>
     (\<forall>row \<in> set (db_sds s). dp_id row = i \<longrightarrow>
        dp_containerStatus row = hr_containerStatus r \<and> dp_healthStatus row = hr_healthStatus r)"

definition last_message :: "log_line list \<Rightarrow> string \<Rightarrow> bool" where
  "last_message logs msg \<longleftrightarrow> (\<exists>t ls. logs = ls @ [Stamped t msg])"

definition healthy_verdict :: "'w host \<Rightarrow> sd_row \<Rightarrow> server_row \<Rightarrow> int \<Rightarrow> health_result \<Rightarrow> ('w, 'z) store_scheme \<Rightarrow> bool" where
  "healthy_verdict h d v maxRetries r s \<longleftrightarrow>
     hr_healthy r \<and> 1 \<le> hr_attempts r \<and> hr_attempts r \<le> maxRetries \<and> hr_healthStatus r \<in> {''healthy'', ''none''} \<and>
     seen_running h d v (hr_containerStatus r) (hr_healthStatus r) \<and> recorded (dp_id d) r s"

definition exhausted_verdict :: "sd_row \<Rightarrow> int \<Rightarrow> health_result \<Rightarrow> log_line list \<Rightarrow> ('w, 'z) store_scheme \<Rightarrow> bool" where
  "exhausted_verdict d maxRetries r logs s \<longleftrightarrow>
     \<not> hr_healthy r \<and> hr_attempts r = max 0 maxRetries \<and> recorded (dp_id d) r s \<and>
     last_message logs (''Health verification failed after '' @ int_str maxRetries @ '' attempts'')"

definition error_verdict :: "health_result \<Rightarrow> log_line list \<Rightarrow> bool" where
  "error_verdict r logs \<longleftrightarrow>
     \<not> hr_healthy r \<and> hr_attempts r = 0 \<and> hr_containerStatus r = ''unknown'' \<and> hr_healthStatus r = ''unknown'' \<and>
     (\<exists>err. last_message logs (''ERROR: '' @ err))"

lemma hlog_run: "hlog h msg (l, s) = (Inr (), l @ [Stamped (now h s) msg], s)"
  by (simp add: hlog_def io_simps)

lemma update_sd_run: "update_sd i f h (l, s) = (Inr (), l, s\<lparr>db_sds := update_row dp_id i (f h s) (db_sds s)\<rparr>)"
  by (simp add: update_sd_def on_store_def io_simps)

lemma recorded_update:
  assumes "\<And>r. dp_id (f r) = dp_id r" and "\<And>r. dp_containerStatus (f r) = hr_containerStatus res \<and> dp_healthStatus (f r) = hr_healthStatus res"
  shows "recorded i res (s\<lparr>db_sds := update_row dp_id i f (db_sds s)\<rparr>)"
  using assms by (auto simp: recorded_def set_update_row)

text \<open>What an attempt that ends the verification has seen.\<close>

lemma health_attempt_verdict:
  "ensures (health_attempt h d v e cl m a u) (\<lambda>((c, hs, u'), verdict) _. verdict \<noteq> None \<longrightarrow>
     hs \<in> {''healthy'', ''none''} \<and> seen_running h d v c hs)"
proof -
  have looked: "ensures (on_store (on_world (h_containerHealth h (srv_id v) (dp_containerName d))))
      (\<lambda>ch _. \<exists>w w'. h_containerHealth h (srv_id v) (dp_containerName d) w = (Inr ch, w'))"
    by (auto simp: ensures_def on_store_def on_world_def split: prod.splits)
  have seen: "determineHealthStatus (ch_health ch) (ch_running ch) u \<in> {''healthy'', ''none''} \<and>
      seen_running h d v (ch_state ch) (determineHealthStatus (ch_health ch) (ch_running ch) u)"
    if "\<exists>w w'. h_containerHealth h (srv_id v) (dp_containerName d) w = (Inr ch, w')"
      and "(if determineHealthStatus (ch_health ch) (ch_running ch) u = ''healthy'' then Some overall
        else if determineHealthStatus (ch_health ch) (ch_running ch) u = ''none'' \<and> ch_running ch then Some ''running''
        else None) \<noteq> None" for ch u overall
  proof -
    from that(2) have "ch_running ch" and "determineHealthStatus (ch_health ch) (ch_running ch) u \<in> {''healthy'', ''none''}"
      by (cases "ch_running ch"; auto simp: determineHealthStatus_def split: if_splits)+
    with that(1) show ?thesis by (auto simp: seen_running_def)
  qed
  show ?thesis
    unfolding health_attempt_def Let_def
    by (rule ensures_andThen, rule ensures_bind [OF looked], rule ensures_andThen, rule ensures_andThen, rule ensures_ret)
       (simp only: prod.case, intro impI, rule seen)
qed

lemma health_loop_verdict:
  fixes h :: "'w host"
  shows "0 \<le> attempt \<Longrightarrow> attempt + int n = max 0 m \<Longrightarrow>
     ensures (health_loop h d v e cl m interval n attempt seen :: ('w, 'z, health_result) health_io)
       (\<lambda>r (l, s). healthy_verdict h d v m r s \<or> exhausted_verdict d m r l s)"
proof (induction h d v e cl m interval n attempt seen rule: health_loop.induct)
  case (1 h d v e cl maxRetries intervalMs attempt lastC lastH lastU)
  then have "attempt = max 0 maxRetries" by simp
  then show ?case
    by (auto simp: ensures_def andThen_eval hlog_run update_sd_run io_simps exhausted_verdict_def unhealthy_result_def
        last_message_def intro!: recorded_update)
next
  case (2 h d v e cl maxRetries intervalMs left attempt lastC lastH lastU)
  have bounds: "0 \<le> attempt + 1" "attempt + 1 + int left = max 0 maxRetries" "attempt + 1 \<le> maxRetries"
    using "2.prems" by auto
  have finished: "ensures (andThen (hlog h msg) (\<lambda>_. andThen (update_sd (dp_id d) (\<lambda>h s r. r\<lparr>dp_containerStatus := c,
        dp_healthStatus := hs, dp_status := status, dp_lastCheckedAt := Some (now h s)\<rparr>) h) (\<lambda>_.
        ret (healthy_result (c, hs, u) (attempt + 1)))) :: ('w, 'z, health_result) health_io)
      (\<lambda>r (l, s). healthy_verdict h d v maxRetries r s \<or> exhausted_verdict d maxRetries r l s)"
    if "hs \<in> {''healthy'', ''none''}" "seen_running h d v c hs" for c hs u status msg
    using that bounds "2.prems"(1)
    by (auto simp: ensures_def andThen_eval hlog_run update_sd_run io_simps healthy_verdict_def healthy_result_def
        intro!: recorded_update)
  have later: "ensures (andThen k (\<lambda>_. health_loop h d v e cl maxRetries intervalMs left (attempt + 1) (c, hs, u))
      :: ('w, 'z, health_result) health_io)
      (\<lambda>r (l, s). healthy_verdict h d v maxRetries r s \<or> exhausted_verdict d maxRetries r l s)"
    for k :: "('w, 'z, unit) health_io" and c hs u
    by (rule ensures_andThen, rule "2.IH" [OF bounds(1,2)])
  show ?case
    unfolding health_loop.simps
    by (rule ensures_bind [OF health_attempt_verdict]) (auto split: option.splits intro!: later finished)
qed

lemma error_handler_verdict:
  "ensures (andThen (hlog h (''ERROR: '' @ err)) (\<lambda>_. ret (unhealthy_result unknown_seen 0))) (\<lambda>r (l, s). error_verdict r l)"
  by (auto simp: ensures_def andThen_eval hlog_run io_simps error_verdict_def unhealthy_result_def unknown_seen_def last_message_def)

lemma close_client_keeps: "keeps (\<lambda>st. (fst st, db_sds (snd st))) (close_client h v cl)"
  unfolding close_client_def by (intro keeps_intros) (simp_all add: case_prod_beta)

text \<open>The three verdicts together.\<close>

definition health_verdict :: "'w host \<Rightarrow> sd_row \<Rightarrow> server_row \<Rightarrow> int \<Rightarrow> health_result \<Rightarrow> log_line list \<Rightarrow> ('w, 'z) store_scheme \<Rightarrow> bool" where
  "health_verdict h d v m r l s \<longleftrightarrow> healthy_verdict h d v m r s \<or> exhausted_verdict d m r l s \<or> error_verdict r l"

lemma verdict_frame: "health_verdict h d v m r l s \<Longrightarrow> db_sds s' = db_sds s \<Longrightarrow> health_verdict h d v m r l s'"
  by (simp add: health_verdict_def healthy_verdict_def exhausted_verdict_def recorded_def)

lemma verdict_logs: "health_verdict h d v m (r\<lparr>hr_logs := l'\<rparr>) l s \<longleftrightarrow> health_verdict h d v m r l s"
  by (simp add: health_verdict_def healthy_verdict_def exhausted_verdict_def error_verdict_def recorded_def)

lemma verify_body_verdict:
  fixes h :: "'w host"
  defines "m \<equiv> \<lambda>options e. nullish (ho_maxRetries options) (se_healthRetries e)"
  shows "ensures (verify_body h d v e options :: ('w, 'z, health_result) health_io) (\<lambda>r (l, s). health_verdict h d v (m options e) r l s)"
proof -
  have check: "ensures (connect_and_check h d v e cl (m options e) iv :: ('w, 'z, health_result) health_io)
      (\<lambda>r (l, s). health_verdict h d v (m options e) r l s)" for cl iv
  proof -
    have "ensures (health_loop h d v e cl (m options e) iv (nat (m options e)) 0 unknown_seen :: ('w, 'z, health_result) health_io)
        (\<lambda>r (l, s). healthy_verdict h d v (m options e) r s \<or> exhausted_verdict d (m options e) r l s)"
      by (rule health_loop_verdict) auto
    then show ?thesis
      unfolding connect_and_check_def
      by (intro ensures_andThen) (simp add: ensures_def health_verdict_def, blast)
  qed
  have err: "ensures (andThen (hlog h (''ERROR: '' @ msg)) (\<lambda>_. ret (unhealthy_result unknown_seen 0)) :: ('w, 'z, health_result) health_io)
      (\<lambda>r (l, s). health_verdict h d v (m options e) r l s)" for msg
    using error_handler_verdict [of h msg] unfolding ensures_def health_verdict_def by blast
  from err [of "''Failed to create client: '' @ x" for x] have no_client:
    "ensures (andThen (hlog h (''ERROR: Failed to create client: '' @ x)) (\<lambda>_. ret (unhealthy_result unknown_seen 0)) :: ('w, 'z, health_result) health_io)
      (\<lambda>r (l, s). health_verdict h d v (m options e) r l s)" for x
    by simp
  have caught: "ensures (catching (connect_and_check h d v e cl (m options e) iv)
      (\<lambda>err. andThen (hlog h (''ERROR: '' @ err)) (\<lambda>_. ret (unhealthy_result unknown_seen 0)))
      :: ('w, 'z, health_result) health_io) (\<lambda>r (l, s). health_verdict h d v (m options e) r l s)" for cl iv
    by (rule ensures_catching [OF check err])
  have closed: "ensures (andThen (catching (connect_and_check h d v e cl (m options e) iv)
      (\<lambda>err. andThen (hlog h (''ERROR: '' @ err)) (\<lambda>_. ret (unhealthy_result unknown_seen 0)))) (\<lambda>result.
        andThen (close_client h v cl) (\<lambda>_. ret result))
      :: ('w, 'z, health_result) health_io) (\<lambda>r (l, s). health_verdict h d v (m options e) r l s)" for cl iv
    unfolding ensures_def
  proof (intro allI impI)
    fix s :: "log_line list \<times> ('w, 'z) store_scheme" and x s'
    assume "andThen (catching (connect_and_check h d v e cl (m options e) iv)
      (\<lambda>err. andThen (hlog h (''ERROR: '' @ err)) (\<lambda>_. ret (unhealthy_result unknown_seen 0)))) (\<lambda>result.
        andThen (close_client h v cl) (\<lambda>_. ret result)) s = (Inr x, s')"
    then obtain y s1 where y: "catching (connect_and_check h d v e cl (m options e) iv)
      (\<lambda>err. andThen (hlog h (''ERROR: '' @ err)) (\<lambda>_. ret (unhealthy_result unknown_seen 0))) s = (Inr y, s1)"
      and c: "andThen (close_client h v cl) (\<lambda>_. ret y) s1 = (Inr x, s')" by (rule andThen_InrE)
    from c obtain u where "close_client h v cl s1 = (Inr u, s')" and "x = y"
      by (auto simp: io_simps elim!: andThen_InrE)
    from keepsD [OF close_client_keeps this(1)] have "fst s' = fst s1" "db_sds (snd s') = db_sds (snd s1)" by simp_all
    with ensuresD [OF caught y] \<open>x = y\<close> show "case s' of (l, s) \<Rightarrow> health_verdict h d v (m options e) x l s"
      by (cases s1; cases s') (auto intro: verdict_frame)
  qed
  show ?thesis
    unfolding verify_body_def Let_def m_def
    by (rule ensures_andThen, rule ensures_andThen, rule ensures_andThen, rule ensures_andThen, rule ensures_if,
        rule no_client [unfolded m_def], rule closed [unfolded m_def])
qed

text \<open>The only errors that leave a verification are those of building the client and of closing it.\<close>

definition throws_only :: "(string \<Rightarrow> bool) \<Rightarrow> ('s, 'a) io \<Rightarrow> bool" where
  "throws_only p m \<longleftrightarrow> (\<forall>s e s'. m s = (Inl e, s') \<longrightarrow> p e)"

lemma throws_only_total: "total m \<Longrightarrow> throws_only p m"
  unfolding throws_only_def total_def by (metis Inr_Inl_False fst_conv)

lemma throws_only_andThen: "throws_only p m \<Longrightarrow> (\<And>x. throws_only p (f x)) \<Longrightarrow> throws_only p (andThen m f)"
  unfolding throws_only_def by (metis andThen_cases sum.inject(1))

lemma throws_only_if: "throws_only p m \<Longrightarrow> throws_only p n \<Longrightarrow> throws_only p (if b then m else n)"
  by simp

definition closing_error :: "'w host \<Rightarrow> server_row \<Rightarrow> string \<Rightarrow> bool" where
  "closing_error h v err \<longleftrightarrow>
     (\<exists>w w'. h_createClient h v w = (Inl err, w')) \<or> (\<exists>w w'. h_effect h (OpDisconnect (srv_id v)) w = (Inl err, w'))"

lemma verify_body_throws:
  fixes h :: "'w host"
  shows "throws_only (closing_error h v) (verify_body h d v e options :: ('w, 'z, health_result) health_io)"
proof -
  let ?p = "closing_error h v"
  have log: "throws_only ?p (hlog h msg :: ('w, 'z, unit) health_io)" for msg
    by (rule throws_only_total) (auto simp: hlog_def)
  have wait: "throws_only ?p (whenever b (andThen (hlog h msg) (\<lambda>_. sleep h ms)) :: ('w, 'z, unit) health_io)" for b msg ms
    by (rule throws_only_total) (auto simp: hlog_def sleep_def)
  have create: "throws_only ?p (on_store (on_world (h_createClient h v)) :: ('w, 'z, client) health_io)"
    by (auto simp: throws_only_def closing_error_def on_store_def on_world_def split: prod.splits)
  have close: "throws_only ?p (close_client h v cl :: ('w, 'z, unit) health_io)" for cl
    by (auto simp: throws_only_def closing_error_def close_client_def whenever_def on_store_def remote_def io_simps
        split: prod.splits elim!: andThen_cases)
  have caught: "throws_only ?p (catching m (\<lambda>err. andThen (hlog h (''ERROR: '' @ err)) (\<lambda>_. ret (unhealthy_result unknown_seen 0)))
      :: ('w, 'z, health_result) health_io)" for m
    by (rule throws_only_total) (auto simp: hlog_def)
  have returned: "throws_only ?p (ret r :: ('w, 'z, health_result) health_io)" for r
    by (rule throws_only_total) auto
  show ?thesis
    unfolding verify_body_def Let_def
    by (intro throws_only_andThen throws_only_if log wait create close caught returned)
qed

text \<open>C21: A verification of a deployment whose row, server and service exist ends in one of three verdicts. Healthy:
  reached within the configured number of attempts; the machine reported the container as running and the result has the
  state and the health of that report, \<open>healthy\<close>, or \<open>none\<close> where neither a health check nor a URL says
  more. Unhealthy after exactly the configured number of attempts (none when it is not positive), which the last log line
  says. Or the error verdict: no attempts, both statuses unknown, the error as the last log line. The first two have
  written their statuses to the deployment's row. Only an error of building the client or of closing the connection
  leaves the function as an exception.\<close>

theorem verification_verdict:
  fixes h :: "'w host" and s :: "('w, 'z) store_scheme"
  assumes "load_deployment s sdId = Some (d, v, e)" and "verifyServiceHealth h sdId options s = (x, s')"
  shows "case x of
      Inr r \<Rightarrow> health_verdict h d v (nullish (ho_maxRetries options) (se_healthRetries e)) r (hr_logs r) s'
    | Inl err \<Rightarrow> (\<exists>w w'. h_createClient h v w = (Inl err, w')) \<or> (\<exists>w w'. h_effect h (OpDisconnect (srv_id v)) w = (Inl err, w'))"
proof -
  obtain y l s1 where run: "verify_body h d v e options ([], s) = (y, l, s1)" by (metis surj_pair)
  with assms have x: "x = map_sum id (\<lambda>res. res\<lparr>hr_logs := l\<rparr>) y" and s': "s' = s1"
    by (auto simp: verifyServiceHealth_def the_row_def io_simps)
  show ?thesis
  proof (cases y)
    case (Inl err)
    with run have "closing_error h v err"
      using verify_body_throws [of h v d e options] unfolding throws_only_def by blast
    with Inl x show ?thesis by (simp add: closing_error_def)
  next
    case (Inr r)
    with ensuresD [OF verify_body_verdict] run x s' show ?thesis by (fastforce simp: verdict_logs)
  qed
qed

theorem verification_verdict_witness:
  "\<exists>r s'. verifyServiceHealth sample_host ''a'' \<lparr>ho_waitMs = None, ho_maxRetries = Some 2, ho_intervalMs = None\<rparr> sample_store
     = (Inr r, s') \<and>
   health_verdict sample_host (sample_sd ''a'' None) (hd (db_servers sample_store)) 2 r (hr_logs r) s' \<and> hr_healthy r"
proof -
  let ?o = "\<lparr>ho_waitMs = None, ho_maxRetries = Some 2, ho_intervalMs = None\<rparr>"
  obtain x s' where run: "verifyServiceHealth sample_host ''a'' ?o sample_store = (x, s')" by (metis surj_pair)
  moreover have "case fst (verifyServiceHealth sample_host ''a'' ?o sample_store) of Inl _ \<Rightarrow> False | Inr r \<Rightarrow> hr_healthy r"
    by code_simp
  ultimately obtain r where r: "x = Inr r" "hr_healthy r" by (cases x) auto
  from verification_verdict [OF sample_deployment_loads run] r run show ?thesis by simp
qed

text \<open>An attempt on a machine that does not report the container as running gives no verdict.\<close>

lemma stopped_attempt:
  assumes "\<And>w ch w'. h_containerHealth h (srv_id v) (dp_containerName d) w = (Inr ch, w') \<Longrightarrow> \<not> ch_running ch"
  shows "ensures (health_attempt h d v e cl m a u) (\<lambda>(seen, verdict) _. verdict = None)"
proof -
  have looked: "ensures (on_store (on_world (h_containerHealth h (srv_id v) (dp_containerName d)))) (\<lambda>ch _. \<not> ch_running ch)"
    using assms by (auto simp: ensures_def on_store_def on_world_def split: prod.splits)
  show ?thesis
    unfolding health_attempt_def Let_def
    by (rule ensures_andThen, rule ensures_bind [OF looked])
       (auto intro!: ensures_andThen ensures_ret simp: determineHealthStatus_def)
qed

lemma stopped_loop:
  fixes h :: "'w host"
  assumes "\<And>w ch w'. h_containerHealth h (srv_id v) (dp_containerName d) w = (Inr ch, w') \<Longrightarrow> \<not> ch_running ch"
  shows "ensures (health_loop h d v e cl m interval n attempt seen :: ('w, 'z, health_result) health_io)
     (\<lambda>r _. \<not> hr_healthy r)"
proof (induction n arbitrary: attempt seen)
  case 0
  then show ?case
    by (cases seen) (auto intro!: ensures_andThen ensures_ret simp: unhealthy_result_def)
next
  case (Suc n)
  obtain c hs u where seen: "seen = (c, hs, u)" by (cases seen)
  show ?case
    unfolding seen health_loop.simps
    by (rule ensures_bind [OF stopped_attempt [OF assms]])
       (auto intro!: ensures_andThen Suc.IH split: prod.splits)
qed

text \<open>A container that the machine never reports as running is never verified healthy, whatever its
  health check or its URL answers.\<close>

theorem stopped_container_never_healthy:
  fixes h :: "'w host" and s :: "('w, 'z) store_scheme"
  assumes "load_deployment s sdId = Some (d, v, e)"
    and "\<And>w ch w'. h_containerHealth h (srv_id v) (dp_containerName d) w = (Inr ch, w') \<Longrightarrow> \<not> ch_running ch"
    and "verifyServiceHealth h sdId options s = (Inr r, s')"
  shows "\<not> hr_healthy r"
proof -
  have check: "ensures (connect_and_check h d v e cl m iv :: ('w, 'z, health_result) health_io) (\<lambda>r _. \<not> hr_healthy r)" for cl m iv
    unfolding connect_and_check_def by (intro ensures_andThen stopped_loop [OF assms(2)])
  have caught: "ensures (catching (connect_and_check h d v e cl m iv)
      (\<lambda>err. andThen (hlog h (''ERROR: '' @ err)) (\<lambda>_. ret (unhealthy_result unknown_seen 0)))
      :: ('w, 'z, health_result) health_io) (\<lambda>r _. \<not> hr_healthy r)" for cl m iv
    by (intro ensures_catching check ensures_andThen ensures_ret) (simp add: unhealthy_result_def unknown_seen_def)
  have "ensures (verify_body h d v e options :: ('w, 'z, health_result) health_io) (\<lambda>r _. \<not> hr_healthy r)"
    unfolding verify_body_def Let_def
    by (rule ensures_andThen, rule ensures_andThen, rule ensures_andThen, rule ensures_andThen, rule ensures_if,
        intro ensures_andThen ensures_ret, simp add: unhealthy_result_def unknown_seen_def,
        rule ensures_bind [OF caught], intro ensures_andThen ensures_ret)
  note body = this
  obtain x l s1 where run: "verify_body h d v e options ([], s) = (x, l, s1)" by (metis surj_pair)
  with assms obtain y where "x = Inr y" "r = y\<lparr>hr_logs := l\<rparr>"
    by (cases x) (auto simp: verifyServiceHealth_def the_row_def io_simps)
  with ensuresD [OF body] run show ?thesis by auto
qed

theorem stopped_container_never_healthy_witness:
  "\<not> hr_healthy (projr (fst (verifyServiceHealth
      (sample_host\<lparr>h_containerHealth := (\<lambda>_ _ w. (Inr \<lparr>ch_state = ''exited'', ch_running = False, ch_health = Some ''healthy''\<rparr>, w))\<rparr>)
      ''a'' \<lparr>ho_waitMs = None, ho_maxRetries = Some 2, ho_intervalMs = None\<rparr> sample_store)))"
proof -
  let ?h = "sample_host\<lparr>h_containerHealth := (\<lambda>_ _ w. (Inr \<lparr>ch_state = ''exited'', ch_running = False, ch_health = Some ''healthy''\<rparr>, w))\<rparr>"
  let ?o = "\<lparr>ho_waitMs = None, ho_maxRetries = Some 2, ho_intervalMs = None\<rparr>"
  obtain x s' where run: "verifyServiceHealth ?h ''a'' ?o sample_store = (x, s')" by (metis surj_pair)
  moreover have "\<not> isl (fst (verifyServiceHealth ?h ''a'' ?o sample_store))"
    by code_simp
  ultimately obtain r where r: "verifyServiceHealth ?h ''a'' ?o sample_store = (Inr r, s')" by (cases x) auto
  have "\<not> hr_healthy r"
    by (rule stopped_container_never_healthy [OF sample_deployment_loads _ r]) auto
  with r show ?thesis by simp
qed

end
