(* ===== verification/Plan_Execution.thy ===== *)
theory Plan_Execution
  imports Plan_Builder Health_Verification
begin

text \<open>
  \<open>src/services/orchestration.ts\<close>: \<open>executePlan\<close>, \<open>executeDeployStep\<close>, \<open>executeHealthCheckStep\<close>,
  \<open>rollbackPlan\<close> and \<open>cancelPlan\<close>. The store is the store of the deployment components extended by
  the row of the plan the calls are about and the rows of its steps, each with the relations that
  the query includes. The local state of a run is its list \<open>planLogs\<close> (or \<open>rollbackLogs\<close>).

  The executor awaits \<open>deployService\<close> and \<open>verifyServiceHealth\<close>; between those awaits other
  requests may run. The two workers are therefore arguments that map a whole store to a whole store:
  instantiated with the modelled functions they are a run alone on the system, instantiated with a
  worker that also cancels the plan they are an interleaving. In parallel mode the steps of one level
  are run in list order; the levels of a built plan hold one step each, so nothing is lost by that.
\<close>

section \<open>Plans and steps in the store\<close>

record step_deployment =
  sx_id :: ident
  sx_serviceId :: ident
  sx_serviceName :: string
  sx_serverName :: string

record health_details =
  hd_containerStatus :: string
  hd_healthStatus :: string
  hd_urlCheck :: "url_result option"
  hd_attempts :: int

record plan_step =
  st_id :: ident
  st_order :: nat
  st_action :: step_action
  st_status :: step_status
  st_targetTag :: "string option"
  st_previousTag :: "string option"
  st_startedAt :: "millis option"
  st_completedAt :: "millis option"
  st_deploymentId :: "ident option"
  st_healthPassed :: "bool option"
  st_healthDetails :: "health_details option"
  st_error :: "string option"
  st_logs :: "log_line list option"
  st_service :: "(ident \<times> string) option"
  st_sd :: "step_deployment option"

record 'w plan_store = "'w store" +
  ps_plan :: deployment_plan
  ps_steps :: "plan_step list"

type_synonym ('w, 'z, 'a) exec_io = "((millis \<times> string) list \<times> ('w, 'z) plan_store_scheme, 'a) io"

record 's workers =
  wk_deploy :: "ident \<Rightarrow> string \<Rightarrow> ident option \<Rightarrow> deploy_options \<Rightarrow> ('s, deploy_result) io"
  wk_verify :: "ident \<Rightarrow> ('s, health_result) io"

definition plan_log :: "'w host \<Rightarrow> string \<Rightarrow> ('w, 'z, unit) exec_io" where
  "plan_log h msg = writes (\<lambda>(l, s). (l @ [(now h s, msg)], s))"

definition set_plan :: "('w host \<Rightarrow> ('w, 'z) plan_store_scheme \<Rightarrow> deployment_plan \<Rightarrow> deployment_plan) \<Rightarrow> 'w host
    \<Rightarrow> ('w, 'z, unit) exec_io" where
  "set_plan f h = writes (\<lambda>(l, s). (l, s\<lparr>ps_plan := f h s (ps_plan s)\<rparr>))"

definition set_step :: "ident \<Rightarrow> ('w host \<Rightarrow> ('w, 'z) plan_store_scheme \<Rightarrow> plan_step \<Rightarrow> plan_step) \<Rightarrow> 'w host
    \<Rightarrow> ('w, 'z, unit) exec_io" where
  "set_step i f h = writes (\<lambda>(l, s). (l, s\<lparr>ps_steps := update_row st_id i (f h s) (ps_steps s)\<rparr>))"

definition find_step :: "ident \<Rightarrow> ('w, 'z, plan_step) exec_io" where
  "find_step i = andThen (reads (\<lambda>(l, s). List.find (\<lambda>r. st_id r = i) (ps_steps s))) the_row"

fun status_text :: "plan_status \<Rightarrow> string" where
  "status_text PlanPending = ''pending''"
| "status_text PlanRunning = ''running''"
| "status_text PlanCompleted = ''completed''"
| "status_text PlanFailed = ''failed''"
| "status_text PlanCancelled = ''cancelled''"
| "status_text PlanRolledBack = ''rolled_back''"

fun action_text :: "step_action \<Rightarrow> string" where
  "action_text ActDeploy = ''deploy''"
| "action_text ActHealthCheck = ''health_check''"
| "action_text ActRollback = ''rollback''"

section \<open>One step\<close>

text \<open>The line that a failed deployment adds to the plan's log ends in the log of the deployment; that text
  is kept in the step's row and is not repeated in the line here.\<close>

definition plan_deploy_options :: "string \<Rightarrow> deploy_options" where
  "plan_deploy_options tag =
     \<lparr>op_imageTag = Some tag, op_generateArtifacts = True, op_pullImage = True, op_previousTagOverride = None\<rparr>"

definition executeDeployStep :: "'w host \<Rightarrow> (('w, 'z) plan_store_scheme) workers \<Rightarrow> plan_step \<Rightarrow> deployment_plan
    \<Rightarrow> (string \<Rightarrow> ('w, 'z, unit) exec_io) \<Rightarrow> ('w, 'z, unit) exec_io" where
  "executeDeployStep h wk step plan logger =
     (case st_sd step of
        None \<Rightarrow> throw ''Invalid deploy step: missing service deployment or target tag''
      | Some sd \<Rightarrow>
          if \<not> truthy (st_targetTag step) then throw ''Invalid deploy step: missing service deployment or target tag''
          else let svcName = sx_serviceName sd in
            catching
              (andThen (on_store (wk_deploy wk (sx_id sd)
                          (if pl_triggeredBy plan = [] then ''deployment-plan'' else pl_triggeredBy plan) (pl_userId plan)
                          (plan_deploy_options (the (st_targetTag step))))) (\<lambda>result.
               if dr_status result = DepSuccess then
                 andThen (logger (''Deploy '' @ svcName @ '': success'')) (\<lambda>_.
                 set_step (st_id step) (\<lambda>h s r. r\<lparr>st_status := StepSuccess, st_completedAt := Some (now h s),
                   st_deploymentId := Some (dr_deploymentId result), st_logs := Some (dr_logs result)\<rparr>) h)
               else
                 andThen (logger (''Deploy '' @ svcName @ '': failed'')) (\<lambda>_.
                 set_step (st_id step) (\<lambda>h s r. r\<lparr>st_status := StepFailed, st_completedAt := Some (now h s),
                   st_deploymentId := Some (dr_deploymentId result), st_error := Some ''Deployment failed'',
                   st_logs := Some (dr_logs result)\<rparr>) h)))
              (\<lambda>err.
                 andThen (logger (''Deploy '' @ svcName @ '': error - '' @ err)) (\<lambda>_.
                 set_step (st_id step) (\<lambda>h s r. r\<lparr>st_status := StepFailed, st_completedAt := Some (now h s),
                   st_error := Some err\<rparr>) h)))"

definition details_of :: "health_result \<Rightarrow> health_details" where
  "details_of r = \<lparr>hd_containerStatus = hr_containerStatus r, hd_healthStatus = hr_healthStatus r,
     hd_urlCheck = hr_urlCheck r, hd_attempts = hr_attempts r\<rparr>"

definition executeHealthCheckStep :: "'w host \<Rightarrow> (('w, 'z) plan_store_scheme) workers \<Rightarrow> plan_step
    \<Rightarrow> (string \<Rightarrow> ('w, 'z, unit) exec_io) \<Rightarrow> ('w, 'z, unit) exec_io" where
  "executeHealthCheckStep h wk step logger =
     (case st_sd step of
        None \<Rightarrow> throw ''Invalid health check step: missing service deployment''
      | Some sd \<Rightarrow>
          let svcName = sx_serviceName sd in
          catching
            (andThen (on_store (wk_verify wk (sx_id sd))) (\<lambda>result.
             if hr_healthy result then
               andThen (logger (''Health check '' @ svcName @ '': healthy'')) (\<lambda>_.
               set_step (st_id step) (\<lambda>h s r. r\<lparr>st_status := StepSuccess, st_completedAt := Some (now h s),
                 st_healthPassed := Some True, st_healthDetails := Some (details_of result), st_logs := Some (hr_logs result)\<rparr>) h)
             else
               andThen (logger (''Health check '' @ svcName @ '': unhealthy after '' @ int_str (hr_attempts result) @ '' attempts'')) (\<lambda>_.
               set_step (st_id step) (\<lambda>h s r. r\<lparr>st_status := StepFailed, st_completedAt := Some (now h s),
                 st_healthPassed := Some False, st_healthDetails := Some (details_of result),
                 st_error := Some (''Health check failed after '' @ int_str (hr_attempts result) @ '' attempts''),
                 st_logs := Some (hr_logs result)\<rparr>) h)))
            (\<lambda>err.
               andThen (logger (''Health check '' @ svcName @ '': error - '' @ err)) (\<lambda>_.
               set_step (st_id step) (\<lambda>h s r. r\<lparr>st_status := StepFailed, st_completedAt := Some (now h s),
                 st_healthPassed := Some False, st_error := Some err\<rparr>) h)))"

definition executeStepAction :: "'w host \<Rightarrow> (('w, 'z) plan_store_scheme) workers \<Rightarrow> plan_step \<Rightarrow> deployment_plan
    \<Rightarrow> (string \<Rightarrow> ('w, 'z, unit) exec_io) \<Rightarrow> ('w, 'z, unit) exec_io" where
  "executeStepAction h wk step plan logger =
     (case st_action step of
        ActDeploy \<Rightarrow> executeDeployStep h wk step plan logger
      | ActHealthCheck \<Rightarrow> executeHealthCheckStep h wk step logger
      | ActRollback \<Rightarrow> ret ())"

section \<open>Rollback\<close>

text \<open>The service of a step, through its deployment or directly: its id and name.\<close>

definition step_service :: "plan_step \<Rightarrow> (ident \<times> string) option" where
  "step_service step = (case st_sd step of Some sd \<Rightarrow> Some (sx_serviceId sd, sx_serviceName sd) | None \<Rightarrow> st_service step)"

definition to_roll_back :: "plan_step \<Rightarrow> bool" where
  "to_roll_back step \<longleftrightarrow>
     st_action step = ActDeploy \<and> st_sd step \<noteq> None \<and> st_status step \<in> {StepSuccess, StepRunning} \<and> truthy (st_previousTag step)"

definition rollback_step :: "'w host \<Rightarrow> (('w, 'z) plan_store_scheme) workers \<Rightarrow> deployment_plan \<Rightarrow> plan_step
    \<Rightarrow> ('w, 'z, unit) exec_io" where
  "rollback_step h wk plan step =
     (case st_sd step of
        None \<Rightarrow> ret ()
      | Some sd \<Rightarrow>
          if \<not> truthy (st_previousTag step) then ret ()
          else let svcName = sx_serviceName sd; tag = the (st_previousTag step) in
            andThen (plan_log h (''Rolling back '' @ svcName @ '' to '' @ tag)) (\<lambda>_.
            catching
              (andThen (on_store (wk_deploy wk (sx_id sd) ''rollback'' (pl_userId plan) (plan_deploy_options tag))) (\<lambda>result.
               if dr_status result = DepSuccess then
                 andThen (plan_log h (''Rollback '' @ svcName @ '': success'')) (\<lambda>_.
                 set_step (st_id step) (\<lambda>h s r. r\<lparr>st_status := StepRolledBack\<rparr>) h)
               else plan_log h (''Rollback '' @ svcName @ '': failed'')))
              (\<lambda>err. plan_log h (''Rollback '' @ svcName @ '': error - '' @ err))))"

definition failure_notice :: "deployment_plan \<Rightarrow> plan_step option \<Rightarrow> string option \<Rightarrow> event" where
  "failure_notice plan failed err =
     SystemNotice ''system.deployment_failed'' (pl_environmentId plan)
       [(''planName'', Some (pl_name plan)),
        (''serviceName'', map_option snd (Option.bind failed step_service)),
        (''serviceId'', map_option fst (Option.bind failed step_service)),
        (''serverName'', map_option sx_serverName (Option.bind failed st_sd)),
        (''imageTag'', Option.bind failed st_targetTag), (''error'', err)]"

definition plan_webhook :: "string \<Rightarrow> deployment_plan \<Rightarrow> plan_status \<Rightarrow> string option \<Rightarrow> string option \<Rightarrow> event" where
  "plan_webhook name plan status serviceName err =
     Webhook name (pl_environmentId plan)
       [(''planId'', Some (pl_id plan)), (''planName'', Some (pl_name plan)), (''status'', Some (status_text status)),
        (''serviceName'', serviceName), (''error'', err)]"

text \<open>The text that \<open>rollbackPlan\<close> stores: what the plan's row holds, then its own log lines.\<close>

definition append_logs :: "(millis \<times> string) list option \<Rightarrow> (millis \<times> string) list \<Rightarrow> (millis \<times> string) list" where
  "append_logs current own = (case current of None \<Rightarrow> own | Some ls \<Rightarrow> ls @ own)"

text \<open>
  The body of \<open>rollbackPlan\<close>. With \<open>existingLog\<close> the messages go to the caller's log and the own
  list \<open>rollbackLogs\<close> stays empty; without it they are the local list.
\<close>

definition rollback_body :: "'w host \<Rightarrow> (('w, 'z) plan_store_scheme) workers \<Rightarrow> bool \<Rightarrow> ('w, 'z, unit) exec_io" where
  "rollback_body h wk existingLog =
     andThen (reads (\<lambda>(l, s). (ps_plan s, rev (sort_key st_order (ps_steps s))))) (\<lambda>(plan, steps).
     andThen (plan_log h ''Starting rollback...'') (\<lambda>_.
     andThen (for_each (rollback_step h wk plan) (filter to_roll_back steps)) (\<lambda>_.
     andThen (plan_log h ''Rollback completed'') (\<lambda>_.
     andThen (reads (\<lambda>(l, s). append_logs (pl_logs (ps_plan s)) (if existingLog then [] else l))) (\<lambda>allLogs.
     andThen (set_plan (\<lambda>h s p. p\<lparr>pl_status := PlanRolledBack, pl_completedAt := Some (now h s), pl_logs := Some allLogs\<rparr>) h) (\<lambda>_.
     let failed = List.find (\<lambda>r. st_status r = StepFailed) steps in
     andThen (on_store (emit (plan_webhook ''plan.rolled_back'' plan PlanRolledBack
                (map_option snd (Option.bind failed step_service)) (Option.bind failed st_error)))) (\<lambda>_.
     on_store (emit (failure_notice plan failed (Some ''Deployment rolled back due to failure''))))))))))"

text \<open>A call with a log list of its own, from outside a run or from its \<open>catch\<close> block.\<close>

definition with_fresh_log :: "('w, 'z, 'a) exec_io \<Rightarrow> (('w, 'z) plan_store_scheme, 'a) io" where
  "with_fresh_log m s = (case m ([], s) of (r, _, s') \<Rightarrow> (r, s'))"

definition rollbackPlan :: "'w host \<Rightarrow> (('w, 'z) plan_store_scheme) workers \<Rightarrow> (('w, 'z) plan_store_scheme, unit) io" where
  "rollbackPlan h wk = with_fresh_log (rollback_body h wk False)"

section \<open>Running a plan\<close>

definition emit_progress :: "deployment_plan \<Rightarrow> plan_step list \<Rightarrow> plan_status \<Rightarrow> ('w, 'z, unit) exec_io" where
  "emit_progress plan steps status =
     for_each (\<lambda>step. case st_service step of
         Some (i, name) \<Rightarrow> whenever (st_action step = ActDeploy)
           (on_store (emit (PlanProgress (pl_id plan) i (status_text status) (pl_environmentId plan))))
       | None \<Rightarrow> ret ()) steps"

text \<open>What a run does when a step has failed: roll back, or mark the plan failed and tell.\<close>

definition on_failed_step :: "'w host \<Rightarrow> (('w, 'z) plan_store_scheme) workers \<Rightarrow> deployment_plan \<Rightarrow> plan_step
    \<Rightarrow> string \<Rightarrow> string \<Rightarrow> ('w, 'z, unit) exec_io" where
  "on_failed_step h wk plan failed rollbackMsg failMsg =
     (if pl_autoRollback plan then
        andThen (plan_log h rollbackMsg) (\<lambda>_. rollback_body h wk True)
      else
        andThen (plan_log h failMsg) (\<lambda>_.
        andThen (reads fst) (\<lambda>planLogs.
        andThen (set_plan (\<lambda>h s p. p\<lparr>pl_status := PlanFailed, pl_completedAt := Some (now h s),
                   pl_error := st_error failed, pl_logs := Some planLogs\<rparr>) h) (\<lambda>_.
        andThen (on_store (emit (failure_notice plan (Some failed) (st_error failed)))) (\<lambda>_.
        on_store (emit (plan_webhook ''plan.failed'' plan PlanFailed
          (map_option snd (step_service failed)) (st_error failed))))))))"

text \<open>The sequential loop; it returns whether every step was gone through.\<close>

fun run_sequential :: "'w host \<Rightarrow> (('w, 'z) plan_store_scheme) workers \<Rightarrow> deployment_plan \<Rightarrow> plan_step list
    \<Rightarrow> ('w, 'z, bool) exec_io" where
  "run_sequential h wk plan [] = ret True"
| "run_sequential h wk plan (step # steps) =
     (case st_sd step of
        None \<Rightarrow> andThen (plan_log h (''Skipping step '' @ nat_str (st_order step) @ '': no service deployment associated''))
                  (\<lambda>_. run_sequential h wk plan steps)
      | Some sd \<Rightarrow>
          andThen (set_step (st_id step) (\<lambda>h s r. r\<lparr>st_status := StepRunning, st_startedAt := Some (now h s)\<rparr>) h) (\<lambda>_.
          andThen (plan_log h (''Executing step '' @ nat_str (st_order step) @ '': '' @ action_text (st_action step)
                     @ '' '' @ sx_serviceName sd)) (\<lambda>_.
          andThen (executeStepAction h wk step plan (plan_log h)) (\<lambda>_.
          andThen (find_step (st_id step)) (\<lambda>updated.
          if st_status updated = StepFailed then
            andThen (on_failed_step h wk plan updated
                (''Step '' @ nat_str (st_order step) @ '' failed, initiating rollback (sequential strategy halts on first failure)...'')
                (''Step '' @ nat_str (st_order step) @ '' failed, sequential strategy halted; auto-rollback disabled (rollback hint: re-deploy previous tag manually)''))
              (\<lambda>_. ret False)
          else run_sequential h wk plan steps)))))"

text \<open>The steps of one level in parallel mode, and the rows they leave.\<close>

fun run_level :: "'w host \<Rightarrow> (('w, 'z) plan_store_scheme) workers \<Rightarrow> deployment_plan \<Rightarrow> plan_step list
    \<Rightarrow> ('w, 'z, plan_step list) exec_io" where
  "run_level h wk plan [] = ret []"
| "run_level h wk plan (step # steps) =
     (let svcName = (case st_sd step of Some sd \<Rightarrow> sx_serviceName sd | None \<Rightarrow> []) in
      andThen (set_step (st_id step) (\<lambda>h s r. r\<lparr>st_status := StepRunning, st_startedAt := Some (now h s)\<rparr>) h) (\<lambda>_.
      andThen (plan_log h (''  Starting '' @ action_text (st_action step) @ '' '' @ svcName)) (\<lambda>_.
      andThen (executeStepAction h wk step plan (\<lambda>msg. plan_log h (''    ['' @ svcName @ ''] '' @ msg))) (\<lambda>_.
      andThen (find_step (st_id step)) (\<lambda>updated.
      andThen (run_level h wk plan steps) (\<lambda>rows. ret (updated # rows)))))))"

fun run_parallel :: "'w host \<Rightarrow> (('w, 'z) plan_store_scheme) workers \<Rightarrow> deployment_plan \<Rightarrow> (nat \<times> plan_step list) list
    \<Rightarrow> ('w, 'z, bool) exec_io" where
  "run_parallel h wk plan [] = ret True"
| "run_parallel h wk plan ((level, steps) # levels) =
     (let valid = filter (\<lambda>step. st_sd step \<noteq> None) steps in
      if valid = [] then run_parallel h wk plan levels
      else
        andThen (plan_log h (''Executing level '' @ nat_str level @ '': '' @ nat_str (length valid) @ '' step(s) in parallel'')) (\<lambda>_.
        andThen (run_level h wk plan valid) (\<lambda>rows.
        case List.find (\<lambda>r. st_status r = StepFailed) rows of
          Some failed \<Rightarrow>
            andThen (on_failed_step h wk plan failed
                (''Level '' @ nat_str level @ '' failed ('' @ nullish (map_option snd (step_service failed)) ''undefined'' @ ''), initiating rollback...'')
                (''Level '' @ nat_str level @ '' failed ('' @ nullish (map_option snd (step_service failed)) ''undefined'' @ ''), auto-rollback disabled''))
              (\<lambda>_. ret False)
        | None \<Rightarrow> run_parallel h wk plan levels)))"

definition complete_plan :: "'w host \<Rightarrow> deployment_plan \<Rightarrow> plan_step list \<Rightarrow> ('w, 'z, unit) exec_io" where
  "complete_plan h plan steps =
     andThen (plan_log h ''Deployment plan completed successfully'') (\<lambda>_.
     andThen (reads fst) (\<lambda>planLogs.
     andThen (set_plan (\<lambda>h s p. p\<lparr>pl_status := PlanCompleted, pl_completedAt := Some (now h s), pl_logs := Some planLogs\<rparr>) h) (\<lambda>_.
     andThen (emit_progress plan steps PlanCompleted) (\<lambda>_.
     on_store (emit (plan_webhook ''plan.completed'' plan PlanCompleted None None))))))"

text \<open>The \<open>catch\<close> block; its rollback keeps a log of its own.\<close>

definition on_thrown :: "'w host \<Rightarrow> (('w, 'z) plan_store_scheme) workers \<Rightarrow> deployment_plan \<Rightarrow> plan_step list \<Rightarrow> string
    \<Rightarrow> ('w, 'z, unit) exec_io" where
  "on_thrown h wk plan steps err =
     andThen (plan_log h (''ERROR: '' @ err)) (\<lambda>_.
     andThen (reads fst) (\<lambda>planLogs.
     andThen (set_plan (\<lambda>h s p. p\<lparr>pl_status := PlanFailed, pl_completedAt := Some (now h s), pl_error := Some err,
                pl_logs := Some planLogs\<rparr>) h) (\<lambda>_.
     andThen (emit_progress plan steps PlanFailed) (\<lambda>_.
     if pl_autoRollback plan then (\<lambda>(l, s). case rollbackPlan h wk s of (r, s') \<Rightarrow> (r, l, s'))
     else on_store (emit (plan_webhook ''plan.failed'' plan PlanFailed None (Some err)))))))"

definition run_plan :: "'w host \<Rightarrow> (('w, 'z) plan_store_scheme) workers \<Rightarrow> deployment_plan \<Rightarrow> plan_step list
    \<Rightarrow> ('w, 'z, unit) exec_io" where
  "run_plan h wk plan steps =
     andThen (plan_log h (''Starting deployment plan: '' @ pl_name plan @ (if pl_parallelExecution plan then '' (parallel mode)'' else []))) (\<lambda>_.
     catching
       (andThen (if pl_parallelExecution plan
                 then run_parallel h wk plan (sort_key fst (groupStepsByLevel st_order steps))
                 else run_sequential h wk plan steps) (\<lambda>through.
        whenever through (complete_plan h plan steps)))
       (on_thrown h wk plan steps))"

definition executePlan :: "'w host \<Rightarrow> (('w, 'z) plan_store_scheme) workers \<Rightarrow> (('w, 'z) plan_store_scheme, unit) io" where
  "executePlan h wk =
     andThen (reads (\<lambda>s. (ps_plan s, sort_key st_order (ps_steps s)))) (\<lambda>(plan, steps).
     if pl_status plan \<noteq> PlanPending then throw (''Plan is already '' @ status_text (pl_status plan))
     else with_fresh_log
       (andThen (set_plan (\<lambda>h s p. p\<lparr>pl_status := PlanRunning, pl_startedAt := Some (now h s)\<rparr>) h) (\<lambda>_.
        andThen (emit_progress plan steps PlanRunning) (\<lambda>_.
        run_plan h wk plan steps))))"

definition cancelPlan :: "'w host \<Rightarrow> (('w, 'z) plan_store_scheme, unit) io" where
  "cancelPlan h =
     andThen (reads (\<lambda>s. pl_status (ps_plan s))) (\<lambda>status.
     if status \<noteq> PlanPending \<and> status \<noteq> PlanRunning then throw (''Cannot cancel plan with status: '' @ status_text status)
     else
       andThen (writes (\<lambda>s. s\<lparr>ps_steps := map (\<lambda>r. if st_status r = StepPending then r\<lparr>st_status := StepSkipped\<rparr> else r) (ps_steps s)\<rparr>)) (\<lambda>_.
       writes (\<lambda>s. s\<lparr>ps_plan := (ps_plan s)\<lparr>pl_status := PlanCancelled, pl_completedAt := Some (now h s)\<rparr>\<rparr>)))"

text \<open>The workers of the running system.\<close>

definition system_workers :: "'w host \<Rightarrow> (('w, 'z) plan_store_scheme) workers" where
  "system_workers h =
     \<lparr>wk_deploy = deployService h,
      wk_verify = (\<lambda>sd. verifyServiceHealth h sd \<lparr>ho_waitMs = None, ho_maxRetries = None, ho_intervalMs = None\<rparr>)\<rparr>"

section \<open>What the workers may not touch\<close>

definition is_plan_webhook :: "event \<Rightarrow> bool" where
  "is_plan_webhook e = (case e of Webhook name env payload \<Rightarrow> take 5 name = ''plan.'' | _ \<Rightarrow> False)"

definition plan_events :: "('w, 'z) plan_store_scheme \<Rightarrow> event list" where
  "plan_events s = filter is_plan_webhook (db_events s)"

text \<open>The part of the store that belongs to the executor: the webhooks of the plan, its row and its steps.\<close>

definition plan_view :: "('w, 'z) plan_store_scheme \<Rightarrow> event list \<times> deployment_plan \<times> plan_step list" where
  "plan_view s = (plan_events s, ps_plan s, ps_steps s)"

lemma plan_view_simps [simp]:
  "plan_view (s\<lparr>db_world := w\<rparr>) = plan_view s" "plan_view (s\<lparr>db_ops := ops\<rparr>) = plan_view s"
  "plan_view (s\<lparr>db_services := es\<rparr>) = plan_view s" "plan_view (s\<lparr>db_sds := ds\<rparr>) = plan_view s"
  "plan_view (s\<lparr>db_images := is\<rparr>) = plan_view s" "plan_view (s\<lparr>db_imageHistory := ihs\<rparr>) = plan_view s"
  "plan_view (s\<lparr>db_deployments := rows\<rparr>) = plan_view s" "plan_view (s\<lparr>db_artifacts := as\<rparr>) = plan_view s"
  by (simp_all add: plan_view_def plan_events_def)

lemma plan_view_event [simp]:
  "\<not> is_plan_webhook e \<Longrightarrow> plan_view (s\<lparr>db_events := db_events s @ [e]\<rparr>) = plan_view s"
  by (simp add: plan_view_def plan_events_def)

lemma not_plan_webhook [simp]:
  "\<not> is_plan_webhook (DeployProgress a b c d)" "\<not> is_plan_webhook (SystemNotice n e p)"
  "\<not> is_plan_webhook (AuditEntry n i e p)" "\<not> is_plan_webhook (PlanProgress a b x d)"
  "\<not> is_plan_webhook (Webhook ''deployment.completed'' e p)" "\<not> is_plan_webhook (Webhook ''deployment.failed'' e p)"
  by (simp_all add: is_plan_webhook_def)

lemma keeps_view_body: "keeps (\<lambda>st. plan_view (snd st)) (deploy_body h c)"
  unfolding phase_defs by (intro keeps_intros keeps_recordTagDeployment) (simp_all add: case_prod_beta)

lemma keeps_view_failed: "keeps (\<lambda>st. plan_view (snd st)) (deploy_failed h c err)"
  unfolding phase_defs by (intro keeps_intros keeps_recordTagDeployment) (simp_all add: case_prod_beta)

lemma deployService_frame: "keeps plan_view (deployService h sdId triggeredBy userId options)"
proof (rule keepsI)
  fix s
  show "plan_view (snd (deployService h sdId triggeredBy userId options s)) = plan_view s"
  proof (cases "load_sd s sdId")
    case None
    then show ?thesis by (simp add: deployService_def the_row_def io_simps)
  next
    case (Some j)
    then show ?thesis
    proof (rule deployService_cases [of s sdId j h triggeredBy userId options])
      fix c l status l' s'
      assume run: "run_deployment h c (l, s\<lparr>db_deployments := db_deployments s @ [deployment_row_of c sdId]\<rparr>) = (Inr status, l', s')"
        and call: "deployService h sdId triggeredBy userId options s =
       (Inr \<lparr>dr_deploymentId = dc_rowId c, dr_status = status, dr_logs = lc_logs l', dr_previousTag = previous_tag c\<rparr>, s')"
      have "keeps (\<lambda>st. plan_view (snd st)) (run_deployment h c)"
        unfolding run_deployment_def by (intro keeps_intros keeps_view_body keeps_view_failed)
      from keepsD [OF this run] call show ?thesis by simp
    qed
  qed
qed

lemma keeps_view_loop: "keeps (\<lambda>st. plan_view (snd st)) (health_loop h d v e cl m iv n a seen)"
proof (induction n arbitrary: a seen)
  case 0
  then show ?case
    by (cases seen) (auto simp: hlog_def update_sd_def case_prod_beta intro!: keeps_intros)
next
  case (Suc n)
  obtain c hs u where seen: "seen = (c, hs, u)" by (cases seen)
  show ?case
    unfolding seen health_loop.simps health_attempt_def check_url_def hlog_def sleep_def update_sd_def Let_def
    by (intro keeps_intros Suc.IH) (simp_all add: case_prod_beta)
qed

lemma verifyServiceHealth_frame: "keeps plan_view (verifyServiceHealth h sdId options)"
proof (rule keepsI)
  fix s
  show "plan_view (snd (verifyServiceHealth h sdId options s)) = plan_view s"
  proof (cases "load_deployment s sdId")
    case None
    then show ?thesis by (simp add: verifyServiceHealth_def the_row_def io_simps)
  next
    case (Some j)
    obtain d v e where j: "j = (d, v, e)" by (cases j)
    have "keeps (\<lambda>st. plan_view (snd st)) (verify_body h d v e options)"
      unfolding verify_body_def connect_and_check_def close_client_def hlog_def sleep_def Let_def
      by (intro keeps_intros keeps_view_loop) (simp_all add: case_prod_beta)
    note body = this
    obtain r l s' where run: "verify_body h d v e options ([], s) = (r, l, s')" by (metis surj_pair)
    from keepsD [OF body run] run Some j show ?thesis
      by (simp add: verifyServiceHealth_def the_row_def io_simps)
  qed
qed

text \<open>
  The contract between the executor and its workers: a deployment and a health verification leave
  the plan, its steps and its webhooks alone.
\<close>

locale plan_workers =
  fixes h :: "'w host" and wk :: "(('w, 'z) plan_store_scheme) workers"
  assumes deploy_frame: "keeps plan_view (wk_deploy wk sdId triggeredBy user options)"
    and verify_frame: "keeps plan_view (wk_verify wk sdId)"

section \<open>The executor's own writes\<close>

lemma keeps_plan_log [keeps_intros]: "(\<And>l l' s. f (l, s) = f (l', s)) \<Longrightarrow> keeps f (plan_log h msg)"
  by (auto simp: plan_log_def intro!: keeps_writes)

lemma total_exec [intro!]:
  "total (plan_log h msg)" "total (set_plan g h)" "total (set_step i f h)"
  by (auto simp: plan_log_def set_plan_def set_step_def)

lemma total_for_each [intro!]: "(\<And>x. total (f x)) \<Longrightarrow> total (for_each f xs)"
  by (induction xs) auto

lemma total_rollback_step [intro!]: "total (rollback_step h wk plan step)"
  by (auto simp: rollback_step_def Let_def split: option.split)

lemma total_rollback_body: "total (rollback_body h wk e)"
  by (auto simp: rollback_body_def Let_def)

lemma total_emit_progress [intro!]: "total (emit_progress plan steps status)"
  by (auto simp: emit_progress_def split: option.split prod.split)

lemma total_on_failed_step: "total (on_failed_step h wk plan failed m1 m2)"
  unfolding on_failed_step_def by (intro total_if total_andThen total_rollback_body) auto

lemma total_complete_plan: "total (complete_plan h plan steps)"
  by (auto simp: complete_plan_def)

lemma rollbackPlan_returns: "\<exists>s'. rollbackPlan h wk s = (Inr (), s')"
proof -
  obtain l s' where "rollback_body h wk False ([], s) = (Inr (), l, s')"
    using totalD [OF total_rollback_body, of h wk False "([], s)"] by auto
  then show ?thesis by (simp add: rollbackPlan_def with_fresh_log_def)
qed

lemma total_on_thrown: "total (on_thrown h wk plan steps err)"
proof -
  have "total (\<lambda>(l, s). case rollbackPlan h wk s of (r, s') \<Rightarrow> (r, l, s'))"
    unfolding total_def using rollbackPlan_returns [of h wk] by (auto split: prod.split) (metis fst_conv prod.inject)
  then show ?thesis
    unfolding on_thrown_def by (intro total_if total_andThen) auto
qed

text \<open>The rows of a step by its id, and the rows a rollback leaves.\<close>

definition rows :: "ident \<Rightarrow> ('w, 'z) plan_store_scheme \<Rightarrow> plan_step list" where
  "rows i s = filter (\<lambda>r. st_id r = i) (ps_steps s)"

lemma rows_set_step_other:
  "(\<And>r. st_id (g r) = st_id r) \<Longrightarrow> i \<noteq> j \<Longrightarrow> rows j (s\<lparr>ps_steps := update_row st_id i g (ps_steps s)\<rparr>) = rows j s"
proof -
  assume "\<And>r. st_id (g r) = st_id r" "i \<noteq> j"
  then have "filter (\<lambda>r. st_id r = j) (update_row st_id i g ss) = filter (\<lambda>r. st_id r = j) ss" for ss
    by (induction ss) (auto simp: update_row_def)
  then show ?thesis by (simp add: rows_def)
qed

definition rolled :: "ident set \<Rightarrow> plan_step list \<Rightarrow> plan_step list" where
  "rolled ids ss = map (\<lambda>r. if st_id r \<in> ids then r\<lparr>st_status := StepRolledBack\<rparr> else r) ss"

lemma rolled_simps [simp]:
  "rolled {} ss = ss" "rolled A (rolled B ss) = rolled (A \<union> B) ss"
  "update_row st_id i (\<lambda>r. r\<lparr>st_status := StepRolledBack\<rparr>) ss = rolled {i} ss"
  by (auto simp: rolled_def update_row_def comp_def)

context plan_workers
begin

lemma deploy_view: "keeps (\<lambda>st. plan_view (snd st)) (on_store (wk_deploy wk i u t opts))"
  using deploy_frame by (intro keeps_on_store) simp

lemma verify_view: "keeps (\<lambda>st. plan_view (snd st)) (on_store (wk_verify wk i))"
  using verify_frame by (intro keeps_on_store) simp

lemma rollback_step_effect:
  assumes "rollback_step h wk plan step st = (r, st')"
  shows "(\<exists>ids \<subseteq> {st_id step}. ps_steps (snd st') = rolled ids (ps_steps (snd st))) \<and>
    ps_plan (snd st') = ps_plan (snd st) \<and> plan_events (snd st') = plan_events (snd st)"
proof (cases "st_sd step = None \<or> \<not> truthy (st_previousTag step)")
  case True
  with assms show ?thesis
    by (auto simp: rollback_step_def io_simps split: option.splits intro!: exI [of _ "{}"])
next
  case False
  then obtain sd where sd: "st_sd step = Some sd" by auto
  let ?m = "on_store (wk_deploy wk (sx_id sd) ''rollback'' (pl_userId plan) (plan_deploy_options (the (st_previousTag step))))"
  let ?st0 = "(fst st @ [(now h (snd st), ''Rolling back '' @ sx_serviceName sd @ '' to '' @ the (st_previousTag step))], snd st)"
  obtain x st1 where m: "?m ?st0 = (x, st1)" by (metis surj_pair)
  from keepsD [OF deploy_view m] have view: "plan_view (snd st1) = plan_view (snd st)" by simp
  show ?thesis
  proof (cases "\<exists>result. x = Inr result \<and> dr_status result = DepSuccess")
    case True
    with assms False sd m have "ps_steps (snd st') = rolled {st_id step} (ps_steps (snd st1))"
      "ps_plan (snd st') = ps_plan (snd st1)" "plan_events (snd st') = plan_events (snd st1)"
      by (auto simp: rollback_step_def Let_def plan_log_def set_step_def io_simps case_prod_beta andThen_def
          catching_def plan_events_def)
    with view show ?thesis by (auto simp: plan_view_def)
  next
    case fail: False
    with assms False sd m have "ps_steps (snd st') = ps_steps (snd st1)"
      "ps_plan (snd st') = ps_plan (snd st1)" "plan_events (snd st') = plan_events (snd st1)"
      by (auto simp: rollback_step_def Let_def plan_log_def io_simps case_prod_beta andThen_def
          catching_def plan_events_def split: sum.splits)
    with view show ?thesis by (auto simp: plan_view_def intro!: exI [of _ "{}"])
  qed
qed

lemma rollback_steps_effect:
  "for_each (rollback_step h wk plan) xs st = (r, st') \<Longrightarrow>
    r = Inr () \<and> (\<exists>ids \<subseteq> st_id ` set xs. ps_steps (snd st') = rolled ids (ps_steps (snd st))) \<and>
    ps_plan (snd st') = ps_plan (snd st) \<and> plan_events (snd st') = plan_events (snd st)"
proof (induction xs arbitrary: st)
  case Nil
  then show ?case by (auto simp: io_simps intro!: exI [of _ "{}"])
next
  case (Cons x xs)
  obtain st1 where x: "rollback_step h wk plan x st = (Inr (), st1)"
    using totalD [OF total_rollback_step, of h wk plan x st] by auto
  with Cons.prems have rest: "for_each (rollback_step h wk plan) xs st1 = (r, st')"
    by (simp add: andThen_def)
  from rollback_step_effect [OF x] obtain A where A: "A \<subseteq> {st_id x}" "ps_steps (snd st1) = rolled A (ps_steps (snd st))"
    "ps_plan (snd st1) = ps_plan (snd st)" "plan_events (snd st1) = plan_events (snd st)" by blast
  from Cons.IH [OF rest] obtain B where B: "B \<subseteq> st_id ` set xs" "ps_steps (snd st') = rolled B (ps_steps (snd st1))"
    "r = Inr ()" "ps_plan (snd st') = ps_plan (snd st1)" "plan_events (snd st') = plan_events (snd st1)" by blast
  from A B show ?case by (auto intro!: exI [of _ "A \<union> B"] simp: Un_commute)
qed

text \<open>What a rollback does to the plan's row, its steps and its webhooks.\<close>

lemma rollback_body_effect:
  assumes "rollback_body h wk existing st = (r, st')"
  shows "r = Inr () \<and>
    (\<exists>ids \<subseteq> st_id ` {x \<in> set (ps_steps (snd st)). to_roll_back x}.
       ps_steps (snd st') = rolled ids (ps_steps (snd st))) \<and>
    pl_status (ps_plan (snd st')) = PlanRolledBack \<and> pl_error (ps_plan (snd st')) = pl_error (ps_plan (snd st)) \<and>
    (existing \<longrightarrow> pl_logs (ps_plan (snd st')) = Some (append_logs (pl_logs (ps_plan (snd st))) [])) \<and>
    (\<exists>svc err. plan_events (snd st') = plan_events (snd st) @
       [plan_webhook ''plan.rolled_back'' (ps_plan (snd st)) PlanRolledBack svc err])"
proof -
  obtain l s where st: "st = (l, s)" by (cases st)
  let ?steps = "rev (sort_key st_order (ps_steps s))"
  let ?st0 = "(l @ [(now h s, ''Starting rollback...'')], s)"
  obtain x st1 where loop: "for_each (rollback_step h wk (ps_plan s)) (filter to_roll_back ?steps) ?st0 = (x, st1)"
    by (metis surj_pair)
  obtain l1 s1 where st1: "st1 = (l1, s1)" by (cases st1)
  from rollback_steps_effect [OF loop] obtain ids where eff: "x = Inr ()" "ids \<subseteq> st_id ` {x \<in> set (ps_steps s). to_roll_back x}"
    "ps_steps s1 = rolled ids (ps_steps s)" "ps_plan s1 = ps_plan s" "plan_events s1 = plan_events s"
    by (auto simp: st1)
  have web: "is_plan_webhook (plan_webhook ''plan.rolled_back'' p st svc err)" for p st svc err
    by (simp add: is_plan_webhook_def plan_webhook_def)
  let ?failed = "List.find (\<lambda>r. st_status r = StepFailed) ?steps"
  from assms loop eff have "r = Inr () \<and> ps_steps (snd st') = ps_steps s1 \<and>
      pl_status (ps_plan (snd st')) = PlanRolledBack \<and> pl_error (ps_plan (snd st')) = pl_error (ps_plan s) \<and>
      (existing \<longrightarrow> pl_logs (ps_plan (snd st')) = Some (append_logs (pl_logs (ps_plan s)) [])) \<and>
      plan_events (snd st') = plan_events s1 @
        [plan_webhook ''plan.rolled_back'' (ps_plan s) PlanRolledBack (map_option snd (Option.bind ?failed step_service))
           (Option.bind ?failed st_error)]"
    by (simp add: st st1 rollback_body_def Let_def io_simps plan_log_def set_plan_def on_store_def emit_def
        andThen_def plan_events_def web failure_notice_def case_prod_beta)
       (auto simp: web failure_notice_def)
  with eff show ?thesis by (auto simp: st)
qed

end

section \<open>Steps and loops\<close>

definition terminal_event :: "plan_status \<Rightarrow> event \<Rightarrow> bool" where
  "terminal_event status e \<longleftrightarrow> (\<exists>env payload. e = Webhook (''plan.'' @ status_text status) env payload)"

text \<open>
  The state in which a run leaves the plan when a step has failed: one terminal webhook, the status that
  the plan's rollback policy asks for, and after a rollback the log text that was there before.
\<close>

definition halted :: "deployment_plan \<Rightarrow> event list \<Rightarrow> deployment_plan \<Rightarrow> ('w, 'z) plan_store_scheme \<Rightarrow> bool" where
  "halted plan evs p s \<longleftrightarrow>
     (\<exists>e. terminal_event (pl_status (ps_plan s)) e \<and> plan_events s = evs @ [e]) \<and>
     (if pl_autoRollback plan
      then pl_status (ps_plan s) = PlanRolledBack \<and> pl_error (ps_plan s) = pl_error p \<and>
        pl_logs (ps_plan s) = Some (append_logs (pl_logs p) [])
      else pl_status (ps_plan s) = PlanFailed)"

lemma keeps_set_step_rows:
  "i \<noteq> j \<Longrightarrow> (\<And>h s r. st_id (f h s r) = st_id r) \<Longrightarrow> keeps (\<lambda>st. rows j (snd st)) (set_step i f h)"
  by (auto simp: set_step_def keeps_def io_simps case_prod_beta intro!: rows_set_step_other)

lemma keeps_set_step_quiet [keeps_intros]:
  "keeps (\<lambda>st. (plan_events (snd st), ps_plan (snd st))) (set_step i f h)"
  by (auto simp: set_step_def keeps_def io_simps case_prod_beta plan_events_def)

lemma keeps_set_step_ids:
  "(\<And>h s r. st_id (f h s r) = st_id r) \<Longrightarrow> keeps (\<lambda>st. map st_id (ps_steps (snd st))) (set_step i f h)"
  by (auto simp: set_step_def keeps_def io_simps case_prod_beta)

lemma keeps_case_action:
  "keeps f m1 \<Longrightarrow> keeps f m2 \<Longrightarrow> keeps f m3 \<Longrightarrow>
     keeps f (case a of ActDeploy \<Rightarrow> m1 | ActHealthCheck \<Rightarrow> m2 | ActRollback \<Rightarrow> m3)"
  by (cases a) auto

definition finished :: "plan_step \<Rightarrow> bool" where
  "finished r \<longleftrightarrow> st_status r \<in> {StepSuccess, StepFailed}"

lemma ensures_set_step:
  "(\<And>h s r. st_id (f h s r) = st_id r \<and> finished (f h s r)) \<Longrightarrow>
     ensures (set_step i f h) (\<lambda>_ st. \<forall>x \<in> set (ps_steps (snd st)). st_id x = i \<longrightarrow> finished x)"
  by (auto simp: ensures_def set_step_def io_simps update_row_def split: if_splits)

lemma keeps_find_step [keeps_intros]: "keeps f (find_step i)"
  by (auto simp: find_step_def intro: keeps_intros)

context plan_workers
begin

lemma quiet_deploy: "keeps (\<lambda>st. (plan_events (snd st), ps_plan (snd st))) (on_store (wk_deploy wk i u t opts))"
  and rows_deploy: "keeps (\<lambda>st. rows j (snd st)) (on_store (wk_deploy wk i u t opts))"
  and ids_deploy: "keeps (\<lambda>st. map st_id (ps_steps (snd st))) (on_store (wk_deploy wk i u t opts))"
  by (rule keeps_weaken [OF deploy_view], simp add: plan_view_def rows_def)+

lemma quiet_verify: "keeps (\<lambda>st. (plan_events (snd st), ps_plan (snd st))) (on_store (wk_verify wk i))"
  and rows_verify: "keeps (\<lambda>st. rows j (snd st)) (on_store (wk_verify wk i))"
  and ids_verify: "keeps (\<lambda>st. map st_id (ps_steps (snd st))) (on_store (wk_verify wk i))"
  by (rule keeps_weaken [OF verify_view], simp add: plan_view_def rows_def)+

lemmas action_defs = executeStepAction_def executeDeployStep_def executeHealthCheckStep_def Let_def

lemma action_quiet:
  assumes "\<And>msg. logger msg = plan_log h (pre @ msg)"
  shows "keeps (\<lambda>st. (plan_events (snd st), ps_plan (snd st))) (executeStepAction h wk step plan logger)"
  unfolding action_defs assms
  by (intro keeps_case_action keeps_intros quiet_deploy quiet_verify) simp_all

lemma action_rows:
  assumes "\<And>msg. logger msg = plan_log h (pre @ msg)" and "st_id step \<noteq> j"
  shows "keeps (\<lambda>st. rows j (snd st)) (executeStepAction h wk step plan logger)"
  unfolding action_defs assms(1)
  by (intro keeps_case_action keeps_intros rows_deploy rows_verify keeps_set_step_rows) (simp_all add: assms(2))

lemma action_ids:
  assumes "\<And>msg. logger msg = plan_log h (pre @ msg)"
  shows "keeps (\<lambda>st. map st_id (ps_steps (snd st))) (executeStepAction h wk step plan logger)"
  unfolding action_defs assms
  by (intro keeps_case_action keeps_intros ids_deploy ids_verify keeps_set_step_ids) simp_all

text \<open>A deploy or health-check step that does not throw leaves its row in success or failure.\<close>

lemma action_status:
  assumes "st_action step \<noteq> ActRollback"
  shows "ensures (executeStepAction h wk step plan logger)
    (\<lambda>_ st. \<forall>x \<in> set (ps_steps (snd st)). st_id x = st_id step \<longrightarrow> finished x)"
  using assms unfolding executeStepAction_def executeDeployStep_def executeHealthCheckStep_def Let_def
  by (cases "st_action step"; cases "st_sd step")
     (auto simp: ensures_def [of "throw e" for e] io_simps finished_def [of "r\<lparr>st_status := q\<rparr>" for r q]
       intro!: ensures_catching ensures_andThen ensures_if ensures_set_step, auto simp: finished_def)

lemma on_failed_outcome:
  assumes "on_failed_step h wk plan failed m1 m2 st = (r, st')"
  shows "r = Inr () \<and> halted plan (plan_events (snd st)) (ps_plan (snd st)) (snd st')"
proof (cases "pl_autoRollback plan")
  case True
  let ?st0 = "(fst st @ [(now h (snd st), m1)], snd st)"
  have "rollback_body h wk True ?st0 = (r, st')"
    using assms True by (simp add: on_failed_step_def plan_log_def io_simps case_prod_beta)
  from rollback_body_effect [OF this] True show ?thesis
    by (auto simp: halted_def terminal_event_def plan_webhook_def)
next
  case False
  have web: "is_plan_webhook (plan_webhook ''plan.failed'' p st svc err)" for p st svc err
    by (simp add: is_plan_webhook_def plan_webhook_def)
  from assms False show ?thesis
    by (auto simp: on_failed_step_def plan_log_def set_plan_def on_store_def emit_def io_simps case_prod_beta andThen_def
        halted_def terminal_event_def plan_events_def failure_notice_def web)
       (auto simp: plan_webhook_def)
qed

end

section \<open>The two loops\<close>

text \<open>What both loops do to a step before they look at its outcome.\<close>

definition run_step :: "'w host \<Rightarrow> (('w, 'z) plan_store_scheme) workers \<Rightarrow> deployment_plan \<Rightarrow> plan_step
    \<Rightarrow> string \<Rightarrow> string \<Rightarrow> ('w, 'z, plan_step) exec_io" where
  "run_step h wk plan step msg pre =
     andThen (set_step (st_id step) (\<lambda>h s r. r\<lparr>st_status := StepRunning, st_startedAt := Some (now h s)\<rparr>) h) (\<lambda>_.
     andThen (plan_log h msg) (\<lambda>_.
     andThen (executeStepAction h wk step plan (\<lambda>m. plan_log h (pre @ m))) (\<lambda>_.
     find_step (st_id step))))"

lemma sequential_step:
  assumes "st_sd step = Some sd"
  shows "run_sequential h wk plan (step # steps) =
    andThen (run_step h wk plan step (''Executing step '' @ nat_str (st_order step) @ '': '' @ action_text (st_action step)
       @ '' '' @ sx_serviceName sd) [])
      (\<lambda>updated. if st_status updated = StepFailed then
            andThen (on_failed_step h wk plan updated
                (''Step '' @ nat_str (st_order step) @ '' failed, initiating rollback (sequential strategy halts on first failure)...'')
                (''Step '' @ nat_str (st_order step) @ '' failed, sequential strategy halted; auto-rollback disabled (rollback hint: re-deploy previous tag manually)''))
              (\<lambda>_. ret False)
          else run_sequential h wk plan steps)"
  by (simp add: assms run_step_def andThen_assoc)

lemma level_step:
  "run_level h wk plan (step # steps) =
    andThen (run_step h wk plan step
       (''  Starting '' @ action_text (st_action step) @ '' '' @ (case st_sd step of Some sd \<Rightarrow> sx_serviceName sd | None \<Rightarrow> []))
       (''    ['' @ (case st_sd step of Some sd \<Rightarrow> sx_serviceName sd | None \<Rightarrow> []) @ ''] ''))
      (\<lambda>updated. andThen (run_level h wk plan steps) (\<lambda>rows. ret (updated # rows)))"
  by (simp add: run_step_def andThen_assoc Let_def)

declare run_sequential.simps(2) [simp del] run_level.simps(2) [simp del]

definition loop_outcome :: "deployment_plan \<Rightarrow> (millis \<times> string) list \<times> ('w, 'z) plan_store_scheme
    \<Rightarrow> (string + bool) \<times> (millis \<times> string) list \<times> ('w, 'z) plan_store_scheme \<Rightarrow> bool" where
  "loop_outcome plan st = (\<lambda>(r, st').
     if r = Inr False then halted plan (plan_events (snd st)) (ps_plan (snd st)) (snd st')
     else plan_events (snd st') = plan_events (snd st) \<and> ps_plan (snd st') = ps_plan (snd st))"

context plan_workers
begin

lemma step_quiet: "keeps (\<lambda>st. (plan_events (snd st), ps_plan (snd st))) (run_step h wk plan step msg pre)"
  unfolding run_step_def by (intro keeps_intros action_quiet) simp_all

lemma step_rows: "st_id step \<noteq> j \<Longrightarrow> keeps (\<lambda>st. rows j (snd st)) (run_step h wk plan step msg pre)"
  unfolding run_step_def by (intro keeps_intros keeps_set_step_rows action_rows) simp_all

lemma step_ids: "keeps (\<lambda>st. map st_id (ps_steps (snd st))) (run_step h wk plan step msg pre)"
  unfolding run_step_def by (intro keeps_intros keeps_set_step_ids action_ids) simp_all

lemma level_quiet: "keeps (\<lambda>st. (plan_events (snd st), ps_plan (snd st))) (run_level h wk plan steps)"
proof (induction steps)
  case Nil
  then show ?case by (auto intro: keeps_intros)
next
  case (Cons step steps)
  then show ?case unfolding level_step by (intro keeps_intros step_quiet)
qed

lemma halting_outcome:
  "loop_outcome plan st (andThen (on_failed_step h wk plan failed m1 m2) (\<lambda>_. ret False) st)"
proof -
  obtain r st' where f: "on_failed_step h wk plan failed m1 m2 st = (r, st')" by (metis surj_pair)
  from on_failed_outcome [OF f] f show ?thesis by (simp add: loop_outcome_def andThen_def io_simps)
qed

lemma loop_outcome_trans:
  assumes "keeps (\<lambda>st. (plan_events (snd st), ps_plan (snd st))) m"
    and "\<And>x st'. m st = (Inr x, st') \<Longrightarrow> loop_outcome plan st' (f x st')"
  shows "loop_outcome plan st (andThen m f st)"
proof -
  obtain r st' where m: "m st = (r, st')" by (metis surj_pair)
  with keepsD [OF assms(1) m] assms(2) show ?thesis
    by (cases r) (auto simp: loop_outcome_def andThen_def split: prod.splits)
qed

lemma sequential_outcome: "loop_outcome plan st (run_sequential h wk plan steps st)"
proof (induction steps arbitrary: st)
  case Nil
  then show ?case by (simp add: loop_outcome_def io_simps)
next
  case (Cons step steps)
  show ?case
  proof (cases "st_sd step")
    case None
    then show ?thesis
      by (simp add: run_sequential.simps(2)) (rule loop_outcome_trans, auto intro: keeps_intros Cons.IH)
  next
    case (Some sd)
    show ?thesis
      unfolding sequential_step [OF Some]
      by (rule loop_outcome_trans [OF step_quiet]) (auto intro: Cons.IH halting_outcome)
  qed
qed

lemma parallel_outcome: "loop_outcome plan st (run_parallel h wk plan levels st)"
proof (induction levels arbitrary: st)
  case Nil
  then show ?case by (simp add: loop_outcome_def io_simps)
next
  case (Cons l levels)
  obtain level steps where l: "l = (level, steps)" by (cases l)
  have tail: "loop_outcome plan st'
     ((case List.find (\<lambda>r. st_status r = StepFailed) rows of
          Some failed \<Rightarrow> andThen (on_failed_step h wk plan failed (m1 failed) (m2 failed)) (\<lambda>_. ret False)
        | None \<Rightarrow> run_parallel h wk plan levels) st')" for rows st' m1 m2
    by (cases "List.find (\<lambda>r. st_status r = StepFailed) rows") (auto intro: halting_outcome Cons.IH)
  show ?case
  proof (cases "filter (\<lambda>step. st_sd step \<noteq> None) steps = []")
    case True
    with Cons.IH show ?thesis by (simp add: l)
  next
    case False
    have "run_parallel h wk plan (l # levels) st =
        andThen (plan_log h (''Executing level '' @ nat_str level @ '': ''
            @ nat_str (length (filter (\<lambda>step. st_sd step \<noteq> None) steps)) @ '' step(s) in parallel'')) (\<lambda>_.
        andThen (run_level h wk plan (filter (\<lambda>step. st_sd step \<noteq> None) steps)) (\<lambda>rows.
        case List.find (\<lambda>r. st_status r = StepFailed) rows of
          Some failed \<Rightarrow>
            andThen (on_failed_step h wk plan failed
                (''Level '' @ nat_str level @ '' failed ('' @ nullish (map_option snd (step_service failed)) ''undefined'' @ ''), initiating rollback...'')
                (''Level '' @ nat_str level @ '' failed ('' @ nullish (map_option snd (step_service failed)) ''undefined'' @ ''), auto-rollback disabled''))
              (\<lambda>_. ret False)
        | None \<Rightarrow> run_parallel h wk plan levels)) st"
      using False by (simp only: l run_parallel.simps Let_def if_False)
    moreover have "loop_outcome plan st \<dots>"
      by (rule loop_outcome_trans, intro keeps_intros, simp, rule loop_outcome_trans [OF level_quiet], rule tail)
    ultimately show ?thesis by simp
  qed
qed

end

section \<open>Whole runs\<close>

text \<open>How every run of a plan ends, in the events and the plan's row.\<close>

definition ended :: "deployment_plan \<Rightarrow> event list \<Rightarrow> deployment_plan \<Rightarrow> ('w, 'z) plan_store_scheme \<Rightarrow> bool" where
  "ended plan evs p s \<longleftrightarrow>
     (\<exists>e. terminal_event (pl_status (ps_plan s)) e \<and> plan_events s = evs @ [e]) \<and>
     pl_status (ps_plan s) \<in> {PlanCompleted, (if pl_autoRollback plan then PlanRolledBack else PlanFailed)} \<and>
     (pl_status (ps_plan s) = PlanRolledBack \<longrightarrow>
        pl_error (ps_plan s) \<noteq> None \<or>
        pl_error (ps_plan s) = pl_error p \<and> pl_logs (ps_plan s) = Some (append_logs (pl_logs p) []))"

lemma keeps_emit_progress:
  "keeps (\<lambda>st. plan_view (snd st)) (emit_progress plan steps status)"
  unfolding emit_progress_def by (intro keeps_intros) simp_all

lemma keeps_progress_rows: "keeps (\<lambda>st. rows j (snd st)) (emit_progress plan steps status)"
  by (rule keeps_weaken [OF keeps_emit_progress]) (simp add: plan_view_def rows_def)

lemma progress_run:
  obtains l s' where "emit_progress plan steps status (l0, s) = (Inr (), l, s')" "plan_view s' = plan_view s"
proof -
  obtain l s' where run: "emit_progress plan steps status (l0, s) = (Inr (), l, s')"
    using totalD [OF total_emit_progress, of plan steps status "(l0, s)"] by auto
  from keepsD [OF keeps_emit_progress run] show ?thesis using run that by simp
qed

lemma complete_outcome:
  assumes "complete_plan h plan steps st = (r, st')"
  shows "r = Inr () \<and> ended plan (plan_events (snd st)) (ps_plan (snd st)) (snd st') \<and>
    pl_status (ps_plan (snd st')) = PlanCompleted \<and> ps_steps (snd st') = ps_steps (snd st)"
proof -
  have web: "is_plan_webhook (plan_webhook ''plan.completed'' p st svc err)" for p st svc err
    by (simp add: is_plan_webhook_def plan_webhook_def)
  obtain l s where st: "st = (l, s)" by (cases st)
  let ?l = "l @ [(now h s, ''Deployment plan completed successfully'')]"
  let ?s = "s\<lparr>ps_plan := (ps_plan s)\<lparr>pl_status := PlanCompleted, pl_completedAt := Some (now h s), pl_logs := Some ?l\<rparr>\<rparr>"
  obtain l1 s1 where progress: "emit_progress plan steps PlanCompleted (?l, ?s) = (Inr (), l1, s1)" and view: "plan_view s1 = plan_view ?s"
    by (rule progress_run)
  from assms progress have "r = Inr () \<and> snd st' = s1\<lparr>db_events := db_events s1 @ [plan_webhook ''plan.completed'' plan PlanCompleted None None]\<rparr>"
    by (auto simp: st complete_plan_def plan_log_def set_plan_def on_store_def emit_def io_simps andThen_def)
  with view show ?thesis
    by (simp add: ended_def terminal_event_def plan_view_def plan_events_def web st)
       (simp add: plan_webhook_def)
qed

context plan_workers
begin

lemma thrown_outcome:
  assumes "on_thrown h wk plan steps err st = (r, st')"
  shows "r = Inr () \<and> ended plan (plan_events (snd st)) p (snd st') \<and> pl_status (ps_plan (snd st')) \<noteq> PlanCompleted"
proof -
  have web: "is_plan_webhook (plan_webhook ''plan.failed'' p st svc err)" for p st svc err
    by (simp add: is_plan_webhook_def plan_webhook_def)
  obtain l s where st: "st = (l, s)" by (cases st)
  let ?l = "l @ [(now h s, ''ERROR: '' @ err)]"
  let ?s = "s\<lparr>ps_plan := (ps_plan s)\<lparr>pl_status := PlanFailed, pl_completedAt := Some (now h s), pl_error := Some err, pl_logs := Some ?l\<rparr>\<rparr>"
  obtain l1 s1 where progress: "emit_progress plan steps PlanFailed (?l, ?s) = (Inr (), l1, s1)" and view: "plan_view s1 = plan_view ?s"
    by (rule progress_run)
  show ?thesis
  proof (cases "pl_autoRollback plan")
    case True
    obtain x l2 s2 where rb: "rollback_body h wk False ([], s1) = (x, l2, s2)" by (metis surj_pair)
    from assms progress rb True have "r = x" "snd st' = s2"
      by (auto simp: st on_thrown_def plan_log_def set_plan_def rollbackPlan_def with_fresh_log_def io_simps andThen_def)
    with rollback_body_effect [OF rb] view True show ?thesis
      by (auto simp: ended_def terminal_event_def plan_webhook_def plan_view_def plan_events_def st)
  next
    case False
    from assms progress False have "r = Inr () \<and> snd st' = s1\<lparr>db_events := db_events s1 @ [plan_webhook ''plan.failed'' plan PlanFailed None (Some err)]\<rparr>"
      by (auto simp: st on_thrown_def plan_log_def set_plan_def on_store_def emit_def io_simps andThen_def)
    with view False show ?thesis
      by (simp add: ended_def terminal_event_def plan_view_def plan_events_def web st)
         (simp add: plan_webhook_def)
  qed
qed

lemma run_plan_cases:
  fixes st :: "(millis \<times> string) list \<times> ('w, 'z) plan_store_scheme"
  assumes "run_plan h wk plan steps st = (r, st')"
  obtains st0 x st1 where
    "snd st0 = snd st"
    "(if pl_parallelExecution plan then run_parallel h wk plan (sort_key fst (groupStepsByLevel st_order steps))
      else run_sequential h wk plan steps) st0 = (x, st1)"
    "case x of Inl err \<Rightarrow> on_thrown h wk plan steps err st1 = (r, st')
       | Inr True \<Rightarrow> complete_plan h plan steps st1 = (r, st')
       | Inr False \<Rightarrow> r = Inr () \<and> st' = st1"
proof -
  let ?st0 = "(fst st @ [(now h (snd st), ''Starting deployment plan: '' @ pl_name plan @ (if pl_parallelExecution plan then '' (parallel mode)'' else []))], snd st)"
  let ?m = "if pl_parallelExecution plan then run_parallel h wk plan (sort_key fst (groupStepsByLevel st_order steps))
      else run_sequential h wk plan steps"
  obtain x st1 where m: "?m ?st0 = (x, st1)" by (metis surj_pair)
  obtain c where c: "complete_plan h plan steps st1 = (Inr (), c)"
    using totalD [OF total_complete_plan, of h plan steps st1] by auto
  have "catching (andThen ?m (\<lambda>through. whenever through (complete_plan h plan steps))) (on_thrown h wk plan steps) ?st0 = (r, st')"
    using assms by (simp add: run_plan_def plan_log_def io_simps case_prod_beta)
  with m c have "case x of Inl err \<Rightarrow> on_thrown h wk plan steps err st1 = (r, st')
       | Inr True \<Rightarrow> complete_plan h plan steps st1 = (r, st')
       | Inr False \<Rightarrow> r = Inr () \<and> st' = st1"
    by (cases x) (auto simp: catching_def andThen_def whenever_def io_simps split: bool.splits)
  with m show ?thesis by (intro that [of ?st0]) auto
qed

lemma run_plan_ended:
  assumes "run_plan h wk plan steps st = (r, st')"
  shows "r = Inr () \<and> ended plan (plan_events (snd st)) (ps_plan (snd st)) (snd st')"
  using assms
proof (rule run_plan_cases)
  fix st0 x st1
  assume st0: "snd st0 = snd st"
    and m: "(if pl_parallelExecution plan then run_parallel h wk plan (sort_key fst (groupStepsByLevel st_order steps))
      else run_sequential h wk plan steps) st0 = (x, st1)"
    and rest: "case x of Inl err \<Rightarrow> on_thrown h wk plan steps err st1 = (r, st')
       | Inr True \<Rightarrow> complete_plan h plan steps st1 = (r, st')
       | Inr False \<Rightarrow> r = Inr () \<and> st' = st1"
  have loop: "loop_outcome plan st0 (x, st1)"
    using m sequential_outcome [of plan st0 steps]
      parallel_outcome [of plan st0 "sort_key fst (groupStepsByLevel st_order steps)"] by (auto split: if_splits)
  consider (threw) err where "x = Inl err" | (through) "x = Inr True" | (stopped) "x = Inr False"
    by (cases x) auto
  then show ?thesis
  proof cases
    case threw
    with rest loop st0 thrown_outcome [of plan steps err st1 r st' "ps_plan (snd st)"] show ?thesis
      by (auto simp: loop_outcome_def)
  next
    case through
    with rest loop st0 complete_outcome [of h plan steps st1 r st'] show ?thesis
      by (auto simp: loop_outcome_def)
  next
    case stopped
    with rest loop st0 show ?thesis
      by (auto simp: loop_outcome_def halted_def ended_def)
  qed
qed

lemma executePlan_run:
  assumes "pl_status (ps_plan s) = PlanPending"
  obtains st0 r l s' where
    "plan_events (snd st0) = plan_events s" "ps_steps (snd st0) = ps_steps s"
    "ps_plan (snd st0) = (ps_plan s)\<lparr>pl_status := PlanRunning, pl_startedAt := Some (now h s)\<rparr>"
    "run_plan h wk (ps_plan s) (sort_key st_order (ps_steps s)) st0 = (r, l, s')"
    "executePlan h wk s = (r, s')"
proof -
  let ?steps = "sort_key st_order (ps_steps s)"
  let ?s = "s\<lparr>ps_plan := (ps_plan s)\<lparr>pl_status := PlanRunning, pl_startedAt := Some (now h s)\<rparr>\<rparr>"
  obtain l1 s1 where progress: "emit_progress (ps_plan s) ?steps PlanRunning ([], ?s) = (Inr (), l1, s1)"
    and view: "plan_view s1 = plan_view ?s" by (rule progress_run)
  obtain r l s' where run: "run_plan h wk (ps_plan s) ?steps (l1, s1) = (r, l, s')" by (metis surj_pair)
  show ?thesis
  proof (rule that [of "(l1, s1)", OF _ _ _ run])
    show "executePlan h wk s = (r, s')"
      using assms progress run
      by (simp add: executePlan_def io_simps with_fresh_log_def set_plan_def andThen_def)
  qed (use view in \<open>auto simp: plan_view_def plan_events_def\<close>)
qed

lemma executePlan_ended:
  assumes "pl_status (ps_plan s) = PlanPending"
  shows "\<exists>s'. executePlan h wk s = (Inr (), s') \<and> ended (ps_plan s) (plan_events s) (ps_plan s) s'"
  using assms
proof (rule executePlan_run)
  fix st0 r l s'
  assume st0: "plan_events (snd st0) = plan_events s"
    "ps_plan (snd st0) = (ps_plan s)\<lparr>pl_status := PlanRunning, pl_startedAt := Some (now h s)\<rparr>"
    and run: "run_plan h wk (ps_plan s) (sort_key st_order (ps_steps s)) st0 = (r, l, s')"
    and exec: "executePlan h wk s = (r, s')"
  from run_plan_ended [OF run] exec st0 show ?thesis by (auto simp: ended_def)
qed

end

section \<open>Sequential runs, step by step\<close>

definition rollback_closed :: "(plan_step list \<Rightarrow> bool) \<Rightarrow> bool" where
  "rollback_closed Q \<longleftrightarrow> (\<forall>ss ids. ids \<subseteq> st_id ` {x \<in> set ss. to_roll_back x} \<longrightarrow> Q ss \<longrightarrow> Q (rolled ids ss))"

lemma keeps_progress_steps: "keeps (\<lambda>st. ps_steps (snd st)) (emit_progress plan steps status)"
  unfolding emit_progress_def by (intro keeps_intros) simp

text \<open>
  Where a sequential run stops: a step with a deployment that is malformed (a deploy step without a tag) or has failed,
  with every step before it settled, successful or rolled back, and every other row as it was.
\<close>

definition malformed :: "plan_step \<Rightarrow> bool" where
  "malformed step \<longleftrightarrow> st_action step = ActDeploy \<and> \<not> truthy (st_targetTag step)"

definition step_settled :: "ident \<Rightarrow> ('w, 'z) plan_store_scheme \<Rightarrow> bool" where
  "step_settled i s \<longleftrightarrow> (\<exists>x. rows i s = [x] \<and> st_status x \<in> {StepSuccess, StepRolledBack})"

definition failed_row :: "ident \<Rightarrow> ('w, 'z) plan_store_scheme \<Rightarrow> bool" where
  "failed_row i s \<longleftrightarrow> (\<exists>x. rows i s = [x] \<and> st_status x = StepFailed)"

definition stopped_at :: "plan_step list \<Rightarrow> ('w, 'z) plan_store_scheme \<Rightarrow> ('w, 'z) plan_store_scheme \<Rightarrow> bool" where
  "stopped_at steps s s1 \<longleftrightarrow>
     (\<exists>pre k post. steps = pre @ k # post \<and> st_sd k \<noteq> None \<and> (malformed k \<or> failed_row (st_id k) s1) \<and>
        (\<forall>y \<in> set pre. st_sd y \<noteq> None \<longrightarrow> st_action y \<noteq> ActRollback \<longrightarrow> step_settled (st_id y) s1) \<and>
        (\<forall>j. j \<notin> st_id ` set (pre @ [k]) \<longrightarrow> rows j s1 = rows j s))"

lemma stopped_at_skip: "st_sd step = None \<Longrightarrow> stopped_at steps s s1 \<Longrightarrow> stopped_at (step # steps) s s1"
  unfolding stopped_at_def
proof (elim exE conjE)
  fix pre k post
  assume none: "st_sd step = None" and eqs: "steps = pre @ k # post" "st_sd k \<noteq> None" "malformed k \<or> failed_row (st_id k) s1"
    "\<forall>y \<in> set pre. st_sd y \<noteq> None \<longrightarrow> st_action y \<noteq> ActRollback \<longrightarrow> step_settled (st_id y) s1"
    "\<forall>j. j \<notin> st_id ` set (pre @ [k]) \<longrightarrow> rows j s1 = rows j s"
  then show "\<exists>pre k post. step # steps = pre @ k # post \<and> st_sd k \<noteq> None \<and> (malformed k \<or> failed_row (st_id k) s1) \<and>
      (\<forall>y \<in> set pre. st_sd y \<noteq> None \<longrightarrow> st_action y \<noteq> ActRollback \<longrightarrow> step_settled (st_id y) s1) \<and>
      (\<forall>j. j \<notin> st_id ` set (pre @ [k]) \<longrightarrow> rows j s1 = rows j s)"
    by (intro exI [of _ "step # pre"] exI [of _ k] exI [of _ post]) auto
qed

lemma stopped_at_here:
  assumes "malformed step \<or> failed_row (st_id step) s1" and "st_sd step \<noteq> None"
    and "\<forall>j. j \<noteq> st_id step \<longrightarrow> rows j s1 = rows j s"
  shows "stopped_at (step # steps) s s1"
  unfolding stopped_at_def using assms by (intro exI [of _ "[]"] exI [of _ step] exI [of _ steps]) auto

lemma stopped_at_go:
  assumes "stopped_at steps s1 s2" and "\<forall>j. j \<noteq> st_id step \<longrightarrow> rows j s1 = rows j s" and "st_id step \<notin> st_id ` set steps"
    and "st_action step \<noteq> ActRollback \<longrightarrow> step_settled (st_id step) s1"
  shows "stopped_at (step # steps) s s2"
proof -
  from assms(1) obtain pre k post where st: "steps = pre @ k # post" "st_sd k \<noteq> None" "malformed k \<or> failed_row (st_id k) s2"
    "\<forall>y \<in> set pre. st_sd y \<noteq> None \<longrightarrow> st_action y \<noteq> ActRollback \<longrightarrow> step_settled (st_id y) s2"
    "\<forall>j. j \<notin> st_id ` set (pre @ [k]) \<longrightarrow> rows j s2 = rows j s1"
    unfolding stopped_at_def by blast
  have "st_id step \<notin> st_id ` set (pre @ [k])" using assms(3) st(1) by auto
  with st(5) have "rows (st_id step) s2 = rows (st_id step) s1" by blast
  with assms(4) have "st_action step \<noteq> ActRollback \<longrightarrow> step_settled (st_id step) s2" by (simp add: step_settled_def)
  with st assms(2) show ?thesis
    unfolding stopped_at_def by (intro exI [of _ "step # pre"] exI [of _ k] exI [of _ post]) auto
qed

lemma filter_rolled: "filter (\<lambda>r. st_id r = j) (rolled ids ss) = rolled ids (filter (\<lambda>r. st_id r = j) ss)"
  by (induction ss) (auto simp: rolled_def)

lemma rolled_calm:
  "ids \<subseteq> st_id ` {x \<in> set ss. to_roll_back x} \<Longrightarrow> \<forall>x \<in> set (filter (\<lambda>r. st_id r = j) ss). \<not> to_roll_back x \<Longrightarrow>
    rolled ids (filter (\<lambda>r. st_id r = j) ss) = filter (\<lambda>r. st_id r = j) ss"
  by (auto simp: rolled_def intro!: map_idI)

lemma closed_calm: "\<forall>x \<in> set R. \<not> to_roll_back x \<Longrightarrow> rollback_closed (\<lambda>ss. filter (\<lambda>r. st_id r = j) ss = R)"
  unfolding rollback_closed_def by (auto simp: filter_rolled rolled_calm)

lemma closed_settled: "rollback_closed (\<lambda>ss. \<exists>x. filter (\<lambda>r. st_id r = j) ss = [x] \<and> st_status x \<in> {StepSuccess, StepRolledBack})"
  unfolding rollback_closed_def filter_rolled by (auto simp: rolled_def)

lemma closed_failed: "rollback_closed (\<lambda>ss. \<exists>x. filter (\<lambda>r. st_id r = j) ss = [x] \<and> st_status x = StepFailed)"
  unfolding rollback_closed_def filter_rolled
proof (intro allI impI)
  fix ss :: "plan_step list" and ids
  assume ids: "ids \<subseteq> st_id ` {x \<in> set ss. to_roll_back x}"
    and ex: "\<exists>x. filter (\<lambda>r. st_id r = j) ss = [x] \<and> st_status x = StepFailed"
  then obtain x where "filter (\<lambda>r. st_id r = j) ss = [x]" "\<not> to_roll_back x" by (auto simp: to_roll_back_def)
  then have "\<forall>x \<in> set (filter (\<lambda>r. st_id r = j) ss). \<not> to_roll_back x" by simp
  with ids ex show "\<exists>x. rolled ids (filter (\<lambda>r. st_id r = j) ss) = [x] \<and> st_status x = StepFailed"
    by (simp only: rolled_calm)
qed

text \<open>Handling the failure keeps this.\<close>

lemma stopped_at_kept:
  assumes "stopped_at steps s s1" and calm: "\<forall>x \<in> set (ps_steps s). \<not> to_roll_back x"
    and keep: "\<And>Q. rollback_closed Q \<Longrightarrow> Q (ps_steps s1) \<Longrightarrow> Q (ps_steps s2)"
  shows "stopped_at steps s s2"
proof -
  have "step_settled i s2" if "step_settled i s1" for i using keep [OF closed_settled] that by (simp add: step_settled_def rows_def)
  moreover have "failed_row i s2" if "failed_row i s1" for i using keep [OF closed_failed] that by (simp add: failed_row_def rows_def)
  moreover have "rows j s2 = rows j s" if "rows j s1 = rows j s" for j
  proof -
    have "\<forall>x \<in> set (rows j s). \<not> to_roll_back x" using calm by (simp add: rows_def)
    from keep [OF closed_calm [OF this, of j]] that show ?thesis by (simp add: rows_def)
  qed
  ultimately show ?thesis using assms(1) unfolding stopped_at_def by blast
qed

lemma preserves_emit_rows: "preserves (\<lambda>st. Q (ps_steps (snd st))) (on_store (emit e))"
  by (intro preserves_intros) simp

lemma preserves_set_plan_rows: "preserves (\<lambda>st. Q (ps_steps (snd st))) (set_plan f h)"
  by (auto simp: set_plan_def intro!: preserves_writes)

lemma preserves_plan_log: "(\<And>l l' s. I (l, s) \<Longrightarrow> I (l', s)) \<Longrightarrow> preserves I (plan_log h msg)"
  by (auto simp: plan_log_def intro!: preserves_writes)

lemma find_rows:
  assumes "find_step i st = (Inr x, st')" and "distinct (map st_id (ps_steps (snd st)))"
  shows "rows i (snd st') = [x]"
proof -
  have x: "List.find (\<lambda>r. st_id r = i) (ps_steps (snd st)) = Some x" "st' = st"
    using assms(1) by (auto simp: find_step_def io_simps the_row_def case_prod_beta split: option.splits)
  have "filter (\<lambda>r. st_id r = i) ss = [x]"
    if "List.find (\<lambda>r. st_id r = i) ss = Some x" "distinct (map st_id ss)" for ss
    using that by (induction ss) (auto split: if_splits simp: filter_empty_conv, metis imageI)
  with x assms(2) show ?thesis by (simp add: rows_def)
qed

context plan_workers
begin

text \<open>A statement on the rows of the steps that no rollback breaks.\<close>

lemma rollback_keeps_closed:
  assumes "rollback_closed Q"
  shows "preserves (\<lambda>st. Q (ps_steps (snd st))) (rollback_body h wk e)"
proof (rule preservesI)
  fix st :: "(millis \<times> string) list \<times> ('w, 'z) plan_store_scheme"
  assume Q: "Q (ps_steps (snd st))"
  obtain r st' where run: "rollback_body h wk e st = (r, st')" by (metis surj_pair)
  from rollback_body_effect [OF run] obtain ids where "ids \<subseteq> st_id ` {x \<in> set (ps_steps (snd st)). to_roll_back x}"
    "ps_steps (snd st') = rolled ids (ps_steps (snd st))" by blast
  with assms Q run show "Q (ps_steps (snd (snd (rollback_body h wk e st))))"
    by (simp add: rollback_closed_def)
qed

lemma failed_keeps_closed:
  assumes "rollback_closed Q"
  shows "preserves (\<lambda>st. Q (ps_steps (snd st))) (on_failed_step h wk plan failed m1 m2)"
  unfolding on_failed_step_def
  by (intro preserves_intros rollback_keeps_closed [OF assms] preserves_emit_rows preserves_set_plan_rows preserves_plan_log) auto

lemma thrown_keeps_closed:
  assumes "rollback_closed Q"
  shows "preserves (\<lambda>st. Q (ps_steps (snd st))) (on_thrown h wk plan steps err)"
proof -
  have rb: "preserves (\<lambda>st. Q (ps_steps (snd st))) ((\<lambda>(l, s). case rollbackPlan h wk s of (r, s') \<Rightarrow> (r, l, s'))
      :: ('w, 'z, unit) exec_io)"
  proof (rule preservesI)
    fix st :: "(millis \<times> string) list \<times> ('w, 'z) plan_store_scheme"
    assume Q: "Q (ps_steps (snd st))"
    obtain r l' s' where run: "rollback_body h wk False ([], snd st) = (r, l', s')" by (metis surj_pair)
    from preservesD [OF rollback_keeps_closed [OF assms] _ run] Q have "Q (ps_steps s')" by simp
    with run show "Q (ps_steps (snd (snd (case st of (l, s) \<Rightarrow> case rollbackPlan h wk s of (r, s') \<Rightarrow> (r, l, s')))))"
      by (simp add: rollbackPlan_def with_fresh_log_def case_prod_beta)
  qed
  show ?thesis
    unfolding on_thrown_def
    by (intro preserves_intros rb preserves_plan_log preserves_emit_rows preserves_set_plan_rows
        preserves_keeps [OF keeps_progress_steps]) auto
qed

text \<open>One step: it throws only when it is a deploy step without a tag, and otherwise leaves its row finished.\<close>

lemma step_result:
  assumes "run_step h wk plan step msg pre st = (Inr x, st1)" and "distinct (map st_id (ps_steps (snd st)))"
  shows "rows (st_id step) (snd st1) = [x] \<and> (st_action step \<noteq> ActRollback \<longrightarrow> finished x)"
proof -
  from assms(1) obtain st0 where act: "(andThen (set_step (st_id step) (\<lambda>h s r. r\<lparr>st_status := StepRunning, st_startedAt := Some (now h s)\<rparr>) h) (\<lambda>_.
     andThen (plan_log h msg) (\<lambda>_.
     executeStepAction h wk step plan (\<lambda>m. plan_log h (pre @ m))))) st = (Inr (), st0)"
    and found: "find_step (st_id step) st0 = (Inr x, st1)"
    unfolding run_step_def by (simp add: andThen_assoc [symmetric]) (erule andThen_InrE, auto)
  from keepsD [OF step_ids assms(1)] assms(2) have d1: "distinct (map st_id (ps_steps (snd st1)))" by simp
  have "st1 = st0" using keepsD [OF keeps_find_step [of "\<lambda>s. s"] found] by simp
  with found d1 have row: "rows (st_id step) (snd st1) = [x]" by (metis find_rows)
  have "finished x" if "st_action step \<noteq> ActRollback"
  proof -
    have "ensures (andThen (set_step (st_id step) (\<lambda>h s r. r\<lparr>st_status := StepRunning, st_startedAt := Some (now h s)\<rparr>) h) (\<lambda>_.
       andThen (plan_log h msg) (\<lambda>_.
       executeStepAction h wk step plan (\<lambda>m. plan_log h (pre @ m)))))
       (\<lambda>_ st. \<forall>x \<in> set (ps_steps (snd st)). st_id x = st_id step \<longrightarrow> finished x)"
      by (rule ensures_andThen, rule ensures_andThen, rule action_status [OF that])
    from ensuresD [OF this act] \<open>st1 = st0\<close> have "\<forall>x \<in> set (rows (st_id step) (snd st1)). finished x"
      by (auto simp: rows_def)
    with row show ?thesis by simp
  qed
  with row show ?thesis by blast
qed

lemma action_throws:
  assumes "executeStepAction h wk step plan (\<lambda>m. plan_log h (pre @ m)) st = (Inl e, st')" and "st_sd step \<noteq> None"
  shows "malformed step"
proof (rule ccontr)
  assume "\<not> malformed step"
  moreover obtain sd where "st_sd step = Some sd" using assms(2) by auto
  ultimately have "total (executeStepAction h wk step plan (\<lambda>m. plan_log h (pre @ m)))"
    by (cases "st_action step")
      (auto simp: executeStepAction_def executeDeployStep_def executeHealthCheckStep_def malformed_def Let_def simp del: split_paired_All)
  from totalD [OF this, of st] assms(1) show False by auto
qed

lemma step_throws:
  assumes "run_step h wk plan step msg pre st = (Inl e, st1)" and "st_sd step \<noteq> None"
    and "st_id step \<in> st_id ` set (ps_steps (snd st))"
  shows "malformed step"
proof -
  let ?mark = "andThen (set_step (st_id step) (\<lambda>h s r. r\<lparr>st_status := StepRunning, st_startedAt := Some (now h s)\<rparr>) h) (\<lambda>_. plan_log h msg)"
  have "total ?mark" by auto
  then obtain sa where sa: "?mark st = (Inr (), sa)" using totalD by fastforce
  have ids: "keeps (\<lambda>st. map st_id (ps_steps (snd st))) ?mark" by (intro keeps_intros keeps_set_step_ids) simp_all
  have "run_step h wk plan step msg pre =
      andThen ?mark (\<lambda>_. andThen (executeStepAction h wk step plan (\<lambda>m. plan_log h (pre @ m))) (\<lambda>_. find_step (st_id step)))"
    by (simp add: run_step_def andThen_assoc)
  with assms(1) sa have run: "andThen (executeStepAction h wk step plan (\<lambda>m. plan_log h (pre @ m))) (\<lambda>_. find_step (st_id step)) sa = (Inl e, st1)"
    by (simp add: andThen_eval)
  then show ?thesis
  proof (cases rule: andThen_cases)
    case (threw e')
    from action_throws [OF threw(1) assms(2)] show ?thesis .
  next
    case (ran u sb)
    have "keeps (\<lambda>st. map st_id (ps_steps (snd st))) (executeStepAction h wk step plan (\<lambda>m. plan_log h (pre @ m)))"
      by (rule action_ids) simp
    from keepsD [OF this ran(1)] keepsD [OF ids sa] have "map st_id (ps_steps (snd sb)) = map st_id (ps_steps (snd st))" by simp
    then have "set (map st_id (ps_steps (snd sb))) = set (map st_id (ps_steps (snd st)))" by (rule arg_cong)
    with assms(3) have "st_id step \<in> st_id ` set (ps_steps (snd sb))" by simp
    then have "List.find (\<lambda>r. st_id r = st_id step) (ps_steps (snd sb)) \<noteq> None"
      using find_NoneD by fastforce
    with ran(2) show ?thesis by (auto simp: find_step_def io_simps the_row_def case_prod_beta split: option.splits)
  qed
qed

lemma sequential_through:
  assumes "distinct (map st_id steps)"
  shows "run_sequential h wk plan steps st = (Inr True, st') \<Longrightarrow> distinct (map st_id (ps_steps (snd st))) \<Longrightarrow>
    (\<forall>j. j \<notin> st_id ` set steps \<longrightarrow> rows j (snd st') = rows j (snd st)) \<and>
    (\<forall>step \<in> set steps. st_sd step \<noteq> None \<longrightarrow> st_action step \<noteq> ActRollback \<longrightarrow>
       (\<exists>x. rows (st_id step) (snd st') = [x] \<and> st_status x = StepSuccess))"
  using assms
proof (induction steps arbitrary: st)
  case Nil
  then show ?case by (auto simp: io_simps)
next
  case (Cons step steps)
  show ?case
  proof (cases "st_sd step")
    case None
    with Cons.prems have "run_sequential h wk plan steps
        (fst st @ [(now h (snd st), ''Skipping step '' @ nat_str (st_order step) @ '': no service deployment associated'')], snd st) = (Inr True, st')"
      by (simp add: run_sequential.simps(2) plan_log_def io_simps case_prod_beta)
    from Cons.IH [OF this] Cons.prems None show ?thesis by auto
  next
    case (Some sd)
    let ?m = "run_step h wk plan step (''Executing step '' @ nat_str (st_order step) @ '': '' @ action_text (st_action step)
       @ '' '' @ sx_serviceName sd) []"
    from Cons.prems(1) obtain x st1 where m: "?m st = (Inr x, st1)" and alive: "st_status x \<noteq> StepFailed"
      and rest: "run_sequential h wk plan steps st1 = (Inr True, st')"
      unfolding sequential_step [OF Some]
      by (auto simp: io_simps split: if_splits elim!: andThen_InrE)
    from keepsD [OF step_ids m] Cons.prems(2) have d1: "distinct (map st_id (ps_steps (snd st1)))" by simp
    note result = step_result [OF m Cons.prems(2)]
    have frame: "rows j (snd st1) = rows j (snd st)" if "j \<noteq> st_id step" for j
      using keepsD [OF step_rows m] that by auto
    from Cons.IH [OF rest d1] Cons.prems(3) have
      ih: "\<forall>j. j \<notin> st_id ` set steps \<longrightarrow> rows j (snd st') = rows j (snd st1)"
        "\<forall>step \<in> set steps. st_sd step \<noteq> None \<longrightarrow> st_action step \<noteq> ActRollback \<longrightarrow>
           (\<exists>x. rows (st_id step) (snd st') = [x] \<and> st_status x = StepSuccess)" by auto
    from ih(1) Cons.prems(3) result have "rows (st_id step) (snd st') = [x]" by simp
    with ih result alive frame show ?thesis by (auto simp: finished_def)
  qed
qed

text \<open>Where a run that does not go through stops, as the rows are before the failure is handled.\<close>

lemma sequential_stops:
  assumes "distinct (map st_id steps)" and "run_sequential h wk plan steps st = (r, st')" and "r \<noteq> Inr True"
    and "distinct (map st_id (ps_steps (snd st)))" and "st_id ` set steps \<subseteq> st_id ` set (ps_steps (snd st))"
  shows "\<exists>st1. stopped_at steps (snd st) (snd st1) \<and>
    (st' = st1 \<or> (\<exists>failed m1 m2. on_failed_step h wk plan failed m1 m2 st1 = (Inr (), st')))"
  using assms
proof (induction steps arbitrary: st)
  case Nil
  then show ?case by (simp add: io_simps)
next
  case (Cons step steps)
  show ?case
  proof (cases "st_sd step")
    case None
    with Cons.prems have "run_sequential h wk plan steps
        (fst st @ [(now h (snd st), ''Skipping step '' @ nat_str (st_order step) @ '': no service deployment associated'')], snd st) = (r, st')"
      by (simp add: run_sequential.simps(2) plan_log_def io_simps case_prod_beta)
    from Cons.IH [OF _ this] Cons.prems have "\<exists>st1. stopped_at steps (snd st) (snd st1) \<and>
      (st' = st1 \<or> (\<exists>failed m1 m2. on_failed_step h wk plan failed m1 m2 st1 = (Inr (), st')))" by simp
    then show ?thesis using stopped_at_skip [OF None] by blast
  next
    case (Some sd)
    let ?m = "run_step h wk plan step (''Executing step '' @ nat_str (st_order step) @ '': '' @ action_text (st_action step)
       @ '' '' @ sx_serviceName sd) []"
    obtain y st1 where m: "?m st = (y, st1)" by (metis surj_pair)
    have frame: "\<forall>j. j \<noteq> st_id step \<longrightarrow> rows j (snd st1) = rows j (snd st)"
      using keepsD [OF step_rows m] by auto
    have fresh: "st_id step \<notin> st_id ` set steps" using Cons.prems(1) by simp
    consider (threw) e where "y = Inl e" | (failed) x where "y = Inr x" "st_status x = StepFailed"
      | (go) x where "y = Inr x" "st_status x \<noteq> StepFailed" by (cases y) auto
    then show ?thesis
    proof cases
      case threw
      with m Cons.prems(2) have "st' = st1" unfolding sequential_step [OF Some] by (simp add: andThen_def)
      moreover have "malformed step"
        using step_throws [OF m [unfolded threw]] Some Cons.prems(5) by simp
      ultimately show ?thesis using stopped_at_here [OF _ _ frame] Some unfolding failed_row_def by blast
    next
      case failed
      with m have mx: "?m st = (Inr x, st1)" by simp
      from Cons.prems(2) have run: "andThen (on_failed_step h wk plan x
          (''Step '' @ nat_str (st_order step) @ '' failed, initiating rollback (sequential strategy halts on first failure)...'')
          (''Step '' @ nat_str (st_order step) @ '' failed, sequential strategy halted; auto-rollback disabled (rollback hint: re-deploy previous tag manually)''))
        (\<lambda>_. ret False) st1 = (r, st')"
        by (simp only: sequential_step [OF Some] andThen_eval(1) [of ?m, OF mx] failed(2) if_True refl)
      obtain st2 where "on_failed_step h wk plan x
          (''Step '' @ nat_str (st_order step) @ '' failed, initiating rollback (sequential strategy halts on first failure)...'')
          (''Step '' @ nat_str (st_order step) @ '' failed, sequential strategy halted; auto-rollback disabled (rollback hint: re-deploy previous tag manually)'')
          st1 = (Inr (), st2)" using totalD [OF total_on_failed_step] by (metis (full_types) old.unit.exhaust)
      with run have "\<exists>failed m1 m2. on_failed_step h wk plan failed m1 m2 st1 = (Inr (), st')"
        by (auto simp: andThen_def io_simps)
      moreover have "\<exists>x. rows (st_id step) (snd st1) = [x] \<and> st_status x = StepFailed"
        using step_result [OF mx Cons.prems(4)] failed(2) by blast
      ultimately show ?thesis using stopped_at_here [OF _ _ frame] Some unfolding failed_row_def by blast
    next
      case go
      with m have mx: "?m st = (Inr x, st1)" by simp
      with go Cons.prems(2) have rest: "run_sequential h wk plan steps st1 = (r, st')"
        unfolding sequential_step [OF Some] by (simp add: andThen_def)
      have ids: "map st_id (ps_steps (snd st1)) = map st_id (ps_steps (snd st))" using keepsD [OF step_ids mx] by simp
      then have "st_id ` set (ps_steps (snd st1)) = st_id ` set (ps_steps (snd st))" by (metis list.set_map)
      with Cons.IH [OF _ rest] Cons.prems ids have "\<exists>st2. stopped_at steps (snd st1) (snd st2) \<and>
        (st' = st2 \<or> (\<exists>failed m1 m2. on_failed_step h wk plan failed m1 m2 st2 = (Inr (), st')))" by simp
      then obtain st2 where st2: "stopped_at steps (snd st1) (snd st2)"
        "st' = st2 \<or> (\<exists>failed m1 m2. on_failed_step h wk plan failed m1 m2 st2 = (Inr (), st'))" by blast
      have "st_action step \<noteq> ActRollback \<longrightarrow> step_settled (st_id step) (snd st1)"
        using step_result [OF mx Cons.prems(4)] go(2) by (auto simp: finished_def step_settled_def)
      with stopped_at_go [OF st2(1) frame fresh] st2(2) show ?thesis by blast
    qed
  qed
qed

lemma executePlan_sequential:
  assumes "pl_status (ps_plan s) = PlanPending" and "\<not> pl_parallelExecution (ps_plan s)"
    and "distinct (map st_id (ps_steps s))" and "executePlan h wk s = (r, s')"
  obtains (through) "pl_status (ps_plan s') = PlanCompleted"
      "\<forall>x \<in> set (ps_steps s'). st_id x \<in> st_id ` {y \<in> set (ps_steps s). st_sd y \<noteq> None \<and> st_action y \<noteq> ActRollback} \<longrightarrow>
         st_status x = StepSuccess"
  | (stopped) "pl_status (ps_plan s') \<noteq> PlanCompleted"
      "(\<forall>x \<in> set (ps_steps s). \<not> to_roll_back x) \<Longrightarrow>
         stopped_at (sort_key st_order (ps_steps s)) s s'"
  using assms(1)
proof (rule executePlan_run)
  let ?steps = "sort_key st_order (ps_steps s)"
  have d: "distinct (map st_id ?steps)"
    using assms(3) by (metis mset_map mset_sort mset_eq_imp_distinct_iff)
  fix st0 r' l s1
  assume st0: "plan_events (snd st0) = plan_events s" "ps_steps (snd st0) = ps_steps s"
    "ps_plan (snd st0) = (ps_plan s)\<lparr>pl_status := PlanRunning, pl_startedAt := Some (now h s)\<rparr>"
    and run: "run_plan h wk (ps_plan s) ?steps st0 = (r', l, s1)"
    and exec: "executePlan h wk s = (r', s1)"
  then have s1: "s1 = s'" using assms(4) by simp
  from run show thesis
  proof (rule run_plan_cases)
    fix stA x stB
    assume A: "snd stA = snd st0"
      and loop: "(if pl_parallelExecution (ps_plan s) then run_parallel h wk (ps_plan s) (sort_key fst (groupStepsByLevel st_order ?steps))
         else run_sequential h wk (ps_plan s) ?steps) stA = (x, stB)"
      and rest: "case x of Inl err \<Rightarrow> on_thrown h wk (ps_plan s) ?steps err stB = (r', l, s1)
       | Inr True \<Rightarrow> complete_plan h (ps_plan s) ?steps stB = (r', l, s1)
       | Inr False \<Rightarrow> r' = Inr () \<and> (l, s1) = stB"
    from loop assms(2) have seq: "run_sequential h wk (ps_plan s) ?steps stA = (x, stB)" by simp
    have distA: "distinct (map st_id (ps_steps (snd stA)))" using A st0 assms(3) by simp
    show thesis
    proof (cases "x = Inr True")
      case True
      with rest have fin: "complete_plan h (ps_plan s) ?steps stB = (r', l, s1)" by simp
      from complete_outcome [OF fin] s1 have done_: "pl_status (ps_plan s') = PlanCompleted"
        "ps_steps s' = ps_steps (snd stB)" by simp_all
      from sequential_through [OF d seq [unfolded True] distA]
      have ok: "\<forall>step \<in> set ?steps. st_sd step \<noteq> None \<longrightarrow> st_action step \<noteq> ActRollback \<longrightarrow>
          (\<exists>x. rows (st_id step) (snd stB) = [x] \<and> st_status x = StepSuccess)" by blast
      have "st_status x = StepSuccess" if "x \<in> set (ps_steps s')" "y \<in> set (ps_steps s)" "st_sd y \<noteq> None"
        "st_action y \<noteq> ActRollback" "st_id x = st_id y" for x y
      proof -
        from ok that obtain z where z: "rows (st_id y) (snd stB) = [z]" "st_status z = StepSuccess" by auto
        have "x \<in> set (rows (st_id y) (snd stB))" using that done_ by (simp add: rows_def)
        with z show ?thesis by simp
      qed
      with done_ show thesis by (intro through) auto
    next
      case False
      have not_done: "pl_status (ps_plan s') \<noteq> PlanCompleted"
        using rest False s1 thrown_outcome [of "ps_plan s" ?steps _ stB r' "(l, s1)"] sequential_outcome [of "ps_plan s" stA ?steps] seq
        by (cases x) (auto simp: loop_outcome_def halted_def split: if_splits bool.splits)
      have "stopped_at ?steps s s'" if calm: "\<forall>x \<in> set (ps_steps s). \<not> to_roll_back x"
      proof -
        have "st_id ` set ?steps \<subseteq> st_id ` set (ps_steps (snd stA))" using A st0 by simp
        from sequential_stops [OF d seq False distA this] obtain stC where
          C: "stopped_at ?steps (snd stA) (snd stC)"
          "stB = stC \<or> (\<exists>failed m1 m2. on_failed_step h wk (ps_plan s) failed m1 m2 stC = (Inr (), stB))" by blast
        have same: "rows j (snd stA) = rows j s" for j using A st0 by (simp add: rows_def)
        from C(1) have "stopped_at ?steps s (snd stC)" by (simp add: stopped_at_def same)
        then have B: "stopped_at ?steps s (snd stB)"
          using C(2)
        proof (elim disjE exE)
          fix failed m1 m2
          assume st: "stopped_at ?steps s (snd stC)" and run: "on_failed_step h wk (ps_plan s) failed m1 m2 stC = (Inr (), stB)"
          show ?thesis
            by (rule stopped_at_kept [OF st calm]) (rule preservesD [OF failed_keeps_closed _ run])
        qed simp
        show ?thesis
        proof (cases x)
          case (Inl e)
          with rest have run: "on_thrown h wk (ps_plan s) ?steps e stB = (r', l, s1)" by simp
          have "Q (ps_steps s1)" if "rollback_closed Q" "Q (ps_steps (snd stB))" for Q
            using preservesD [OF thrown_keeps_closed [OF that(1)] that(2) run] by simp
          then have "stopped_at ?steps s s1" by (intro stopped_at_kept [OF B calm]) blast
          then show ?thesis by (simp add: s1)
        next
          case (Inr b)
          with False rest B s1 show ?thesis by (cases b) auto
        qed
      qed
      with not_done show thesis by (rule stopped)
    qed
  qed
qed

end

interpretation system: plan_workers h "system_workers h" for h
  by unfold_locales (simp_all add: system_workers_def deployService_frame verifyServiceHealth_frame)

section \<open>Properties of the executor\<close>

text \<open>A plan of three steps on the sample store: deploy and check \<open>a\<close>, then deploy \<open>b\<close>.\<close>

definition demo_step :: "ident \<Rightarrow> nat \<Rightarrow> step_action \<Rightarrow> ident \<Rightarrow> plan_step" where
  "demo_step i n action sd =
     \<lparr>st_id = i, st_order = n, st_action = action, st_status = StepPending, st_targetTag = Some ''2'',
      st_previousTag = Some ''1'', st_startedAt = None, st_completedAt = None, st_deploymentId = None,
      st_healthPassed = None, st_healthDetails = None, st_error = None, st_logs = None, st_service = Some (''s'', ''web''),
      st_sd = Some \<lparr>sx_id = sd, sx_serviceId = ''s'', sx_serviceName = ''web'', sx_serverName = ''host''\<rparr>\<rparr>"

definition demo_plan :: "bool \<Rightarrow> deployment_plan" where
  "demo_plan autoRollback =
     \<lparr>pl_id = ''p'', pl_name = ''Deploy 2'', pl_status = PlanPending, pl_imageTag = ''2'', pl_triggerType = ''manual'',
      pl_triggeredBy = ''ops'', pl_autoRollback = autoRollback, pl_parallelExecution = False, pl_environmentId = ''e'',
      pl_containerImageId = Some ''i'', pl_userId = None, pl_startedAt = None, pl_completedAt = None,
      pl_error = None, pl_logs = None\<rparr>"

definition demo_store :: "bool \<Rightarrow> unit plan_store" where
  "demo_store autoRollback =
     store.extend sample_store
       \<lparr>ps_plan = demo_plan autoRollback,
        ps_steps = [demo_step ''1'' 0 ActDeploy ''a'', demo_step ''2'' 1 ActHealthCheck ''a'', demo_step ''3'' 2 ActDeploy ''b'']\<rparr>"

text \<open>Workers that always answer: a deployment with the given outcome, and a healthy verification.\<close>

definition demo_workers :: "bool \<Rightarrow> (unit plan_store) workers" where
  "demo_workers ok =
     \<lparr>wk_deploy = (\<lambda>sd triggeredBy user options. ret \<lparr>dr_deploymentId = ''d'',
        dr_status = (if ok then DepSuccess else DepFailed), dr_logs = [], dr_previousTag = None\<rparr>),
      wk_verify = (\<lambda>sd. ret \<lparr>hr_healthy = True, hr_containerStatus = ''running'', hr_healthStatus = ''healthy'',
        hr_urlCheck = None, hr_attempts = 1, hr_logs = []\<rparr>)\<rparr>"

lemma demo_contract: "plan_workers (demo_workers ok)"
  by unfold_locales (auto simp: demo_workers_def intro: keeps_intros)

lemma demo_pending: "pl_status (ps_plan (demo_store b)) = PlanPending"
  and demo_sequential: "\<not> pl_parallelExecution (ps_plan (demo_store b))"
  and demo_distinct: "distinct (map st_id (ps_steps (demo_store b)))"
  and demo_calm: "\<forall>x \<in> set (ps_steps (demo_store b)). \<not> to_roll_back x"
  by (cases b; code_simp)+

text \<open>C1: Executing a plan that is not pending is refused and changes nothing; executing a pending one
  always ends it, completed or, after a failure, rolled back or failed as its rollback policy says, and
  sends exactly one plan webhook, the one for that final status.\<close>

theorem executePlan_ends_once:
  "if pl_status (ps_plan s) \<noteq> PlanPending
   then executePlan h (system_workers h) s = (Inl (''Plan is already '' @ status_text (pl_status (ps_plan s))), s)
   else \<exists>s' e. executePlan h (system_workers h) s = (Inr (), s') \<and>
     pl_status (ps_plan s') \<in> {PlanCompleted, (if pl_autoRollback (ps_plan s) then PlanRolledBack else PlanFailed)} \<and>
     plan_events s' = plan_events s @ [e] \<and> terminal_event (pl_status (ps_plan s')) e"
proof (cases "pl_status (ps_plan s) = PlanPending")
  case True
  with system.executePlan_ended [OF True, of h] show ?thesis by (auto simp: ended_def)
next
  case False
  then show ?thesis by (simp add: executePlan_def io_simps)
qed

text \<open>C2: When a sequential plan ends completed, every deploy and health-check step that targets a
  deployment has succeeded.\<close>

theorem completed_means_all_succeeded:
  assumes "plan_workers wk" and "pl_status (ps_plan s) = PlanPending" and "\<not> pl_parallelExecution (ps_plan s)"
    and "distinct (map st_id (ps_steps s))"
    and "executePlan h wk s = (Inr (), s')" and "pl_status (ps_plan s') = PlanCompleted"
    and "x \<in> set (ps_steps s')" and "y \<in> set (ps_steps s)" and "st_id x = st_id y"
    and "st_sd y \<noteq> None" and "st_action y \<noteq> ActRollback"
  shows "st_status x = StepSuccess"
proof (rule plan_workers.executePlan_sequential [OF assms(1-5)])
  assume "\<forall>x \<in> set (ps_steps s'). st_id x \<in> st_id ` {y \<in> set (ps_steps s). st_sd y \<noteq> None \<and> st_action y \<noteq> ActRollback} \<longrightarrow>
    st_status x = StepSuccess"
  with assms show ?thesis by blast
qed (use assms in simp)

theorem completed_means_all_succeeded_witness:
  "{x \<in> set (ps_steps (snd (executePlan sample_host (demo_workers True) (demo_store True)))). st_id x = ''3''}
     \<subseteq> {x. st_status x = StepSuccess}"
proof
  fix x
  let ?run = "executePlan sample_host (demo_workers True) (demo_store True)"
  assume "x \<in> {x \<in> set (ps_steps (snd ?run)). st_id x = ''3''}"
  then have x: "x \<in> set (ps_steps (snd ?run))" and i: "st_id x = ''3''" by simp_all
  have done_: "pl_status (ps_plan (snd ?run)) = PlanCompleted" by code_simp
  have "fst ?run = Inr ()" by code_simp
  then have run: "?run = (Inr (), snd ?run)" by (metis prod.collapse)
  have y: "demo_step ''3'' 2 ActDeploy ''b'' \<in> set (ps_steps (demo_store True))" by (simp add: demo_store_def store.extend_def)
  from completed_means_all_succeeded [OF demo_contract demo_pending demo_sequential demo_distinct run done_ x y]
  show "x \<in> {x. st_status x = StepSuccess}" using i by (simp add: demo_step_def)
qed

text \<open>C3: A sequential plan stops at the first step that fails: when it does not complete, there is a step with a
  deployment that ended as failed, or is a deploy step without a tag to deploy, such that every deploy and health-check
  step before it that has a deployment succeeded, or was rolled back after it had, and every other row, in particular
  that of every step behind it, is exactly as it was.\<close>

theorem sequential_plan_halts:
  assumes "plan_workers wk" and "pl_status (ps_plan s) = PlanPending" and "\<not> pl_parallelExecution (ps_plan s)"
    and "distinct (map st_id (ps_steps s))" and "\<forall>x \<in> set (ps_steps s). st_status x = StepPending"
    and "executePlan h wk s = (Inr (), s')" and "pl_status (ps_plan s') \<noteq> PlanCompleted"
  shows "\<exists>pre k post. sort_key st_order (ps_steps s) = pre @ k # post \<and> st_sd k \<noteq> None \<and>
    (malformed k \<or> (\<exists>x. rows (st_id k) s' = [x] \<and> st_status x = StepFailed)) \<and>
    (\<forall>y \<in> set pre. st_sd y \<noteq> None \<longrightarrow> st_action y \<noteq> ActRollback \<longrightarrow>
       (\<exists>x. rows (st_id y) s' = [x] \<and> st_status x \<in> {StepSuccess, StepRolledBack})) \<and>
    (\<forall>j. j \<notin> st_id ` set (pre @ [k]) \<longrightarrow> rows j s' = rows j s)"
proof (rule plan_workers.executePlan_sequential [OF assms(1-4,6)])
  assume "(\<forall>x \<in> set (ps_steps s). \<not> to_roll_back x) \<Longrightarrow> stopped_at (sort_key st_order (ps_steps s)) s s'"
  with assms(5) show ?thesis unfolding stopped_at_def failed_row_def step_settled_def by (auto simp: to_roll_back_def)
qed (use assms in simp)

theorem sequential_plan_halts_witness:
  "\<exists>pre k post. sort_key st_order (ps_steps (demo_store False)) = pre @ k # post \<and>
    (\<exists>x. rows (st_id k) (snd (executePlan sample_host (demo_workers False) (demo_store False))) = [x] \<and> st_status x = StepFailed) \<and>
    (\<forall>j. j \<notin> st_id ` set (pre @ [k]) \<longrightarrow> rows j (snd (executePlan sample_host (demo_workers False) (demo_store False))) =
       rows j (demo_store False))"
proof -
  let ?run = "executePlan sample_host (demo_workers False) (demo_store False)"
  have "fst ?run = Inr ()" by code_simp
  then have run: "?run = (Inr (), snd ?run)" by (metis prod.collapse)
  have stop: "pl_status (ps_plan (snd ?run)) \<noteq> PlanCompleted" by code_simp
  have pending: "\<forall>x \<in> set (ps_steps (demo_store False)). st_status x = StepPending" by code_simp
  have sound: "\<forall>x \<in> set (sort_key st_order (ps_steps (demo_store False))). \<not> malformed x" by code_simp
  from sequential_plan_halts [OF demo_contract demo_pending demo_sequential demo_distinct pending run stop] obtain pre k post where
    split: "sort_key st_order (ps_steps (demo_store False)) = pre @ k # post"
    and k: "malformed k \<or> (\<exists>x. rows (st_id k) (snd ?run) = [x] \<and> st_status x = StepFailed)"
    and rest: "\<forall>j. j \<notin> st_id ` set (pre @ [k]) \<longrightarrow> rows j (snd ?run) = rows j (demo_store False)" by blast
  from sound have "\<not> malformed k" unfolding split by simp
  with split k rest show ?thesis by blast
qed

text \<open>A run that rolls a plan back after a failed step loses its own log: it writes an empty log text
  to the plan, because the rollback sends its lines to the caller's list and stores only its own empty one.\<close>

theorem rollback_loses_plan_log:
  assumes "plan_workers wk" and "pl_status (ps_plan s) = PlanPending" and "pl_logs (ps_plan s) = None" and "pl_error (ps_plan s) = None"
    and "executePlan h wk s = (Inr (), s')" and "pl_status (ps_plan s') = PlanRolledBack"
    and "pl_error (ps_plan s') = None"
  shows "pl_logs (ps_plan s') = Some []"
  using plan_workers.executePlan_ended [OF assms(1,2), of h] assms
  by (auto simp: ended_def append_logs_def)

theorem rollback_loses_plan_log_witness:
  "pl_logs (ps_plan (snd (executePlan sample_host (demo_workers False) (demo_store True)))) = Some []"
proof -
  let ?run = "executePlan sample_host (demo_workers False) (demo_store True)"
  have "fst ?run = Inr ()" by code_simp
  then have run: "?run = (Inr (), snd ?run)" by (metis prod.collapse)
  have facts: "pl_logs (ps_plan (demo_store True)) = None" "pl_error (ps_plan (demo_store True)) = None"
    "pl_status (ps_plan (snd ?run)) = PlanRolledBack" "pl_error (ps_plan (snd ?run)) = None"
    by code_simp+
  show ?thesis by (rule rollback_loses_plan_log [OF demo_contract demo_pending facts(1,2) run facts(3,4)])
qed

text \<open>Workers during whose deployments another request cancels the plan.\<close>

definition cancelled_meanwhile :: "'w host \<Rightarrow> (('w, 'z) plan_store_scheme) workers \<Rightarrow> (('w, 'z) plan_store_scheme) workers" where
  "cancelled_meanwhile h wk = wk\<lparr>wk_deploy := (\<lambda>sd triggeredBy user options.
     andThen (trap (cancelPlan h)) (\<lambda>_. wk_deploy wk sd triggeredBy user options))\<rparr>"

text \<open>A cancellation during a run does not stop it here: the executor goes on to the steps that the
  cancellation marked as skipped, runs them to success, and marks the cancelled plan completed.\<close>

lemma cancel_does_not_stop_a_run:
  "let s' = snd (executePlan sample_host (cancelled_meanwhile sample_host (demo_workers True)) (demo_store True)) in
   pl_status (ps_plan (snd (cancelPlan sample_host (demo_store True)))) = PlanCancelled \<and>
   map st_status (ps_steps (snd (cancelPlan sample_host (demo_store True)))) = [StepSkipped, StepSkipped, StepSkipped] \<and>
   pl_status (ps_plan s') = PlanCompleted \<and> map st_status (ps_steps s') = [StepSuccess, StepSuccess, StepSuccess]"
  by code_simp

section \<open>What a rollback restores\<close>

text \<open>
  The redeployments of a rollback, one after another: the steps whose deployment with their previous tag succeeded. The
  row of such a step is marked before the next one is deployed.
\<close>

definition redeploy :: "(('w, 'z) plan_store_scheme) workers \<Rightarrow> deployment_plan \<Rightarrow> plan_step \<Rightarrow> (('w, 'z) plan_store_scheme, deploy_result) io" where
  "redeploy wk plan step =
     wk_deploy wk (sx_id (the (st_sd step))) ''rollback'' (pl_userId plan)
       \<lparr>op_imageTag = st_previousTag step, op_generateArtifacts = True, op_pullImage = True, op_previousTagOverride = None\<rparr>"

definition redeploy_ok :: "string + deploy_result \<Rightarrow> bool" where
  "redeploy_ok r = (case r of Inl _ \<Rightarrow> False | Inr d \<Rightarrow> dr_status d = DepSuccess)"

fun redeployed :: "(('w, 'z) plan_store_scheme) workers \<Rightarrow> deployment_plan \<Rightarrow> plan_step list \<Rightarrow> ('w, 'z) plan_store_scheme \<Rightarrow> ident list" where
  "redeployed wk plan [] s = []"
| "redeployed wk plan (x # xs) s =
     (case redeploy wk plan x s of
        (r, s1) \<Rightarrow>
          if redeploy_ok r then st_id x # redeployed wk plan xs (s1\<lparr>ps_steps := rolled {st_id x} (ps_steps s1)\<rparr>)
          else redeployed wk plan xs s1)"

lemma rollback_step_exact:
  assumes "to_roll_back step"
  shows "\<exists>l. rollback_step h wk plan step st =
    (Inr (), l, case redeploy wk plan step (snd st) of
       (r, s1) \<Rightarrow> if redeploy_ok r then s1\<lparr>ps_steps := rolled {st_id step} (ps_steps s1)\<rparr> else s1)"
proof -
  from assms obtain sd tag where sd: "st_sd step = Some sd" "st_previousTag step = Some tag" "tag \<noteq> []"
    by (auto simp: to_roll_back_def truthy_def split: option.splits)
  obtain r s1 where m: "redeploy wk plan step (snd st) = (r, s1)" by (metis surj_pair)
  then have call: "wk_deploy wk (sx_id sd) ''rollback'' (pl_userId plan) (plan_deploy_options tag) (snd st) = (r, s1)"
    by (simp add: redeploy_def sd plan_deploy_options_def)
  show ?thesis
    by (cases r) (auto simp: m call sd redeploy_ok_def rollback_step_def Let_def plan_log_def set_step_def on_store_def io_simps
        case_prod_beta andThen_def catching_def)
qed

context plan_workers
begin

lemma rollback_steps_exact:
  "\<forall>x \<in> set xs. to_roll_back x \<Longrightarrow>
    \<exists>st'. for_each (rollback_step h wk plan) xs st = (Inr (), st') \<and>
      ps_steps (snd st') = rolled (set (redeployed wk plan xs (snd st))) (ps_steps (snd st))"
proof (induction xs arbitrary: st)
  case Nil
  then show ?case by (auto simp: io_simps)
next
  case (Cons x xs)
  obtain r s1 where m: "redeploy wk plan x (snd st) = (r, s1)" by (metis surj_pair)
  have "keeps plan_view (redeploy wk plan x)" unfolding redeploy_def by (rule deploy_frame)
  from keepsD [OF this m] have same: "ps_steps s1 = ps_steps (snd st)" by (simp add: plan_view_def)
  let ?s2 = "if redeploy_ok r then s1\<lparr>ps_steps := rolled {st_id x} (ps_steps s1)\<rparr> else s1"
  from rollback_step_exact [of x h wk plan st] Cons.prems m obtain l where
    x: "rollback_step h wk plan x st = (Inr (), l, ?s2)" by auto
  from Cons.IH [of "(l, ?s2)"] Cons.prems obtain st' where
    rest: "for_each (rollback_step h wk plan) xs (l, ?s2) = (Inr (), st')"
    "ps_steps (snd st') = rolled (set (redeployed wk plan xs ?s2)) (ps_steps ?s2)" by auto
  from x rest(1) have "for_each (rollback_step h wk plan) (x # xs) st = (Inr (), st')" by (simp add: andThen_def)
  moreover have "ps_steps (snd st') = rolled (set (redeployed wk plan (x # xs) (snd st))) (ps_steps (snd st))"
    using rest(2) by (simp add: m same)
  ultimately show ?case by blast
qed

lemma rollback_exact:
  "\<exists>s'. rollbackPlan h wk s = (Inr (), s') \<and> pl_status (ps_plan s') = PlanRolledBack \<and>
    ps_steps s' = rolled (set (redeployed wk (ps_plan s) (filter to_roll_back (rev (sort_key st_order (ps_steps s)))) s)) (ps_steps s)"
proof -
  let ?steps = "filter to_roll_back (rev (sort_key st_order (ps_steps s)))"
  obtain r l s' where body: "rollback_body h wk False ([], s) = (r, l, s')" by (metis surj_pair)
  obtain l1 s1 where loop: "for_each (rollback_step h wk (ps_plan s)) ?steps ([(now h s, ''Starting rollback...'')], s) = (Inr (), l1, s1)"
    and rows: "ps_steps s1 = rolled (set (redeployed wk (ps_plan s) ?steps s)) (ps_steps s)"
    using rollback_steps_exact [of ?steps "ps_plan s" "([(now h s, ''Starting rollback...'')], s)"] by auto
  from body loop have "ps_steps s' = ps_steps s1"
    by (auto simp: rollback_body_def plan_log_def set_plan_def on_store_def emit_def io_simps andThen_def Let_def)
  then show ?thesis
    using rollback_body_effect [OF body] body rows by (auto simp: rollbackPlan_def with_fresh_log_def)
qed

end




end
