(* ===== verification/Bounce_Tracker.thy ===== *)
theory Bounce_Tracker
  imports Prelude
begin

text \<open>
  \<open>src/services/bounce-tracker.ts\<close>: consecutive-failure tracking that keeps alerts from storming.
  The table is a list of rows with the unique key (resource type, resource, event). The
  notification type that the caller names is looked up by its own service; what the tracker reads of
  it (\<open>bounceEnabled\<close>, \<open>bounceThreshold\<close>, \<open>bounceCooldown\<close>) is an argument. Times are milliseconds,
  the cooldown is in seconds.
\<close>

section \<open>Rows and operations\<close>

datatype resource_type = ResServer | ResService | ResServiceDeployment | ResDatabase
datatype bounce_event = BounceHealthCheck | BounceOffline | BounceCrash | BounceBackup

type_synonym bounce_key = "resource_type \<times> ident \<times> bounce_event"

record bounce_tracker =
  bt_key :: bounce_key
  bt_consecutiveFailures :: nat
  bt_lastFailedAt :: "millis option"
  bt_lastSuccessAt :: "millis option"
  bt_alertSentAt :: "millis option"

record bounce_settings =
  bs_enabled :: bool
  bs_threshold :: nat
  bs_cooldown :: int

record bounce_result =
  br_shouldAlert :: bool
  br_consecutiveFailures :: nat
  br_wasRecovered :: "bool option"

definition find_tracker :: "bounce_key \<Rightarrow> bounce_tracker list \<Rightarrow> bounce_tracker option" where
  "find_tracker key db = List.find (\<lambda>t. bt_key t = key) db"

text \<open>The threshold and the cooldown in force: the type's, when it is known and has bouncing enabled.\<close>

definition limits :: "bounce_settings option \<Rightarrow> nat \<times> int" where
  "limits notifType =
     (case notifType of
        Some n \<Rightarrow> if bs_enabled n then (bs_threshold n, bs_cooldown n) else (3, 900)
      | None \<Rightarrow> (3, 900))"

definition recordFailure :: "bounce_key \<Rightarrow> bounce_settings option \<Rightarrow> millis \<Rightarrow> bounce_tracker list
    \<Rightarrow> bounce_result \<times> bounce_tracker list" where
  "recordFailure key notifType now db =
     (case find_tracker key db of
        None \<Rightarrow>
          (\<lparr>br_shouldAlert = False, br_consecutiveFailures = 1, br_wasRecovered = None\<rparr>,
           db @ [\<lparr>bt_key = key, bt_consecutiveFailures = 1, bt_lastFailedAt = Some now, bt_lastSuccessAt = None,
                  bt_alertSentAt = None\<rparr>])
      | Some tracker \<Rightarrow>
          let newCount = bt_consecutiveFailures tracker + 1;
              db1 = update_row bt_key key (\<lambda>t. t\<lparr>bt_consecutiveFailures := newCount, bt_lastFailedAt := Some now\<rparr>) db;
              (threshold, cooldown) = limits notifType;
              shouldAlert = (threshold \<le> newCount \<and>
                (case bt_alertSentAt tracker of None \<Rightarrow> True | Some sent \<Rightarrow> cooldown * 1000 < now - sent));
              db2 = (if shouldAlert then update_row bt_key key (\<lambda>t. t\<lparr>bt_alertSentAt := Some now\<rparr>) db1 else db1)
          in (\<lparr>br_shouldAlert = shouldAlert, br_consecutiveFailures = newCount, br_wasRecovered = None\<rparr>, db2))"

definition recordSuccess :: "bounce_key \<Rightarrow> millis \<Rightarrow> bounce_tracker list \<Rightarrow> bounce_result \<times> bounce_tracker list" where
  "recordSuccess key now db =
     (case find_tracker key db of
        None \<Rightarrow> (\<lparr>br_shouldAlert = False, br_consecutiveFailures = 0, br_wasRecovered = None\<rparr>, db)
      | Some tracker \<Rightarrow>
          let wasInFailedState = (0 < bt_consecutiveFailures tracker \<and> bt_alertSentAt tracker \<noteq> None) in
          (\<lparr>br_shouldAlert = False, br_consecutiveFailures = 0, br_wasRecovered = Some wasInFailedState\<rparr>,
           update_row bt_key key
             (\<lambda>t. t\<lparr>bt_consecutiveFailures := 0, bt_lastSuccessAt := Some now, bt_alertSentAt := None\<rparr>) db))"

definition getFailureCount :: "bounce_key \<Rightarrow> bounce_tracker list \<Rightarrow> nat" where
  "getFailureCount key db = (case find_tracker key db of Some t \<Rightarrow> bt_consecutiveFailures t | None \<Rightarrow> 0)"

definition clearBounceTracking :: "resource_type \<Rightarrow> ident \<Rightarrow> bounce_tracker list \<Rightarrow> bounce_tracker list" where
  "clearBounceTracking r i db = filter (\<lambda>t. \<not> (fst (bt_key t) = r \<and> fst (snd (bt_key t)) = i)) db"

section \<open>Histories of one key\<close>

text \<open>
  The table as it develops, for one key with fixed settings: failures and successes of the key, and any
  operations on other keys. Beside the table the history keeps what an observer saw: the number of
  failures since the last success, and the times of the alerts since then, newest first.
\<close>

inductive tracked :: "bounce_key \<Rightarrow> bounce_settings option \<Rightarrow> bounce_tracker list \<Rightarrow> nat \<Rightarrow> millis list \<Rightarrow> bool"
  for key :: bounce_key and notifType :: "bounce_settings option" where
  start: "find_tracker key db = None \<Longrightarrow> tracked key notifType db 0 []"
| failure: "tracked key notifType db f alerts \<Longrightarrow> recordFailure key notifType now db = (r, db') \<Longrightarrow>
    tracked key notifType db' (f + 1) (if br_shouldAlert r then now # alerts else alerts)"
| success: "tracked key notifType db f alerts \<Longrightarrow> recordSuccess key now db = (r, db') \<Longrightarrow>
    tracked key notifType db' 0 []"
| other_failure: "tracked key notifType db f alerts \<Longrightarrow> k \<noteq> key \<Longrightarrow> recordFailure k n now db = (r, db') \<Longrightarrow>
    tracked key notifType db' f alerts"
| other_success: "tracked key notifType db f alerts \<Longrightarrow> k \<noteq> key \<Longrightarrow> recordSuccess k now db = (r, db') \<Longrightarrow>
    tracked key notifType db' f alerts"

lemma find_tracker_append:
  "find_tracker key (db @ [t]) =
     (case find_tracker key db of Some x \<Rightarrow> Some x | None \<Rightarrow> if bt_key t = key then Some t else None)"
  unfolding find_tracker_def by (induction db) auto

lemma find_tracker_update:
  assumes "\<And>t. bt_key (g t) = bt_key t"
  shows "find_tracker key (update_row bt_key k g db) =
    (if k = key then map_option g (find_tracker key db) else find_tracker key db)"
  unfolding find_tracker_def using assms by (induction db) (auto simp: update_row_def)

text \<open>What the operations do to the row of a key.\<close>

lemma failure_row:
  assumes "recordFailure k notifType now db = (r, db')"
  shows "find_tracker key db' =
    (if k \<noteq> key then find_tracker key db
     else Some (case find_tracker key db of
       None \<Rightarrow> \<lparr>bt_key = key, bt_consecutiveFailures = 1, bt_lastFailedAt = Some now, bt_lastSuccessAt = None,
                bt_alertSentAt = None\<rparr>
     | Some t \<Rightarrow> t\<lparr>bt_consecutiveFailures := bt_consecutiveFailures t + 1, bt_lastFailedAt := Some now,
                  bt_alertSentAt := (if br_shouldAlert r then Some now else bt_alertSentAt t)\<rparr>))"
  using assms
  by (auto simp: recordFailure_def find_tracker_append find_tracker_update Let_def split: option.splits prod.splits if_splits)

lemma success_row:
  assumes "recordSuccess k now db = (r, db')"
  shows "find_tracker key db' =
    (if k \<noteq> key then find_tracker key db
     else map_option (\<lambda>t. t\<lparr>bt_consecutiveFailures := 0, bt_lastSuccessAt := Some now, bt_alertSentAt := None\<rparr>)
       (find_tracker key db))"
  using assms by (auto simp: recordSuccess_def find_tracker_update Let_def split: option.splits)

lemma failure_alert:
  assumes "recordFailure key notifType now db = (r, db')" and "br_shouldAlert r"
  obtains t where "find_tracker key db = Some t" "fst (limits notifType) \<le> bt_consecutiveFailures t + 1"
    "case bt_alertSentAt t of None \<Rightarrow> True | Some sent \<Rightarrow> snd (limits notifType) * 1000 < now - sent"
  using assms by (auto simp: recordFailure_def Let_def split: option.splits prod.splits)

text \<open>The row knows the observed history.\<close>

definition row_agrees :: "bounce_tracker option \<Rightarrow> nat \<Rightarrow> millis list \<Rightarrow> bool" where
  "row_agrees row f alerts \<longleftrightarrow>
     (case row of
        None \<Rightarrow> f = 0 \<and> alerts = []
      | Some t \<Rightarrow> bt_consecutiveFailures t = f \<and>
          bt_alertSentAt t = (case alerts of [] \<Rightarrow> None | a # _ \<Rightarrow> Some a))"

lemma tracked_row: "tracked key notifType db f alerts \<Longrightarrow> row_agrees (find_tracker key db) f alerts"
proof (induction rule: tracked.induct)
  case (start db)
  then show ?case by (simp add: row_agrees_def)
next
  case (failure db f alerts now r db')
  have "\<not> br_shouldAlert r" if "find_tracker key db = None"
    using that failure.hyps(2) by (auto simp: recordFailure_def)
  with failure show ?case
    by (auto simp: failure_row [OF failure.hyps(2)] row_agrees_def split: option.splits list.splits)
next
  case (success db f alerts now r db')
  then show ?case by (auto simp: success_row [OF success.hyps(2)] row_agrees_def split: option.splits)
qed (simp_all add: failure_row success_row)

section \<open>Properties\<close>

text \<open>C28: However failures and successes of resources interleave, between two successes of a key no alert
  is raised before the threshold of consecutive failures is reached, and any two alerts are more than
  the cooldown apart.\<close>

theorem alerts_do_not_storm:
  assumes "tracked key notifType db f alerts" and "0 \<le> snd (limits notifType)"
  shows "sorted_wrt (\<lambda>later earlier. snd (limits notifType) * 1000 < later - earlier) alerts \<and>
    (alerts \<noteq> [] \<longrightarrow> fst (limits notifType) \<le> f)"
  using assms(1)
proof (induction rule: tracked.induct)
  case (failure db f alerts now r db')
  show ?case
  proof (cases "br_shouldAlert r")
    case True
    with failure.hyps(2) obtain t where t: "find_tracker key db = Some t"
      "fst (limits notifType) \<le> bt_consecutiveFailures t + 1"
      "case bt_alertSentAt t of None \<Rightarrow> True | Some sent \<Rightarrow> snd (limits notifType) * 1000 < now - sent"
      by (rule failure_alert)
    with tracked_row [OF failure.hyps(1)] have count: "bt_consecutiveFailures t = f"
      and last: "bt_alertSentAt t = (case alerts of [] \<Rightarrow> None | a # _ \<Rightarrow> Some a)"
      by (simp_all add: row_agrees_def)
    have "snd (limits notifType) * 1000 < now - a" if "a \<in> set alerts" for a
    proof -
      from that obtain b bs where b: "alerts = b # bs" by (cases alerts) auto
      with last t(3) have "snd (limits notifType) * 1000 < now - b" by simp
      moreover have "a = b \<or> snd (limits notifType) * 1000 < b - a"
        using that b failure.IH by auto
      ultimately show ?thesis using assms(2) by auto
    qed
    with True t(2) count failure.IH show ?thesis by auto
  next
    case False
    with failure.IH show ?thesis by auto
  qed
qed auto

text \<open>A server that fails three times and then keeps failing: one alert, and the next after the cooldown.\<close>

definition sample_key :: bounce_key where
  "sample_key = (ResServer, ''v'', BounceOffline)"

fun fail_at :: "millis list \<Rightarrow> bounce_tracker list \<Rightarrow> bool list \<times> bounce_tracker list" where
  "fail_at [] db = ([], db)"
| "fail_at (t # ts) db =
     (let (r, db') = recordFailure sample_key None t db; (as, db'') = fail_at ts db' in (br_shouldAlert r # as, db''))"

lemma fail_at_tracked:
  "tracked sample_key None db f alerts \<Longrightarrow>
     tracked sample_key None (snd (fail_at ts db)) (f + length ts)
       (rev (map fst (filter snd (zip ts (fst (fail_at ts db))))) @ alerts)"
proof (induction ts arbitrary: db f alerts)
  case Nil
  then show ?case by simp
next
  case (Cons t ts)
  obtain r db' where r: "recordFailure sample_key None t db = (r, db')" by (metis surj_pair)
  from Cons.IH [OF tracked.failure [OF Cons.prems r]] r show ?case
    by (auto simp: Let_def split: prod.splits)
qed

theorem alerts_do_not_storm_witness:
  "\<exists>db. tracked sample_key None db 5 [1000000, 20] \<and> (900::int) * 1000 < 1000000 - 20"
proof -
  let ?ts = "[0, 10, 20, 30, 1000000]"
  have empty: "tracked sample_key None [] 0 []" by (rule tracked.start) (simp add: find_tracker_def)
  have seen: "fst (fail_at ?ts []) = [False, False, True, False, True]" by code_simp
  have alerts: "rev (map fst (filter snd (zip ?ts [False, False, True, False, True]))) @ [] = [1000000, 20]"
    and count: "0 + length ?ts = 5" by simp_all
  have t: "tracked sample_key None (snd (fail_at ?ts [])) 5 [1000000, 20]"
    using fail_at_tracked [OF empty, of ?ts] unfolding seen alerts count .
  from alerts_do_not_storm [OF t] t show ?thesis by (auto simp: limits_def)
qed

text \<open>With a threshold of one, the first failure that a resource ever has raises no alert, although a
  first failure after any success does: the branch that creates the row returns before it compares with
  the threshold.\<close>

theorem first_failure_never_alerts:
  assumes "find_tracker key db = None"
    and "recordFailure key (Some \<lparr>bs_enabled = True, bs_threshold = 1, bs_cooldown = c\<rparr>) t1 db = (r1, db1)"
    and "recordSuccess key t2 db1 = (r2, db2)"
    and "recordFailure key (Some \<lparr>bs_enabled = True, bs_threshold = 1, bs_cooldown = c\<rparr>) t3 db2 = (r3, db3)"
  shows "\<not> br_shouldAlert r1 \<and> br_shouldAlert r3 \<and> br_consecutiveFailures r1 = br_consecutiveFailures r3"
proof -
  have row2: "find_tracker key db2 = Some \<lparr>bt_key = key, bt_consecutiveFailures = 0, bt_lastFailedAt = Some t1,
      bt_lastSuccessAt = Some t2, bt_alertSentAt = None\<rparr>"
    using assms(1) by (simp add: success_row [OF assms(3)] failure_row [OF assms(2)])
  have "br_shouldAlert r3 \<and> br_consecutiveFailures r3 = 1"
    using assms(4) row2 by (auto simp: recordFailure_def limits_def Let_def)
  moreover have "\<not> br_shouldAlert r1 \<and> br_consecutiveFailures r1 = 1"
    using assms(1,2) by (auto simp: recordFailure_def)
  ultimately show ?thesis by simp
qed

theorem first_failure_never_alerts_witness:
  "\<not> br_shouldAlert (fst (recordFailure sample_key (Some \<lparr>bs_enabled = True, bs_threshold = 1, bs_cooldown = 0\<rparr>) 1 []))"
proof -
  let ?n = "Some \<lparr>bs_enabled = True, bs_threshold = 1, bs_cooldown = 0\<rparr>"
  obtain r1 db1 where 1: "recordFailure sample_key ?n 1 [] = (r1, db1)" by (metis surj_pair)
  obtain r2 db2 where 2: "recordSuccess sample_key 2 db1 = (r2, db2)" by (metis surj_pair)
  obtain r3 db3 where 3: "recordFailure sample_key ?n 3 db2 = (r3, db3)" by (metis surj_pair)
  have "find_tracker sample_key [] = None" by (simp add: find_tracker_def)
  from first_failure_never_alerts [OF this 1 2 3] 1 show ?thesis by simp
qed

end
