(* ===== verification/Keyed_Lock.thy ===== *)
theory Keyed_Lock
  imports Prelude
begin

text \<open>
  \<open>src/lib/keyed-lock.ts\<close>: the in-process mutex by key. A call of \<open>runExclusive\<close> gets a number; its
  \<open>result\<close> promise waits for the tail that the map \<open>chains\<close> held for the key at the time of the call,
  and its own tail replaces it. What the event loop may do next is a step: begin a call whose
  predecessor's tail has settled, settle a running call (returned or thrown alike, the tail never
  rejects), and drop the key in \<open>finally\<close> when the settled tail is still the last link.
\<close>

section \<open>States and steps\<close>

datatype call_state = Waiting | Running | Settled

record lock_call =
  lc_key :: string
  lc_prev :: "nat option"
  lc_state :: call_state

record lock_state =
  lk_chains :: "string \<rightharpoonup> nat"
  lk_calls :: "nat \<rightharpoonup> lock_call"
  lk_next :: nat

definition no_calls :: lock_state where
  "no_calls = \<lparr>lk_chains = Map.empty, lk_calls = Map.empty, lk_next = 0\<rparr>"

definition runExclusive :: "string \<Rightarrow> lock_state \<Rightarrow> lock_state" where
  "runExclusive key st =
     (let n = lk_next st; prev = lk_chains st key in
      st\<lparr>lk_calls := (lk_calls st)(n \<mapsto> \<lparr>lc_key = key, lc_prev = prev, lc_state = Waiting\<rparr>),
         lk_chains := (lk_chains st)(key \<mapsto> n), lk_next := n + 1\<rparr>)"

definition set_state :: "nat \<Rightarrow> call_state \<Rightarrow> lock_state \<Rightarrow> lock_state" where
  "set_state n state st = st\<lparr>lk_calls := (lk_calls st)(n := map_option (\<lambda>c. c\<lparr>lc_state := state\<rparr>) (lk_calls st n))\<rparr>"

text \<open>\<open>prev.then(() => fn())\<close> may fire: there was no predecessor, or its tail has settled.\<close>

definition may_begin :: "lock_state \<Rightarrow> nat \<Rightarrow> bool" where
  "may_begin st n =
     (case lk_calls st n of
        None \<Rightarrow> False
      | Some c \<Rightarrow> lc_state c = Waiting \<and>
          (case lc_prev c of None \<Rightarrow> True | Some p \<Rightarrow> map_option lc_state (lk_calls st p) = Some Settled))"

definition drop_key :: "nat \<Rightarrow> lock_state \<Rightarrow> lock_state" where
  "drop_key n st =
     (case lk_calls st n of
        None \<Rightarrow> st
      | Some c \<Rightarrow> if lk_chains st (lc_key c) = Some n then st\<lparr>lk_chains := (lk_chains st)(lc_key c := None)\<rparr> else st)"

inductive lock_step :: "lock_state \<Rightarrow> lock_state \<Rightarrow> bool" where
  call: "lock_step st (runExclusive key st)"
| begins: "may_begin st n \<Longrightarrow> lock_step st (set_state n Running st)"
| settles: "map_option lc_state (lk_calls st n) = Some Running \<Longrightarrow> lock_step st (set_state n Settled st)"
| drops: "map_option lc_state (lk_calls st n) = Some Settled \<Longrightarrow> lock_step st (drop_key n st)"

inductive lock_reachable :: "lock_state \<Rightarrow> bool" where
  init: "lock_reachable no_calls"
| step: "lock_reachable st \<Longrightarrow> lock_step st st' \<Longrightarrow> lock_reachable st'"

section \<open>The chain invariant\<close>

text \<open>
  Calls are numbered below \<open>lk_next\<close>; a call has behind it only settled calls of its key and the calls up
  to its predecessor; a call that has begun has only settled ones behind it; the map holds the newest
  call of a key, or nothing once all of them have settled.
\<close>

definition of_key :: "lock_state \<Rightarrow> nat \<Rightarrow> string \<Rightarrow> bool" where
  "of_key st n key \<longleftrightarrow> map_option lc_key (lk_calls st n) = Some key"

definition settled_call :: "lock_state \<Rightarrow> nat \<Rightarrow> bool" where
  "settled_call st n \<longleftrightarrow> map_option lc_state (lk_calls st n) = Some Settled"

definition call_ok :: "lock_state \<Rightarrow> nat \<Rightarrow> lock_call \<Rightarrow> bool" where
  "call_ok st m c \<longleftrightarrow>
     m < lk_next st \<and>
     (\<forall>p. lc_prev c = Some p \<longrightarrow> p < m \<and> of_key st p (lc_key c)) \<and>
     (\<forall>n < m. of_key st n (lc_key c) \<longrightarrow> settled_call st n \<or> (\<exists>p. lc_prev c = Some p \<and> n \<le> p)) \<and>
     (lc_state c \<noteq> Waiting \<longrightarrow> (\<forall>n < m. of_key st n (lc_key c) \<longrightarrow> settled_call st n))"

definition tail_ok :: "lock_state \<Rightarrow> string \<Rightarrow> bool" where
  "tail_ok st key \<longleftrightarrow>
     (lk_chains st key = None \<longrightarrow> (\<forall>n. of_key st n key \<longrightarrow> settled_call st n)) \<and>
     (\<forall>t. lk_chains st key = Some t \<longrightarrow> of_key st t key \<and> (\<forall>n. of_key st n key \<longrightarrow> n \<le> t))"

definition lock_inv :: "lock_state \<Rightarrow> bool" where
  "lock_inv st \<longleftrightarrow> (\<forall>m c. lk_calls st m = Some c \<longrightarrow> call_ok st m c) \<and> (\<forall>key. tail_ok st key)"

lemma lock_invD:
  "lock_inv st \<Longrightarrow> lk_calls st m = Some c \<Longrightarrow> call_ok st m c" "lock_inv st \<Longrightarrow> tail_ok st key"
  by (simp_all add: lock_inv_def)

lemma call_inv:
  assumes "lock_inv st"
  shows "lock_inv (runExclusive key st)"
proof -
  let ?n = "lk_next st" and ?st = "runExclusive key st"
  have new: "lk_calls st ?n = None"
    using lock_invD(1) [OF assms, of ?n] by (cases "lk_calls st ?n") (auto simp: call_ok_def)
  have keys: "of_key ?st m k \<longleftrightarrow> (if m = ?n then k = key else of_key st m k)" for m k
    by (auto simp: of_key_def runExclusive_def Let_def)
  have old: "settled_call ?st m \<longleftrightarrow> m \<noteq> ?n \<and> settled_call st m" for m
    by (auto simp: settled_call_def runExclusive_def Let_def)
  have below: "m < ?n" if "of_key st m k" for m k
    using that lock_invD(1) [OF assms] by (auto simp: of_key_def call_ok_def)
  have calls: "lk_calls ?st = (lk_calls st)(?n \<mapsto> \<lparr>lc_key = key, lc_prev = lk_chains st key, lc_state = Waiting\<rparr>)"
    and nxt: "lk_next ?st = ?n + 1" and chains: "lk_chains ?st = (lk_chains st)(key \<mapsto> ?n)"
    by (simp_all add: runExclusive_def Let_def)
  have tail: "tail_ok st key" by (rule lock_invD(2) [OF assms])
  have own: "call_ok ?st ?n \<lparr>lc_key = key, lc_prev = lk_chains st key, lc_state = Waiting\<rparr>"
  proof -
    have "p < ?n \<and> of_key ?st p key" if "lk_chains st key = Some p" for p
      using tail that below [of p key] by (auto simp: tail_ok_def keys)
    moreover have "settled_call ?st m \<or> (\<exists>p. lk_chains st key = Some p \<and> m \<le> p)" if "m < ?n" "of_key ?st m key" for m
      using tail that by (cases "lk_chains st key") (auto simp: tail_ok_def keys old)
    ultimately show ?thesis by (auto simp: call_ok_def nxt)
  qed
  have others: "call_ok ?st m c" if "lk_calls st m = Some c" for m c
  proof -
    have "m < ?n" using that lock_invD(1) [OF assms] by (auto simp: call_ok_def)
    with lock_invD(1) [OF assms that] show ?thesis by (auto simp: call_ok_def keys old nxt)
  qed
  have "tail_ok ?st k" for k
    using lock_invD(2) [OF assms, of k] below by (auto simp: tail_ok_def keys old chains intro: less_imp_le)
  with own others show ?thesis by (auto simp: lock_inv_def calls)
qed

lemma of_key_set_state [simp]: "of_key (set_state n s st) m k = of_key st m k"
  by (auto simp: of_key_def set_state_def)

lemma settled_set_state:
  "settled_call (set_state n s st) m \<longleftrightarrow> (if m = n then lk_calls st n \<noteq> None \<and> s = Settled else settled_call st m)"
  by (auto simp: settled_call_def set_state_def)

lemma set_state_inv:
  assumes inv: "lock_inv st" and c: "lk_calls st n = Some c"
    and behind: "\<forall>m < n. of_key st m (lc_key c) \<longrightarrow> settled_call st m"
    and s: "s \<noteq> Waiting" "settled_call st n \<longrightarrow> s = Settled"
  shows "lock_inv (set_state n s st)"
proof -
  have calls: "lk_calls (set_state n s st) m = (if m = n then Some (c\<lparr>lc_state := s\<rparr>) else lk_calls st m)" for m
    using c by (auto simp: set_state_def)
  have stays: "settled_call st m \<Longrightarrow> settled_call (set_state n s st) m" for m
    using s c by (auto simp: settled_set_state)
  have rest: "lk_next (set_state n s st) = lk_next st" "lk_chains (set_state n s st) = lk_chains st"
    by (simp_all add: set_state_def)
  have "call_ok (set_state n s st) m d" if "lk_calls st m = Some d" for m d
    using lock_invD(1) [OF inv that] stays unfolding call_ok_def rest of_key_set_state by blast
  moreover have "call_ok (set_state n s st) n (c\<lparr>lc_state := s\<rparr>)"
    using lock_invD(1) [OF inv c] behind stays by (auto simp: call_ok_def rest)
  moreover have "tail_ok (set_state n s st) k" for k
    using lock_invD(2) [OF inv, of k] stays unfolding tail_ok_def rest of_key_set_state by blast
  ultimately show ?thesis by (auto simp: lock_inv_def calls)
qed

lemma drop_inv:
  assumes inv: "lock_inv st" and c: "lk_calls st n = Some c" and fin: "lc_state c = Settled"
  shows "lock_inv (drop_key n st)"
proof (cases "lk_chains st (lc_key c) = Some n")
  case True
  have calls: "lk_calls (drop_key n st) = lk_calls st" and nxt: "lk_next (drop_key n st) = lk_next st"
    and chains: "lk_chains (drop_key n st) = (lk_chains st)(lc_key c := None)"
    using True c by (simp_all add: drop_key_def)
  have all: "settled_call st m" if "of_key st m (lc_key c)" for m
  proof -
    have "m \<le> n" using lock_invD(2) [OF inv, of "lc_key c"] True that by (simp add: tail_ok_def)
    moreover have "settled_call st n" using c fin by (simp add: settled_call_def)
    moreover have "settled_call st m" if "m < n"
      using lock_invD(1) [OF inv c] fin that \<open>of_key st m (lc_key c)\<close> by (simp add: call_ok_def)
    ultimately show ?thesis by (cases "m = n") auto
  qed
  have same: "of_key (drop_key n st) = of_key st" "settled_call (drop_key n st) = settled_call st"
    by (simp_all add: fun_eq_iff of_key_def settled_call_def calls)
  have "call_ok (drop_key n st) m d" if "lk_calls st m = Some d" for m d
    using lock_invD(1) [OF inv that] by (simp add: call_ok_def same nxt)
  moreover have "tail_ok (drop_key n st) k" for k
    using lock_invD(2) [OF inv, of k] all by (auto simp: tail_ok_def same chains)
  ultimately show ?thesis by (simp add: lock_inv_def calls)
next
  case False
  with c have "drop_key n st = st" by (simp add: drop_key_def)
  with inv show ?thesis by simp
qed

lemma may_begin_behind:
  assumes inv: "lock_inv st" and "may_begin st n"
  obtains c where "lk_calls st n = Some c" "lc_state c = Waiting"
    "\<forall>m < n. of_key st m (lc_key c) \<longrightarrow> settled_call st m"
proof -
  from assms(2) obtain c where c: "lk_calls st n = Some c" "lc_state c = Waiting"
    and prev: "case lc_prev c of None \<Rightarrow> True | Some p \<Rightarrow> map_option lc_state (lk_calls st p) = Some Settled"
    by (auto simp: may_begin_def split: option.splits)
  have "settled_call st m" if "m < n" "of_key st m (lc_key c)" for m
  proof -
    from lock_invD(1) [OF inv c(1)] that consider "settled_call st m" | p where "lc_prev c = Some p" "m \<le> p"
      unfolding call_ok_def by blast
    then show ?thesis
    proof cases
      case (2 p)
      with prev have sp: "settled_call st p" by (simp add: settled_call_def)
      then obtain d where d: "lk_calls st p = Some d" "lc_state d = Settled" by (auto simp: settled_call_def)
      have "of_key st p (lc_key c)" using lock_invD(1) [OF inv c(1)] 2(1) by (simp add: call_ok_def)
      with d have key: "lc_key d = lc_key c" by (simp add: of_key_def)
      show ?thesis
      proof (cases "m = p")
        case False
        with 2(2) have "m < p" by simp
        with lock_invD(1) [OF inv d(1)] d(2) that(2) key show ?thesis by (simp add: call_ok_def)
      qed (use sp in simp)
    qed
  qed
  with c show thesis by (intro that) auto
qed

lemma lock_step_inv: "lock_step st st' \<Longrightarrow> lock_inv st \<Longrightarrow> lock_inv st'"
proof (induction rule: lock_step.induct)
  case (call st key)
  then show ?case by (rule call_inv)
next
  case (begins st n)
  obtain c where c: "lk_calls st n = Some c" "lc_state c = Waiting"
    and behind: "\<forall>m < n. of_key st m (lc_key c) \<longrightarrow> settled_call st m"
    by (rule may_begin_behind [OF begins.prems begins.hyps])
  from c show ?case
    by (intro set_state_inv [OF begins.prems c(1) behind]) (simp_all add: settled_call_def)
next
  case (settles st n)
  then obtain c where c: "lk_calls st n = Some c" "lc_state c = Running" by auto
  with settles.prems have "\<forall>m < n. of_key st m (lc_key c) \<longrightarrow> settled_call st m"
    using lock_invD(1) [OF settles.prems c(1)] by (simp add: call_ok_def)
  with settles.prems c show ?case using set_state_inv by simp
next
  case (drops st n)
  then show ?case by (auto intro: drop_inv)
qed

lemma lock_reachable_inv: "lock_reachable st \<Longrightarrow> lock_inv st"
proof (induction rule: lock_reachable.induct)
  case init
  then show ?case by (simp add: lock_inv_def tail_ok_def no_calls_def of_key_def)
next
  case (step st st')
  then show ?case by (blast intro: lock_step_inv)
qed

section \<open>Properties\<close>

text \<open>C27: In every state the lock can reach, at most one call of a key runs, and calls of a key have begun in
  the order in which they arrived: all calls before one that has begun have settled.\<close>

theorem lock_excludes_in_order:
  assumes "lock_reachable st" and "lk_calls st m = Some c" and "lk_calls st n = Some d"
    and "lc_key c = lc_key d" and "n < m" and "lc_state c \<noteq> Waiting"
  shows "lc_state d = Settled"
proof -
  from assms(3,4) have "of_key st n (lc_key c)" by (simp add: of_key_def)
  with lock_invD(1) [OF lock_reachable_inv [OF assms(1)] assms(2)] assms(5,6) have "settled_call st n"
    by (simp add: call_ok_def)
  with assms(3) show ?thesis by (simp add: settled_call_def)
qed

text \<open>Two calls on one key: the second begins after the first has settled, and the key is dropped between.\<close>

definition two_calls :: lock_state where
  "two_calls = set_state 1 Running (set_state 0 Settled (set_state 0 Running (runExclusive ''k'' (runExclusive ''k'' no_calls))))"

lemma two_calls_reachable: "lock_reachable two_calls"
proof -
  let ?s = "runExclusive ''k'' (runExclusive ''k'' no_calls)"
  have "lock_reachable (runExclusive ''k'' no_calls)"
    by (rule lock_reachable.step [OF lock_reachable.init lock_step.call])
  then have "lock_reachable ?s" by (rule lock_reachable.step) (rule lock_step.call)
  moreover have "lock_step ?s (set_state 0 Running ?s)" by (rule lock_step.begins) code_simp
  moreover have "lock_step (set_state 0 Running ?s) (set_state 0 Settled (set_state 0 Running ?s))"
    by (rule lock_step.settles) code_simp
  moreover have "lock_step (set_state 0 Settled (set_state 0 Running ?s)) two_calls"
    unfolding two_calls_def by (rule lock_step.begins) code_simp
  ultimately show ?thesis by (blast intro: lock_reachable.step)
qed

theorem lock_excludes_in_order_witness: "map_option lc_state (lk_calls two_calls 0) = Some Settled"
proof -
  have c: "lk_calls two_calls 1 = Some \<lparr>lc_key = ''k'', lc_prev = Some 0, lc_state = Running\<rparr>"
    and d: "lk_calls two_calls 0 = Some \<lparr>lc_key = ''k'', lc_prev = None, lc_state = Settled\<rparr>"
    by code_simp+
  from lock_excludes_in_order [OF two_calls_reachable c d] d show ?thesis by simp
qed

text \<open>The lock never starves a key: while a call of a key waits, either some call of that key is running,
  or one of them may begin at once.\<close>

theorem lock_never_stuck:
  assumes "lock_reachable st" and "lk_calls st n = Some c" and "lc_state c = Waiting"
  shows "\<exists>m d. lk_calls st m = Some d \<and> lc_key d = lc_key c \<and> m \<le> n \<and> (lc_state d = Running \<or> may_begin st m)"
  using assms(2,3)
proof (induction n arbitrary: c rule: less_induct)
  case (less n)
  show ?case
  proof (cases "lc_prev c")
    case None
    with less.prems have "may_begin st n" by (simp add: may_begin_def)
    with less.prems show ?thesis by blast
  next
    case (Some p)
    with lock_invD(1) [OF lock_reachable_inv [OF assms(1)] less.prems(1)]
    have p: "p < n" "of_key st p (lc_key c)" by (simp_all add: call_ok_def)
    then obtain d where d: "lk_calls st p = Some d" "lc_key d = lc_key c" by (auto simp: of_key_def)
    show ?thesis
    proof (cases "lc_state d")
      case Waiting
      with less.IH [OF p(1) d(1)] d(2) p(1) show ?thesis by (metis less_imp_le order_trans)
    next
      case Running
      with d p(1) show ?thesis by (intro exI [of _ p] exI [of _ d]) simp
    next
      case Settled
      with Some d(1) less.prems have "may_begin st n" by (simp add: may_begin_def)
      with less.prems show ?thesis by blast
    qed
  qed
qed

theorem lock_never_stuck_witness:
  "\<exists>m d. lk_calls (runExclusive ''k'' two_calls) m = Some d \<and> lc_key d = ''k'' \<and>
     (lc_state d = Running \<or> may_begin (runExclusive ''k'' two_calls) m)"
proof -
  have r: "lock_reachable (runExclusive ''k'' two_calls)"
    by (rule lock_reachable.step [OF two_calls_reachable lock_step.call])
  have c: "lk_calls (runExclusive ''k'' two_calls) 2 = Some \<lparr>lc_key = ''k'', lc_prev = Some 1, lc_state = Waiting\<rparr>"
    by code_simp
  from lock_never_stuck [OF r c] show ?thesis by auto
qed

end
