(* ===== verification/Template_Engine.thy ===== *)
theory Template_Engine
  imports Prelude "HOL-Library.List_Lexorder" "HOL-Library.Char_ord"
begin

text \<open>
  \<open>src/services/template-engine.ts\<close>: the server-iteration stage of config-file rendering. The regular
  expressions of the source are written out as scanners over the remaining text: the directive
  expression finds the leftmost \<open>{{\<close> that is followed by text without a closing brace and \<open>}}\<close>. A scan
  keeps the text behind the cursor instead of an index into the content.
\<close>

section \<open>Servers and filters\<close>

record template_server =
  ts_id :: ident
  ts_name :: string
  ts_hostname :: string
  ts_publicIp :: "string option"
  ts_tags :: "string list"
  ts_environmentId :: ident

record template_filters =
  tf_tag :: "string option"
  tf_name :: "string option"
  tf_environment :: "string option"

definition no_filters :: template_filters where
  "no_filters = \<lparr>tf_tag = None, tf_name = None, tf_environment = None\<rparr>"

definition valid_fields :: "string list" where
  "valid_fields = [''name'', ''hostname'', ''publicIp'', ''privateIp'', ''id'', ''tags'']"

definition valid_filter_keys :: "string list" where
  "valid_filter_keys = [''tag'', ''name'', ''environment'']"

text \<open>A glob as the items of the regular expression it becomes: \<open>.*\<close>, \<open>.\<close>, or the character, escaped.\<close>

datatype glob_item = AnyChars | AnyChar | Exactly char

definition globToRegExp :: "string \<Rightarrow> glob_item list" where
  "globToRegExp glob = map (\<lambda>ch. if ch = CHR ''*'' then AnyChars else if ch = CHR ''?'' then AnyChar else Exactly ch) glob"

text \<open>The dot of a regular expression matches all but line ends.\<close>

definition line_end :: "char \<Rightarrow> bool" where
  "line_end c \<longleftrightarrow> c = CHR 0x0A \<or> c = CHR 0x0D"

fun glob_test :: "glob_item list \<Rightarrow> string \<Rightarrow> bool" where
  "glob_test [] s = (s = [])"
| "glob_test (Exactly c # r) s = (case s of [] \<Rightarrow> False | x # xs \<Rightarrow> x = c \<and> glob_test r xs)"
| "glob_test (AnyChar # r) s = (case s of [] \<Rightarrow> False | x # xs \<Rightarrow> \<not> line_end x \<and> glob_test r xs)"
| "glob_test (AnyChars # r) [] = glob_test r []"
| "glob_test (AnyChars # r) (x # xs) = (glob_test r (x # xs) \<or> \<not> line_end x \<and> glob_test (AnyChars # r) xs)"

definition renderField :: "template_server \<Rightarrow> string \<Rightarrow> string" where
  "renderField server field =
     (if field = ''name'' then ts_name server
      else if field = ''hostname'' then ts_hostname server
      else if field = ''privateIp'' then ts_hostname server
      else if field = ''publicIp'' then nullish (ts_publicIp server) []
      else if field = ''id'' then ts_id server
      else if field = ''tags'' then join_with '','' (ts_tags server)
      else [])"

definition filterServers :: "template_server list \<Rightarrow> template_filters \<Rightarrow> ident \<Rightarrow> template_server list" where
  "filterServers servers filters currentEnvironmentId =
     (let envId = nullish (tf_environment filters) currentEnvironmentId in
      sort_key ts_name
        (filter (\<lambda>s. ts_environmentId s = envId
            \<and> (truthy (tf_tag filters) \<longrightarrow> the (tf_tag filters) \<in> set (ts_tags s))
            \<and> (truthy (tf_name filters) \<longrightarrow> glob_test (globToRegExp (the (tf_name filters))) (ts_name s)))
          servers))"

text \<open>The \<open>tags\<close> column holds JSON text: unreadable, something that is not an array, or an array whose entries
  are strings or other values.\<close>

datatype tags_json = Unparsable | NotAnArray | TagArray "string option list"

definition parseServerTags :: "tags_json option \<Rightarrow> string list" where
  "parseServerTags raw =
     (case raw of Some (TagArray entries) \<Rightarrow> map the (filter (\<lambda>t. t \<noteq> None) entries) | _ \<Rightarrow> [])"

section \<open>Scanning for directives\<close>

text \<open>\<open>[A-Za-z0-9_]\<close>, and a word boundary before a text that follows a word.\<close>

definition word_char :: "char \<Rightarrow> bool" where
  "word_char c \<longleftrightarrow> c = CHR ''_'' \<or> list_ex (char_in c) [''az'', ''AZ'', ''09'']"

definition word_ends :: "string \<Rightarrow> bool" where
  "word_ends s \<longleftrightarrow> (case s of [] \<Rightarrow> True | c # _ \<Rightarrow> \<not> word_char c)"

definition directive :: "string \<Rightarrow> string" where
  "directive w = ''{{'' @ w @ ''}}''"

text \<open>A match of \<open>{{\s*([^}]+?)\s*}}\<close> at the start: the text between the braces, and what follows.\<close>

definition directive_at :: "string \<Rightarrow> (string \<times> string) option" where
  "directive_at s =
     (if take 2 s = ''{{'' then
        let w = takeWhile (\<lambda>c. c \<noteq> CHR ''}'') (drop 2 s);
            r = dropWhile (\<lambda>c. c \<noteq> CHR ''}'') (drop 2 s)
        in if w \<noteq> [] \<and> take 2 r = ''}}'' then Some (w, drop 2 r) else None
      else None)"

text \<open>\<open>exec\<close> from the cursor: the text before the leftmost match, the match and the rest.\<close>

fun next_directive :: "string \<Rightarrow> (string \<times> string \<times> string) option" where
  "next_directive [] = None"
| "next_directive (c # s) =
     (case directive_at (c # s) of
        Some (w, r) \<Rightarrow> Some ([], w, r)
      | None \<Rightarrow> map_option (\<lambda>(b, w, r). (c # b, w, r)) (next_directive s))"

definition is_range :: "string \<Rightarrow> bool" where
  "is_range t \<longleftrightarrow> take 5 t = ''range'' \<and> word_ends (drop 5 t)"

lemma directive_at_SomeD:
  assumes "directive_at s = Some (w, r)"
  shows "s = directive w @ r" and "w \<noteq> []" and "\<forall>c \<in> set w. c \<noteq> CHR ''}''"
proof -
  let ?w = "takeWhile (\<lambda>c. c \<noteq> CHR ''}'') (drop 2 s)" and ?r = "dropWhile (\<lambda>c. c \<noteq> CHR ''}'') (drop 2 s)"
  from assms have two: "take 2 s = ''{{''" "take 2 ?r = ''}}''" and w: "w = ?w" "?w \<noteq> []" and r: "r = drop 2 ?r"
    by (auto simp: directive_at_def Let_def split: if_splits)
  have "s = ''{{'' @ drop 2 s" using two(1) append_take_drop_id [of 2 s] by simp
  also have "drop 2 s = ?w @ ?r" by simp
  also have "?r = ''}}'' @ r" using two(2) append_take_drop_id [of 2 ?r] r by simp
  finally show "s = directive w @ r" by (simp add: directive_def w)
  show "w \<noteq> []" using w by simp
  show "\<forall>c \<in> set w. c \<noteq> CHR ''}''" using w(1) by (auto dest: set_takeWhileD)
qed

lemma next_directive_SomeD:
  "next_directive s = Some (b, w, r) \<Longrightarrow> s = b @ directive w @ r"
proof (induction s arbitrary: b w r)
  case (Cons c s)
  then show ?case
    by (auto split: option.splits dest: directive_at_SomeD(1))
qed simp

lemma length_next_directive [termination_simp]:
  "next_directive s = Some (b, w, r) \<Longrightarrow> length r < length s"
  by (drule next_directive_SomeD) (simp add: directive_def)

section \<open>Blocks\<close>

text \<open>The forward scan of a range: a nested range comes first, the block ends (body, rest), or the text does.\<close>

datatype block_scan = Nested | EndAt string string | NoEnd

function scan_end :: "string \<Rightarrow> string \<Rightarrow> block_scan" where
  "scan_end body s =
     (case next_directive s of
        None \<Rightarrow> NoEnd
      | Some (b, w, r) \<Rightarrow>
          if is_range (js_trim w) then Nested
          else if js_trim w = ''end'' then EndAt (body @ b) r
          else scan_end (body @ b @ directive w) r)"
  by pat_completeness auto
termination by (relation "measure (\<lambda>(_, s). length s)") (auto simp: length_next_directive)

declare scan_end.simps [simp del]

text \<open>The rest behind the end of a block that holds nested ranges.\<close>

function skip_block :: "nat \<Rightarrow> string \<Rightarrow> string option" where
  "skip_block depth s =
     (case next_directive s of
        None \<Rightarrow> None
      | Some (b, w, r) \<Rightarrow>
          if is_range (js_trim w) then skip_block (depth + 1) r
          else if js_trim w = ''end'' then (if depth - 1 = 0 then Some r else skip_block (depth - 1) r)
          else skip_block depth r)"
  by pat_completeness auto
termination by (relation "measure (\<lambda>(_, s). length s)") (auto simp: length_next_directive)

declare skip_block.simps [simp del]

lemma length_scan_end: "scan_end body s = EndAt b r \<Longrightarrow> length r < length s"
proof (induction body s rule: scan_end.induct)
  case (1 body s)
  show ?case
  proof (cases "next_directive s")
    case None
    with 1(2) show ?thesis by (simp add: scan_end.simps [of body s])
  next
    case (Some x)
    obtain b' w r' where x: "x = (b', w, r')" by (cases x) auto
    have less: "length r' < length s" using Some x by (simp add: length_next_directive)
    show ?thesis
    proof (cases "is_range (js_trim w) \<or> js_trim w = ''end''")
      case True
      with 1(2) Some x less show ?thesis by (auto simp: scan_end.simps [of body s] split: if_splits)
    next
      case False
      with 1(2) Some x have "scan_end (body @ b' @ directive w) r' = EndAt b r"
        by (simp add: scan_end.simps [of body s])
      moreover have "scan_end (body @ b' @ directive w) r' = EndAt b r \<Longrightarrow> length r < length r'"
        using 1(1) [OF Some x [symmetric] refl] False by blast
      ultimately show ?thesis using less by simp
    qed
  qed
qed

lemma length_skip_block: "skip_block d s = Some r \<Longrightarrow> length r < length s"
proof (induction d s rule: skip_block.induct)
  case (1 d s)
  show ?case
  proof (cases "next_directive s")
    case None
    with 1(4) show ?thesis by (simp add: skip_block.simps [of d s])
  next
    case (Some x)
    obtain b' w r' where x: "x = (b', w, r')" by (cases x) auto
    have less: "length r' < length s" using Some x by (simp add: length_next_directive)
    with 1 Some x show ?thesis
      by (fastforce simp: skip_block.simps [of d s] split: if_splits)
  qed
qed

section \<open>Rendering\<close>

datatype piece = Literal string | Range string string

text \<open>The pieces of a content and the errors found: \<open>lit\<close> is the text from the cursor up to the scan.\<close>

function pieces_of :: "string \<Rightarrow> string \<Rightarrow> piece list \<times> string list" where
  "pieces_of lit s =
     (case next_directive s of
        None \<Rightarrow> ([Literal (lit @ s)], [])
      | Some (b, w, r) \<Rightarrow>
          let inner = js_trim w in
          if \<not> is_range inner \<and> inner \<noteq> ''end'' then pieces_of (lit @ b @ directive w) r
          else if inner = ''end'' then
            (case pieces_of (lit @ b @ directive w) r of
               (ps, es) \<Rightarrow> (ps, ''Unexpected {{end}} with no matching {{range}}'' # es))
          else
            (case scan_end [] r of
               Nested \<Rightarrow>
                 (case pieces_of [] (case skip_block 1 r of Some r' \<Rightarrow> r' | None \<Rightarrow> []) of
                    (ps, es) \<Rightarrow> (Literal (lit @ b) # ps, ''Nested {{range}} blocks are not supported'' # es))
             | NoEnd \<Rightarrow> ([Literal (lit @ s)], [''Unclosed {{range}} block''])
             | EndAt body r' \<Rightarrow>
                 (case pieces_of [] r' of (ps, es) \<Rightarrow> (Literal (lit @ b) # Range inner body # ps, es))))"
  by pat_completeness auto
termination
proof (relation "measure (\<lambda>(_, s). length s)", goal_cases)
  case (4 lit s x b y w r inner)
  then show ?case
    by (auto simp: length_next_directive split: option.split dest!: length_skip_block
        intro: less_trans le_less_trans)
next
  case (5 lit s x b y w r inner body r')
  then have "length r' < length r" "length r < length s"
    by (auto simp: length_next_directive dest: length_scan_end)
  then show ?case by simp
qed (auto simp: length_next_directive)

declare pieces_of.simps [simp del]

text \<open>The characters of a filter value up to the closing quote, escapes kept; and the value without escapes.\<close>

fun quoted_value :: "string \<Rightarrow> (string \<times> string) option" where
  "quoted_value [] = None"
| "quoted_value [c] = (if c = CHR 0x22 then Some ([], []) else None)"
| "quoted_value (c # d # s) =
     (if c = CHR 0x22 then Some ([], d # s)
      else if c = CHR 0x5C then
        (if line_end d then None else map_option (\<lambda>(v, r). (c # d # v, r)) (quoted_value s))
      else map_option (\<lambda>(v, r). (c # v, r)) (quoted_value (d # s)))"

fun unescape_value :: "string \<Rightarrow> string" where
  "unescape_value [] = []"
| "unescape_value [c] = [c]"
| "unescape_value (c # d # s) =
     (if c = CHR 0x5C \<and> \<not> line_end d then d # unescape_value s else c # unescape_value (d # s))"

text \<open>A match of \<open>(\w+)\s*=\s*"((?:[^"\\]|\\.)*)"\s*\<close> at the start: key, raw value and the rest.\<close>

definition filter_at :: "string \<Rightarrow> (string \<times> string \<times> string) option" where
  "filter_at s =
     (let key = takeWhile word_char s;
          r1 = dropWhile js_space (dropWhile word_char s);
          r2 = dropWhile js_space (drop 1 r1)
      in if key \<noteq> [] \<and> take 1 r1 = ''='' \<and> take 1 r2 = [CHR 0x22]
         then map_option (\<lambda>(v, r). (key, v, dropWhile js_space r)) (quoted_value (drop 1 r2))
         else None)"

lemma length_quoted_value: "quoted_value s = Some (v, r) \<Longrightarrow> length r < length s"
proof (induction s arbitrary: v r rule: quoted_value.induct)
  case (3 c d s)
  show ?case
  proof (cases "c = CHR 0x22 \<or> c = CHR 0x5C")
    case True
    with 3 show ?thesis by (fastforce split: if_splits)
  next
    case False
    with 3(3) obtain v' where "quoted_value (d # s) = Some (v', r)" by auto
    with 3(2) False have "length r < length (d # s)" by blast
    then show ?thesis by simp
  qed
qed (auto split: if_splits)

lemma length_filter_at: "filter_at s = Some (k, v, r) \<Longrightarrow> length r < length s"
proof -
  assume "filter_at s = Some (k, v, r)"
  then obtain r' where q: "quoted_value (drop 1 (dropWhile js_space (drop 1 (dropWhile js_space (dropWhile word_char s)))))
      = Some (v, r')" and r: "r = dropWhile js_space r'"
    by (auto simp: filter_at_def Let_def split: if_splits)
  have "length r \<le> length r'" unfolding r by (rule length_dropWhile_le)
  also have "\<dots> < length (drop 1 (dropWhile js_space (drop 1 (dropWhile js_space (dropWhile word_char s)))))"
    by (rule length_quoted_value [OF q])
  also have "\<dots> \<le> length (dropWhile js_space (drop 1 (dropWhile js_space (dropWhile word_char s))))" by simp
  also have "\<dots> \<le> length (drop 1 (dropWhile js_space (dropWhile word_char s)))" by (rule length_dropWhile_le)
  also have "\<dots> \<le> length (dropWhile js_space (dropWhile word_char s))" by simp
  also have "\<dots> \<le> length s" by (meson length_dropWhile_le order_trans)
  finally show ?thesis .
qed

definition set_filter :: "string \<Rightarrow> string \<Rightarrow> template_filters \<Rightarrow> template_filters" where
  "set_filter key v f =
     (if key = ''tag'' then f\<lparr>tf_tag := Some v\<rparr>
      else if key = ''name'' then f\<lparr>tf_name := Some v\<rparr>
      else f\<lparr>tf_environment := Some v\<rparr>)"

text \<open>The sticky loop over the filters: the filters read and the text that is left over, or an error.\<close>

function read_filters :: "string \<Rightarrow> template_filters \<Rightarrow> string + (template_filters \<times> string)" where
  "read_filters s filters =
     (case filter_at s of
        None \<Rightarrow> Inr (filters, s)
      | Some (key, rawValue, r) \<Rightarrow>
          if key \<notin> set valid_filter_keys
          then Inl (''Unknown filter '' @ quoted key @ '' in range directive'')
          else read_filters r (set_filter key (unescape_value rawValue) filters))"
  by pat_completeness auto
termination by (relation "measure (\<lambda>(s, _). length s)") (auto dest: length_filter_at)

declare read_filters.simps [simp del]

text \<open>A match of \<open>^range\s+servers\b\s*(.*)$\<close>: the text behind the two words.\<close>

definition range_args :: "string \<Rightarrow> string option" where
  "range_args trimmed =
     (let a = drop 5 trimmed; b = dropWhile js_space a; c = drop 7 b; args = dropWhile js_space c in
      if take 5 trimmed = ''range'' \<and> length b < length a \<and> take 7 b = ''servers'' \<and> word_ends c
         \<and> \<not> list_ex line_end args
      then Some args else None)"

definition parseRangeHead :: "string \<Rightarrow> string + template_filters" where
  "parseRangeHead head =
     (case range_args (js_trim head) of
        None \<Rightarrow> Inl (''Invalid range directive: '' @ quoted (js_trim head))
      | Some rest \<Rightarrow>
          let argsPart = js_trim rest in
          if argsPart = [] then Inr no_filters
          else (case read_filters argsPart no_filters of
                  Inl e \<Rightarrow> Inl e
                | Inr (filters, left) \<Rightarrow>
                    if js_trim left \<noteq> []
                    then Inl (''Malformed filters in range directive: '' @ quoted argsPart)
                    else Inr filters))"

text \<open>A match of \<open>{{\s*\.([A-Za-z_][A-Za-z0-9_]*)\s*}}\<close> at the start: the field and the rest.\<close>

definition field_at :: "string \<Rightarrow> (string \<times> string) option" where
  "field_at s =
     (let a = dropWhile js_space (drop 2 s); field = takeWhile word_char (drop 1 a);
          r = dropWhile js_space (dropWhile word_char (drop 1 a))
      in if take 2 s = ''{{'' \<and> take 1 a = ''.'' \<and> field \<noteq> []
            \<and> \<not> (CHR ''0'' \<le> hd field \<and> hd field \<le> CHR ''9'') \<and> take 2 r = ''}}''
         then Some (field, drop 2 r) else None)"

lemma length_field_at: "field_at s = Some (f, r) \<Longrightarrow> length r < length s"
proof -
  assume "field_at s = Some (f, r)"
  then have two: "take 2 s = ''{{''"
    and r: "r = drop 2 (dropWhile js_space (dropWhile word_char (drop 1 (dropWhile js_space (drop 2 s)))))"
    by (auto simp: field_at_def Let_def split: if_splits)
  have "length r \<le> length (dropWhile js_space (dropWhile word_char (drop 1 (dropWhile js_space (drop 2 s)))))"
    by (simp add: r)
  also have "\<dots> \<le> length (drop 1 (dropWhile js_space (drop 2 s)))" by (meson length_dropWhile_le order_trans)
  also have "\<dots> \<le> length (dropWhile js_space (drop 2 s))" by simp
  also have "\<dots> \<le> length (drop 2 s)" by (rule length_dropWhile_le)
  also have "\<dots> < length s" using two by (cases s) auto
  finally show ?thesis .
qed

function renderBody :: "string \<Rightarrow> template_server \<Rightarrow> string \<times> string list" where
  "renderBody [] server = ([], [])"
| "renderBody (c # s) server =
     (case field_at (c # s) of
        None \<Rightarrow> (case renderBody s server of (t, es) \<Rightarrow> (c # t, es))
      | Some (field, r) \<Rightarrow>
          (case renderBody r server of
             (t, es) \<Rightarrow>
               if field \<notin> set valid_fields
               then (t, (''Unknown field '' @ quoted (''.'' @ field) @ '' in range body'') # es)
               else (renderField server field @ t, es)))"
  by pat_completeness auto
termination
proof (relation "measure (\<lambda>(s, _). length s)", goal_cases)
  case (3 c s server x field r)
  then show ?case using length_field_at [of "c # s" field r] by simp
qed auto

fun render_servers :: "string \<Rightarrow> template_server list \<Rightarrow> string \<times> string list" where
  "render_servers body [] = ([], [])"
| "render_servers body (server # servers) =
     (case renderBody body server of (t, es) \<Rightarrow> case render_servers body servers of (t', es') \<Rightarrow> (t @ t', es @ es'))"

definition render_piece :: "(template_filters \<Rightarrow> string + template_server list) \<Rightarrow> piece \<Rightarrow> string \<times> string list" where
  "render_piece listServers p =
     (case p of
        Literal text \<Rightarrow> (text, [])
      | Range head body \<Rightarrow>
          (case parseRangeHead head of
             Inl e \<Rightarrow> ([], [e])
           | Inr filters \<Rightarrow>
               (case listServers filters of
                  Inl msg \<Rightarrow> ([], [''Server iteration failed: '' @ msg])
                | Inr servers \<Rightarrow> render_servers body servers)))"

definition renderTemplate :: "(template_filters \<Rightarrow> string + template_server list) \<Rightarrow> string \<Rightarrow> string \<times> string list" where
  "renderTemplate listServers content =
     (case pieces_of [] content of
        (ps, errors) \<Rightarrow>
          (concat (map (fst \<circ> render_piece listServers) ps),
           errors @ concat (map (snd \<circ> render_piece listServers) ps)))"

section \<open>Text without blocks\<close>

text \<open>No directive anywhere in a text opens or closes a block.\<close>

definition block_free :: "string \<Rightarrow> bool" where
  "block_free s \<longleftrightarrow> (\<forall>b w r. s = b @ directive w @ r \<longrightarrow> CHR ''}'' \<notin> set w \<longrightarrow>
     \<not> is_range (js_trim w) \<and> js_trim w \<noteq> ''end'')"

lemma next_directive_free:
  assumes "next_directive s = Some (b, w, r)"
  shows "CHR ''}'' \<notin> set w"
  using assms
proof (induction s arbitrary: b)
  case (Cons c s)
  then show ?case by (auto split: option.splits dest: directive_at_SomeD(3))
qed simp

lemma pieces_block_free: "block_free s \<Longrightarrow> pieces_of lit s = ([Literal (lit @ s)], [])"
proof (induction "length s" arbitrary: lit s rule: less_induct)
  case less
  show ?case
  proof (cases "next_directive s")
    case None
    then show ?thesis by (simp add: pieces_of.simps [of lit s])
  next
    case (Some x)
    obtain b w r where x: "x = (b, w, r)" by (cases x) auto
    note at = next_directive_SomeD [OF Some [unfolded x]]
    with next_directive_free [OF Some [unfolded x]] less.prems
    have plain: "\<not> is_range (js_trim w)" "js_trim w \<noteq> ''end''" by (auto simp: block_free_def)
    have "block_free r"
      unfolding block_free_def
    proof (intro allI impI)
      fix b' w' r' assume "r = b' @ directive w' @ r'" "CHR ''}'' \<notin> set w'"
      with at less.prems show "\<not> is_range (js_trim w') \<and> js_trim w' \<noteq> ''end''"
        unfolding block_free_def by (metis append.assoc)
    qed
    moreover have "length r < length s" using Some x by (simp add: length_next_directive)
    ultimately have "pieces_of (lit @ b @ directive w) r = ([Literal ((lit @ b @ directive w) @ r)], [])"
      using less.hyps by blast
    moreover have "pieces_of lit s = pieces_of (lit @ b @ directive w) r"
      using Some x plain by (simp add: pieces_of.simps [of lit s] Let_def)
    ultimately show ?thesis using at by simp
  qed
qed

text \<open>A content without range blocks passes through the template engine unchanged and without errors,
  whatever other text in braces it holds and whatever a server lookup would return.\<close>

theorem template_passthrough:
  assumes "block_free content"
  shows "renderTemplate listServers content = (content, [])"
  using pieces_block_free [OF assms, of "[]"] by (simp add: renderTemplate_def render_piece_def)

lemma brace_free_block_free: "CHR ''{'' \<notin> set s \<Longrightarrow> block_free s"
  by (auto simp: block_free_def directive_def)

theorem template_passthrough_witness:
  "renderTemplate (\<lambda>_. Inl ''no servers'') ''PORT=80'' = (''PORT=80'', [])"
  by (rule template_passthrough) (rule brace_free_block_free, simp)

section \<open>A block is expanded for every server\<close>

text \<open>Specification: a body as text and field references, and what it renders to for a server.\<close>

datatype body_item = Text string | Field string

fun item_text :: "body_item \<Rightarrow> string" where
  "item_text (Text t) = t"
| "item_text (Field f) = directive (CHR ''.'' # f)"

fun item_for :: "template_server \<Rightarrow> body_item \<Rightarrow> string" where
  "item_for server (Text t) = t"
| "item_for server (Field f) = renderField server f"

fun item_ok :: "body_item \<Rightarrow> bool" where
  "item_ok (Text t) \<longleftrightarrow> CHR ''{'' \<notin> set t"
| "item_ok (Field f) \<longleftrightarrow> f \<in> set valid_fields"

lemma directive_at_directive:
  assumes "w \<noteq> []" and "CHR ''}'' \<notin> set w"
  shows "directive_at (directive w @ r) = Some (w, r)"
proof -
  have none: "\<forall>x \<in> set w. x \<noteq> CHR ''}''" using assms(2) by blast
  have t: "takeWhile (\<lambda>c. c \<noteq> CHR ''}'') (w @ ''}}'' @ r) = w"
    and d: "dropWhile (\<lambda>c. c \<noteq> CHR ''}'') (w @ ''}}'' @ r) = ''}}'' @ r"
    using none by (simp_all add: takeWhile_append2 dropWhile_append2)
  have two: "take 2 (directive w @ r) = ''{{''" "drop 2 (directive w @ r) = w @ ''}}'' @ r"
    by (simp_all add: directive_def)
  show ?thesis unfolding directive_at_def two t d Let_def using assms(1) by simp
qed

lemma next_directive_skip:
  assumes "CHR ''{'' \<notin> set pre" and "w \<noteq> []" and "CHR ''}'' \<notin> set w"
  shows "next_directive (pre @ directive w @ r) = Some (pre, w, r)"
  using assms(1)
proof (induction pre)
  case Nil
  obtain c s where cs: "directive w @ r = c # s" by (simp add: directive_def)
  show ?case using directive_at_directive [OF assms(2,3), of r] by (simp add: cs)
next
  case (Cons c pre)
  then have "directive_at (c # pre @ directive w @ r) = None" by (auto simp: directive_at_def)
  with Cons show ?case by simp
qed

lemma valid_field_chars:
  "f \<in> set valid_fields \<Longrightarrow> f \<noteq> [] \<and> (\<forall>c \<in> set f. word_char c) \<and> \<not> (CHR ''0'' \<le> hd f \<and> hd f \<le> CHR ''9'')
     \<and> CHR ''}'' \<notin> set f \<and> js_trim (CHR ''.'' # f) = CHR ''.'' # f"
  by (auto simp: valid_fields_def word_char_def js_trim_def js_trimEnd_def js_space_def char_in_def less_eq_char_def)

lemma field_at_field:
  assumes "f \<in> set valid_fields"
  shows "field_at (directive (CHR ''.'' # f) @ r) = Some (f, r)"
proof -
  have ok: "f \<noteq> []" "\<forall>c \<in> set f. word_char c" "\<not> (CHR ''0'' \<le> hd f \<and> hd f \<le> CHR ''9'')"
    using valid_field_chars [OF assms] by auto
  have brace: "\<not> word_char CHR ''}''" by (simp add: word_char_def char_in_def less_eq_char_def)
  have t: "takeWhile word_char (f @ ''}}'' @ r) = f" and d: "dropWhile word_char (f @ ''}}'' @ r) = ''}}'' @ r"
    using ok(2) brace by (simp_all add: takeWhile_append2 dropWhile_append2)
  have a: "dropWhile js_space (drop 2 (directive (CHR ''.'' # f) @ r)) = CHR ''.'' # f @ ''}}'' @ r"
    by (simp add: directive_def js_space_def)
  have e: "dropWhile js_space (''}}'' @ r) = ''}}'' @ r" by (simp add: js_space_def)
  have two: "take 2 (directive (CHR ''.'' # f) @ r) = ''{{''" by (simp add: directive_def)
  show ?thesis
    unfolding field_at_def a Let_def two using ok(1,3) t d e by simp
qed

lemma renderBody_text:
  "CHR ''{'' \<notin> set t \<Longrightarrow> renderBody (t @ s) server = (case renderBody s server of (u, es) \<Rightarrow> (t @ u, es))"
proof (induction t)
  case (Cons c t)
  then have "field_at (c # t @ s) = None" by (auto simp: field_at_def Let_def)
  with Cons show ?case by (auto split: prod.splits)
qed (simp split: prod.splits)

lemma renderBody_field:
  assumes "f \<in> set valid_fields"
  shows "renderBody (directive (CHR ''.'' # f) @ s) server =
    (case renderBody s server of (u, es) \<Rightarrow> (renderField server f @ u, es))"
proof -
  obtain c cs where c: "directive (CHR ''.'' # f) @ s = c # cs" by (simp add: directive_def)
  show ?thesis
    using field_at_field [OF assms, of s] assms by (simp add: c split: prod.splits)
qed

lemma renderBody_items:
  "\<forall>i \<in> set items. item_ok i \<Longrightarrow>
     renderBody (concat (map item_text items)) server = (concat (map (item_for server) items), [])"
proof (induction items)
  case (Cons i items)
  then show ?case by (cases i) (simp_all add: renderBody_text renderBody_field)
qed simp

lemma render_servers_items:
  "\<forall>i \<in> set items. item_ok i \<Longrightarrow>
     render_servers (concat (map item_text items)) servers =
       (concat (map (\<lambda>server. concat (map (item_for server) items)) servers), [])"
  by (induction servers) (simp_all add: renderBody_items)

lemma field_no_block:
  assumes "f \<in> set valid_fields"
  shows "\<not> is_range (js_trim (CHR ''.'' # f))" and "js_trim (CHR ''.'' # f) \<noteq> ''end''"
  using valid_field_chars [OF assms] by (simp_all add: is_range_def)

lemma scan_end_items:
  assumes "\<forall>i \<in> set items. item_ok i" and "js_trim fin = ''end''" and "CHR ''}'' \<notin> set fin"
    and "CHR ''{'' \<notin> set t"
  shows "scan_end acc (t @ concat (map item_text items) @ directive fin @ post) =
    EndAt (acc @ t @ concat (map item_text items)) post"
  using assms(1,4)
proof (induction items arbitrary: acc t)
  case Nil
  have "fin \<noteq> []" using assms(2) by (auto simp: js_trim_def js_trimEnd_def)
  then have "next_directive (t @ directive fin @ post) = Some (t, fin, post)"
    using Nil.prems assms(3) by (intro next_directive_skip)
  then show ?case using assms(2) by (simp add: scan_end.simps [of _ "t @ directive fin @ post"] is_range_def)
next
  case (Cons i items)
  show ?case
  proof (cases i)
    case (Text u)
    with Cons.prems Cons.IH [of "t @ u" acc] show ?thesis by simp
  next
    case (Field f)
    with Cons.prems have f: "f \<in> set valid_fields" by simp
    let ?r = "concat (map item_text items) @ directive fin @ post"
    have "next_directive (t @ directive (CHR ''.'' # f) @ ?r) = Some (t, CHR ''.'' # f, ?r)"
      using Cons.prems valid_field_chars [OF f] by (intro next_directive_skip) auto
    then have "scan_end acc (t @ directive (CHR ''.'' # f) @ ?r) = scan_end (acc @ t @ directive (CHR ''.'' # f)) ?r"
      using field_no_block [OF f] by (simp add: scan_end.simps [of acc])
    with Field Cons.prems Cons.IH [of "[]" "acc @ t @ directive (CHR ''.'' # f)"] show ?thesis by simp
  qed
qed

text \<open>C24: A range block between plain text and any further content is replaced by its body, once for every
  server that the lookup returns for the filters of the head, in the lookup's order, every field
  reference replaced by the server's attribute; what follows the block is rendered as on its own.\<close>

theorem template_range_expands:
  assumes "CHR ''{'' \<notin> set pre" and "\<forall>i \<in> set items. item_ok i"
    and "is_range (js_trim head)" and "CHR ''}'' \<notin> set head"
    and "js_trim fin = ''end''" and "CHR ''}'' \<notin> set fin"
    and "parseRangeHead (js_trim head) = Inr filters" and "listServers filters = Inr servers"
    and "renderTemplate listServers post = (rest, errors)"
  shows "renderTemplate listServers (pre @ directive head @ concat (map item_text items) @ directive fin @ post) =
    (pre @ concat (map (\<lambda>server. concat (map (item_for server) items)) servers) @ rest, errors)"
proof -
  let ?body = "concat (map item_text items)"
  have "head \<noteq> []" using assms(3) by (auto simp: js_trim_def js_trimEnd_def is_range_def)
  then have nd: "next_directive (pre @ directive head @ ?body @ directive fin @ post) =
      Some (pre, head, ?body @ directive fin @ post)"
    using assms(1,4) by (intro next_directive_skip)
  have "scan_end [] (?body @ directive fin @ post) = EndAt ?body post"
    using scan_end_items [OF assms(2,5,6), of "[]" "[]"] by simp
  moreover have "js_trim head \<noteq> ''end''" using assms(3) by (auto simp: is_range_def)
  moreover obtain ps es where pp: "pieces_of [] post = (ps, es)" by (cases "pieces_of [] post")
  ultimately have "pieces_of [] (pre @ directive head @ ?body @ directive fin @ post) =
      (Literal pre # Range (js_trim head) ?body # ps, es)"
    using nd assms(3) by (simp add: pieces_of.simps [of "[]" "pre @ _"] Let_def)
  with pp assms(7-9) render_servers_items [OF assms(2), of servers] show ?thesis
    by (simp add: renderTemplate_def render_piece_def)
qed

definition web_servers :: "template_server list" where
  "web_servers =
     [\<lparr>ts_id = ''1'', ts_name = ''api'', ts_hostname = ''h1'', ts_publicIp = None, ts_tags = [''web''], ts_environmentId = ''e''\<rparr>,
      \<lparr>ts_id = ''2'', ts_name = ''app'', ts_hostname = ''h2'', ts_publicIp = None, ts_tags = [''web''], ts_environmentId = ''e''\<rparr>,
      \<lparr>ts_id = ''3'', ts_name = ''db'', ts_hostname = ''h3'', ts_publicIp = None, ts_tags = [], ts_environmentId = ''e''\<rparr>]"

definition web_head :: string where
  "web_head = ''range servers tag='' @ quoted ''web''"

theorem template_range_expands_witness:
  "renderTemplate (\<lambda>filters. Inr (filterServers web_servers filters ''e''))
     (''up='' @ directive web_head @ directive ''.hostname'' @ '';'' @ directive ''end'' @ ''.'') = (''up=h1;h2;.'', [])"
proof -
  let ?ls = "\<lambda>filters. Inr (filterServers web_servers filters ''e'')"
  have h: "is_range (js_trim web_head)" "CHR ''}'' \<notin> set web_head" by code_simp+
  have p: "parseRangeHead (js_trim web_head) = Inr (no_filters\<lparr>tf_tag := Some ''web''\<rparr>)" by code_simp
  have l: "filterServers web_servers (no_filters\<lparr>tf_tag := Some ''web''\<rparr>) ''e'' = take 2 web_servers" by code_simp
  have r: "renderTemplate ?ls ''.'' = (''.'', [])" by code_simp
  have "renderTemplate ?ls (''up='' @ directive web_head @ concat (map item_text [Field ''hostname'', Text '';''])
      @ directive ''end'' @ ''.'') =
    (''up='' @ concat (map (\<lambda>server. concat (map (item_for server) [Field ''hostname'', Text '';'']))
      (take 2 web_servers)) @ ''.'', [])"
    by (rule template_range_expands [OF _ _ h _ _ p _ r])
       (simp_all add: l valid_fields_def, code_simp)
  then show ?thesis by (simp add: web_servers_def renderField_def)
qed

end
