(* ===== verification/Config_Rendering.thy ===== *)
theory Config_Rendering
  imports Template_Engine Hosts "HOL-Library.AList"
begin

text \<open>
  How the effective content of a config file is made: fragments are concatenated before the file's own
  content (\<open>src/lib/config-fragments.ts\<close>), server blocks are expanded with the servers of the environment
  (\<open>listServersForTemplate\<close> of \<open>src/services/servers.ts\<close>), and \<open>${KEY}\<close> placeholders are replaced by
  variables and secrets (\<open>src/services/secrets.ts\<close>). Decryption of a stored secret is a parameter: it
  rests on the AES-GCM cipher of \<open>node:crypto\<close> and may throw.
\<close>

section \<open>Tables\<close>

record secret_row =
  sc_id :: ident
  sc_key :: string
  sc_encryptedValue :: string
  sc_nonce :: string
  sc_description :: "string option"
  sc_neverReveal :: bool
  sc_environmentId :: ident

record var_row =
  va_key :: string
  va_value :: string
  va_environmentId :: ident

record config_file =
  cf_id :: ident
  cf_name :: string
  cf_content :: string
  cf_isBinary :: bool
  cf_autoResync :: bool
  cf_language :: string
  cf_environmentId :: ident

record fragment_row =
  fg_id :: ident
  fg_name :: string
  fg_content :: string

record include_row =
  in_configFileId :: ident
  in_fragmentId :: ident
  in_position :: int

record service_file =
  sf_id :: ident
  sf_targetPath :: string
  sf_lastSyncedAt :: "millis option"
  sf_serviceId :: ident
  sf_serviceDeploymentId :: "ident option"
  sf_configFileId :: ident

text \<open>The tables beside those of the store: environments by id and name, the template columns of the servers.\<close>

record 'w config_db = "'w store" +
  cd_environments :: "(ident \<times> string) list"
  cd_publicIp :: "(ident \<times> string) list"
  cd_tags :: "(ident \<times> tags_json) list"
  cd_secrets :: "secret_row list"
  cd_secretUsage :: "(ident \<times> string \<times> ident) list"
  cd_varUsage :: "(ident \<times> string \<times> ident) list"
  cd_vars :: "var_row list"
  cd_configFiles :: "config_file list"
  cd_fragments :: "fragment_row list"
  cd_includes :: "include_row list"
  cd_serviceFiles :: "service_file list"

section \<open>Fragments\<close>

definition languageSupportsHashHeaders :: "string option \<Rightarrow> bool" where
  "languageSupportsHashHeaders language =
     (if \<not> truthy language then True
      else js_lower (the language) \<notin> set [''json'', ''xml'', ''html''])"

definition newline :: string where
  "newline = [CHR 0x0A]"

definition composeFragmentedContent :: "(string \<times> string) list \<Rightarrow> string \<Rightarrow> string option \<Rightarrow> string" where
  "composeFragmentedContent fragments ownContent language =
     (if fragments = [] then ownContent
      else
        let useHeaders = languageSupportsHashHeaders language;
            sections = map (\<lambda>(name, content).
                (if useHeaders then ''# === fragment: '' @ name @ '' ==='' @ newline else []) @ content) fragments;
            ownHeader = (if useHeaders then ''# === service-specific ==='' @ newline else [])
        in join_with (newline @ newline) (sections @ [ownHeader @ ownContent]))"

text \<open>The fragments that a config file includes, in ascending position.\<close>

definition included_fragments :: "('w, 'z) config_db_scheme \<Rightarrow> ident \<Rightarrow> (string \<times> string) list" where
  "included_fragments s configFileId =
     List.map_filter (\<lambda>i. map_option (\<lambda>f. (fg_name f, fg_content f))
          (List.find (\<lambda>f. fg_id f = in_fragmentId i) (cd_fragments s)))
       (sort_key in_position (filter (\<lambda>i. in_configFileId i = configFileId) (cd_includes s)))"

definition loadAndComposeConfigFileContent :: "('w, 'z) config_db_scheme \<Rightarrow> config_file \<Rightarrow> string" where
  "loadAndComposeConfigFileContent s configFile =
     (let rows = included_fragments s (cf_id configFile) in
      if rows = [] then cf_content configFile
      else composeFragmentedContent rows (cf_content configFile) (Some (cf_language configFile)))"

section \<open>Servers of a template\<close>

definition template_server_of :: "('w, 'z) config_db_scheme \<Rightarrow> server_row \<Rightarrow> template_server" where
  "template_server_of s r =
     \<lparr>ts_id = srv_id r, ts_name = srv_name r, ts_hostname = srv_hostname r,
      ts_publicIp = map_of (cd_publicIp s) (srv_id r), ts_tags = parseServerTags (map_of (cd_tags s) (srv_id r)),
      ts_environmentId = srv_environmentId r\<rparr>"

definition listServersForTemplate :: "('w, 'z) config_db_scheme \<Rightarrow> ident \<Rightarrow> template_filters \<Rightarrow> template_server list" where
  "listServersForTemplate s currentEnvironmentId filters =
     (let env = (if truthy (tf_environment filters)
                 then map_option fst (List.find (\<lambda>e. fst e = the (tf_environment filters) \<or> snd e = the (tf_environment filters))
                        (cd_environments s))
                 else Some currentEnvironmentId)
      in case env of
           None \<Rightarrow> []
         | Some targetEnvId \<Rightarrow>
             filterServers
               (map (template_server_of s) (filter (\<lambda>r. srv_environmentId r = targetEnvId) (db_servers s)))
               (filters\<lparr>tf_environment := Some targetEnvId\<rparr>) targetEnvId)"

section \<open>Variables and secrets\<close>

text \<open>\<open>result[key] = value\<close> over the rows; a decryption that throws ends the loop.\<close>

fun decrypt_rows :: "(string \<Rightarrow> string \<Rightarrow> string + string) \<Rightarrow> secret_row list \<Rightarrow> (string \<times> string) list
    \<Rightarrow> string + (string \<times> string) list" where
  "decrypt_rows decrypt [] result = Inr result"
| "decrypt_rows decrypt (r # rs) result =
     (case decrypt (sc_encryptedValue r) (sc_nonce r) of
        Inl e \<Rightarrow> Inl e
      | Inr v \<Rightarrow> decrypt_rows decrypt rs (AList.update (sc_key r) v result))"

definition getSecretsForEnv :: "(string \<Rightarrow> string \<Rightarrow> string + string) \<Rightarrow> ('w, 'z) config_db_scheme \<Rightarrow> ident
    \<Rightarrow> string + (string \<times> string) list" where
  "getSecretsForEnv decrypt s environmentId =
     decrypt_rows decrypt (filter (\<lambda>r. sc_environmentId r = environmentId) (cd_secrets s)) []"

definition getVarsForEnv :: "('w, 'z) config_db_scheme \<Rightarrow> ident \<Rightarrow> (string \<times> string) list" where
  "getVarsForEnv s environmentId =
     fold (\<lambda>v result. AList.update (va_key v) (va_value v) result)
       (filter (\<lambda>v. va_environmentId v = environmentId) (cd_vars s)) []"

definition placeholder :: "string \<Rightarrow> string" where
  "placeholder key = ''${'' @ key @ ''}''"

text \<open>\<open>replace(new RegExp(pattern, 'g'), () => value)\<close> for a pattern that matches itself and is not empty.\<close>

function replace_all :: "string \<Rightarrow> string \<Rightarrow> string \<Rightarrow> string" where
  "replace_all p v [] = []"
| "replace_all p v (c # s) =
     (if p \<noteq> [] \<and> take (length p) (c # s) = p then v @ replace_all p v (drop (length p) (c # s))
      else c # replace_all p v s)"
  by pat_completeness auto
termination by (relation "measure (\<lambda>(_, _, s). length s)") auto

text \<open>The matches of \<open>\$\{[A-Z_][A-Z0-9_]*\}\<close>, as their keys.\<close>

definition upper_start :: "char \<Rightarrow> bool" where
  "upper_start c \<longleftrightarrow> CHR ''A'' \<le> c \<and> c \<le> CHR ''Z'' \<or> c = CHR ''_''"

definition upper_char :: "char \<Rightarrow> bool" where
  "upper_char c \<longleftrightarrow> upper_start c \<or> CHR ''0'' \<le> c \<and> c \<le> CHR ''9''"

definition placeholder_at :: "string \<Rightarrow> (string \<times> string) option" where
  "placeholder_at s =
     (let k = takeWhile upper_char (drop 2 s); r = dropWhile upper_char (drop 2 s) in
      if take 2 s = ''${'' \<and> k \<noteq> [] \<and> upper_start (hd k) \<and> take 1 r = ''}''
      then Some (k, drop 1 r) else None)"

function unresolved_keys :: "string \<Rightarrow> string list" where
  "unresolved_keys [] = []"
| "unresolved_keys (c # s) =
     (case placeholder_at (c # s) of None \<Rightarrow> unresolved_keys s | Some (k, r) \<Rightarrow> k # unresolved_keys r)"
  by pat_completeness auto
termination
proof (relation "measure length", goal_cases)
  case (3 c s x k r)
  then have r: "r = drop 1 (dropWhile upper_char (drop 2 (c # s)))" and "take 2 (c # s) = ''${''"
    by (auto simp: placeholder_at_def Let_def split: if_splits)
  then obtain d ds where "s = d # ds" by (cases s) auto
  with r have "length r \<le> length (dropWhile upper_char ds)" by simp
  also have "\<dots> \<le> length ds" by (rule length_dropWhile_le)
  finally show ?case using \<open>s = d # ds\<close> by simp
qed auto

text \<open>\<open>[...new Set(xs)]\<close>: the first occurrence of every element stays.\<close>

definition js_unique :: "'a list \<Rightarrow> 'a list" where
  "js_unique xs = rev (remdups (rev xs))"

record resolved =
  rs_content :: string
  rs_missing :: "string list"
  rs_templateErrors :: "string list"

definition resolveSecretPlaceholders :: "(string \<Rightarrow> string \<Rightarrow> string + string) \<Rightarrow> ('w, 'z) config_db_scheme \<Rightarrow> ident
    \<Rightarrow> string \<Rightarrow> string + resolved" where
  "resolveSecretPlaceholders decrypt s environmentId content =
     (case renderTemplate (\<lambda>filters. Inr (listServersForTemplate s environmentId filters)) content of
        (templateContent, templateErrors) \<Rightarrow>
          (case getSecretsForEnv decrypt s environmentId of
             Inl e \<Rightarrow> Inl e
           | Inr secrets \<Rightarrow>
               let vars = getVarsForEnv s environmentId;
                   c1 = fold (\<lambda>(key, v) c. replace_all (placeholder key) v c) vars templateContent;
                   c2 = fold (\<lambda>(key, v) c. replace_all (placeholder key) v c) secrets c1
               in Inr \<lparr>rs_content = c2, rs_missing = js_unique (unresolved_keys c2),
                       rs_templateErrors = templateErrors\<rparr>))"

section \<open>Placeholders are replaced\<close>

text \<open>
  Specification: a content as text and references to keys, and what a reference stands for: the value of
  the first table that has the key.
\<close>

datatype ref_item = Plain string | Ref string

definition good_key :: "string \<Rightarrow> bool" where
  "good_key k \<longleftrightarrow> k \<noteq> [] \<and> upper_start (hd k) \<and> (\<forall>c \<in> set k. upper_char c)"

fun ref_text :: "ref_item \<Rightarrow> string" where
  "ref_text (Plain t) = t"
| "ref_text (Ref k) = placeholder k"

fun ref_ok :: "ref_item \<Rightarrow> bool" where
  "ref_ok (Plain t) \<longleftrightarrow> CHR ''$'' \<notin> set t"
| "ref_ok (Ref k) \<longleftrightarrow> good_key k"

fun ref_value :: "(string \<rightharpoonup> string) \<Rightarrow> ref_item \<Rightarrow> string" where
  "ref_value \<sigma> (Plain t) = t"
| "ref_value \<sigma> (Ref k) = (case \<sigma> k of Some v \<Rightarrow> v | None \<Rightarrow> placeholder k)"

definition dollar_free :: "(string \<rightharpoonup> string) \<Rightarrow> bool" where
  "dollar_free \<sigma> \<longleftrightarrow> (\<forall>v \<in> ran \<sigma>. CHR ''$'' \<notin> set v)"

lemma good_key_chars: "good_key k \<Longrightarrow> CHR ''}'' \<notin> set k \<and> CHR ''$'' \<notin> set k"
  by (auto simp: good_key_def upper_char_def upper_start_def less_eq_char_def)

lemma replace_all_text: "CHR ''$'' \<notin> set t \<Longrightarrow> replace_all (placeholder k) v (t @ s) = t @ replace_all (placeholder k) v s"
  by (induction t) (auto simp: placeholder_def)

lemma replace_all_text_end: "CHR ''$'' \<notin> set t \<Longrightarrow> replace_all (placeholder k) v t = t"
  using replace_all_text [of t k v "[]"] by simp

lemma replace_all_same: "replace_all (placeholder k) v (placeholder k @ s) = v @ replace_all (placeholder k) v s"
proof -
  obtain cs where p: "placeholder k = CHR ''$'' # cs" by (simp add: placeholder_def)
  show ?thesis by (simp add: p)
qed

lemma replace_all_other:
  assumes "good_key k" and "good_key k'" and "k \<noteq> k'"
  shows "replace_all (placeholder k) v (placeholder k' @ s) = placeholder k' @ replace_all (placeholder k) v s"
proof -
  have sep: "xs = ys" if "xs @ CHR ''}'' # s1 = ys @ CHR ''}'' # s2" "CHR ''}'' \<notin> set xs" "CHR ''}'' \<notin> set ys"
    for xs ys s1 s2 :: string
    using that by (induction xs arbitrary: ys) (auto simp: Cons_eq_append_conv append_eq_Cons_conv)
  have "take (length (placeholder k)) (placeholder k' @ s) \<noteq> placeholder k"
  proof
    assume "take (length (placeholder k)) (placeholder k' @ s) = placeholder k"
    then have "placeholder k' @ s = placeholder k @ drop (length (placeholder k)) (placeholder k' @ s)"
      by (metis append_take_drop_id)
    then have "k' @ CHR ''}'' # s = k @ CHR ''}'' # drop (length (placeholder k)) (placeholder k' @ s)"
      by (simp add: placeholder_def)
    then have "k' = k" by (rule sep) (use assms(1,2) good_key_chars in auto)
    with assms(3) show False by simp
  qed
  then have "replace_all (placeholder k) v (placeholder k' @ s) =
      CHR ''$'' # replace_all (placeholder k) v ((''{'' @ k' @ ''}'') @ s)"
    by (simp add: placeholder_def)
  also have "replace_all (placeholder k) v ((''{'' @ k' @ ''}'') @ s) = (''{'' @ k' @ ''}'') @ replace_all (placeholder k) v s"
    by (rule replace_all_text) (use good_key_chars [OF assms(2)] in auto)
  finally show ?thesis by (simp add: placeholder_def)
qed

lemma replace_all_items:
  assumes "good_key k" and "dollar_free \<sigma>" and "\<forall>i \<in> set items. ref_ok i"
  shows "replace_all (placeholder k) v (concat (map (ref_value \<sigma>) items)) =
    concat (map (ref_value ([k \<mapsto> v] ++ \<sigma>)) items)"
  using assms(3)
proof (induction items)
  case (Cons i items)
  show ?case
  proof (cases i)
    case (Plain t)
    with Cons show ?thesis by (simp add: replace_all_text)
  next
    case (Ref k')
    show ?thesis
    proof (cases "\<sigma> k'")
      case (Some u)
      with assms(2) have "CHR ''$'' \<notin> set u" by (auto simp: dollar_free_def ran_def)
      with Cons Ref Some show ?thesis by (simp add: replace_all_text map_add_def)
    next
      case None
      with Cons Ref show ?thesis
        using assms(1) by (cases "k' = k") (simp_all add: replace_all_same replace_all_other map_add_def)
    qed
  qed
qed simp

lemma dollar_free_add:
  "dollar_free \<sigma> \<Longrightarrow> CHR ''$'' \<notin> set v \<Longrightarrow> dollar_free ([k \<mapsto> v] ++ \<sigma>)"
  by (auto simp: dollar_free_def ran_def map_add_def split: option.splits if_splits)

lemma replace_table:
  assumes "\<forall>(k, v) \<in> set table. good_key k \<and> CHR ''$'' \<notin> set v" and "dollar_free \<sigma>"
    and "\<forall>i \<in> set items. ref_ok i"
  shows "fold (\<lambda>(key, v) c. replace_all (placeholder key) v c) table (concat (map (ref_value \<sigma>) items)) =
    concat (map (ref_value (map_of table ++ \<sigma>)) items) \<and> dollar_free (map_of table ++ \<sigma>)"
  using assms(1,2)
proof (induction table arbitrary: \<sigma>)
  case (Cons kv table)
  obtain k v where kv: "kv = (k, v)" by (cases kv)
  have eq: "map_of ((k, v) # table) ++ \<sigma> = map_of table ++ ([k \<mapsto> v] ++ \<sigma>)"
    by (auto simp: map_add_def fun_eq_iff split: option.splits)
  from Cons.prems kv have ok: "good_key k" "CHR ''$'' \<notin> set v" and rest: "\<forall>(k, v) \<in> set table. good_key k \<and> CHR ''$'' \<notin> set v"
    by auto
  have "replace_all (placeholder k) v (concat (map (ref_value \<sigma>) items)) =
      concat (map (ref_value ([k \<mapsto> v] ++ \<sigma>)) items)"
    by (rule replace_all_items [OF ok(1) Cons.prems(2) assms(3)])
  then show ?case
    using Cons.IH [OF rest dollar_free_add [OF Cons.prems(2) ok(2)]]
    unfolding kv eq by (simp del: map_of.simps fun_upd_apply)
qed simp

lemma placeholder_at_placeholder:
  assumes "good_key k"
  shows "placeholder_at (placeholder k @ s) = Some (k, s)"
proof -
  have "\<not> upper_char CHR ''}''" by (simp add: upper_char_def upper_start_def less_eq_char_def)
  moreover have "drop 2 (placeholder k @ s) = k @ CHR ''}'' # s" by (simp add: placeholder_def)
  ultimately have "takeWhile upper_char (drop 2 (placeholder k @ s)) = k"
    "dropWhile upper_char (drop 2 (placeholder k @ s)) = CHR ''}'' # s"
    using assms by (simp_all add: good_key_def takeWhile_append2 dropWhile_append2)
  moreover have "take 2 (placeholder k @ s) = ''${''" by (simp add: placeholder_def)
  ultimately show ?thesis using assms unfolding placeholder_at_def Let_def by (simp add: good_key_def)
qed

lemma unresolved_text: "CHR ''$'' \<notin> set t \<Longrightarrow> unresolved_keys (t @ s) = unresolved_keys s"
proof (induction t)
  case (Cons c t)
  then have "placeholder_at (c # t @ s) = None" by (auto simp: placeholder_at_def Let_def)
  with Cons show ?case by simp
qed simp

lemma unresolved_ref: "good_key k \<Longrightarrow> unresolved_keys (placeholder k @ s) = k # unresolved_keys s"
proof -
  assume "good_key k"
  obtain c cs where c: "placeholder k @ s = c # cs" by (simp add: placeholder_def)
  show ?thesis using placeholder_at_placeholder [OF \<open>good_key k\<close>, of s] by (simp add: c)
qed

text \<open>The keys that the tables do not have.\<close>

definition unknown_refs :: "(string \<rightharpoonup> string) \<Rightarrow> ref_item list \<Rightarrow> string list" where
  "unknown_refs \<sigma> items = concat (map (\<lambda>i. case i of Plain _ \<Rightarrow> [] | Ref k \<Rightarrow> if \<sigma> k = None then [k] else []) items)"

lemma unresolved_items:
  assumes "dollar_free \<sigma>" and "\<forall>i \<in> set items. ref_ok i"
  shows "unresolved_keys (concat (map (ref_value \<sigma>) items)) = unknown_refs \<sigma> items"
  using assms(2)
proof (induction items)
  case (Cons i items)
  show ?case
  proof (cases i)
    case (Plain t)
    with Cons show ?thesis by (simp add: unresolved_text unknown_refs_def)
  next
    case (Ref k)
    show ?thesis
    proof (cases "\<sigma> k")
      case None
      with Cons Ref show ?thesis by (simp add: unresolved_ref unknown_refs_def)
    next
      case (Some u)
      with assms(1) have "CHR ''$'' \<notin> set u" by (auto simp: dollar_free_def ran_def)
      with Cons Ref Some show ?thesis by (simp add: unresolved_text unknown_refs_def)
    qed
  qed
qed (simp add: unknown_refs_def)

text \<open>The variables are substituted before the secrets, so where a key is both the variable is used.\<close>

lemma placeholders_by_table:
  assumes "block_free (concat (map ref_text items))" and "\<forall>i \<in> set items. ref_ok i"
    and "getSecretsForEnv decrypt s env = Inr secrets"
    and "\<forall>(k, v) \<in> set (getVarsForEnv s env). good_key k \<and> CHR ''$'' \<notin> set v"
    and "\<forall>(k, v) \<in> set secrets. good_key k \<and> CHR ''$'' \<notin> set v"
    and "\<sigma> = map_of secrets ++ map_of (getVarsForEnv s env)"
  shows "resolveSecretPlaceholders decrypt s env (concat (map ref_text items)) =
    Inr \<lparr>rs_content = concat (map (ref_value \<sigma>) items), rs_missing = js_unique (unknown_refs \<sigma> items),
         rs_templateErrors = []\<rparr>"
proof -
  have plain: "ref_text = ref_value Map.empty"
  proof
    fix i show "ref_text i = ref_value Map.empty i" by (cases i) simp_all
  qed
  have "dollar_free Map.empty" by (simp add: dollar_free_def)
  note vars = replace_table [OF assms(4) this assms(2)]
  note secrets = replace_table [OF assms(5) conjunct2 [OF vars] assms(2)]
  have "pieces_of [] (concat (map ref_text items)) = ([Literal (concat (map ref_text items))], [])"
    using pieces_block_free [OF assms(1)] by simp
  then have "renderTemplate ls (concat (map ref_text items)) = (concat (map ref_text items), [])" for ls
    by (simp add: renderTemplate_def render_piece_def)
  with assms(3,6) vars secrets unresolved_items [OF conjunct2 [OF secrets] assms(2)] show ?thesis
    by (simp add: resolveSecretPlaceholders_def Let_def plain)
qed

text \<open>An environment whose variable and secret have the same key; \<open>HOST\<close> is a variable only.\<close>

definition two_tables :: "unit config_db" where
  "two_tables =
     \<lparr>db_world = (), db_ops = [], db_servers = [], db_services = [], db_sds = [], db_images = [], db_digests = [],
      db_imageHistory = [], db_deployments = [], db_artifacts = [], db_autoManageCompose = [], db_defaultLogLines = 0,
      db_events = [], cd_environments = [], cd_publicIp = [], cd_tags = [],
      cd_secrets = [\<lparr>sc_id = ''1'', sc_key = ''PASS'', sc_encryptedValue = ''secret'', sc_nonce = [],
                     sc_description = None, sc_neverReveal = True, sc_environmentId = ''e''\<rparr>],
      cd_secretUsage = [], cd_varUsage = [],
      cd_vars = [\<lparr>va_key = ''PASS'', va_value = ''plain'', va_environmentId = ''e''\<rparr>,
                 \<lparr>va_key = ''HOST'', va_value = ''db'', va_environmentId = ''e''\<rparr>],
      cd_configFiles = [], cd_fragments = [], cd_includes = [], cd_serviceFiles = []\<rparr>"

lemma two_tables_content: "block_free ''h=${HOST} p=${PASS} x=${NONE}''"
proof -
  let ?items = "[Plain ''h='', Ref ''HOST'', Plain '' p='', Ref ''PASS'', Plain '' x='', Ref ''NONE'']"
  have "\<not> (\<exists>b w r. concat (map ref_text ?items) = b @ directive w @ r)"
    by (auto simp: placeholder_def directive_def append_eq_Cons_conv Cons_eq_append_conv)
  then have "block_free (concat (map ref_text ?items))" by (auto simp: block_free_def)
  then show ?thesis by (simp add: placeholder_def)
qed

lemma two_tables_keys: "good_key ''HOST''" "good_key ''PASS''" "good_key ''NONE''" "good_key ''TOKEN''"
  by code_simp+

lemma variable_wins_on_conflict:
  "resolveSecretPlaceholders (\<lambda>c n. Inr c) two_tables ''e'' ''h=${HOST} p=${PASS} x=${NONE}'' =
     Inr \<lparr>rs_content = ''h=db p=plain x=${NONE}'', rs_missing = [''NONE''], rs_templateErrors = []\<rparr>"
proof -
  let ?items = "[Plain ''h='', Ref ''HOST'', Plain '' p='', Ref ''PASS'', Plain '' x='', Ref ''NONE'']"
  have s: "getSecretsForEnv (\<lambda>c n. Inr c) two_tables ''e'' = Inr [(''PASS'', ''secret'')]" by code_simp
  have v: "getVarsForEnv two_tables ''e'' = [(''PASS'', ''plain''), (''HOST'', ''db'')]" by code_simp
  have free: "block_free (concat (map ref_text ?items))"
    using two_tables_content by (simp add: placeholder_def)
  have "resolveSecretPlaceholders (\<lambda>c n. Inr c) two_tables ''e'' (concat (map ref_text ?items)) =
    Inr \<lparr>rs_content = concat (map (ref_value (map_of [(''PASS'', ''secret'')] ++ map_of [(''PASS'', ''plain''), (''HOST'', ''db'')])) ?items),
      rs_missing = js_unique (unknown_refs (map_of [(''PASS'', ''secret'')] ++ map_of [(''PASS'', ''plain''), (''HOST'', ''db'')]) ?items),
      rs_templateErrors = []\<rparr>"
    by (rule placeholders_by_table [OF free _ s]) (simp_all add: v two_tables_keys)
  then show ?thesis
    by (simp add: placeholder_def unknown_refs_def js_unique_def map_add_def)
qed

text \<open>C23: Placeholder resolution is one simultaneous substitution: every reference is replaced by the value that its key
  has as a variable or as a secret of the environment, a reference to a key that is neither stays as it is and its key is
  reported as missing, once, and nothing else of the content changes. This is for content without template blocks whose
  other text has no dollar sign, keys and references of the key syntax, values without a dollar sign, secrets that decrypt,
  and keys that are not both a variable and a secret (\<open>variable_wins_on_conflict\<close> shows what the code does with those).\<close>

theorem placeholders_resolved:
  assumes "block_free (concat (map ref_text items))" and "\<forall>i \<in> set items. ref_ok i"
    and "getSecretsForEnv decrypt s env = Inr secrets"
    and "\<forall>(k, v) \<in> set (getVarsForEnv s env). good_key k \<and> CHR ''$'' \<notin> set v"
    and "\<forall>(k, v) \<in> set secrets. good_key k \<and> CHR ''$'' \<notin> set v"
    and apart: "fst ` set (getVarsForEnv s env) \<inter> fst ` set secrets = {}"
    and \<sigma>: "\<sigma> = map_of (getVarsForEnv s env) ++ map_of secrets"
  shows "resolveSecretPlaceholders decrypt s env (concat (map ref_text items)) =
    Inr \<lparr>rs_content = concat (map (ref_value \<sigma>) items), rs_missing = js_unique (unknown_refs \<sigma> items),
         rs_templateErrors = []\<rparr>"
proof -
  have "map_of (getVarsForEnv s env) ++ map_of secrets = map_of secrets ++ map_of (getVarsForEnv s env)"
    by (rule map_add_comm) (use apart in \<open>simp add: dom_map_of_conv_image_fst\<close>)
  then show ?thesis unfolding \<sigma> by (rule placeholders_by_table [OF assms(1-5)])
qed

text \<open>The same environment, with the secret under a key of its own.\<close>

definition apart_tables :: "unit config_db" where
  "apart_tables = two_tables\<lparr>cd_secrets := [\<lparr>sc_id = ''1'', sc_key = ''TOKEN'', sc_encryptedValue = ''secret'', sc_nonce = [],
     sc_description = None, sc_neverReveal = True, sc_environmentId = ''e''\<rparr>]\<rparr>"

theorem placeholders_resolved_witness:
  "resolveSecretPlaceholders (\<lambda>c n. Inr c) apart_tables ''e'' ''h=${HOST} p=${TOKEN} x=${NONE}'' =
     Inr \<lparr>rs_content = ''h=db p=secret x=${NONE}'', rs_missing = [''NONE''], rs_templateErrors = []\<rparr>"
proof -
  let ?items = "[Plain ''h='', Ref ''HOST'', Plain '' p='', Ref ''TOKEN'', Plain '' x='', Ref ''NONE'']"
  let ?table = "map_of [(''PASS'', ''plain''), (''HOST'', ''db'')] ++ map_of [(''TOKEN'', ''secret'')]"
  have s: "getSecretsForEnv (\<lambda>c n. Inr c) apart_tables ''e'' = Inr [(''TOKEN'', ''secret'')]" by code_simp
  have v: "getVarsForEnv apart_tables ''e'' = [(''PASS'', ''plain''), (''HOST'', ''db'')]" by code_simp
  have free: "block_free (concat (map ref_text ?items))"
  proof -
    have "\<not> (\<exists>b w r. concat (map ref_text ?items) = b @ directive w @ r)"
      by (auto simp: placeholder_def directive_def append_eq_Cons_conv Cons_eq_append_conv)
    then show ?thesis by (auto simp: block_free_def)
  qed
  have "resolveSecretPlaceholders (\<lambda>c n. Inr c) apart_tables ''e'' (concat (map ref_text ?items)) =
    Inr \<lparr>rs_content = concat (map (ref_value ?table) ?items), rs_missing = js_unique (unknown_refs ?table ?items), rs_templateErrors = []\<rparr>"
    by (rule placeholders_resolved [OF free _ s]) (simp_all add: v two_tables_keys)
  then show ?thesis
    by (simp add: placeholder_def unknown_refs_def js_unique_def map_add_def)
qed

end
