(* ===== verification/Key_Usage.thy ===== *)
theory Key_Usage
  imports Config_Rendering
begin

text \<open>
  \<open>src/lib/key-usage-extraction.ts\<close>: which keys a config file refers to, and the join tables of secret
  and variable usage that follow every write of a config file's content. A usage row is the triple of
  environment, key and config file. The branch that retries after a lost insert race has no counterpart:
  between the read and the insert of one call nothing else runs here.
\<close>

section \<open>Extraction\<close>

text \<open>\<open>[A-Z][A-Z0-9_]*\<close> at the start, as long as possible, and the rest.\<close>

definition key_at :: "string \<Rightarrow> (string \<times> string) option" where
  "key_at s =
     (let k = takeWhile upper_char s in
      if k \<noteq> [] \<and> CHR ''A'' \<le> hd k \<and> hd k \<le> CHR ''Z'' then Some (k, dropWhile upper_char s) else None)"

text \<open>A key between an opening and a closing text.\<close>

definition enclosed_key_at :: "string \<Rightarrow> string \<Rightarrow> string \<Rightarrow> (string \<times> string) option" where
  "enclosed_key_at opening closing s =
     (if take (length opening) s = opening then
        (case key_at (drop (length opening) s) of
           Some (k, r) \<Rightarrow> if take (length closing) r = closing then Some (k, drop (length closing) r) else None
         | None \<Rightarrow> None)
      else None)"

text \<open>\<open>matchAll\<close>: the keys of the matches from left to right.\<close>

function match_all :: "(string \<Rightarrow> (string \<times> string) option) \<Rightarrow> string \<Rightarrow> string list" where
  "match_all m [] = []"
| "match_all m (c # s) =
     (case m (c # s) of
        Some (k, r) \<Rightarrow> k # match_all m (if length r \<le> length s then r else s)
      | None \<Rightarrow> match_all m s)"
  by pat_completeness auto
termination by (relation "measure (\<lambda>(_, s). length s)") auto

text \<open>\<open>^KEY=\<close> with the multiline flag.\<close>

fun line_keys :: "bool \<Rightarrow> string \<Rightarrow> string list" where
  "line_keys start [] = []"
| "line_keys start (c # s) =
     (if start then (case enclosed_key_at [] ''='' (c # s) of Some (k, _) \<Rightarrow> [k] | None \<Rightarrow> []) else [])
       @ line_keys (line_end c) s"

definition extractReferencedKeys :: "string \<Rightarrow> string list" where
  "extractReferencedKeys content =
     filter (\<lambda>k. case key_at k of Some (k', r) \<Rightarrow> r = [] | None \<Rightarrow> False)
       (js_unique
         (match_all (enclosed_key_at ''${'' ''}'') content @ match_all (enclosed_key_at ''$'' []) content
          @ match_all (enclosed_key_at ''{{'' ''}}'') content @ line_keys True content))"

definition buildScanContent :: "string list \<Rightarrow> string \<Rightarrow> string" where
  "buildScanContent fragments content =
     (let fragmentContent = join_with newline fragments in
      if fragmentContent = [] then content else fragmentContent @ newline @ content)"

section \<open>The join tables\<close>

text \<open>The diff against the rows of the config file: deletions first, then creations.\<close>

definition sync_rows :: "ident \<Rightarrow> ident \<Rightarrow> string list \<Rightarrow> (ident \<times> string \<times> ident) list \<Rightarrow> (ident \<times> string \<times> ident) list" where
  "sync_rows environmentId configFileId referencedKeys rows =
     (let existingKeys = map (\<lambda>(_, k, _). k) (filter (\<lambda>(_, _, f). f = configFileId) rows);
          toCreate = filter (\<lambda>k. k \<notin> set existingKeys) referencedKeys;
          toDelete = filter (\<lambda>k. k \<notin> set referencedKeys) existingKeys
      in filter (\<lambda>(_, k, f). \<not> (f = configFileId \<and> k \<in> set toDelete)) rows
           @ map (\<lambda>k. (environmentId, k, configFileId)) toCreate)"

definition referenced :: "string list \<Rightarrow> config_file \<Rightarrow> string list" where
  "referenced fragments configFile =
     (if cf_isBinary configFile then [] else extractReferencedKeys (buildScanContent fragments (cf_content configFile)))"

definition syncSecretUsageForConfigFile :: "string list \<Rightarrow> config_file \<Rightarrow> (('w, 'z) config_db_scheme, unit) io" where
  "syncSecretUsageForConfigFile fragments configFile =
     writes (\<lambda>s. s\<lparr>cd_secretUsage := sync_rows (cf_environmentId configFile) (cf_id configFile)
                     (referenced fragments configFile) (cd_secretUsage s)\<rparr>)"

definition syncVarUsageForConfigFile :: "string list \<Rightarrow> config_file \<Rightarrow> (('w, 'z) config_db_scheme, unit) io" where
  "syncVarUsageForConfigFile fragments configFile =
     writes (\<lambda>s. s\<lparr>cd_varUsage := sync_rows (cf_environmentId configFile) (cf_id configFile)
                     (referenced fragments configFile) (cd_varUsage s)\<rparr>)"

text \<open>\<open>fragments\<close> are the contents of \<open>includedFragments\<close>, none when the caller did not load them.\<close>

definition syncUsageForConfigFile :: "string list \<Rightarrow> config_file \<Rightarrow> (('w, 'z) config_db_scheme, unit) io" where
  "syncUsageForConfigFile fragments configFile =
     andThen (syncSecretUsageForConfigFile fragments configFile) (\<lambda>_.
       syncVarUsageForConfigFile fragments configFile)"

section \<open>Lemmas\<close>

definition usage_keys :: "ident \<Rightarrow> (ident \<times> string \<times> ident) list \<Rightarrow> string set" where
  "usage_keys configFileId rows = {k. \<exists>e. (e, k, configFileId) \<in> set rows}"

lemma existing_keys: "set (map (\<lambda>(_, k, _). k) (filter (\<lambda>(_, _, f'). f' = f) rows)) = usage_keys f rows"
  by (force simp: usage_keys_def)

lemma sync_rows_keys: "usage_keys f (sync_rows e f keys rows) = set keys"
proof -
  have "k \<in> usage_keys f (sync_rows e f keys rows) \<longleftrightarrow> k \<in> usage_keys f rows \<and> k \<in> set keys \<or> k \<in> set keys \<and> k \<notin> usage_keys f rows" for k
    unfolding sync_rows_def Let_def existing_keys set_filter
    by (auto simp: usage_keys_def)
  then show ?thesis by blast
qed

lemma sync_rows_others:
  "filter (\<lambda>(_, _, g). g \<noteq> f) (sync_rows e f keys rows) = filter (\<lambda>(_, _, g). g \<noteq> f) rows"
proof -
  have kept: "filter (\<lambda>(_, _, g). g \<noteq> f) (filter (\<lambda>(_, k, g). \<not> (g = f \<and> P k)) rows) = filter (\<lambda>(_, _, g). g \<noteq> f) rows" for P
    by (induction rows) auto
  have new: "filter (\<lambda>(_, _, g). g \<noteq> f) (map (\<lambda>k. (e, k, f)) ks) = []" for ks
    by (induction ks) auto
  show ?thesis unfolding sync_rows_def Let_def filter_append by (simp only: kept new append_Nil2)
qed

text \<open>After a usage sync the rows of the config file, in both tables, carry exactly the keys that the
  file refers to (none for a binary file), and the rows of all other files are as they were.\<close>

lemma usage_rows_match:
  "usage_keys (cf_id cf) (cd_secretUsage (snd (syncUsageForConfigFile fragments cf s))) = set (referenced fragments cf) \<and>
   usage_keys (cf_id cf) (cd_varUsage (snd (syncUsageForConfigFile fragments cf s))) = set (referenced fragments cf) \<and>
   filter (\<lambda>(_, _, g). g \<noteq> cf_id cf) (cd_secretUsage (snd (syncUsageForConfigFile fragments cf s))) =
     filter (\<lambda>(_, _, g). g \<noteq> cf_id cf) (cd_secretUsage s) \<and>
   filter (\<lambda>(_, _, g). g \<noteq> cf_id cf) (cd_varUsage (snd (syncUsageForConfigFile fragments cf s))) =
     filter (\<lambda>(_, _, g). g \<noteq> cf_id cf) (cd_varUsage s)"
  by (simp add: syncUsageForConfigFile_def syncSecretUsageForConfigFile_def syncVarUsageForConfigFile_def
      io_simps sync_rows_keys sync_rows_others)

end
