(* ===== verification/Config_Sync.thy ===== *)
theory Config_Sync
  imports Key_Usage
begin

text \<open>
  \<open>src/services/config-file-auto-resync.ts\<close>: a config file is written to every deployment of the
  services it is attached to, grouped by server. An attachment is a \<open>ServiceFile\<close> row with the relations
  that the query includes; a row for one deployment overrides the row of the service there. The file
  client of a server comes from \<open>createClientForServer\<close> of \<open>src/lib/ssh.ts\<close>; the stored SSH key and the
  address of the docker host are parameters (\<open>sy_credentials\<close>, \<open>sy_gateway\<close>), as is the decryption of
  secrets.
\<close>

section \<open>Results\<close>

record sync_result =
  sr_serviceId :: ident
  sr_serviceName :: string
  sr_serverName :: string
  sr_targetPath :: string
  sr_success :: bool
  sr_error :: "string option"

datatype sync_status = SyncOk | SyncNoTargets | SyncPartial | SyncFailed

definition deriveSyncStatus :: "sync_result list \<Rightarrow> sync_status" where
  "deriveSyncStatus results =
     (if results = [] then SyncNoTargets
      else let succeeded = length (filter sr_success results) in
        if succeeded = length results then SyncOk
        else if succeeded = 0 then SyncFailed
        else SyncPartial)"

record sync_outcome =
  oc_results :: "sync_result list"
  oc_success :: bool
  oc_status :: sync_status
  oc_targetsAttempted :: nat
  oc_targetsSucceeded :: nat
  oc_targetsFailed :: nat
  oc_configFileName :: string
  oc_environmentId :: ident

definition outcome_of :: "config_file \<Rightarrow> sync_result list \<Rightarrow> sync_outcome" where
  "outcome_of cf results =
     (let targetsAttempted = length results; targetsSucceeded = length (filter sr_success results) in
      \<lparr>oc_results = results, oc_success = (deriveSyncStatus results = SyncOk), oc_status = deriveSyncStatus results,
       oc_targetsAttempted = targetsAttempted, oc_targetsSucceeded = targetsSucceeded,
       oc_targetsFailed = targetsAttempted - targetsSucceeded,
       oc_configFileName = cf_name cf, oc_environmentId = cf_environmentId cf\<rparr>)"

definition no_targets_outcome :: "config_file \<Rightarrow> sync_outcome" where
  "no_targets_outcome cf =
     \<lparr>oc_results = [], oc_success = False, oc_status = SyncNoTargets, oc_targetsAttempted = 0, oc_targetsSucceeded = 0,
      oc_targetsFailed = 0, oc_configFileName = cf_name cf, oc_environmentId = cf_environmentId cf\<rparr>"

section \<open>Targets\<close>

record attachment =
  at_file :: service_file
  at_service :: service_row
  at_override :: "(sd_row \<times> server_row) option"
  at_deployments :: "(sd_row \<times> server_row) list"

definition with_server :: "('w, 'z) config_db_scheme \<Rightarrow> sd_row \<Rightarrow> (sd_row \<times> server_row) option" where
  "with_server s sd = map_option (\<lambda>r. (sd, r)) (List.find (\<lambda>r. srv_id r = dp_serverId sd) (db_servers s))"

definition attachments :: "('w, 'z) config_db_scheme \<Rightarrow> ident \<Rightarrow> attachment list" where
  "attachments s configFileId =
     List.map_filter
       (\<lambda>sf. map_option
          (\<lambda>service.
             \<lparr>at_file = sf, at_service = service,
              at_override = Option.bind (sf_serviceDeploymentId sf)
                (\<lambda>i. Option.bind (List.find (\<lambda>d. dp_id d = i) (db_sds s)) (with_server s)),
              at_deployments = List.map_filter (with_server s) (filter (\<lambda>d. dp_serviceId d = se_id service) (db_sds s))\<rparr>)
          (List.find (\<lambda>e. se_id e = sf_serviceId sf) (db_services s)))
       (filter (\<lambda>sf. sf_configFileId sf = configFileId) (cd_serviceFiles s))"

record sync_target =
  tg_file :: service_file
  tg_serviceDeploymentId :: ident
  tg_server :: server_row
  tg_serviceId :: ident
  tg_serviceName :: string

definition target_of :: "attachment \<Rightarrow> sd_row \<times> server_row \<Rightarrow> sync_target" where
  "target_of a d =
     \<lparr>tg_file = at_file a, tg_serviceDeploymentId = dp_id (fst d), tg_server = snd d,
      tg_serviceId = se_id (at_service a), tg_serviceName = se_name (at_service a)\<rparr>"

text \<open>\<open>overrideCovered\<close>: the deployments that have a row of their own for a config file.\<close>

definition override_covered :: "attachment list \<Rightarrow> ident \<Rightarrow> ident set" where
  "override_covered rows configFileId =
     set (List.map_filter
       (\<lambda>a. if sf_configFileId (at_file a) = configFileId then map_option (dp_id \<circ> fst) (at_override a) else None) rows)"

definition fan_out :: "attachment list \<Rightarrow> sync_target list" where
  "fan_out rows =
     List.map_filter (\<lambda>a. map_option (target_of a) (at_override a)) rows
     @ concat (map (\<lambda>a.
         case at_override a of
           Some _ \<Rightarrow> []
         | None \<Rightarrow>
             map (target_of a)
               (filter (\<lambda>d. dp_id (fst d) \<notin> override_covered rows (sf_configFileId (at_file a))) (at_deployments a)))
         rows)"

text \<open>The map of server groups, in insertion order.\<close>

fun group_add :: "ident \<Rightarrow> sync_target \<Rightarrow> (ident \<times> sync_target list) list \<Rightarrow> (ident \<times> sync_target list) list" where
  "group_add k p [] = [(k, [p])]"
| "group_add k p ((k', ps) # gs) = (if k' = k then (k', ps @ [p]) # gs else (k', ps) # group_add k p gs)"

definition server_groups :: "sync_target list \<Rightarrow> (ident \<times> sync_target list) list" where
  "server_groups pairs = fold (\<lambda>p gs. group_add (srv_id (tg_server p)) p gs) pairs []"

section \<open>The file client\<close>

record 'w sync_host =
  sy_host :: "'w host"
  sy_decrypt :: "string \<Rightarrow> string \<Rightarrow> string + string"
  sy_credentials :: "ident \<Rightarrow> 'w \<Rightarrow> (string + (string \<times> string) option) \<times> 'w"
  sy_gateway :: "'w \<Rightarrow> (string + string option) \<times> 'w"

datatype file_client = LocalClient | SSHClient string string

definition isLocalhost :: "string \<Rightarrow> bool" where
  "isLocalhost hostname =
     (if hostname \<in> set [''172.17.0.1'', ''host.docker.internal''] then False
      else hostname = ''127.0.0.1'' \<or> hostname = ''localhost'' \<or> hostname = ''::1'')"

definition createClientForServer :: "'w sync_host \<Rightarrow> server_row
    \<Rightarrow> (('w, 'z) config_db_scheme, file_client option \<times> string option) io" where
  "createClientForServer sy server =
     (let hostname = srv_hostname server; environmentId = srv_environmentId server in
      if isLocalhost hostname then
        (if srv_serverType server = ''host'' then
           andThen (on_world (sy_gateway sy)) (\<lambda>gatewayIp.
             if \<not> truthy gatewayIp then ret (None, Some ''Cannot detect Docker host gateway for file operations'')
             else andThen (on_world (sy_credentials sy environmentId)) (\<lambda>sshCreds.
               case sshCreds of
                 None \<Rightarrow> ret (None, Some ''SSH key not configured - required for host server file operations'')
               | Some (username, privateKey) \<Rightarrow> ret (Some (SSHClient (the gatewayIp) username), None)))
         else ret (Some LocalClient, None))
      else
        andThen (on_world (sy_credentials sy environmentId)) (\<lambda>sshCreds.
          case sshCreds of
            None \<Rightarrow> ret (None, Some ''SSH key not configured for this environment'')
          | Some (username, privateKey) \<Rightarrow> ret (Some (SSHClient hostname username), None)))"

section \<open>Writing one target\<close>

definition dir_of :: "string \<Rightarrow> string" where
  "dir_of path = rev (drop 1 (dropWhile (\<lambda>c. c \<noteq> CHR ''/'') (rev path)))"

definition target_failed :: "sync_target \<Rightarrow> server_row \<Rightarrow> string \<Rightarrow> sync_result" where
  "target_failed p server msg =
     \<lparr>sr_serviceId = tg_serviceId p, sr_serviceName = tg_serviceName p, sr_serverName = srv_name server,
      sr_targetPath = sf_targetPath (tg_file p), sr_success = False, sr_error = Some msg\<rparr>"

definition target_synced :: "sync_target \<Rightarrow> server_row \<Rightarrow> sync_result" where
  "target_synced p server =
     \<lparr>sr_serviceId = tg_serviceId p, sr_serviceName = tg_serviceName p, sr_serverName = srv_name server,
      sr_targetPath = sf_targetPath (tg_file p), sr_success = True, sr_error = None\<rparr>"

definition non_empty :: "string \<Rightarrow> string \<Rightarrow> string" where
  "non_empty s d = (if s = [] then d else s)"

definition finish_write :: "'w sync_host \<Rightarrow> sync_target \<Rightarrow> server_row \<Rightarrow> string + exec_result
    \<Rightarrow> (('w, 'z) config_db_scheme, sync_result) io" where
  "finish_write sy p server r =
     (case r of
        Inl stderr \<Rightarrow> ret (target_failed p server (non_empty stderr ''Failed to write file''))
      | Inr _ \<Rightarrow>
          andThen (writes (\<lambda>s. s\<lparr>cd_serviceFiles := update_row sf_id (sf_id (tg_file p))
                     (\<lambda>f. f\<lparr>sf_lastSyncedAt := Some (now (sy_host sy) s)\<rparr>) (cd_serviceFiles s)\<rparr>)) (\<lambda>_.
          ret (target_synced p server)))"

text \<open>The content for a server: fragments and own content, placeholders resolved in the server's environment.\<close>

definition render_for :: "'w sync_host \<Rightarrow> config_file \<Rightarrow> (string \<times> string) list \<Rightarrow> server_row \<Rightarrow> ('w, 'z) config_db_scheme
    \<Rightarrow> string + resolved" where
  "render_for sy cf fragments server s =
     resolveSecretPlaceholders (sy_decrypt sy) s (srv_environmentId server)
       (composeFragmentedContent fragments (cf_content cf) (Some (cf_language cf)))"

definition write_target :: "'w sync_host \<Rightarrow> config_file \<Rightarrow> (string \<times> string) list \<Rightarrow> server_row \<Rightarrow> sync_target
    \<Rightarrow> (('w, 'z) config_db_scheme, sync_result) io" where
  "write_target sy cf fragments server p =
     (let path = sf_targetPath (tg_file p); sid = srv_id server in
      andThen (remote (sy_host sy) (OpExec sid (''mkdir -p '' @ shellEscape (dir_of path)))) (\<lambda>_.
      if cf_isBinary cf then
        andThen (trap (remote (sy_host sy) (OpWriteBinary sid path (cf_content cf)))) (finish_write sy p server)
      else
        andThen (reads (render_for sy cf fragments server)) (\<lambda>rendered.
        case rendered of
          Inl e \<Rightarrow> throw e
        | Inr res \<Rightarrow>
            if rs_templateErrors res \<noteq> [] then
              ret (target_failed p server (''Template errors: '' @ join_with ''; '' (rs_templateErrors res)))
            else if rs_missing res \<noteq> [] then
              ret (target_failed p server (''Missing secrets: '' @ join_with '', '' (rs_missing res)))
            else
              andThen (trap (remote (sy_host sy) (OpWriteFile sid path (js_trimEnd (rs_content res)))))
                (finish_write sy p server))))"

definition sync_pair :: "'w sync_host \<Rightarrow> config_file \<Rightarrow> (string \<times> string) list \<Rightarrow> server_row \<Rightarrow> sync_target
    \<Rightarrow> (('w, 'z) config_db_scheme, sync_result) io" where
  "sync_pair sy cf fragments server p =
     catching (write_target sy cf fragments server p) (\<lambda>e. ret (target_failed p server e))"

text \<open>
  One server: the targets of its group over one connection. \<open>sync_pair\<close> never throws, so the outer handler
  sees a failed connection only, before any target has a result.
\<close>

definition sync_group :: "'w sync_host \<Rightarrow> config_file \<Rightarrow> (string \<times> string) list \<Rightarrow> ident \<times> sync_target list
    \<Rightarrow> (('w, 'z) config_db_scheme, sync_result list) io" where
  "sync_group sy cf fragments entry =
     (let group = snd entry; server = tg_server (hd group) in
      andThen (createClientForServer sy server) (\<lambda>(client, clientError).
      case client of
        None \<Rightarrow>
          ret (map (\<lambda>p. target_failed p server
                  (if truthy clientError then the clientError else ''Failed to create SSH client'')) group)
      | Some _ \<Rightarrow>
          andThen
            (catching
              (andThen (remote (sy_host sy) (OpConnect (srv_id server))) (\<lambda>_.
                collect (sync_pair sy cf fragments server) group))
              (\<lambda>e. ret (map (\<lambda>p. target_failed p server e) group)))
            (\<lambda>results. andThen (remote (sy_host sy) (OpDisconnect (srv_id server))) (\<lambda>_. ret results))))"

definition find_config :: "ident \<Rightarrow> ('w, 'z) config_db_scheme \<Rightarrow> config_file option" where
  "find_config i s = List.find (\<lambda>c. cf_id c = i) (cd_configFiles s)"

definition syncConfigFileToAttachedServices :: "'w sync_host \<Rightarrow> ident \<Rightarrow> (('w, 'z) config_db_scheme, sync_outcome option) io" where
  "syncConfigFileToAttachedServices sy configFileId =
     andThen (reads (\<lambda>s. (find_config configFileId s, included_fragments s configFileId, attachments s configFileId)))
       (\<lambda>(configFile, fragments, services).
       case configFile of
         None \<Rightarrow> ret None
       | Some cf \<Rightarrow>
           if services = [] then ret (Some (no_targets_outcome cf))
           else
             andThen (collect (sync_group sy cf fragments) (server_groups (fan_out services))) (\<lambda>results.
             ret (Some (outcome_of cf (concat results)))))"

section \<open>Frames\<close>

text \<open>What the rendering of a config file reads, and what a sync leaves alone.\<close>

definition sync_frame :: "('w, 'z) config_db_scheme \<Rightarrow> ('w, 'z) config_db_scheme" where
  "sync_frame s = s\<lparr>db_world := undefined, db_ops := [], cd_serviceFiles := []\<rparr>"

lemma sync_frame_simps [simp]:
  "sync_frame (s\<lparr>db_world := w, db_ops := ops\<rparr>) = sync_frame s" "sync_frame (s\<lparr>db_world := w\<rparr>) = sync_frame s"
  "sync_frame (s\<lparr>cd_serviceFiles := fs\<rparr>) = sync_frame s"
  by (simp_all add: sync_frame_def)

lemma sync_frame_fields:
  assumes "sync_frame s' = sync_frame s"
  shows "db_servers s' = db_servers s" "cd_configFiles s' = cd_configFiles s" "cd_secrets s' = cd_secrets s"
    "cd_vars s' = cd_vars s" "cd_environments s' = cd_environments s" "cd_publicIp s' = cd_publicIp s"
    "cd_tags s' = cd_tags s" "db_events s' = db_events s" "config_db.more s' = config_db.more s"
    "cd_secretUsage s' = cd_secretUsage s" "cd_varUsage s' = cd_varUsage s" "cd_fragments s' = cd_fragments s"
    "cd_includes s' = cd_includes s" "db_services s' = db_services s" "db_sds s' = db_sds s"
  using assms by (cases s; cases s'; simp add: sync_frame_def)+

lemma render_for_frame:
  assumes "sync_frame s' = sync_frame s"
  shows "render_for sy cf fragments server s' = render_for sy cf fragments server s"
proof -
  note same = sync_frame_fields [OF assms]
  have t: "template_server_of s' = template_server_of s"
    by (simp add: fun_eq_iff template_server_of_def same)
  have "listServersForTemplate s' = listServersForTemplate s"
    by (intro ext) (simp only: listServersForTemplate_def same t)
  moreover have "getSecretsForEnv d s' e = getSecretsForEnv d s e" "getVarsForEnv s' e = getVarsForEnv s e" for d e
    by (simp_all add: getSecretsForEnv_def getVarsForEnv_def same)
  ultimately show ?thesis by (simp only: render_for_def resolveSecretPlaceholders_def)
qed

lemma keeps_sync_frame [keeps_intros]:
  "keeps sync_frame (remote h op)" "keeps sync_frame (on_world g)"
  by (auto intro!: keeps_intros)

lemma keeps_finish_write [keeps_intros]: "keeps sync_frame (finish_write sy p server r)"
  unfolding finish_write_def by (cases r) (auto intro!: keeps_intros)

lemma keeps_write_target [keeps_intros]: "keeps sync_frame (write_target sy cf fragments server p)"
  unfolding write_target_def Let_def by (auto intro!: keeps_intros)

lemma keeps_createClient [keeps_intros]: "keeps sync_frame (createClientForServer sy server)"
  unfolding createClientForServer_def Let_def by (auto intro!: keeps_intros)

lemma keeps_sync_pair [keeps_intros]: "keeps sync_frame (sync_pair sy cf fragments server p)"
  unfolding sync_pair_def by (auto intro!: keeps_intros)

lemma keeps_sync_group [keeps_intros]: "keeps sync_frame (sync_group sy cf fragments entry)"
  unfolding sync_group_def Let_def by (auto intro!: keeps_intros)

lemma keeps_sync [keeps_intros]: "keeps sync_frame (syncConfigFileToAttachedServices sy i)"
  unfolding syncConfigFileToAttachedServices_def by (auto intro!: keeps_intros)

section \<open>Targets and groups\<close>

lemma group_add_spec:
  "mset (concat (map snd (group_add k p gs))) = add_mset p (mset (concat (map snd gs)))"
  "(\<forall>(k', ps) \<in> set gs. ps \<noteq> [] \<and> (\<forall>q \<in> set ps. srv_id (tg_server q) = k')) \<Longrightarrow> srv_id (tg_server p) = k \<Longrightarrow>
     \<forall>(k', ps) \<in> set (group_add k p gs). ps \<noteq> [] \<and> (\<forall>q \<in> set ps. srv_id (tg_server q) = k')"
  by (induction k p gs rule: group_add.induct) auto

lemma server_groups_fold:
  "mset (concat (map snd (fold (\<lambda>p gs. group_add (srv_id (tg_server p)) p gs) ps gs))) = mset ps + mset (concat (map snd gs))"
  by (induction ps arbitrary: gs) (simp_all add: group_add_spec(1))

lemma server_groups_members:
  "(\<forall>(k, qs) \<in> set gs. qs \<noteq> [] \<and> (\<forall>q \<in> set qs. srv_id (tg_server q) = k)) \<Longrightarrow>
   \<forall>(k, qs) \<in> set (fold (\<lambda>p gs. group_add (srv_id (tg_server p)) p gs) ps gs).
      qs \<noteq> [] \<and> (\<forall>q \<in> set qs. srv_id (tg_server q) = k)"
proof (induction ps arbitrary: gs)
  case (Cons p ps)
  from Cons.IH [OF group_add_spec(2) [OF Cons.prems refl]] show ?case by simp
qed simp

lemma server_groups_mset: "mset (concat (map snd (server_groups ps))) = mset ps"
  by (simp add: server_groups_def server_groups_fold)

lemma server_groups_group:
  assumes "(k, members) \<in> set (server_groups ps)"
  shows "members \<noteq> []" and "q \<in> set members \<Longrightarrow> srv_id (tg_server q) = k" and "set members \<subseteq> set ps"
proof -
  have "\<forall>(k, qs) \<in> set (server_groups ps). qs \<noteq> [] \<and> (\<forall>q \<in> set qs. srv_id (tg_server q) = k)"
    unfolding server_groups_def by (rule server_groups_members) simp
  with assms show "members \<noteq> []" "q \<in> set members \<Longrightarrow> srv_id (tg_server q) = k" by auto
  have "set (concat (map snd (server_groups ps))) = set ps" by (metis server_groups_mset set_mset_mset)
  with assms show "set members \<subseteq> set ps" by force
qed

lemma map_filter_SomeD: "y \<in> set (List.map_filter f xs) \<Longrightarrow> \<exists>x \<in> set xs. f x = Some y"
  by (induction xs) (auto simp: List.map_filter_def split: if_splits)

text \<open>The server of a target is the row that its id finds.\<close>

lemma fan_out_server:
  assumes "p \<in> set (fan_out (attachments s i))"
  shows "List.find (\<lambda>r. srv_id r = srv_id (tg_server p)) (db_servers s) = Some (tg_server p)"
proof -
  have found: "List.find (\<lambda>r. srv_id r = srv_id (snd d)) (db_servers s) = Some (snd d)"
    if "with_server s sd = Some d" for sd d
  proof -
    from that obtain r where r: "List.find (\<lambda>r. srv_id r = dp_serverId sd) (db_servers s) = Some r" "d = (sd, r)"
      by (auto simp: with_server_def)
    from find_SomeD [OF r(1)] have "srv_id r = dp_serverId sd" by simp
    with r show ?thesis by simp
  qed
  have "List.find (\<lambda>r. srv_id r = srv_id (snd d)) (db_servers s) = Some (snd d)"
    if "a \<in> set (attachments s i)" and "at_override a = Some d \<or> d \<in> set (at_deployments a)" for a d
    using that by (auto simp: attachments_def bind_eq_Some_conv dest!: map_filter_SomeD intro: found)
  moreover from assms obtain a d where "a \<in> set (attachments s i)" "p = target_of a d"
    "at_override a = Some d \<or> d \<in> set (at_deployments a)"
    by (auto simp: fan_out_def dest!: map_filter_SomeD split: option.splits)
  ultimately show ?thesis by (simp add: target_of_def)
qed

section \<open>Every target has its result\<close>

definition reports :: "sync_target \<Rightarrow> sync_result \<Rightarrow> bool" where
  "reports p r \<longleftrightarrow> sr_serviceId r = tg_serviceId p \<and> sr_serviceName r = tg_serviceName p
     \<and> sr_targetPath r = sf_targetPath (tg_file p) \<and> sr_serverName r = srv_name (tg_server p)"

text \<open>Among the commands after the first \<open>n\<close>, the file was written to the path on the server, rendered without errors.\<close>

definition file_written :: "nat \<Rightarrow> 'w sync_host \<Rightarrow> config_file \<Rightarrow> (string \<times> string) list \<Rightarrow> ('w, 'z) config_db_scheme \<Rightarrow> server_row
    \<Rightarrow> string \<Rightarrow> remote_op list \<Rightarrow> bool" where
  "file_written n sy cf fragments s server path ops \<longleftrightarrow>
     (if cf_isBinary cf then OpWriteBinary (srv_id server) path (cf_content cf) \<in> set (drop n ops)
      else \<exists>res. render_for sy cf fragments server s = Inr res \<and> rs_templateErrors res = [] \<and> rs_missing res = []
             \<and> OpWriteFile (srv_id server) path (js_trimEnd (rs_content res)) \<in> set (drop n ops))"

definition written_since :: "nat \<Rightarrow> 'w sync_host \<Rightarrow> config_file \<Rightarrow> (string \<times> string) list \<Rightarrow> ('w, 'z) config_db_scheme \<Rightarrow> sync_target
    \<Rightarrow> remote_op list \<Rightarrow> bool" where
  "written_since n sy cf fragments s p ops = file_written n sy cf fragments s (tg_server p) (sf_targetPath (tg_file p)) ops"

lemma written_since_more: "written_since n sy cf fragments s p ops \<Longrightarrow> written_since n sy cf fragments s p (ops @ ops2)"
  by (auto simp: written_since_def file_written_def split: if_splits)

definition result_ok :: "nat \<Rightarrow> 'w sync_host \<Rightarrow> config_file \<Rightarrow> (string \<times> string) list \<Rightarrow> ('w, 'z) config_db_scheme \<Rightarrow> sync_target
    \<Rightarrow> sync_result \<Rightarrow> ('w, 'z) config_db_scheme \<Rightarrow> bool" where
  "result_ok n sy cf fragments s p r st \<longleftrightarrow>
     reports p r \<and> (sr_success r \<longrightarrow> written_since n sy cf fragments s p (db_ops st))"

definition started :: "nat \<Rightarrow> ('w, 'z) config_db_scheme \<Rightarrow> ('w, 'z) config_db_scheme \<Rightarrow> bool" where
  "started n s st \<longleftrightarrow> sync_frame st = sync_frame s \<and> n \<le> length (db_ops st)"

lemma started_remote [preserves_intros]: "preserves (started n s) (remote h op)"
  by (rule preservesI) (auto simp: started_def remote_def split: prod.split)

lemma started_on_world [preserves_intros]: "preserves (started n s) (on_world g)"
  by (rule preservesI) (auto simp: started_def on_world_def split: prod.split)

lemma started_writes [preserves_intros]: "preserves (started n s) (writes (\<lambda>s. s\<lparr>cd_serviceFiles := f s\<rparr>))"
  by (rule preservesI) (auto simp: started_def io_simps)

lemma result_ok_remote [preserves_intros]: "preserves (result_ok n sy cf fragments s p r) (remote h op)"
  by (rule preservesI) (auto simp: result_ok_def remote_def written_since_more split: prod.split)

lemma result_ok_on_world [preserves_intros]: "preserves (result_ok n sy cf fragments s p r) (on_world g)"
  by (rule preservesI) (auto simp: result_ok_def on_world_def split: prod.split)

lemma result_ok_writes [preserves_intros]:
  "preserves (result_ok n sy cf fragments s p r) (writes (\<lambda>s. s\<lparr>cd_serviceFiles := f s\<rparr>))"
  by (rule preservesI) (auto simp: result_ok_def io_simps)

lemma sync_pair_preserves:
  assumes "\<And>h op. preserves I (remote h op)" and "\<And>f. preserves I (writes (\<lambda>s. s\<lparr>cd_serviceFiles := f s\<rparr>))"
  shows "preserves I (sync_pair sy cf fragments server q)"
  unfolding sync_pair_def write_target_def finish_write_def Let_def
  by (intro preserves_intros assms)

lemma sync_group_preserves:
  assumes "\<And>h op. preserves I (remote h op)" and "\<And>f. preserves I (writes (\<lambda>s. s\<lparr>cd_serviceFiles := f s\<rparr>))"
    and "\<And>(g :: 'w \<Rightarrow> (string + string option) \<times> 'w). preserves I (on_world g)"
    and "\<And>(g :: 'w \<Rightarrow> (string + (string \<times> string) option) \<times> 'w). preserves I (on_world g)"
  shows "preserves I (sync_group (sy :: 'w sync_host) cf fragments entry)"
  unfolding sync_group_def createClientForServer_def Let_def
  by (intro preserves_intros sync_pair_preserves assms)

lemma finish_write_result:
  assumes "finish_write sy p server r st = (Inr y, st')" and "srv_name server = srv_name (tg_server p)"
  shows "reports p y \<and> db_ops st' = db_ops st \<and> (sr_success y \<longrightarrow> (\<exists>x. r = Inr x))"
  using assms
  by (auto simp: finish_write_def reports_def target_failed_def target_synced_def io_simps split: sum.splits)

lemma trap_remote:
  assumes "trap (remote h op) st = (Inr r, st')"
  shows "db_ops st' = db_ops st @ [op]" and "sync_frame st' = sync_frame st"
  using assms by (auto simp: trap_def remote_def split: prod.splits)

lemma write_target_result:
  assumes run: "write_target sy cf fragments (tg_server p) p st = (Inr y, st')" and "started n s st"
  shows "result_ok n sy cf fragments s p y st'"
proof -
  let ?sid = "srv_id (tg_server p)" and ?path = "sf_targetPath (tg_file p)"
  have finish: "reports p y \<and> (sr_success y \<longrightarrow> db_ops st' = db_ops st1 @ [op])"
    if "andThen (trap (remote h op)) (finish_write sy p (tg_server p)) st1 = (Inr y, st')" for h op st1
    using that by (auto elim!: andThen_InrE dest!: finish_write_result trap_remote(1))
  from run obtain u st1 where mk: "remote (sy_host sy) (OpExec ?sid (''mkdir -p '' @ shellEscape (dir_of ?path))) st = (Inr u, st1)"
    and rest: "(if cf_isBinary cf
        then andThen (trap (remote (sy_host sy) (OpWriteBinary ?sid ?path (cf_content cf)))) (finish_write sy p (tg_server p))
        else andThen (reads (render_for sy cf fragments (tg_server p))) (\<lambda>rendered.
          case rendered of
            Inl e \<Rightarrow> throw e
          | Inr res \<Rightarrow>
              if rs_templateErrors res \<noteq> [] then
                ret (target_failed p (tg_server p) (''Template errors: '' @ join_with ''; '' (rs_templateErrors res)))
              else if rs_missing res \<noteq> [] then
                ret (target_failed p (tg_server p) (''Missing secrets: '' @ join_with '', '' (rs_missing res)))
              else
                andThen (trap (remote (sy_host sy) (OpWriteFile ?sid ?path (js_trimEnd (rs_content res)))))
                  (finish_write sy p (tg_server p)))) st1 = (Inr y, st')"
    unfolding write_target_def Let_def by (rule andThen_InrE)
  have st1: "started n s st1" by (rule preservesD [OF started_remote assms(2) mk])
  then have frame: "render_for sy cf fragments (tg_server p) st1 = render_for sy cf fragments (tg_server p) s"
    and len: "n \<le> length (db_ops st1)" by (auto simp: started_def intro: render_for_frame)
  show ?thesis
  proof (cases "cf_isBinary cf")
    case True
    with rest finish show ?thesis by (fastforce simp: result_ok_def written_since_def file_written_def len)
  next
    case False
    show ?thesis
    proof (cases "render_for sy cf fragments (tg_server p) s")
      case (Inl e)
      with rest False show ?thesis by (simp add: io_simps frame)
    next
      case (Inr res)
      show ?thesis
      proof (cases "rs_templateErrors res = [] \<and> rs_missing res = []")
        case True
        with rest False Inr
        have "andThen (trap (remote (sy_host sy) (OpWriteFile ?sid ?path (js_trimEnd (rs_content res)))))
            (finish_write sy p (tg_server p)) st1 = (Inr y, st')"
          by (simp add: io_simps frame)
        from finish [OF this] show ?thesis
          using True False Inr len by (simp add: result_ok_def written_since_def file_written_def)
      next
        case bad: False
        with rest False Inr have "reports p y \<and> \<not> sr_success y"
          by (auto simp: io_simps frame reports_def target_failed_def split: if_splits)
        then show ?thesis by (simp add: result_ok_def)
      qed
    qed
  qed
qed

lemma sync_pair_result:
  assumes run: "sync_pair sy cf fragments (tg_server p) p st = (Inr y, st')" and "started n s st"
  shows "result_ok n sy cf fragments s p y st'"
  using run unfolding sync_pair_def
proof (cases rule: catching_cases)
  case (ok x)
  with assms(2) show ?thesis by (auto intro: write_target_result)
next
  case (caught e s1)
  then show ?thesis by (auto simp: io_simps result_ok_def reports_def target_failed_def)
qed

lemma failed_results:
  assumes "\<And>p. p \<in> set ps \<Longrightarrow> tg_server p = server"
  shows "list_all2 (\<lambda>p y. result_ok n sy cf fragments s p y st) ps (map (\<lambda>p. target_failed p server e) ps)"
  using assms by (auto simp: list_all2_conv_all_nth result_ok_def reports_def target_failed_def)

lemma all2_preserved:
  assumes "\<And>p y. preserves (\<lambda>st. P p y st) m" and "m st = (r, st')" and "list_all2 (\<lambda>p y. P p y st) ps ys"
  shows "list_all2 (\<lambda>p y. P p y st') ps ys"
  using assms(3) by (rule list_all2_mono) (blast intro: preservesD [OF assms(1) _ assms(2)])

lemma sync_group_result:
  assumes run: "sync_group sy cf fragments (k, members) st = (Inr ys, st')" and "started n s st"
    and "members \<noteq> []" and same: "\<And>p. p \<in> set members \<Longrightarrow> tg_server p = tg_server (hd members)"
  shows "list_all2 (\<lambda>p y. result_ok n sy cf fragments s p y st') members ys"
proof -
  let ?server = "tg_server (hd members)" and ?ok = "\<lambda>p y st. result_ok n sy cf fragments s p y st"
  from run obtain client err st1 where c: "createClientForServer sy ?server st = (Inr (client, err), st1)"
    and rest: "(case client of
        None \<Rightarrow> ret (map (\<lambda>p. target_failed p ?server (if truthy err then the err else ''Failed to create SSH client'')) members)
      | Some _ \<Rightarrow>
          andThen
            (catching
              (andThen (remote (sy_host sy) (OpConnect (srv_id ?server))) (\<lambda>_.
                collect (sync_pair sy cf fragments ?server) members))
              (\<lambda>e. ret (map (\<lambda>p. target_failed p ?server e) members)))
            (\<lambda>results. andThen (remote (sy_host sy) (OpDisconnect (srv_id ?server))) (\<lambda>_. ret results))) st1 = (Inr ys, st')"
    unfolding sync_group_def Let_def snd_conv by (auto elim!: andThen_InrE)
  have "preserves (started n s) (createClientForServer sy ?server)"
    unfolding createClientForServer_def Let_def by (intro preserves_intros)
  from preservesD [OF this assms(2) c] have st1: "started n s st1" .
  show ?thesis
  proof (cases client)
    case None
    with rest have "ys = map (\<lambda>p. target_failed p ?server (if truthy err then the err else ''Failed to create SSH client'')) members"
      by (simp add: io_simps)
    then show ?thesis by (simp only: failed_results [OF same])
  next
    case (Some x)
    with rest obtain st2 u where m: "catching
              (andThen (remote (sy_host sy) (OpConnect (srv_id ?server))) (\<lambda>_.
                collect (sync_pair sy cf fragments ?server) members))
              (\<lambda>e. ret (map (\<lambda>p. target_failed p ?server e) members)) st1 = (Inr ys, st2)"
      and d: "remote (sy_host sy) (OpDisconnect (srv_id ?server)) st2 = (u, st')"
      by (auto elim!: andThen_InrE simp: io_simps)
    from m have "list_all2 (\<lambda>p y. ?ok p y st2) members ys"
    proof (cases rule: catching_cases)
      case (ok zs)
      then obtain v st3 where con: "remote (sy_host sy) (OpConnect (srv_id ?server)) st1 = (Inr v, st3)"
        and col: "collect (sync_pair sy cf fragments ?server) members st3 = (Inr ys, st2)"
        by (auto elim!: andThen_InrE)
      have st3: "started n s st3" by (rule preservesD [OF started_remote st1 con])
      show ?thesis
      proof (rule collect_all2 [where I = "started n s", OF col st3])
        show "preserves (started n s) (sync_pair sy cf fragments ?server p)" for p
          by (intro sync_pair_preserves started_remote started_writes)
        show "preserves (?ok p y) (sync_pair sy cf fragments ?server q)" for p y q
          by (intro sync_pair_preserves result_ok_remote result_ok_writes)
        show "?ok p y s2" if "p \<in> set members" "started n s s1" "sync_pair sy cf fragments ?server p s1 = (Inr y, s2)"
          for p s1 y s2
          using that same [OF that(1)] sync_pair_result by metis
      qed
    next
      case (caught e s2)
      then have "ys = map (\<lambda>p. target_failed p ?server e) members" by (simp add: io_simps)
      then show ?thesis by (simp only: failed_results [OF same])
    qed
    then show ?thesis by (rule all2_preserved [OF result_ok_remote d])
  qed
qed

lemma sync_cases:
  assumes "syncConfigFileToAttachedServices sy i s = (Inr (Some oc), s')"
  obtains (nothing) cf where "find_config i s = Some cf" "attachments s i = []" "oc = no_targets_outcome cf" "s' = s"
  | (targets) cf rss where "find_config i s = Some cf" "oc = outcome_of cf (concat rss)"
      "collect (sync_group sy cf (included_fragments s i)) (server_groups (fan_out (attachments s i))) s = (Inr rss, s')"
  using assms
  by (auto simp: syncConfigFileToAttachedServices_def io_simps split: option.splits if_splits elim!: andThen_InrE)

lemma list_all2_concat: "list_all2 (list_all2 P) xss yss \<Longrightarrow> list_all2 P (concat xss) (concat yss)"
  by (induction rule: list_all2_induct) (simp_all add: list_all2_appendI)

lemma sync_results:
  assumes "collect (sync_group sy cf fragments) (server_groups (fan_out (attachments s i))) s = (Inr rss, s')"
  shows "list_all2 (\<lambda>p y. result_ok (length (db_ops s)) sy cf fragments s p y s')
           (concat (map snd (server_groups (fan_out (attachments s i))))) (concat rss)"
proof -
  let ?ps = "fan_out (attachments s i)" and ?n = "length (db_ops s)"
  let ?ok = "\<lambda>p y st. result_ok ?n sy cf fragments s p y st"
  have "list_all2 (\<lambda>e ys. list_all2 (\<lambda>p y. ?ok p y s') (snd e) ys) (server_groups ?ps) rss"
  proof (rule collect_all2 [where I = "started ?n s", OF assms])
    show "started ?n s s" by (simp add: started_def)
    show "preserves (started ?n s) (sync_group sy cf fragments e)" for e
      by (intro sync_group_preserves started_remote started_writes started_on_world)
    show "preserves (\<lambda>st. list_all2 (\<lambda>p y. ?ok p y st) (snd e) ys) (sync_group sy cf fragments e')" for e ys e'
    proof (rule preservesI)
      fix st assume "list_all2 (\<lambda>p y. ?ok p y st) (snd e) ys"
      then show "list_all2 (\<lambda>p y. ?ok p y (snd (sync_group sy cf fragments e' st))) (snd e) ys"
      proof (rule all2_preserved [rotated 2])
        show "preserves (?ok p y) (sync_group sy cf fragments e')" for p y
          by (intro sync_group_preserves result_ok_remote result_ok_writes result_ok_on_world)
        show "sync_group sy cf fragments e' st =
            (fst (sync_group sy cf fragments e' st), snd (sync_group sy cf fragments e' st))" by simp
      qed
    qed
    show "list_all2 (\<lambda>p y. ?ok p y s2) (snd e) ys"
      if e: "e \<in> set (server_groups ?ps)" and st: "started ?n s s1" and run: "sync_group sy cf fragments e s1 = (Inr ys, s2)"
      for e s1 ys s2
    proof -
      obtain k members where em: "e = (k, members)" by (cases e)
      note g = server_groups_group [OF e [unfolded em]]
      have same: "tg_server p = tg_server (hd members)" if "p \<in> set members" for p
      proof -
        have "p \<in> set ?ps" "hd members \<in> set ?ps" using that g(1,3) by auto
        moreover have "srv_id (tg_server p) = srv_id (tg_server (hd members))" using that g(1,2) by simp
        ultimately show ?thesis by (metis fan_out_server option.inject)
      qed
      show ?thesis using sync_group_result [OF run [unfolded em] st g(1) same] by (simp add: em)
    qed
  qed
  then have "list_all2 (list_all2 (\<lambda>p y. ?ok p y s')) (map snd (server_groups ?ps)) rss"
    by (simp add: list_all2_map1)
  then show ?thesis by (rule list_all2_concat)
qed

lemma length_filter_all: "length (filter P xs) = length xs \<longleftrightarrow> (\<forall>x \<in> set xs. P x)"
proof
  assume "length (filter P xs) = length xs"
  then have "filter P xs = xs" by (metis length_filter_less less_irrefl filter_id_conv)
  then show "\<forall>x \<in> set xs. P x" by (simp add: filter_id_conv)
qed (simp add: filter_id_conv)

section \<open>Deliveries\<close>

text \<open>
  What a config file is attached to, said of the rows themselves: a row of the file with a deployment of its own
  reaches that deployment; a row of the service reaches every deployment of the service for which the file has no
  row of its own.
\<close>

definition attached_to :: "('w, 'z) config_db_scheme \<Rightarrow> ident \<Rightarrow> service_file \<Rightarrow> sd_row \<Rightarrow> bool" where
  "attached_to s i sf d \<longleftrightarrow>
     sf_configFileId sf = i \<and>
     (case sf_serviceDeploymentId sf of
        Some k \<Rightarrow> dp_id d = k
      | None \<Rightarrow> dp_serviceId d = sf_serviceId sf \<and>
          \<not> (\<exists>own \<in> set (cd_serviceFiles s). sf_configFileId own = i \<and> sf_serviceDeploymentId own = Some (dp_id d)))"

definition deliveries :: "('w, 'z) config_db_scheme \<Rightarrow> ident \<Rightarrow> (service_file \<times> sd_row) list" where
  "deliveries s i = concat (map (\<lambda>sf. map (Pair sf) (filter (attached_to s i sf) (db_sds s))) (cd_serviceFiles s))"

text \<open>The foreign keys of the schema, and the primary key of the deployments.\<close>

definition config_fks :: "('w, 'z) config_db_scheme \<Rightarrow> bool" where
  "config_fks s \<longleftrightarrow> distinct (map dp_id (db_sds s)) \<and>
     (\<forall>d \<in> set (db_sds s). List.find (\<lambda>v. srv_id v = dp_serverId d) (db_servers s) \<noteq> None) \<and>
     (\<forall>sf \<in> set (cd_serviceFiles s). List.find (\<lambda>e. se_id e = sf_serviceId sf) (db_services s) \<noteq> None \<and>
        (\<forall>k. sf_serviceDeploymentId sf = Some k \<longrightarrow> k \<in> dp_id ` set (db_sds s)))"

definition delivery_server :: "('w, 'z) config_db_scheme \<Rightarrow> sd_row \<Rightarrow> server_row" where
  "delivery_server s d = the (List.find (\<lambda>v. srv_id v = dp_serverId d) (db_servers s))"

definition delivery_target :: "('w, 'z) config_db_scheme \<Rightarrow> service_file \<times> sd_row \<Rightarrow> sync_target" where
  "delivery_target s = (\<lambda>(sf, d).
     \<lparr>tg_file = sf, tg_serviceDeploymentId = dp_id d, tg_server = delivery_server s d, tg_serviceId = sf_serviceId sf,
      tg_serviceName = se_name (the (List.find (\<lambda>e. se_id e = sf_serviceId sf) (db_services s)))\<rparr>)"

text \<open>The part of the fan-out that one row contributes.\<close>

definition row_targets :: "attachment list \<Rightarrow> attachment \<Rightarrow> sync_target list" where
  "row_targets rows a =
     (case at_override a of
        Some d \<Rightarrow> [target_of a d]
      | None \<Rightarrow> map (target_of a)
          (filter (\<lambda>d. dp_id (fst d) \<notin> override_covered rows (sf_configFileId (at_file a))) (at_deployments a)))"

lemma fan_out_rows: "mset (fan_out rows) = mset (concat (map (row_targets rows) rows))"
proof -
  have "mset (List.map_filter (\<lambda>a. map_option (target_of a) (at_override a)) xs @ concat (map (\<lambda>a.
         case at_override a of
           Some _ \<Rightarrow> []
         | None \<Rightarrow> map (target_of a)
             (filter (\<lambda>d. dp_id (fst d) \<notin> override_covered rows (sf_configFileId (at_file a))) (at_deployments a))) xs)) =
       mset (concat (map (row_targets rows) xs))" for xs
    by (induction xs) (auto simp: row_targets_def map_filter_simps split: option.split)
  then show ?thesis by (simp add: fan_out_def)
qed

lemma with_server_fks:
  "config_fks s \<Longrightarrow> d \<in> set (db_sds s) \<Longrightarrow> with_server s d = Some (d, delivery_server s d)"
  by (auto simp: config_fks_def with_server_def delivery_server_def)

lemma map_filter_total: "(\<And>x. x \<in> set xs \<Longrightarrow> f x = Some (g x)) \<Longrightarrow> List.map_filter f xs = map g xs"
  by (induction xs) (auto simp: map_filter_simps)

lemma set_map_filter_iff: "y \<in> set (List.map_filter f xs) \<longleftrightarrow> (\<exists>x \<in> set xs. f x = Some y)"
  by (induction xs) (auto simp: map_filter_simps split: option.split)

lemma find_distinct: "distinct (map f xs) \<Longrightarrow> x \<in> set xs \<Longrightarrow> List.find (\<lambda>y. f y = f x) xs = Some x"
  by (induction xs) (auto simp: image_iff)

lemma filter_distinct: "distinct (map f xs) \<Longrightarrow> x \<in> set xs \<Longrightarrow> filter (\<lambda>y. f y = f x) xs = [x]"
proof (induction xs)
  case (Cons a xs)
  then show ?case by (cases "f a = f x") (auto simp: filter_empty_conv image_iff)
qed simp

definition attachment_of :: "('w, 'z) config_db_scheme \<Rightarrow> service_file \<Rightarrow> attachment" where
  "attachment_of s sf =
     \<lparr>at_file = sf, at_service = the (List.find (\<lambda>e. se_id e = sf_serviceId sf) (db_services s)),
      at_override = Option.bind (sf_serviceDeploymentId sf) (\<lambda>i. Option.bind (List.find (\<lambda>d. dp_id d = i) (db_sds s)) (with_server s)),
      at_deployments = List.map_filter (with_server s)
        (filter (\<lambda>d. dp_serviceId d = se_id (the (List.find (\<lambda>e. se_id e = sf_serviceId sf) (db_services s)))) (db_sds s))\<rparr>"

lemma attachments_fks:
  "config_fks s \<Longrightarrow> attachments s i = map (attachment_of s) (filter (\<lambda>sf. sf_configFileId sf = i) (cd_serviceFiles s))"
  unfolding attachments_def
  by (rule map_filter_total) (auto simp: attachment_of_def config_fks_def Let_def)

lemma override_fks:
  assumes "config_fks s" and "sf \<in> set (cd_serviceFiles s)"
  shows "case sf_serviceDeploymentId sf of
      None \<Rightarrow> at_override (attachment_of s sf) = None
    | Some k \<Rightarrow> \<exists>d \<in> set (db_sds s). dp_id d = k \<and> at_override (attachment_of s sf) = Some (d, delivery_server s d)"
proof (cases "sf_serviceDeploymentId sf")
  case (Some k)
  with assms obtain d where d: "d \<in> set (db_sds s)" "k = dp_id d" unfolding config_fks_def by blast
  with assms(1) have "List.find (\<lambda>x. dp_id x = k) (db_sds s) = Some d" by (simp add: config_fks_def find_distinct)
  with Some d with_server_fks [OF assms(1) d(1)] show ?thesis by (auto simp: attachment_of_def)
qed (simp add: attachment_of_def)

lemma covered_fks:
  assumes "config_fks s"
  shows "override_covered (attachments s i) i =
     {k. \<exists>own \<in> set (cd_serviceFiles s). sf_configFileId own = i \<and> sf_serviceDeploymentId own = Some k}"
proof -
  have own: "map_option (dp_id \<circ> fst) (at_override (attachment_of s sf)) = sf_serviceDeploymentId sf"
    if "sf \<in> set (cd_serviceFiles s)" for sf
    using override_fks [OF assms that] by (auto split: option.splits)
  have row: "at_file (attachment_of s sf) = sf" for sf by (simp add: attachment_of_def)
  have "k \<in> override_covered (attachments s i) i \<longleftrightarrow>
      (\<exists>own \<in> set (cd_serviceFiles s). sf_configFileId own = i \<and> map_option (dp_id \<circ> fst) (at_override (attachment_of s own)) = Some k)" for k
    unfolding override_covered_def attachments_fks [OF assms] set_map_filter_iff by (auto simp: row)
  with own show ?thesis by auto
qed

lemma row_targets_fks:
  assumes "config_fks s" and "sf \<in> set (cd_serviceFiles s)" and "sf_configFileId sf = i"
  shows "row_targets (attachments s i) (attachment_of s sf) =
     map (\<lambda>d. delivery_target s (sf, d)) (filter (attached_to s i sf) (db_sds s))"
proof -
  obtain e where e: "List.find (\<lambda>e. se_id e = sf_serviceId sf) (db_services s) = Some e"
    using assms(1,2) unfolding config_fks_def by blast
  then have eid: "se_id e = sf_serviceId sf" using find_SomeD(1) by fastforce
  have row: "at_file (attachment_of s sf) = sf" by (simp add: attachment_of_def)
  have target: "target_of (attachment_of s sf) (d, delivery_server s d) = delivery_target s (sf, d)" for d
    by (simp add: target_of_def attachment_of_def delivery_target_def e eid)
  show ?thesis
  proof (cases "sf_serviceDeploymentId sf")
    case (Some k)
    with override_fks [OF assms(1,2)] obtain d where d: "d \<in> set (db_sds s)" "dp_id d = k"
      "at_override (attachment_of s sf) = Some (d, delivery_server s d)" by auto
    moreover have "attached_to s i sf = (\<lambda>y. dp_id y = dp_id d)"
      using Some assms(3) d(2) by (simp add: fun_eq_iff attached_to_def)
    then have "filter (attached_to s i sf) (db_sds s) = [d]"
      using filter_distinct [OF _ d(1), of dp_id] assms(1) by (simp add: config_fks_def)
    ultimately show ?thesis by (simp add: row_targets_def target)
  next
    case None
    with override_fks [OF assms(1,2)] have no: "at_override (attachment_of s sf) = None" by simp
    have "at_deployments (attachment_of s sf) =
        map (\<lambda>d. (d, delivery_server s d)) (filter (\<lambda>d. dp_serviceId d = sf_serviceId sf) (db_sds s))"
      unfolding attachment_of_def by (simp add: e eid) (rule map_filter_total, simp add: with_server_fks [OF assms(1)])
    moreover have "attached_to s i sf = (\<lambda>d. dp_serviceId d = sf_serviceId sf \<and> dp_id d \<notin> override_covered (attachments s i) i)"
      using None assms(3) by (auto simp: fun_eq_iff attached_to_def covered_fks [OF assms(1)])
    ultimately show ?thesis
      using no assms(3) by (simp add: row_targets_def row filter_map o_def target conj_commute)
  qed
qed

text \<open>The fan-out of the code is the deliveries of the rows.\<close>

lemma fan_out_deliveries:
  assumes "config_fks s"
  shows "mset (fan_out (attachments s i)) = mset (map (delivery_target s) (deliveries s i))"
proof -
  let ?mine = "filter (\<lambda>sf. sf_configFileId sf = i) (cd_serviceFiles s)"
  have "concat (map (row_targets (attachments s i)) (attachments s i)) =
      concat (map (\<lambda>sf. row_targets (attachments s i) (attachment_of s sf)) ?mine)"
    by (subst (2) attachments_fks [OF assms]) (simp add: o_def)
  also have "\<dots> = concat (map (\<lambda>sf. map (\<lambda>d. delivery_target s (sf, d)) (filter (attached_to s i sf) (db_sds s))) ?mine)"
    by (intro arg_cong [where f = concat] map_cong refl row_targets_fks [OF assms]) auto
  also have "\<dots> = map (delivery_target s) (deliveries s i)"
  proof -
    have "concat (map (\<lambda>sf. map (\<lambda>d. delivery_target s (sf, d)) (filter (attached_to s i sf) (db_sds s)))
        (filter (\<lambda>sf. sf_configFileId sf = i) xs)) =
      map (delivery_target s) (concat (map (\<lambda>sf. map (Pair sf) (filter (attached_to s i sf) (db_sds s))) xs))" for xs
      by (induction xs) (auto simp: attached_to_def o_def)
    then show ?thesis by (simp add: deliveries_def)
  qed
  finally show ?thesis by (simp add: fan_out_rows)
qed

lemma mset_map_preimage: "mset ps = image_mset f M \<Longrightarrow> \<exists>xs. mset xs = M \<and> ps = map f xs"
proof (induction ps arbitrary: M)
  case (Cons p ps)
  then have "p \<in># image_mset f M" by (metis list.set_intros(1) set_mset_mset)
  then obtain m where m: "m \<in># M" "p = f m" by auto
  then obtain N where N: "M = add_mset m N" by (metis mset_add)
  with Cons.prems m have "mset ps = image_mset f N" by simp
  from Cons.IH [OF this] obtain xs where "mset xs = N" "ps = map f xs" by blast
  with N m show ?case by (intro exI [of _ "m # xs"]) simp
qed simp

text \<open>The status that the counts stand for.\<close>

lemma derive_status_counts:
  "deriveSyncStatus rs =
     (if rs = [] then SyncNoTargets
      else if \<forall>r \<in> set rs. sr_success r then SyncOk
      else if \<forall>r \<in> set rs. \<not> sr_success r then SyncFailed
      else SyncPartial)"
proof -
  have "length (filter sr_success rs) = 0 \<longleftrightarrow> (\<forall>r \<in> set rs. \<not> sr_success r)" by (simp add: filter_empty_conv)
  then show ?thesis by (simp add: deriveSyncStatus_def Let_def length_filter_all del: length_0_conv)
qed

text \<open>C22: When a sync of a config file returns an outcome, the results are those of its deliveries, one each: every
  deployment that has a row of its own for the file, and every deployment of a service with a row for the file that
  has no row of its own. A result names the service, the server and the path of its delivery, and one that claims success
  stands for a write of the file to that path on that server during this run, with the content rendered without template
  errors or missing keys. The counts are those of the results, and the status is \<open>no_targets\<close> without deliveries,
  \<open>ok\<close> when all results succeeded, \<open>failed\<close> when none did, and \<open>partial\<close> otherwise. Assumed:
  the keys of the schema.\<close>

theorem sync_accounts_for_every_target:
  assumes run: "syncConfigFileToAttachedServices sy i s = (Inr (Some oc), s')" and cf: "find_config i s = Some cf"
    and fks: "config_fks s"
  shows "(\<exists>ds. mset ds = mset (deliveries s i) \<and>
      list_all2 (\<lambda>(sf, d) r. sr_serviceId r = sf_serviceId sf \<and> sr_serverName r = srv_name (delivery_server s d) \<and>
          sr_targetPath r = sf_targetPath sf \<and>
          (sr_success r \<longrightarrow> file_written (length (db_ops s)) sy cf (included_fragments s i) s (delivery_server s d) (sf_targetPath sf) (db_ops s')))
        ds (oc_results oc)) \<and>
    oc_targetsAttempted oc = length (deliveries s i) \<and>
    oc_targetsSucceeded oc = length (filter sr_success (oc_results oc)) \<and>
    oc_targetsFailed oc = length (filter (\<lambda>r. \<not> sr_success r) (oc_results oc)) \<and>
    oc_status oc =
      (if deliveries s i = [] then SyncNoTargets
       else if \<forall>r \<in> set (oc_results oc). sr_success r then SyncOk
       else if \<forall>r \<in> set (oc_results oc). \<not> sr_success r then SyncFailed
       else SyncPartial) \<and>
    (oc_success oc \<longleftrightarrow> oc_status oc = SyncOk)"
  using run
proof (cases rule: sync_cases)
  case (nothing cf')
  then have none: "attachments s i = []" and oc: "oc = no_targets_outcome cf'" by simp_all
  have "mset (map (delivery_target s) (deliveries s i)) = {#}"
    using fan_out_deliveries [OF fks, of i] none by (simp add: fan_out_def List.map_filter_def)
  then have "deliveries s i = []" by simp
  then show ?thesis using oc by (simp add: no_targets_outcome_def)
next
  case (targets cf' rss)
  let ?ps = "concat (map snd (server_groups (fan_out (attachments s i))))"
  define rs where "rs = concat rss"
  have all: "list_all2 (\<lambda>p r. result_ok (length (db_ops s)) sy cf (included_fragments s i) s p r s') ?ps rs"
    using sync_results [OF targets(3)] targets(1) cf by (simp add: rs_def)
  have "mset ?ps = image_mset (delivery_target s) (mset (deliveries s i))"
    by (simp add: server_groups_mset fan_out_deliveries [OF fks])
  from mset_map_preimage [OF this] obtain ds where ds: "mset ds = mset (deliveries s i)" "?ps = map (delivery_target s) ds" by blast
  have len: "length rs = length (deliveries s i)"
    using list_all2_lengthD [OF all] mset_eq_length [OF ds(1)] ds(2) by simp
  then have nil: "rs = [] \<longleftrightarrow> deliveries s i = []" by (metis length_0_conv)
  have oc: "oc = outcome_of cf' rs" using targets(2) by (simp add: rs_def)
  show ?thesis
  proof (intro conjI exI [of _ ds])
    show "list_all2 (\<lambda>(sf, d) r. sr_serviceId r = sf_serviceId sf \<and> sr_serverName r = srv_name (delivery_server s d) \<and>
          sr_targetPath r = sf_targetPath sf \<and>
          (sr_success r \<longrightarrow> file_written (length (db_ops s)) sy cf (included_fragments s i) s (delivery_server s d) (sf_targetPath sf) (db_ops s')))
        ds (oc_results oc)"
      using all unfolding ds(2) list_all2_map1
      by (simp add: oc outcome_of_def Let_def)
         (erule list_all2_mono, auto simp: result_ok_def reports_def written_since_def delivery_target_def)
    show "oc_targetsFailed oc = length (filter (\<lambda>r. \<not> sr_success r) (oc_results oc))"
      using sum_length_filter_compl [of sr_success rs] by (simp add: oc outcome_of_def Let_def)
  qed (simp_all add: oc outcome_of_def Let_def derive_status_counts len nil ds(1))
qed

text \<open>A deployment that has a row of its own for the config file never receives the file by way of the
  service's row: every target at that deployment is one of its own rows.\<close>

theorem override_replaces_base:
  assumes "a \<in> set (attachments s i)" and "at_override a = Some (sd, server)"
    and "p \<in> set (fan_out (attachments s i))" and "tg_serviceDeploymentId p = dp_id sd"
  shows "sf_serviceDeploymentId (tg_file p) = Some (dp_id sd)"
proof -
  have att: "sf_configFileId (at_file b) = i \<and>
      (\<forall>x. at_override b = Some x \<longrightarrow> sf_serviceDeploymentId (at_file b) = Some (dp_id (fst x)))"
    if "b \<in> set (attachments s i)" for b
    using that
    by (auto simp: attachments_def bind_eq_Some_conv with_server_def dest!: map_filter_SomeD find_SomeD)
  have "dp_id sd \<in> override_covered (attachments s i) i"
    using assms(1,2) att [OF assms(1)] by (force simp: override_covered_def List.map_filter_def)
  with assms(3,4) att show ?thesis
    by (auto simp: fan_out_def target_of_def dest!: map_filter_SomeD split: option.splits)
qed

text \<open>One service on two servers; the file is attached to the service, and with a path of its own to the
  deployment on the second server.\<close>

definition sample_server :: "ident \<Rightarrow> server_row" where
  "sample_server i =
     \<lparr>srv_id = i, srv_name = i, srv_hostname = ''localhost'', srv_dockerMode = ''socket'', srv_serverType = ''remote'',
      srv_environmentId = ''e''\<rparr>"

definition sample_deployment :: "ident \<Rightarrow> ident \<Rightarrow> sd_row" where
  "sample_deployment i server =
     \<lparr>dp_id = i, dp_serviceId = ''s'', dp_serverId = server, dp_containerName = ''web'', dp_composePath = None,
      dp_status = ''unknown'', dp_discoveryStatus = ''pending'', dp_containerStatus = ''unknown'',
      dp_healthStatus = ''unknown'', dp_lastCheckedAt = None, dp_lastDeployedAt = None, dp_imageDigestId = None\<rparr>"

definition sample_service :: service_row where
  "sample_service =
     \<lparr>se_id = ''s'', se_name = ''web'', se_imageTag = ''1'', se_imageId = ''i'', se_deployStrategy = ''recreate'',
      se_healthCheckUrl = None, se_healthWaitMs = 0, se_healthRetries = 1, se_healthIntervalMs = 0\<rparr>"

definition sample_file :: "ident \<Rightarrow> ident \<Rightarrow> string \<Rightarrow> config_file" where
  "sample_file i env content =
     \<lparr>cf_id = i, cf_name = i, cf_content = content, cf_isBinary = False, cf_autoResync = True, cf_language = ''env'',
      cf_environmentId = env\<rparr>"

definition sample_db :: "unit config_db" where
  "sample_db =
     \<lparr>db_world = (), db_ops = [], db_servers = [sample_server ''v1'', sample_server ''v2''],
      db_services = [sample_service], db_sds = [sample_deployment ''d1'' ''v1'', sample_deployment ''d2'' ''v2''],
      db_images = [], db_digests = [], db_imageHistory = [], db_deployments = [], db_artifacts = [],
      db_autoManageCompose = [], db_defaultLogLines = 0, db_events = [], cd_environments = [], cd_publicIp = [],
      cd_tags = [], cd_secrets = [], cd_secretUsage = [], cd_varUsage = [], cd_vars = [],
      cd_configFiles = [sample_file ''f'' ''e'' ''A=1'', sample_file ''g'' ''e'' ''B=${B}'', sample_file ''o'' ''e2'' ''C=1''],
      cd_fragments = [], cd_includes = [],
      cd_serviceFiles =
        [\<lparr>sf_id = ''b'', sf_targetPath = ''/a/env'', sf_lastSyncedAt = None, sf_serviceId = ''s'',
          sf_serviceDeploymentId = None, sf_configFileId = ''f''\<rparr>,
         \<lparr>sf_id = ''o'', sf_targetPath = ''/b/env'', sf_lastSyncedAt = None, sf_serviceId = ''s'',
          sf_serviceDeploymentId = Some ''d2'', sf_configFileId = ''f''\<rparr>,
         \<lparr>sf_id = ''c'', sf_targetPath = ''/c/env'', sf_lastSyncedAt = None, sf_serviceId = ''s'',
          sf_serviceDeploymentId = None, sf_configFileId = ''g''\<rparr>]\<rparr>"

definition quiet_host :: "unit host" where
  "quiet_host =
     \<lparr>h_now = (\<lambda>_. 5), h_newId = (\<lambda>n. ''id'' @ nat_str n), h_createClient = (\<lambda>_ w. (Inl ''no docker'', w)),
      h_effect = (\<lambda>_ w. (Inr \<lparr>ex_code = 0, ex_stdout = [], ex_stderr = []\<rparr>, w)),
      h_listContainers = (\<lambda>_ w. (Inr [], w)), h_containerLogs = (\<lambda>_ _ _ w. (Inr [], w)),
      h_containerHealth = (\<lambda>_ _ w. (Inl ''no docker'', w)), h_checkUrl = (\<lambda>_ _ w. (Inl ''no network'', w)),
      h_sleep = (\<lambda>_ w. w), h_generateArtifacts = (\<lambda>_ _ w. (Inl ''none'', w)), h_parseCompose = (\<lambda>_. NotADocument),
      h_socketAuth = (\<lambda>_ w. (Inr None, w)), h_registryLogin = (\<lambda>_ _ w. (Inr (False, None), w))\<rparr>"

definition sample_sync_host :: "unit sync_host" where
  "sample_sync_host =
     \<lparr>sy_host = quiet_host, sy_decrypt = (\<lambda>c _. Inr c), sy_credentials = (\<lambda>_ w. (Inr None, w)),
      sy_gateway = (\<lambda>w. (Inr None, w))\<rparr>"

lemma sample_sync_run:
  "(case syncConfigFileToAttachedServices sample_sync_host ''f'' sample_db of
      (r, s') \<Rightarrow> (case r of Inr (Some oc) \<Rightarrow> (map sr_targetPath (oc_results oc), oc_status oc, length (db_ops s')) | _ \<Rightarrow> ([], SyncFailed, 0))) =
    ([''/b/env'', ''/a/env''], SyncOk, 8)"
  by code_simp

theorem sync_accounts_for_every_target_witness:
  "\<exists>oc s'. syncConfigFileToAttachedServices sample_sync_host ''f'' sample_db = (Inr (Some oc), s') \<and>
     oc_targetsAttempted oc = length (deliveries sample_db ''f'') \<and> length (deliveries sample_db ''f'') = 2 \<and> oc_status oc = SyncOk"
proof -
  obtain oc s' where run: "syncConfigFileToAttachedServices sample_sync_host ''f'' sample_db = (Inr (Some oc), s')"
    and ok: "oc_status oc = SyncOk"
    using sample_sync_run by (auto split: prod.splits sum.splits option.splits)
  have "find_config ''f'' sample_db = Some (sample_file ''f'' ''e'' ''A=1'')" by code_simp
  moreover have "config_fks sample_db"
    by (simp add: config_fks_def sample_db_def sample_deployment_def sample_server_def sample_service_def)
  moreover have "length (deliveries sample_db ''f'') = 2" by code_simp
  ultimately show ?thesis using sync_accounts_for_every_target [OF run] run ok by blast
qed

theorem override_replaces_base_witness:
  "sf_serviceDeploymentId (tg_file (hd (fan_out (attachments sample_db ''f'')))) = Some ''d2''"
proof -
  have "hd (tl (attachments sample_db ''f'')) \<in> set (attachments sample_db ''f'')"
    "at_override (hd (tl (attachments sample_db ''f''))) = Some (sample_deployment ''d2'' ''v2'', sample_server ''v2'')"
    "hd (fan_out (attachments sample_db ''f'')) \<in> set (fan_out (attachments sample_db ''f''))"
    "tg_serviceDeploymentId (hd (fan_out (attachments sample_db ''f''))) = dp_id (sample_deployment ''d2'' ''v2'')"
    by code_simp+
  from override_replaces_base [OF this] show ?thesis by (simp add: sample_deployment_def)
qed

end
