(* ===== verification/Sync_Batch.thy ===== *)
theory Sync_Batch
  imports Config_Sync
begin

text \<open>
  \<open>src/services/sync-batch.ts\<close>: several config-file syncs as one batch that either rolls back at the first
  failure or tries everything, with a replay by idempotency key; \<open>logAudit\<close> of \<open>src/services/audit.ts\<close>.
  The local variables of \<open>executeBatch\<close> are a record beside the database; a loop that breaks is a
  recursion that stops. Other requests may edit config files while a batch runs: what they did is a parameter
  \<open>edits\<close>, an arbitrary change of the config files before every sync, before every restore and between a restore
  and its sync. The JSON columns hold the values that are written to them; the \<open>error\<close> column may
  hold other text, from older rows.
\<close>

section \<open>Rows\<close>

datatype batch_status = BatchPending | BatchOk | BatchPartial | BatchRolledBack | BatchFailed

datatype op_status = OpsPending | OpsOk | OpsFailed | OpsSkipped | OpsRolledBack | OpsRollbackFailed

record op_error =
  oe_code :: "string option"
  oe_message :: string

datatype error_column = ErrorJson op_error | ErrorText string

record batch_op =
  bo_id :: ident
  bo_index :: nat
  bo_configFileId :: ident
  bo_status :: op_status
  bo_error :: "error_column option"
  bo_previousContent :: "string option"
  bo_previousIsBinary :: bool
  bo_results :: "sync_result list option"
  bo_rollbackError :: "string option"
  bo_completedAt :: "millis option"

record batch_actor =
  ac_userId :: "ident option"
  ac_apiTokenId :: "ident option"
  ac_serviceAccountId :: "ident option"

record batch_row =
  ba_id :: ident
  ba_status :: batch_status
  ba_rollbackOnFailure :: bool
  ba_idempotencyKey :: "string option"
  ba_idempotencyBodyHash :: "string option"
  ba_actor :: batch_actor
  ba_environmentId :: "ident option"
  ba_completedAt :: "millis option"
  ba_operations :: "batch_op list"

datatype audit_details =
    OpDetails ident "sync_result list" string bool
  | RejectDetails string nat "ident list"

record audit_row =
  au_action :: string
  au_resourceType :: string
  au_resourceId :: ident
  au_resourceName :: "string option"
  au_details :: audit_details
  au_success :: bool
  au_actor :: batch_actor
  au_environmentId :: "ident option"
  au_batchId :: "ident option"

record 'w batch_db = "'w config_db" +
  bd_batches :: "batch_row list"
  bd_audit :: "audit_row list"
  bd_fileHistory :: "(ident \<times> string \<times> ident option) list"

record batch_input =
  bi_operations :: "ident list"
  bi_rollbackOnFailure :: bool
  bi_actor :: batch_actor
  bi_idempotencyKey :: "string option"
  bi_idempotencyBodyHash :: "string option"

record op_result =
  or_index :: nat
  or_status :: op_status
  or_error :: "op_error option"

record batch_result =
  bx_batchId :: ident
  bx_status :: batch_status
  bx_operations :: "op_result list"

section \<open>Audit\<close>

text \<open>A user id that stands for a service account is stored as that account.\<close>

definition logAudit :: "audit_row \<Rightarrow> (('w, 'z) batch_db_scheme, unit) io" where
  "logAudit params =
     (let a = au_actor params;
          actor = (case ac_userId a of
             Some u \<Rightarrow>
               if take 3 u = ''sa:''
               then a\<lparr>ac_serviceAccountId :=
                        (case ac_serviceAccountId a of Some x \<Rightarrow> Some x | None \<Rightarrow> Some (drop 3 u)),
                      ac_userId := None\<rparr>
               else a
           | None \<Rightarrow> a)
      in writes (\<lambda>s. s\<lparr>bd_audit := bd_audit s @ [params\<lparr>au_actor := actor\<rparr>]\<rparr>))"

definition writeAuditForOp :: "batch_actor \<Rightarrow> ident \<Rightarrow> ident \<Rightarrow> string \<Rightarrow> ident option \<Rightarrow> bool \<Rightarrow> sync_result list \<Rightarrow> string
    \<Rightarrow> bool \<Rightarrow> (('w, 'z) batch_db_scheme, unit) io" where
  "writeAuditForOp actor batchId configFileId configFileName environmentId success results opStatus is_rollback =
     logAudit
       \<lparr>au_action = (if is_rollback then ''sync_files_rollback'' else ''sync_files''), au_resourceType = ''config_file'',
        au_resourceId = configFileId, au_resourceName = Some configFileName,
        au_details = OpDetails batchId results opStatus is_rollback, au_success = success, au_actor = actor,
        au_environmentId = environmentId, au_batchId = Some batchId\<rparr>"

section \<open>Results and replays\<close>

definition parseErrorJson :: "error_column option \<Rightarrow> op_error option" where
  "parseErrorJson raw =
     (case raw of
        None \<Rightarrow> None
      | Some (ErrorJson e) \<Rightarrow> Some e
      | Some (ErrorText t) \<Rightarrow> if t = [] then None else Some \<lparr>oe_code = None, oe_message = t\<rparr>)"

definition batchRowToResult :: "batch_row \<Rightarrow> batch_result" where
  "batchRowToResult row =
     \<lparr>bx_batchId = ba_id row, bx_status = ba_status row,
      bx_operations = map (\<lambda>x. \<lparr>or_index = bo_index x, or_status = bo_status x, or_error = parseErrorJson (bo_error x)\<rparr>)
        (sort_key bo_index (ba_operations row))\<rparr>"

definition key_conflict :: string where
  "key_conflict = ''Idempotency-Key reuse with a different request body''"

definition lookupIdempotentBatch :: "string \<Rightarrow> string \<Rightarrow> (('w, 'z) batch_db_scheme, batch_result option) io" where
  "lookupIdempotentBatch idempotencyKey bodyHash =
     andThen (reads bd_batches) (\<lambda>batches.
     case List.find (\<lambda>b. ba_idempotencyKey b = Some idempotencyKey \<and> ba_idempotencyBodyHash b = Some bodyHash) batches of
       Some sameBody \<Rightarrow> ret (Some (batchRowToResult sameBody))
     | None \<Rightarrow>
         (case List.find (\<lambda>b. ba_idempotencyKey b = Some idempotencyKey \<and>
                  (\<exists>x \<in> set_option (ba_idempotencyBodyHash b). x \<noteq> bodyHash)) batches of
            Some _ \<Rightarrow> throw key_conflict
          | None \<Rightarrow> ret None))"

text \<open>The status as text.\<close>

fun sync_status_text :: "sync_status \<Rightarrow> string" where
  "sync_status_text SyncOk = ''ok''"
| "sync_status_text SyncNoTargets = ''no_targets''"
| "sync_status_text SyncPartial = ''partial''"
| "sync_status_text SyncFailed = ''failed''"

definition summarizeSyncFailure :: "sync_outcome \<Rightarrow> string" where
  "summarizeSyncFailure outcome =
     (let firstErr = Option.bind (List.find (\<lambda>r. \<not> sr_success r \<and> truthy (sr_error r)) (oc_results outcome)) sr_error;
          counts = nat_str (oc_targetsFailed outcome) @ ''/'' @ nat_str (oc_targetsAttempted outcome)
      in if oc_status outcome = SyncNoTargets then
           ''Config file '' @ quoted (oc_configFileName outcome) @ '' is not attached to any service''
         else if oc_status outcome = SyncFailed then
           (case firstErr of
              Some e \<Rightarrow> ''All targets failed: '' @ e
            | None \<Rightarrow> ''All '' @ nat_str (oc_targetsAttempted outcome) @ '' targets failed'')
         else
           (case firstErr of
              Some e \<Rightarrow> counts @ '' targets failed: '' @ e
            | None \<Rightarrow> counts @ '' targets failed''))"

section \<open>Execution\<close>

text \<open>The local variables; \<open>bl_status\<close> and \<open>bl_errors\<close> are \<open>opStatus\<close> and \<open>opErrors\<close>.\<close>

record batch_locals =
  bl_status :: "op_status list"
  bl_errors :: "op_error option list"
  bl_succeeded :: "nat list"
  bl_firstFailure :: "nat option"
  bl_anyRollbackFailed :: bool

text \<open>The points at which config files may have been edited by others since the last look at them.\<close>

datatype batch_point = BeforeSync nat | BeforeRestore nat | BeforeResync nat

type_synonym other_edits = "batch_point \<Rightarrow> config_file list \<Rightarrow> config_file list"

text \<open>What stays fixed after the rows are created: \<open>bc_ops\<close> are the config file and the row id of every operation.\<close>

record 'w batch_ctx =
  bc_edits :: other_edits
  bc_host :: "'w sync_host"
  bc_actor :: batch_actor
  bc_batchId :: ident
  bc_ops :: "(ident \<times> ident) list"
  bc_preload :: "config_file list"

type_synonym ('w, 'z, 'a) batch_io = "(batch_locals \<times> ('w, 'z) batch_db_scheme, 'a) io"

definition batch_now :: "'w batch_ctx \<Rightarrow> ('w, 'z) batch_db_scheme \<Rightarrow> millis" where
  "batch_now c s = now (sy_host (bc_host c)) s"

definition update_op :: "ident \<Rightarrow> (batch_op \<Rightarrow> batch_op) \<Rightarrow> ('w, 'z) batch_db_scheme \<Rightarrow> ('w, 'z) batch_db_scheme" where
  "update_op opId f s =
     s\<lparr>bd_batches := map (\<lambda>b. b\<lparr>ba_operations := update_row bo_id opId f (ba_operations b)\<rparr>) (bd_batches s)\<rparr>"

definition op_row :: "'w batch_ctx \<Rightarrow> nat \<Rightarrow> ident" where
  "op_row c i = snd (bc_ops c ! i)"

definition update_op_row :: "'w batch_ctx \<Rightarrow> nat \<Rightarrow> (millis \<Rightarrow> batch_op \<Rightarrow> batch_op) \<Rightarrow> ('w, 'z, unit) batch_io" where
  "update_op_row c i f = on_store (writes (\<lambda>s. update_op (op_row c i) (f (batch_now c s)) s))"

text \<open>Every status change of an operation is written to its row and mirrored in the locals.\<close>

definition settle_op :: "'w batch_ctx \<Rightarrow> nat \<Rightarrow> (millis \<Rightarrow> batch_op \<Rightarrow> batch_op) \<Rightarrow> (batch_locals \<Rightarrow> batch_locals)
    \<Rightarrow> ('w, 'z, unit) batch_io" where
  "settle_op c i f g = andThen (update_op_row c i f) (\<lambda>_. writes (\<lambda>(l, s). (g l, s)))"

definition set_status :: "nat \<Rightarrow> op_status \<Rightarrow> batch_locals \<Rightarrow> batch_locals" where
  "set_status i st l = l\<lparr>bl_status := (bl_status l)[i := st]\<rparr>"

definition markOpFailed :: "op_error \<Rightarrow> millis \<Rightarrow> batch_op \<Rightarrow> batch_op" where
  "markOpFailed e t x = x\<lparr>bo_status := OpsFailed, bo_error := Some (ErrorJson e), bo_completedAt := Some t\<rparr>"

text \<open>\<open>opStatus[i] = 'failed'; opErrors[i] = e; firstFailureIndex ??= i\<close>\<close>

definition fail_local :: "nat \<Rightarrow> op_error \<Rightarrow> batch_locals \<Rightarrow> batch_locals" where
  "fail_local i e l =
     l\<lparr>bl_status := (bl_status l)[i := OpsFailed], bl_errors := (bl_errors l)[i := Some e],
       bl_firstFailure := (case bl_firstFailure l of None \<Rightarrow> Some i | Some j \<Rightarrow> Some j)\<rparr>"

definition op_failed :: "'w batch_ctx \<Rightarrow> nat \<Rightarrow> op_error \<Rightarrow> ('w, 'z, bool) batch_io" where
  "op_failed c i e = andThen (settle_op c i (markOpFailed e) (fail_local i e)) (\<lambda>_. ret False)"

definition not_found :: op_error where
  "not_found = \<lparr>oe_code = Some ''NOT_FOUND'', oe_message = ''Config file not found''\<rparr>"

definition preloaded :: "'w batch_ctx \<Rightarrow> ident \<Rightarrow> config_file option" where
  "preloaded c configFileId = List.find (\<lambda>cf. cf_id cf = configFileId) (bc_preload c)"

definition audit_op :: "'w batch_ctx \<Rightarrow> ident \<Rightarrow> string \<Rightarrow> ident option \<Rightarrow> bool \<Rightarrow> sync_result list \<Rightarrow> string \<Rightarrow> bool
    \<Rightarrow> ('w, 'z, unit) batch_io" where
  "audit_op c configFileId name env success results status is_rollback =
     on_store (writeAuditForOp (bc_actor c) (bc_batchId c) configFileId name env success results status is_rollback)"

definition interleaved :: "'w batch_ctx \<Rightarrow> batch_point \<Rightarrow> ('w, 'z, unit) batch_io" where
  "interleaved c p = on_store (writes (\<lambda>s. s\<lparr>cd_configFiles := bc_edits c p (cd_configFiles s)\<rparr>))"

text \<open>One operation of the forward loop; the result tells whether it succeeded.\<close>

definition run_op :: "'w batch_ctx \<Rightarrow> nat \<Rightarrow> ident \<Rightarrow> ('w, 'z, bool) batch_io" where
  "run_op c i configFileId =
     (case preloaded c configFileId of
        None \<Rightarrow> op_failed c i not_found
      | Some cf \<Rightarrow>
          andThen (update_op_row c i
                    (\<lambda>_ x. x\<lparr>bo_previousContent := Some (cf_content cf), bo_previousIsBinary := cf_isBinary cf\<rparr>)) (\<lambda>_.
          andThen (interleaved c (BeforeSync i)) (\<lambda>_.
          andThen (trap (on_store (syncConfigFileToAttachedServices (bc_host c) configFileId))) (\<lambda>r.
          case r of
            Inl e \<Rightarrow> op_failed c i \<lparr>oe_code = Some ''INTERNAL'', oe_message = e\<rparr>
          | Inr None \<Rightarrow> op_failed c i not_found
          | Inr (Some outcome) \<Rightarrow>
              if oc_status outcome \<noteq> SyncOk then
                (let e = \<lparr>oe_code = Some (js_upper (sync_status_text (oc_status outcome))),
                          oe_message = summarizeSyncFailure outcome\<rparr> in
                 andThen (settle_op c i (\<lambda>now x. x\<lparr>bo_status := OpsFailed, bo_error := Some (ErrorJson e),
                            bo_results := Some (oc_results outcome), bo_completedAt := Some now\<rparr>) (fail_local i e)) (\<lambda>_.
                 andThen (audit_op c configFileId (oc_configFileName outcome) (Some (oc_environmentId outcome)) False
                            (oc_results outcome) (sync_status_text (oc_status outcome)) False) (\<lambda>_.
                 ret False)))
              else
                andThen (settle_op c i
                          (\<lambda>now x. x\<lparr>bo_status := OpsOk, bo_results := Some (oc_results outcome), bo_completedAt := Some now\<rparr>)
                          (\<lambda>l. l\<lparr>bl_status := (bl_status l)[i := OpsOk], bl_succeeded := bl_succeeded l @ [i]\<rparr>)) (\<lambda>_.
                andThen (audit_op c configFileId (oc_configFileName outcome) (Some (oc_environmentId outcome)) True
                            (oc_results outcome) (sync_status_text (oc_status outcome)) False) (\<lambda>_.
                ret True))))))"

text \<open>The forward loop from operation \<open>i\<close> on; it breaks at a failure when the batch rolls back.\<close>

fun run_ops :: "'w batch_ctx \<Rightarrow> bool \<Rightarrow> nat \<Rightarrow> ident list \<Rightarrow> ('w, 'z, unit) batch_io" where
  "run_ops c rollbackOnFailure i [] = ret ()"
| "run_ops c rollbackOnFailure i (f # fs) =
     andThen (run_op c i f) (\<lambda>ok.
       if \<not> ok \<and> rollbackOnFailure then ret () else run_ops c rollbackOnFailure (i + 1) fs)"

definition skip_op :: "'w batch_ctx \<Rightarrow> nat \<Rightarrow> ('w, 'z, unit) batch_io" where
  "skip_op c i =
     andThen (reads (\<lambda>(l, s). bl_status l ! i)) (\<lambda>st.
     whenever (st = OpsPending)
       (settle_op c i (\<lambda>now x. x\<lparr>bo_status := OpsSkipped, bo_completedAt := Some now\<rparr>) (set_status i OpsSkipped)))"

section \<open>Rollback\<close>

text \<open>\<open>$transaction\<close>: a throw undoes the writes of the body.\<close>

definition transaction :: "('s, 'a) io \<Rightarrow> ('s, 'a) io" where
  "transaction m s = (case m s of (Inl e, _) \<Rightarrow> (Inl e, s) | (Inr x, s') \<Rightarrow> (Inr x, s'))"

text \<open>
  The previous content goes back into the row, the current one into the history, and the usage rows are
  synced with the updated row, which is read without its fragments.
\<close>

definition restore_content :: "'w batch_ctx \<Rightarrow> config_file \<Rightarrow> (('w, 'z) batch_db_scheme, unit) io" where
  "restore_content c cf =
     transaction
       (andThen (reads (find_config (cf_id cf))) (\<lambda>current.
        case current of
          None \<Rightarrow> throw ''No record was found for an update.''
        | Some cur \<Rightarrow>
            (let restored = cur\<lparr>cf_content := cf_content cf, cf_isBinary := cf_isBinary cf\<rparr> in
             andThen (writes (\<lambda>s. s\<lparr>bd_fileHistory := bd_fileHistory s @ [(cf_id cf, cf_content cur, ac_userId (bc_actor c))]\<rparr>)) (\<lambda>_.
             andThen (writes (\<lambda>s. s\<lparr>cd_configFiles := update_row cf_id (cf_id cf)
                        (\<lambda>x. x\<lparr>cf_content := cf_content cf, cf_isBinary := cf_isBinary cf\<rparr>) (cd_configFiles s)\<rparr>)) (\<lambda>_.
             syncUsageForConfigFile [] restored)))))"

definition rollback_failed :: "'w batch_ctx \<Rightarrow> nat \<Rightarrow> string \<Rightarrow> ('w, 'z, unit) batch_io" where
  "rollback_failed c i reason =
     settle_op c i
       (\<lambda>now x. x\<lparr>bo_status := OpsRollbackFailed, bo_rollbackError := Some reason, bo_completedAt := Some now\<rparr>)
       (\<lambda>l. l\<lparr>bl_status := (bl_status l)[i := OpsRollbackFailed], bl_anyRollbackFailed := True\<rparr>)"

definition roll_back_op :: "'w batch_ctx \<Rightarrow> nat \<Rightarrow> ('w, 'z, unit) batch_io" where
  "roll_back_op c i =
     (let configFileId = fst (bc_ops c ! i) in
      case preloaded c configFileId of
        None \<Rightarrow> rollback_failed c i ''Config file vanished before rollback''
      | Some cf \<Rightarrow>
          catching
            (andThen (interleaved c (BeforeRestore i)) (\<lambda>_.
             andThen (on_store (restore_content c cf)) (\<lambda>_.
             andThen (interleaved c (BeforeResync i)) (\<lambda>_.
             andThen (on_store (syncConfigFileToAttachedServices (bc_host c) configFileId)) (\<lambda>restoreOutcome.
             case restoreOutcome of
               None \<Rightarrow>
                 andThen (rollback_failed c i ''Config file not found during rollback'') (\<lambda>_.
                 audit_op c configFileId (cf_name cf) None False [] ''failed'' True)
             | Some oc \<Rightarrow>
                 if oc_status oc \<noteq> SyncOk then
                   andThen (rollback_failed c i (summarizeSyncFailure oc)) (\<lambda>_.
                   audit_op c configFileId (oc_configFileName oc) (Some (oc_environmentId oc)) False (oc_results oc)
                     (sync_status_text (oc_status oc)) True)
                 else
                   andThen (settle_op c i (\<lambda>now x. x\<lparr>bo_status := OpsRolledBack, bo_completedAt := Some now\<rparr>)
                              (set_status i OpsRolledBack)) (\<lambda>_.
                   audit_op c configFileId (oc_configFileName oc) (Some (oc_environmentId oc)) True (oc_results oc)
                     (sync_status_text (oc_status oc)) True))))))
            (rollback_failed c i))"

section \<open>The whole batch\<close>

definition decide_status :: "'w batch_ctx \<Rightarrow> bool \<Rightarrow> nat \<Rightarrow> ('w, 'z, batch_status) batch_io" where
  "decide_status c rollbackOnFailure n =
     andThen (reads fst) (\<lambda>l.
     case bl_firstFailure l of
       None \<Rightarrow> ret BatchOk
     | Some k \<Rightarrow>
         if rollbackOnFailure then
           andThen (for_each (skip_op c) [k + 1..<n]) (\<lambda>_.
           andThen (for_each (roll_back_op c) (rev (bl_succeeded l))) (\<lambda>_.
           reads (\<lambda>(l, s). if bl_anyRollbackFailed l then BatchPartial else BatchRolledBack)))
         else
           ret (if length (filter (\<lambda>st. st = OpsOk) (bl_status l)) = 0 then BatchFailed else BatchPartial))"

definition batch_status_text :: "batch_status \<Rightarrow> string" where
  "batch_status_text st =
     (case st of BatchPending \<Rightarrow> ''pending'' | BatchOk \<Rightarrow> ''ok'' | BatchPartial \<Rightarrow> ''partial''
               | BatchRolledBack \<Rightarrow> ''rolled_back'' | BatchFailed \<Rightarrow> ''failed'')"

definition finish_batch :: "'w batch_ctx \<Rightarrow> ident option \<Rightarrow> batch_status \<Rightarrow> ('w, 'z, batch_result) batch_io" where
  "finish_batch c environmentId status =
     andThen (on_store (writes (\<lambda>s. s\<lparr>bd_batches := update_row ba_id (bc_batchId c)
                (\<lambda>b. b\<lparr>ba_status := status, ba_completedAt := Some (batch_now c s)\<rparr>) (bd_batches s)\<rparr>))) (\<lambda>_.
     andThen (whenever (truthy environmentId)
                (on_store (emit (Webhook ''sync.completed'' (the environmentId)
                   [(''batchId'', Some (bc_batchId c)), (''status'', Some (batch_status_text status)),
                    (''operationCount'', Some (nat_str (length (bc_ops c))))])))) (\<lambda>_.
     reads (\<lambda>(l, s).
       \<lparr>bx_batchId = bc_batchId c, bx_status = status,
        bx_operations = map (\<lambda>i. \<lparr>or_index = i, or_status = bl_status l ! i, or_error = bl_errors l ! i\<rparr>)
          [0..<length (bl_status l)]\<rparr>)))"

text \<open>The environment of the batch: that of the first file that exists; none when two files disagree.\<close>

fun batch_environment :: "config_file list \<Rightarrow> ident list \<Rightarrow> ident option \<Rightarrow> ident option option" where
  "batch_environment preload [] env = Some env"
| "batch_environment preload (f # fs) env =
     (case List.find (\<lambda>cf. cf_id cf = f) preload of
        None \<Rightarrow> batch_environment preload fs env
      | Some cf \<Rightarrow>
          (case env of
             None \<Rightarrow> batch_environment preload fs (Some (cf_environmentId cf))
           | Some e \<Rightarrow> if e \<noteq> cf_environmentId cf then None else batch_environment preload fs env))"

definition unique_violation :: string where
  "unique_violation = ''P2002''"

text \<open>The id of the next batch, and of its operations.\<close>

definition new_batch_id :: "'w sync_host \<Rightarrow> ('w, 'z) batch_db_scheme \<Rightarrow> ident" where
  "new_batch_id sy s = h_newId (sy_host sy) (length (bd_batches s))"

definition new_op_id :: "'w sync_host \<Rightarrow> ('w, 'z) batch_db_scheme \<Rightarrow> nat \<Rightarrow> ident" where
  "new_op_id sy s i = h_newId (sy_host sy) ((\<Sum>b \<leftarrow> bd_batches s. length (ba_operations b)) + i)"

definition new_op :: "ident \<Rightarrow> nat \<Rightarrow> ident \<Rightarrow> op_status \<Rightarrow> error_column option \<Rightarrow> millis option \<Rightarrow> batch_op" where
  "new_op opId index configFileId status err completedAt =
     \<lparr>bo_id = opId, bo_index = index, bo_configFileId = configFileId, bo_status = status, bo_error = err,
      bo_previousContent = None, bo_previousIsBinary = False, bo_results = None, bo_rollbackError = None,
      bo_completedAt = completedAt\<rparr>"

text \<open>\<open>create\<close>, with the unique index on idempotency key and body hash; null keys never collide.\<close>

definition create_batch :: "'w sync_host \<Rightarrow> batch_input \<Rightarrow> ident option \<Rightarrow> (('w, 'z) batch_db_scheme, batch_row) io" where
  "create_batch sy input environmentId s =
     (let row = \<lparr>ba_id = new_batch_id sy s, ba_status = BatchPending,
                 ba_rollbackOnFailure = bi_rollbackOnFailure input, ba_idempotencyKey = bi_idempotencyKey input,
                 ba_idempotencyBodyHash = bi_idempotencyBodyHash input, ba_actor = bi_actor input,
                 ba_environmentId = environmentId, ba_completedAt = None,
                 ba_operations = map (\<lambda>i. new_op (new_op_id sy s i) i (bi_operations input ! i) OpsPending None None)
                   [0..<length (bi_operations input)]\<rparr>
      in if bi_idempotencyKey input \<noteq> None \<and> bi_idempotencyBodyHash input \<noteq> None \<and>
            (\<exists>b \<in> set (bd_batches s). ba_idempotencyKey b = bi_idempotencyKey input \<and>
               ba_idempotencyBodyHash b = bi_idempotencyBodyHash input)
         then (Inl unique_violation, s)
         else (Inr row, s\<lparr>bd_batches := bd_batches s @ [row]\<rparr>))"

definition persistRejectedBatch :: "'w sync_host \<Rightarrow> batch_input \<Rightarrow> string \<Rightarrow> config_file list
    \<Rightarrow> (('w, 'z) batch_db_scheme, batch_result) io" where
  "persistRejectedBatch sy input reason preload =
     andThen (reads (\<lambda>s.
       \<lparr>ba_id = new_batch_id sy s, ba_status = BatchFailed, ba_rollbackOnFailure = bi_rollbackOnFailure input,
        ba_idempotencyKey = None, ba_idempotencyBodyHash = None, ba_actor = bi_actor input,
        ba_environmentId = (case bi_operations input of
             [] \<Rightarrow> None
           | f # _ \<Rightarrow> map_option cf_environmentId (List.find (\<lambda>cf. cf_id cf = f) preload)),
        ba_completedAt = Some (now (sy_host sy) s),
        ba_operations = map (\<lambda>i. new_op (new_op_id sy s i) i (bi_operations input ! i) OpsFailed
             (Some (ErrorJson \<lparr>oe_code = Some ''VALIDATION_ERROR'', oe_message = reason\<rparr>)) (Some (now (sy_host sy) s)))
          [0..<length (bi_operations input)]\<rparr>)) (\<lambda>row.
     andThen (writes (\<lambda>s. s\<lparr>bd_batches := bd_batches s @ [row]\<rparr>)) (\<lambda>_.
     andThen (logAudit
       \<lparr>au_action = ''sync_batch_rejected'', au_resourceType = ''sync_batch'', au_resourceId = ba_id row,
        au_resourceName = None,
        au_details = RejectDetails reason (length (bi_operations input))
          (js_unique (List.map_filter
             (\<lambda>f. map_option cf_environmentId (List.find (\<lambda>cf. cf_id cf = f) preload)) (bi_operations input))),
        au_success = False, au_actor = bi_actor input, au_environmentId = None, au_batchId = Some (ba_id row)\<rparr>) (\<lambda>_.
     ret (batchRowToResult row))))"

definition start_locals :: "nat \<Rightarrow> batch_locals" where
  "start_locals n =
     \<lparr>bl_status = replicate n OpsPending, bl_errors = replicate n None, bl_succeeded = [], bl_firstFailure = None,
      bl_anyRollbackFailed = False\<rparr>"

definition with_locals :: "'l \<Rightarrow> ('l \<times> 's, 'a) io \<Rightarrow> ('s, 'a) io" where
  "with_locals l m s = (case m (l, s) of (r, l', s') \<Rightarrow> (r, s'))"

definition run_batch :: "'w batch_ctx \<Rightarrow> batch_input \<Rightarrow> ident option \<Rightarrow> ('w, 'z, batch_result) batch_io" where
  "run_batch c input environmentId =
     andThen (run_ops c (bi_rollbackOnFailure input) 0 (bi_operations input)) (\<lambda>_.
     andThen (decide_status c (bi_rollbackOnFailure input) (length (bi_operations input)))
       (finish_batch c environmentId))"

definition batch_ctx_of :: "other_edits \<Rightarrow> 'w sync_host \<Rightarrow> batch_input \<Rightarrow> config_file list \<Rightarrow> batch_row \<Rightarrow> 'w batch_ctx" where
  "batch_ctx_of edits sy input preload batch =
     \<lparr>bc_edits = edits, bc_host = sy, bc_actor = bi_actor input, bc_batchId = ba_id batch,
      bc_ops = map (\<lambda>x. (bo_configFileId x, bo_id x)) (ba_operations batch), bc_preload = preload\<rparr>"

definition executeBatch :: "other_edits \<Rightarrow> 'w sync_host \<Rightarrow> batch_input \<Rightarrow> (('w, 'z) batch_db_scheme, batch_result) io" where
  "executeBatch edits sy input =
     andThen (reads (\<lambda>s. filter (\<lambda>cf. cf_id cf \<in> set (bi_operations input)) (cd_configFiles s))) (\<lambda>preload.
     case batch_environment preload (bi_operations input) None of
       None \<Rightarrow> persistRejectedBatch sy input ''Batch spans multiple environments'' preload
     | Some environmentId \<Rightarrow>
         andThen (trap (create_batch sy input environmentId)) (\<lambda>created.
         case created of
           Inl err \<Rightarrow>
             if err = unique_violation \<and> truthy (bi_idempotencyKey input) \<and> truthy (bi_idempotencyBodyHash input) then
               andThen (lookupIdempotentBatch (the (bi_idempotencyKey input)) (the (bi_idempotencyBodyHash input))) (\<lambda>replay.
               case replay of Some x \<Rightarrow> ret x | None \<Rightarrow> throw err)
             else throw err
         | Inr batch \<Rightarrow>
             with_locals (start_locals (length (bi_operations input)))
               (run_batch (batch_ctx_of edits sy input preload batch) input environmentId)))"

section \<open>The rows mirror the locals\<close>

text \<open>A test that picks a batch row by its id or its keys, which nothing changes after the creation.\<close>

definition stable :: "(batch_row \<Rightarrow> bool) \<Rightarrow> bool" where
  "stable Q \<longleftrightarrow> (\<forall>b b'. ba_id b = ba_id b' \<and> ba_idempotencyKey b = ba_idempotencyKey b' \<and>
     ba_idempotencyBodyHash b = ba_idempotencyBodyHash b' \<longrightarrow> Q b = Q b')"

definition op_view :: "batch_op list \<Rightarrow> (ident \<times> nat \<times> op_status \<times> op_error option) list" where
  "op_view ops = map (\<lambda>x. (bo_id x, bo_index x, bo_status x, parseErrorJson (bo_error x))) ops"

definition locals_view :: "'w batch_ctx \<Rightarrow> batch_locals \<Rightarrow> (ident \<times> nat \<times> op_status \<times> op_error option) list" where
  "locals_view c l = map (\<lambda>i. (op_row c i, i, bl_status l ! i, bl_errors l ! i)) [0..<length (bc_ops c)]"

definition mirrored :: "(batch_row \<Rightarrow> bool) \<Rightarrow> 'w batch_ctx \<Rightarrow> batch_locals \<times> ('w, 'z) batch_db_scheme \<Rightarrow> bool" where
  "mirrored Q c x \<longleftrightarrow> (case x of (l, s) \<Rightarrow>
     length (bl_status l) = length (bc_ops c) \<and> length (bl_errors l) = length (bc_ops c) \<and>
     (\<forall>i \<in> set (bl_succeeded l). i < length (bc_ops c)) \<and>
     (\<exists>row. List.find Q (bd_batches s) = Some row \<and> ba_id row = bc_batchId c \<and>
        op_view (ba_operations row) = locals_view c l))"

lemma stable_rule:
  "stable Q \<Longrightarrow> ba_id b = ba_id b' \<Longrightarrow> ba_idempotencyKey b = ba_idempotencyKey b' \<Longrightarrow>
     ba_idempotencyBodyHash b = ba_idempotencyBodyHash b' \<Longrightarrow> Q b = Q b'"
  unfolding stable_def by blast

lemma stableD:
  "stable Q \<Longrightarrow> Q (b\<lparr>ba_operations := ops\<rparr>) = Q b"
  "stable Q \<Longrightarrow> Q (b\<lparr>ba_status := st, ba_completedAt := t\<rparr>) = Q b"
  by (rule stable_rule; simp)+

lemma find_update_op:
  "stable Q \<Longrightarrow> List.find Q (bd_batches (update_op opId f s)) =
     map_option (\<lambda>b. b\<lparr>ba_operations := update_row bo_id opId f (ba_operations b)\<rparr>) (List.find Q (bd_batches s))"
  by (simp add: update_op_def find_map_stable stableD)

lemma op_view_keys: "op_view ops = locals_view c l \<Longrightarrow> map bo_id ops = map snd (bc_ops c)"
proof -
  assume "op_view ops = locals_view c l"
  then have "map fst (op_view ops) = map fst (locals_view c l)" by simp
  moreover have "map fst (op_view ops) = map bo_id ops" by (simp add: op_view_def)
  moreover have "map fst (locals_view c l) = map snd (bc_ops c)"
    by (rule nth_equalityI) (simp_all add: locals_view_def op_row_def)
  ultimately show ?thesis by simp
qed

lemma op_view_nth:
  assumes "op_view ops = locals_view c l" and "i < length (bc_ops c)"
  shows "length ops = length (bc_ops c)" and "bo_id (ops ! i) = op_row c i" and "bo_index (ops ! i) = i"
    and "bo_status (ops ! i) = bl_status l ! i" and "parseErrorJson (bo_error (ops ! i)) = bl_errors l ! i"
proof -
  show len: "length ops = length (bc_ops c)" using arg_cong [OF assms(1), of length] by (simp add: op_view_def locals_view_def)
  have "op_view ops ! i = locals_view c l ! i" by (simp add: assms(1))
  with assms(2) len show "bo_id (ops ! i) = op_row c i" "bo_index (ops ! i) = i" "bo_status (ops ! i) = bl_status l ! i"
    "parseErrorJson (bo_error (ops ! i)) = bl_errors l ! i"
    by (simp_all add: op_view_def locals_view_def)
qed

text \<open>How an update of a row and an update of the locals match.\<close>

definition matches :: "nat \<Rightarrow> (millis \<Rightarrow> batch_op \<Rightarrow> batch_op) \<Rightarrow> (batch_locals \<Rightarrow> batch_locals) \<Rightarrow> bool" where
  "matches i f g \<longleftrightarrow> (\<forall>t x. bo_id (f t x) = bo_id x \<and> bo_index (f t x) = bo_index x) \<and>
     (\<forall>l. (\<forall>j \<in> set (bl_succeeded (g l)). j \<in> set (bl_succeeded l) \<or> j = i) \<and>
        (\<exists>st e. bl_status (g l) = (bl_status l)[i := st] \<and> bl_errors (g l) = (bl_errors l)[i := e] \<and>
           (\<forall>t x. bo_status x = bl_status l ! i \<longrightarrow> parseErrorJson (bo_error x) = bl_errors l ! i \<longrightarrow>
              bo_status (f t x) = st \<and> parseErrorJson (bo_error (f t x)) = e)))"

lemma mirrored_update:
  assumes "stable Q" and "distinct (map snd (bc_ops c))" and i: "i < length (bc_ops c)" and "matches i f g"
    and "mirrored Q c (l, s)"
  shows "mirrored Q c (g l, update_op (op_row c i) (f t) s)"
proof -
  from assms(5) obtain row where row: "List.find Q (bd_batches s) = Some row" "ba_id row = bc_batchId c"
    and view: "op_view (ba_operations row) = locals_view c l"
    and len: "length (bl_status l) = length (bc_ops c)" "length (bl_errors l) = length (bc_ops c)"
    and succ: "\<forall>i \<in> set (bl_succeeded l). i < length (bc_ops c)"
    by (auto simp: mirrored_def)
  let ?ops = "ba_operations row"
  note at = op_view_nth [OF view]
  from assms(4) obtain st e where g: "bl_status (g l) = (bl_status l)[i := st]" "bl_errors (g l) = (bl_errors l)[i := e]"
    and f: "\<And>t x. bo_status x = bl_status l ! i \<Longrightarrow> parseErrorJson (bo_error x) = bl_errors l ! i \<Longrightarrow>
        bo_status (f t x) = st \<and> parseErrorJson (bo_error (f t x)) = e"
    and keep: "\<And>t x. bo_id (f t x) = bo_id x \<and> bo_index (f t x) = bo_index x"
    and sg: "\<forall>j \<in> set (bl_succeeded (g l)). j \<in> set (bl_succeeded l) \<or> j = i"
    unfolding matches_def by metis
  have "update_row bo_id (op_row c i) (f t) ?ops = ?ops[i := f t (?ops ! i)]"
    by (rule update_row_nth) (use assms(2) op_view_keys [OF view] at i in simp_all)
  moreover have "op_view (?ops[i := f t (?ops ! i)]) = locals_view c (g l)"
  proof (rule nth_equalityI)
    show "length (op_view (?ops[i := f t (?ops ! i)])) = length (locals_view c (g l))"
      using at(1) [OF i] by (simp add: op_view_def locals_view_def)
    fix j assume "j < length (op_view (?ops[i := f t (?ops ! i)]))"
    then have j: "j < length (bc_ops c)" using at(1) [OF i] by (simp add: op_view_def)
    show "op_view (?ops[i := f t (?ops ! i)]) ! j = locals_view c (g l) ! j"
      using at(1) [OF i] at(2-5) [OF j] f [OF at(4) [OF i] at(5) [OF i], of t] keep [of t "?ops ! i"] j g len
      by (cases "j = i") (simp_all add: op_view_def locals_view_def)
  qed
  ultimately show ?thesis
    using row len g succ sg i find_update_op [OF assms(1), of "op_row c i" "f t" s]
    by (auto simp: mirrored_def)
qed

lemma matches_intros:
  "matches i (markOpFailed e) (fail_local i e)"
  "matches i (\<lambda>t x. x\<lparr>bo_status := OpsFailed, bo_error := Some (ErrorJson e), bo_results := r, bo_completedAt := Some t\<rparr>)
     (fail_local i e)"
  by (auto simp: matches_def markOpFailed_def fail_local_def parseErrorJson_def)

lemma matches_status:
  assumes "\<And>t x. bo_id (f t x) = bo_id x \<and> bo_index (f t x) = bo_index x \<and> bo_status (f t x) = st \<and> bo_error (f t x) = bo_error x"
    and "\<And>l. bl_status (g l) = (bl_status l)[i := st] \<and> bl_errors (g l) = bl_errors l \<and>
       (\<forall>j \<in> set (bl_succeeded (g l)). j \<in> set (bl_succeeded l) \<or> j = i)"
  shows "matches i f g"
  unfolding matches_def
proof (intro conjI allI)
  fix l
  show "\<exists>st e. bl_status (g l) = (bl_status l)[i := st] \<and> bl_errors (g l) = (bl_errors l)[i := e] \<and>
           (\<forall>t x. bo_status x = bl_status l ! i \<longrightarrow> parseErrorJson (bo_error x) = bl_errors l ! i \<longrightarrow>
              bo_status (f t x) = st \<and> parseErrorJson (bo_error (f t x)) = e)"
    using assms by (intro exI [of _ st] exI [of _ "bl_errors l ! i"]) simp
qed (use assms in auto)

lemma matches_snapshot: "matches i (\<lambda>_ x. x\<lparr>bo_previousContent := a, bo_previousIsBinary := b\<rparr>) (\<lambda>l. l)"
  unfolding matches_def
proof (intro conjI allI)
  fix l
  show "\<exists>st e. bl_status l = (bl_status l)[i := st] \<and> bl_errors l = (bl_errors l)[i := e] \<and>
     (\<forall>(t :: millis) x. bo_status x = bl_status l ! i \<longrightarrow> parseErrorJson (bo_error x) = bl_errors l ! i \<longrightarrow>
        bo_status (x\<lparr>bo_previousContent := a, bo_previousIsBinary := b\<rparr>) = st \<and>
        parseErrorJson (bo_error (x\<lparr>bo_previousContent := a, bo_previousIsBinary := b\<rparr>)) = e)"
    by (intro exI [of _ "bl_status l ! i"] exI [of _ "bl_errors l ! i"]) simp
qed simp_all

lemma update_op_row_eval: "update_op_row c i f (l, s) = (Inr (), l, update_op (op_row c i) (f (batch_now c s)) s)"
  by (simp add: update_op_row_def on_store_def io_simps)

lemma settle_op_eval: "settle_op c i f g (l, s) = (Inr (), g l, update_op (op_row c i) (f (batch_now c s)) s)"
  by (simp add: settle_op_def andThen_def update_op_row_eval io_simps)

text \<open>Code that touches neither the batch rows nor the locals.\<close>

lemma mirrored_frame:
  assumes "keeps bd_batches m"
  shows "preserves (mirrored Q c) (on_store m)"
  by (rule preserves_on_store, rule preserves_keeps [OF assms]) (simp add: mirrored_def)

lemma batches_frame: "sync_frame s' = sync_frame s \<Longrightarrow> bd_batches s' = bd_batches s"
  by (cases s; cases s'; simp add: sync_frame_def)

lemma keeps_batches [keeps_intros]:
  "keeps bd_batches (syncConfigFileToAttachedServices sy i)" "keeps bd_batches (logAudit a)"
  "keeps bd_batches (syncUsageForConfigFile fragments cf)" "keeps bd_batches (emit e)"
proof -
  show "keeps bd_batches (syncConfigFileToAttachedServices sy i)"
    by (rule keeps_weaken [OF keeps_sync batches_frame])
  show "keeps bd_batches (logAudit a)"
    unfolding logAudit_def Let_def by (intro keeps_intros) simp
  show "keeps bd_batches (syncUsageForConfigFile fragments cf)"
    unfolding syncUsageForConfigFile_def syncSecretUsageForConfigFile_def syncVarUsageForConfigFile_def
    by (intro keeps_intros) simp_all
  show "keeps bd_batches (emit e)" by (intro keeps_intros) simp
qed

lemma keeps_transaction [keeps_intros]: "keeps f m \<Longrightarrow> keeps f (transaction m)"
  by (auto simp: keeps_def transaction_def split: prod.split sum.split) (metis snd_conv)

lemma preserves_transaction [preserves_intros]: "preserves I m \<Longrightarrow> preserves I (transaction m)"
  by (auto simp: preserves_def transaction_def split: prod.split sum.split)

lemma keeps_batches_restore: "keeps bd_batches (restore_content c cf)"
  unfolding restore_content_def Let_def by (intro keeps_intros) simp_all

lemma preserves_audit: "preserves (mirrored Q c) (audit_op c' f n e su rs st b)"
  unfolding audit_op_def writeAuditForOp_def by (intro mirrored_frame keeps_batches)

lemma mirrored_interleaved: "preserves (mirrored Q c) (interleaved c' p)"
  unfolding interleaved_def by (intro mirrored_frame keeps_writes) simp

definition tracks :: "(batch_row \<Rightarrow> bool) \<Rightarrow> 'w batch_ctx \<Rightarrow> bool" where
  "tracks Q c \<longleftrightarrow> stable Q \<and> distinct (map snd (bc_ops c))"

lemma mirrored_settle:
  "tracks Q c \<Longrightarrow> i < length (bc_ops c) \<Longrightarrow> matches i f g \<Longrightarrow> preserves (mirrored Q c) (settle_op c i f g)"
  by (rule preservesI) (auto simp: settle_op_eval tracks_def intro: mirrored_update)

lemma mirrored_snapshot:
  "tracks Q c \<Longrightarrow> i < length (bc_ops c) \<Longrightarrow>
     preserves (mirrored Q c) (update_op_row c i (\<lambda>_ x. x\<lparr>bo_previousContent := a, bo_previousIsBinary := b\<rparr>))"
  by (rule preservesI) (auto simp: update_op_row_eval tracks_def intro: mirrored_update [OF _ _ _ matches_snapshot])

lemma mirrored_failed:
  "tracks Q c \<Longrightarrow> i < length (bc_ops c) \<Longrightarrow> preserves (mirrored Q c) (op_failed c i e)"
  unfolding op_failed_def by (intro preserves_intros mirrored_settle matches_intros)

lemma mirrored_run_op: "tracks Q c \<Longrightarrow> i < length (bc_ops c) \<Longrightarrow> preserves (mirrored Q c) (run_op c i f)"
  unfolding run_op_def Let_def
  by (intro preserves_intros mirrored_settle mirrored_snapshot mirrored_failed preserves_audit mirrored_interleaved mirrored_frame
      keeps_batches matches_intros matches_status) (simp_all add: set_status_def)

lemma mirrored_run_ops:
  "tracks Q c \<Longrightarrow> i + length fs \<le> length (bc_ops c) \<Longrightarrow> preserves (mirrored Q c) (run_ops c rb i fs)"
  by (induction fs arbitrary: i) (auto intro!: preserves_intros mirrored_run_op)

lemma mirrored_skip: "tracks Q c \<Longrightarrow> i < length (bc_ops c) \<Longrightarrow> preserves (mirrored Q c) (skip_op c i)"
  unfolding skip_op_def by (intro preserves_intros mirrored_settle matches_status) (simp_all add: set_status_def)

lemma mirrored_rollback_failed:
  "tracks Q c \<Longrightarrow> i < length (bc_ops c) \<Longrightarrow> preserves (mirrored Q c) (rollback_failed c i reason)"
  unfolding rollback_failed_def by (intro mirrored_settle matches_status) simp_all

lemma mirrored_roll_back: "tracks Q c \<Longrightarrow> i < length (bc_ops c) \<Longrightarrow> preserves (mirrored Q c) (roll_back_op c i)"
  unfolding roll_back_op_def Let_def
  by (intro preserves_intros mirrored_settle mirrored_rollback_failed preserves_audit mirrored_interleaved mirrored_frame keeps_batches
      keeps_batches_restore matches_status) (simp_all add: set_status_def)

lemma mirrored_decide: "tracks Q c \<Longrightarrow> n \<le> length (bc_ops c) \<Longrightarrow> preserves (mirrored Q (c :: 'w batch_ctx)) (decide_status c rb n)"
proof (rule preservesI)
  fix x :: "batch_locals \<times> ('w, 'b) batch_db_scheme"
  assume t: "tracks Q c" and n: "n \<le> length (bc_ops c)" and m: "mirrored Q c x"
  obtain l s where x: "x = (l, s)" by (cases x)
  from m x have succ: "\<forall>i \<in> set (bl_succeeded l). i < length (bc_ops c)" by (simp add: mirrored_def)
  let ?rest = "\<lambda>l. case bl_firstFailure l of
       None \<Rightarrow> ret BatchOk
     | Some k \<Rightarrow>
         if rb then
           andThen (for_each (skip_op c) [k + 1..<n]) (\<lambda>_.
           andThen (for_each (roll_back_op c) (rev (bl_succeeded l))) (\<lambda>_.
           reads (\<lambda>(l, s :: ('w, 'b) batch_db_scheme). if bl_anyRollbackFailed l then BatchPartial else BatchRolledBack)))
         else
           ret (if length (filter (\<lambda>st. st = OpsOk) (bl_status l)) = 0 then BatchFailed else BatchPartial)"
  have kept: "preserves (mirrored Q c) (?rest l)"
    by (intro preserves_intros mirrored_skip mirrored_roll_back t) (use n succ in auto)
  have eq: "decide_status c rb n x = ?rest l x" by (simp only: decide_status_def x andThen_state fst_conv)
  show "mirrored Q c (snd (decide_status c rb n x))"
    unfolding eq using kept m unfolding preserves_def by blast
qed

lemma find_append_absent: "\<forall>x \<in> set xs. \<not> P x \<Longrightarrow> List.find P (xs @ ys) = List.find P ys"
  by (induction xs) auto

definition created_row :: "'w sync_host \<Rightarrow> batch_input \<Rightarrow> ident option \<Rightarrow> ('w, 'z) batch_db_scheme \<Rightarrow> batch_row" where
  "created_row sy input env s =
     \<lparr>ba_id = new_batch_id sy s, ba_status = BatchPending,
      ba_rollbackOnFailure = bi_rollbackOnFailure input, ba_idempotencyKey = bi_idempotencyKey input,
      ba_idempotencyBodyHash = bi_idempotencyBodyHash input, ba_actor = bi_actor input, ba_environmentId = env,
      ba_completedAt = None,
      ba_operations = map (\<lambda>i. new_op (new_op_id sy s i) i (bi_operations input ! i) OpsPending None None)
        [0..<length (bi_operations input)]\<rparr>"

lemma create_batch_ok:
  assumes "create_batch sy input env s = (Inr row, s')"
  shows "row = created_row sy input env s" and "s' = s\<lparr>bd_batches := bd_batches s @ [row]\<rparr>"
  using assms by (auto simp: create_batch_def created_row_def Let_def split: if_splits)

lemma created_mirrored:
  assumes inj: "inj (h_newId (sy_host sy))" and "row = created_row sy input env s" and "stable Q"
    and "\<forall>b \<in> set (bd_batches s). \<not> Q b" and "Q row"
  shows "tracks Q (batch_ctx_of edits sy input preload row)"
    and "mirrored Q (batch_ctx_of edits sy input preload row)
      (start_locals (length (bi_operations input)), s\<lparr>bd_batches := bd_batches s @ [row]\<rparr>)"
proof -
  let ?c = "batch_ctx_of edits sy input preload row" and ?n = "length (bi_operations input)"
  have ops: "map snd (bc_ops ?c) = map (new_op_id sy s) [0..<?n]" and len: "length (bc_ops ?c) = ?n"
    by (simp_all add: batch_ctx_of_def assms(2) created_row_def new_op_def)
  have "inj_on (new_op_id sy s) (set [0..<?n])"
    using injD [OF inj] by (fastforce simp: inj_on_def new_op_id_def)
  with ops assms(3) show "tracks Q ?c" by (simp add: tracks_def distinct_map)
  have "List.find Q (bd_batches s @ [row]) = Some row"
    using find_append_absent [OF assms(4), of "[row]"] assms(5) by simp
  moreover have "op_view (ba_operations row) = locals_view ?c (start_locals ?n)"
    by (rule nth_equalityI)
       (simp_all add: op_view_def locals_view_def batch_ctx_of_def assms(2) created_row_def new_op_def start_locals_def
          op_row_def parseErrorJson_def)
  ultimately show "mirrored Q ?c (start_locals ?n, s\<lparr>bd_batches := bd_batches s @ [row]\<rparr>)"
    using len by (simp add: mirrored_def start_locals_def batch_ctx_of_def)
qed

lemma finish_batch_result:
  assumes run: "finish_batch c env status (l, s) = (Inr res, l', s')" and m: "mirrored Q c (l, s)" and "stable Q"
  obtains row where "List.find Q (bd_batches s') = Some row" "batchRowToResult row = res"
proof -
  from m obtain row where row: "List.find Q (bd_batches s) = Some row" "ba_id row = bc_batchId c"
    and view: "op_view (ba_operations row) = locals_view c l"
    and len: "length (bl_status l) = length (bc_ops c)"
    by (auto simp: mirrored_def)
  let ?row = "row\<lparr>ba_status := status, ba_completedAt := Some (batch_now c s)\<rparr>"
  have s': "bd_batches s' = update_row ba_id (bc_batchId c)
      (\<lambda>b. b\<lparr>ba_status := status, ba_completedAt := Some (batch_now c s)\<rparr>) (bd_batches s)"
    and res: "res = \<lparr>bx_batchId = bc_batchId c, bx_status = status,
        bx_operations = map (\<lambda>i. \<lparr>or_index = i, or_status = bl_status l ! i, or_error = bl_errors l ! i\<rparr>)
          [0..<length (bl_status l)]\<rparr>"
    using run by (auto simp: finish_batch_def andThen_def on_store_def whenever_def emit_def io_simps split: if_splits)
  have "List.find Q (bd_batches s') = Some ?row"
    unfolding s' update_row_def using row
    by (subst find_map_stable) (auto simp: stableD [OF assms(3)])
  moreover have "batchRowToResult ?row = res"
  proof -
    have "map bo_index (ba_operations row) = [0..<length (bc_ops c)]"
      using arg_cong [OF view, of "map (fst \<circ> snd)"] by (simp add: op_view_def locals_view_def comp_def)
    then have sorted: "sort_key bo_index (ba_operations row) = ba_operations row"
      by (intro sort_key_id_if_sorted) simp
    have "map (\<lambda>(_, i, st, e). \<lparr>or_index = i, or_status = st, or_error = e\<rparr>) (op_view (ba_operations row)) =
        map (\<lambda>(_, i, st, e). \<lparr>or_index = i, or_status = st, or_error = e\<rparr>) (locals_view c l)"
      by (simp add: view)
    then show ?thesis
      by (simp add: batchRowToResult_def res row(2) sorted len op_view_def locals_view_def comp_def)
  qed
  ultimately show thesis by (rule that)
qed

text \<open>A batch that was executed under an idempotency key is replayed exactly: a later lookup with the same
  key and body returns the result that the execution returned, status, per-operation outcomes and
  errors included, whether the batch succeeded, failed in part or was rolled back.\<close>

theorem batch_replays:
  assumes "inj (h_newId (sy_host sy))"
    and "\<forall>b \<in> set (bd_batches s). \<not> (ba_idempotencyKey b = Some k \<and> ba_idempotencyBodyHash b = Some hash)"
    and "bi_idempotencyKey input = Some k" and "bi_idempotencyBodyHash input = Some hash"
    and "batch_environment (filter (\<lambda>cf. cf_id cf \<in> set (bi_operations input)) (cd_configFiles s)) (bi_operations input) None \<noteq> None"
    and run: "executeBatch edits sy input s = (Inr res, s')"
  shows "lookupIdempotentBatch k hash s' = (Inr (Some res), s')"
proof -
  let ?Q = "\<lambda>b. ba_idempotencyKey b = Some k \<and> ba_idempotencyBodyHash b = Some hash"
  let ?preload = "filter (\<lambda>cf. cf_id cf \<in> set (bi_operations input)) (cd_configFiles s)"
  let ?n = "length (bi_operations input)"
  from assms(5) obtain env where env: "batch_environment ?preload (bi_operations input) None = Some env" by auto
  let ?row = "created_row sy input env s"
  let ?c = "batch_ctx_of edits sy input ?preload ?row" and ?s1 = "s\<lparr>bd_batches := bd_batches s @ [?row]\<rparr>"
  have "create_batch sy input env s = (Inr ?row, ?s1)"
    using assms(2-4) by (auto simp: create_batch_def created_row_def Let_def)
  with run env have wl: "with_locals (start_locals ?n) (run_batch ?c input env) ?s1 = (Inr res, s')"
    by (simp add: executeBatch_def io_simps andThen_def trap_def)
  have st: "stable ?Q" by (auto simp: stable_def)
  have q: "?Q ?row" by (simp add: created_row_def assms(3,4))
  note start = created_mirrored [OF assms(1) refl st assms(2) q, where preload = ?preload]
  from wl obtain l' where rb: "run_batch ?c input env (start_locals ?n, ?s1) = (Inr res, l', s')"
    by (auto simp: with_locals_def split: prod.splits)
  then obtain u x1 status x2 where ops: "run_ops ?c (bi_rollbackOnFailure input) 0 (bi_operations input) (start_locals ?n, ?s1) = (Inr u, x1)"
    and dec: "decide_status ?c (bi_rollbackOnFailure input) ?n x1 = (Inr status, x2)"
    and fin: "finish_batch ?c env status x2 = (Inr res, l', s')"
    unfolding run_batch_def by (auto elim!: andThen_InrE)
  have len: "length (bc_ops ?c) = ?n" by (simp add: batch_ctx_of_def created_row_def)
  have "mirrored ?Q ?c x1" by (rule preservesD [OF mirrored_run_ops [OF start(1)] start(2) ops]) (simp add: len)
  moreover have "preserves (mirrored ?Q ?c) (decide_status ?c (bi_rollbackOnFailure input) ?n)"
    by (rule mirrored_decide [OF start(1)]) (simp add: len)
  ultimately have m2: "mirrored ?Q ?c x2" using dec by (blast dest: preservesD)
  obtain l2 s2 where x2: "x2 = (l2, s2)" by (cases x2)
  obtain row where "List.find ?Q (bd_batches s') = Some row" "batchRowToResult row = res"
    by (rule finish_batch_result [OF fin [unfolded x2] m2 [unfolded x2] st])
  then show ?thesis by (simp add: lookupIdempotentBatch_def io_simps)
qed

section \<open>The verdict\<close>

text \<open>What a batch of operations with these statuses ends as: all ran and succeeded; or, with rollback, one failed,
  those before it were taken back and those behind it skipped; or, without, all ran and some failed.\<close>

definition verdict :: "bool \<Rightarrow> op_status list \<Rightarrow> batch_status \<Rightarrow> bool" where
  "verdict rollbackOnFailure sts st \<longleftrightarrow>
     set sts \<subseteq> {OpsOk} \<and> st = BatchOk \<or>
     rollbackOnFailure \<and> (\<exists>before skipped. sts = before @ OpsFailed # skipped \<and>
        set before \<subseteq> {OpsRolledBack, OpsRollbackFailed} \<and> set skipped \<subseteq> {OpsSkipped} \<and>
        st = (if OpsRollbackFailed \<in> set before then BatchPartial else BatchRolledBack)) \<or>
     \<not> rollbackOnFailure \<and> OpsFailed \<in> set sts \<and> set sts \<subseteq> {OpsOk, OpsFailed} \<and>
        st = (if OpsOk \<in> set sts then BatchPartial else BatchFailed)"

lemma on_store_eval: "on_store m (l, s) = (fst (m s), l, snd (m s))"
  by (simp add: on_store_def split: prod.split)

lemma audit_op_eval:
  "audit_op c f n e ok rs st b (l, s) =
     (Inr (), l, snd (writeAuditForOp (bc_actor c) (bc_batchId c) f n e ok rs st b s))"
  by (simp add: audit_op_def writeAuditForOp_def logAudit_def Let_def on_store_eval io_simps)

lemma interleaved_eval:
  "interleaved c p (l, s) = (Inr (), l, s\<lparr>cd_configFiles := bc_edits c p (cd_configFiles s)\<rparr>)"
  by (simp add: interleaved_def on_store_eval io_simps)

lemma run_op_locals:
  obtains (ok) s' where "run_op c i f (l, s) = (Inr True,
      l\<lparr>bl_status := (bl_status l)[i := OpsOk], bl_succeeded := bl_succeeded l @ [i]\<rparr>, s')"
  | (failed) e s' where "run_op c i f (l, s) = (Inr False, fail_local i e l, s')"
proof (cases "preloaded c f")
  case None
  then show thesis
    by (intro failed) (simp add: run_op_def op_failed_def andThen_def settle_op_eval io_simps)
next
  case (Some cf)
  obtain s1 where snap: "update_op_row c i (\<lambda>_ x. x\<lparr>bo_previousContent := Some (cf_content cf), bo_previousIsBinary := cf_isBinary cf\<rparr>)
      (l, s) = (Inr (), l, s1)" by (simp add: update_op_row_eval)
  let ?s1 = "s1\<lparr>cd_configFiles := bc_edits c (BeforeSync i) (cd_configFiles s1)\<rparr>"
  obtain r s2 where sync: "syncConfigFileToAttachedServices (bc_host c) f ?s1 = (r, s2)"
    by (cases "syncConfigFileToAttachedServices (bc_host c) f ?s1")
  show thesis
  proof (cases r)
    case (Inl e)
    then show thesis
      by (intro failed) (simp add: run_op_def Some andThen_def snap interleaved_eval trap_def on_store_eval sync op_failed_def settle_op_eval io_simps)
  next
    case r: (Inr x)
    show thesis
    proof (cases x)
      case None
      then show thesis
        by (intro failed) (simp add: run_op_def Some r andThen_def snap interleaved_eval trap_def on_store_eval sync op_failed_def settle_op_eval io_simps)
    next
      case x: (Some oc)
      show thesis
      proof (cases "oc_status oc = SyncOk")
        case True
        then show thesis
          by (intro ok) (simp add: run_op_def Some r x andThen_def snap interleaved_eval trap_def on_store_eval sync settle_op_eval audit_op_eval io_simps)
      next
        case False
        then show thesis
          by (intro failed) (simp add: run_op_def Some r x andThen_def snap interleaved_eval trap_def on_store_eval sync settle_op_eval audit_op_eval Let_def io_simps)
      qed
    qed
  qed
qed

lemma rollback_failed_eval:
  "rollback_failed c i reason (l, s) =
     (Inr (), l\<lparr>bl_status := (bl_status l)[i := OpsRollbackFailed], bl_anyRollbackFailed := True\<rparr>,
      snd (snd (rollback_failed c i reason (l, s))))"
  by (simp add: rollback_failed_def settle_op_eval)

text \<open>Both ways a rollback of an operation ends.\<close>

lemma roll_back_op_locals:
  obtains (done_) s' where "roll_back_op c i (l, s) = (Inr (), set_status i OpsRolledBack l, s')"
  | (failed) s' where "roll_back_op c i (l, s) =
      (Inr (), l\<lparr>bl_status := (bl_status l)[i := OpsRollbackFailed], bl_anyRollbackFailed := True\<rparr>, s')"
proof (cases "preloaded c (fst (bc_ops c ! i))")
  case None
  then show thesis by (intro failed) (simp add: roll_back_op_def Let_def, rule rollback_failed_eval)
next
  case (Some cf)
  let ?f = "fst (bc_ops c ! i)"
  let ?s = "s\<lparr>cd_configFiles := bc_edits c (BeforeRestore i) (cd_configFiles s)\<rparr>"
  obtain r1 s1 where restore: "restore_content c cf ?s = (r1, s1)" by (cases "restore_content c cf ?s")
  show thesis
  proof (cases r1)
    case (Inl e)
    then show thesis
      by (intro failed)
         (simp add: roll_back_op_def Let_def Some catching_def andThen_def interleaved_eval on_store_eval restore, rule rollback_failed_eval)
  next
    case r1: (Inr u)
    let ?s1 = "s1\<lparr>cd_configFiles := bc_edits c (BeforeResync i) (cd_configFiles s1)\<rparr>"
    obtain r2 s2 where sync: "syncConfigFileToAttachedServices (bc_host c) ?f ?s1 = (r2, s2)"
      by (cases "syncConfigFileToAttachedServices (bc_host c) ?f ?s1")
    note run = roll_back_op_def Let_def Some catching_def andThen_def interleaved_eval on_store_eval restore r1 sync audit_op_eval
    show thesis
    proof (cases r2)
      case (Inl e)
      then show thesis by (intro failed) (simp add: run, rule rollback_failed_eval)
    next
      case r2: (Inr x)
      show thesis
      proof (cases x)
        case None
        then show thesis by (intro failed) (simp add: run r2 rollback_failed_def settle_op_eval)
      next
        case x: (Some oc)
        show thesis
        proof (cases "oc_status oc = SyncOk")
          case True
          then show thesis by (intro done_) (simp add: run r2 x settle_op_eval)
        next
          case False
          then show thesis by (intro failed) (simp add: run r2 x rollback_failed_def settle_op_eval)
        qed
      qed
    qed
  qed
qed

lemma skip_op_locals:
  obtains s' where "skip_op c i (l, s) = (Inr (), if bl_status l ! i = OpsPending then set_status i OpsSkipped l else l, s')"
  by (cases "bl_status l ! i = OpsPending") (simp_all add: skip_op_def io_simps whenever_def settle_op_eval)

text \<open>The forward loop without and with rollback.\<close>

lemma run_ops_best_effort:
  assumes "bl_status l = xs @ replicate (length fs) OpsPending" and "length xs = i" and "set xs \<subseteq> {OpsOk, OpsFailed}"
    and "bl_firstFailure l = None \<longleftrightarrow> OpsFailed \<notin> set xs"
  shows "\<exists>l' s'. run_ops c False i fs (l, s) = (Inr (), l', s') \<and> length (bl_status l') = i + length fs \<and>
    set (bl_status l') \<subseteq> {OpsOk, OpsFailed} \<and> (bl_firstFailure l' = None \<longleftrightarrow> OpsFailed \<notin> set (bl_status l'))"
  using assms
proof (induction fs arbitrary: l s xs i)
  case Nil
  then show ?case by (simp add: io_simps)
next
  case (Cons f fs)
  show ?case
  proof (cases rule: run_op_locals [of c i f l s])
    case (ok s1)
    have "\<exists>l' s'. run_ops c False (i + 1) fs (l\<lparr>bl_status := (bl_status l)[i := OpsOk], bl_succeeded := bl_succeeded l @ [i]\<rparr>, s1)
        = (Inr (), l', s') \<and> length (bl_status l') = i + 1 + length fs \<and>
      set (bl_status l') \<subseteq> {OpsOk, OpsFailed} \<and> (bl_firstFailure l' = None \<longleftrightarrow> OpsFailed \<notin> set (bl_status l'))"
      by (rule Cons.IH [of _ "xs @ [OpsOk]"]) (use Cons.prems in \<open>simp_all add: list_update_append\<close>)
    with ok show ?thesis by (simp add: andThen_def)
  next
    case (failed e s1)
    have "\<exists>l' s'. run_ops c False (i + 1) fs (fail_local i e l, s1)
        = (Inr (), l', s') \<and> length (bl_status l') = i + 1 + length fs \<and>
      set (bl_status l') \<subseteq> {OpsOk, OpsFailed} \<and> (bl_firstFailure l' = None \<longleftrightarrow> OpsFailed \<notin> set (bl_status l'))"
      by (rule Cons.IH [of _ "xs @ [OpsFailed]"])
         (use Cons.prems in \<open>simp_all add: list_update_append fail_local_def split: option.split\<close>)
    with failed show ?thesis by (simp add: andThen_def)
  qed
qed

lemma run_ops_rollback:
  assumes "bl_status l = replicate i OpsOk @ replicate (length fs) OpsPending" and "bl_succeeded l = [0..<i]"
    and "bl_firstFailure l = None" and "\<not> bl_anyRollbackFailed l"
  shows "\<exists>l' s'. run_ops c True i fs (l, s) = (Inr (), l', s') \<and> \<not> bl_anyRollbackFailed l' \<and>
    (bl_status l' = replicate (i + length fs) OpsOk \<and> bl_firstFailure l' = None \<or>
     (\<exists>k m. bl_status l' = replicate k OpsOk @ OpsFailed # replicate m OpsPending \<and> k + 1 + m = i + length fs \<and>
        bl_firstFailure l' = Some k \<and> bl_succeeded l' = [0..<k]))"
  using assms
proof (induction fs arbitrary: l s i)
  case Nil
  then show ?case by (simp add: io_simps)
next
  case (Cons f fs)
  show ?case
  proof (cases rule: run_op_locals [of c i f l s])
    case (ok s1)
    let ?l = "l\<lparr>bl_status := (bl_status l)[i := OpsOk], bl_succeeded := bl_succeeded l @ [i]\<rparr>"
    have "\<exists>l' s'. run_ops c True (i + 1) fs (?l, s1) = (Inr (), l', s') \<and> \<not> bl_anyRollbackFailed l' \<and>
      (bl_status l' = replicate (i + 1 + length fs) OpsOk \<and> bl_firstFailure l' = None \<or>
       (\<exists>k m. bl_status l' = replicate k OpsOk @ OpsFailed # replicate m OpsPending \<and> k + 1 + m = i + 1 + length fs \<and>
          bl_firstFailure l' = Some k \<and> bl_succeeded l' = [0..<k]))"
      by (rule Cons.IH) (use Cons.prems in \<open>simp_all add: list_update_append replicate_append_same\<close>)
    with ok show ?thesis by (simp add: andThen_def)
  next
    case (failed e s1)
    have "bl_status (fail_local i e l) = replicate i OpsOk @ OpsFailed # replicate (length fs) OpsPending"
      using Cons.prems by (simp add: fail_local_def list_update_append)
    with failed Cons.prems show ?thesis
      by (auto simp: andThen_def io_simps fail_local_def)
  qed
qed

lemma skip_rest:
  assumes "bl_status l = xs @ replicate m OpsPending" and "length xs = a"
  shows "\<exists>s'. for_each (skip_op c) [a..<a + m] (l, s) = (Inr (), l\<lparr>bl_status := xs @ replicate m OpsSkipped\<rparr>, s')"
  using assms
proof (induction m arbitrary: l s xs a)
  case 0
  then show ?case by (cases l) (simp add: io_simps)
next
  case (Suc m)
  obtain s1 where skip: "skip_op c a (l, s) = (Inr (), set_status a OpsSkipped l, s1)"
    using Suc.prems by (cases rule: skip_op_locals [of c a l s]) (simp add: nth_append)
  have st: "bl_status (set_status a OpsSkipped l) = (xs @ [OpsSkipped]) @ replicate m OpsPending"
    using Suc.prems by (simp add: set_status_def list_update_append)
  have range: "[a..<a + Suc m] = a # [a + 1..<a + 1 + m]" by (simp add: upt_conv_Cons)
  have "length (xs @ [OpsSkipped]) = a + 1" using Suc.prems by simp
  from Suc.IH [OF st this, of s1] skip show ?case
    unfolding range by (simp add: andThen_def set_status_def del: upt_Suc)
qed

lemma roll_back_all:
  assumes "bl_status l = xs @ ys" and "length xs = k" and "bl_anyRollbackFailed l \<longleftrightarrow> OpsRollbackFailed \<in> set ys"
  shows "\<exists>zs l' s'. for_each (roll_back_op c) (rev [0..<k]) (l, s) = (Inr (), l', s') \<and> bl_status l' = zs @ ys \<and>
    length zs = k \<and> set zs \<subseteq> {OpsRolledBack, OpsRollbackFailed} \<and>
    (bl_anyRollbackFailed l' \<longleftrightarrow> OpsRollbackFailed \<in> set (zs @ ys))"
  using assms
proof (induction k arbitrary: l s xs ys)
  case 0
  then show ?case by (simp add: io_simps)
next
  case (Suc k)
  then obtain xs' x where xs: "xs = xs' @ [x]" by (cases xs rule: rev_cases) auto
  have step: ?case
    if run: "roll_back_op c k (l, s) = (Inr (), l1, s1)" and st: "st \<in> {OpsRolledBack, OpsRollbackFailed}"
      and l1: "bl_status l1 = (bl_status l)[k := st]" "bl_anyRollbackFailed l1 \<longleftrightarrow> st = OpsRollbackFailed \<or> bl_anyRollbackFailed l"
    for l1 s1 st
  proof -
    have "bl_status l1 = xs' @ st # ys" "length xs' = k" using Suc.prems l1(1) xs by (simp_all add: list_update_append)
    moreover have "bl_anyRollbackFailed l1 \<longleftrightarrow> OpsRollbackFailed \<in> set (st # ys)" using l1(2) Suc.prems(3) by auto
    ultimately obtain zs l' s' where "for_each (roll_back_op c) (rev [0..<k]) (l1, s1) = (Inr (), l', s')"
      and "bl_status l' = zs @ st # ys" "length zs = k" "set zs \<subseteq> {OpsRolledBack, OpsRollbackFailed}"
      and "bl_anyRollbackFailed l' \<longleftrightarrow> OpsRollbackFailed \<in> set (zs @ st # ys)"
      using Suc.IH by metis
    then show ?thesis
      using run st by (intro exI [of _ "zs @ [st]"] exI [of _ l'] exI [of _ s']) (simp add: andThen_def)
  qed
  show ?case
  proof (cases rule: roll_back_op_locals [of c k l s])
    case (done_ s1)
    then show ?thesis by (rule step [where st = OpsRolledBack]) (simp_all add: set_status_def)
  next
    case (failed s1)
    then show ?thesis by (rule step [where st = OpsRollbackFailed]) simp_all
  qed
qed

lemma decide_best_effort:
  assumes "bl_firstFailure l = None \<longleftrightarrow> OpsFailed \<notin> set (bl_status l)" and "set (bl_status l) \<subseteq> {OpsOk, OpsFailed}"
  shows "\<exists>st. decide_status c False n (l, s) = (Inr st, l, s) \<and> verdict False (bl_status l) st"
proof (cases "bl_firstFailure l")
  case None
  with assms show ?thesis by (auto simp: decide_status_def io_simps verdict_def)
next
  case (Some k)
  have "length (filter (\<lambda>st. st = OpsOk) (bl_status l)) = 0 \<longleftrightarrow> OpsOk \<notin> set (bl_status l)"
    by (auto simp: filter_empty_conv)
  with Some assms show ?thesis by (auto simp: decide_status_def io_simps verdict_def)
qed

lemma decide_rollback:
  assumes "bl_status l = replicate k OpsOk @ OpsFailed # replicate m OpsPending" and n: "n = k + 1 + m"
    and "bl_firstFailure l = Some k" and "bl_succeeded l = [0..<k]" and "\<not> bl_anyRollbackFailed l"
  shows "\<exists>st l' s'. decide_status c True n (l, s) = (Inr st, l', s') \<and> length (bl_status l') = n \<and> verdict True (bl_status l') st"
proof -
  have "bl_status l = (replicate k OpsOk @ [OpsFailed]) @ replicate m OpsPending" using assms(1) by simp
  from skip_rest [OF this, of "k + 1" c s] obtain s1 where skip: "for_each (skip_op c) [k + 1..<n] (l, s) =
      (Inr (), l\<lparr>bl_status := (replicate k OpsOk @ [OpsFailed]) @ replicate m OpsSkipped\<rparr>, s1)"
    by (auto simp: n)
  let ?l = "l\<lparr>bl_status := (replicate k OpsOk @ [OpsFailed]) @ replicate m OpsSkipped\<rparr>"
  have rest: "bl_status ?l = replicate k OpsOk @ OpsFailed # replicate m OpsSkipped"
    "bl_anyRollbackFailed ?l \<longleftrightarrow> OpsRollbackFailed \<in> set (OpsFailed # replicate m OpsSkipped)"
    using assms(5) by simp_all
  obtain zs l' s' where roll: "for_each (roll_back_op c) (rev [0..<k]) (?l, s1) = (Inr (), l', s')"
    and l': "bl_status l' = zs @ OpsFailed # replicate m OpsSkipped" "length zs = k"
    and zs: "set zs \<subseteq> {OpsRolledBack, OpsRollbackFailed}"
    and anyf: "bl_anyRollbackFailed l' \<longleftrightarrow> OpsRollbackFailed \<in> set (zs @ OpsFailed # replicate m OpsSkipped)"
    using roll_back_all [OF rest(1) _ rest(2), of k c s1] by auto
  have "decide_status c True n (l, s) =
      (Inr (if OpsRollbackFailed \<in> set zs then BatchPartial else BatchRolledBack), l', s')"
    unfolding decide_status_def using skip roll anyf assms(3,4)
    by (simp add: andThen_state andThen_def reads_def del: upt_Suc)
  moreover have "verdict True (bl_status l') (if OpsRollbackFailed \<in> set zs then BatchPartial else BatchRolledBack)"
    unfolding verdict_def l'(1)
    by (rule disjI2, rule disjI1, intro conjI exI [of _ zs] exI [of _ "replicate m OpsSkipped"]) (use zs in auto)
  ultimately show ?thesis using l' n by auto
qed

lemma run_batch_verdict:
  fixes input :: batch_input
  defines "n \<equiv> length (bi_operations input)"
  shows "\<exists>res l' s'. run_batch c input env (start_locals n, s) = (Inr res, l', s') \<and>
    length (bx_operations res) = n \<and>
    verdict (bi_rollbackOnFailure input) (map or_status (bx_operations res)) (bx_status res)"
proof -
  have "\<exists>l1 s1 st l2 s2. run_ops c (bi_rollbackOnFailure input) 0 (bi_operations input) (start_locals n, s) = (Inr (), l1, s1) \<and>
    decide_status c (bi_rollbackOnFailure input) n (l1, s1) = (Inr st, l2, s2) \<and> length (bl_status l2) = n \<and>
    verdict (bi_rollbackOnFailure input) (bl_status l2) st"
  proof (cases "bi_rollbackOnFailure input")
    case False
    have "bl_status (start_locals n) = [] @ replicate (length (bi_operations input)) OpsPending"
      "bl_firstFailure (start_locals n) = None \<longleftrightarrow> OpsFailed \<notin> set []"
      by (simp_all add: start_locals_def n_def)
    from run_ops_best_effort [OF this(1) _ _ this(2), of 0 c s] obtain l1 s1
      where run: "run_ops c False 0 (bi_operations input) (start_locals n, s) = (Inr (), l1, s1)"
      and l1: "length (bl_status l1) = n" "set (bl_status l1) \<subseteq> {OpsOk, OpsFailed}"
        "bl_firstFailure l1 = None \<longleftrightarrow> OpsFailed \<notin> set (bl_status l1)"
      by (auto simp: n_def)
    from decide_best_effort [OF l1(3,2), of c n s1] run l1(1) False show ?thesis by auto
  next
    case True
    obtain l1 s1 where run: "run_ops c True 0 (bi_operations input) (start_locals n, s) = (Inr (), l1, s1)"
      and anyf: "\<not> bl_anyRollbackFailed l1"
      and l1: "bl_status l1 = replicate n OpsOk \<and> bl_firstFailure l1 = None \<or>
       (\<exists>k m. bl_status l1 = replicate k OpsOk @ OpsFailed # replicate m OpsPending \<and> k + 1 + m = n \<and>
          bl_firstFailure l1 = Some k \<and> bl_succeeded l1 = [0..<k])"
      using run_ops_rollback [of "start_locals n" 0 "bi_operations input" c s] by (auto simp: start_locals_def n_def)
    from l1 show ?thesis
    proof
      assume "bl_status l1 = replicate n OpsOk \<and> bl_firstFailure l1 = None"
      then show ?thesis using run True by (auto simp: decide_status_def io_simps verdict_def)
    next
      assume "\<exists>k m. bl_status l1 = replicate k OpsOk @ OpsFailed # replicate m OpsPending \<and> k + 1 + m = n \<and>
          bl_firstFailure l1 = Some k \<and> bl_succeeded l1 = [0..<k]"
      then obtain k m where "bl_status l1 = replicate k OpsOk @ OpsFailed # replicate m OpsPending" "n = k + 1 + m"
        "bl_firstFailure l1 = Some k" "bl_succeeded l1 = [0..<k]" by auto
      from decide_rollback [OF this anyf, of c s1] run True show ?thesis by auto
    qed
  qed
  then obtain l1 s1 st l2 s2 where run: "run_ops c (bi_rollbackOnFailure input) 0 (bi_operations input) (start_locals n, s) = (Inr (), l1, s1)"
    and dec: "decide_status c (bi_rollbackOnFailure input) n (l1, s1) = (Inr st, l2, s2)"
    and l2: "length (bl_status l2) = n" "verdict (bi_rollbackOnFailure input) (bl_status l2) st"
    by blast
  have "\<exists>res s3. finish_batch c env st (l2, s2) = (Inr res, l2, s3) \<and> length (bx_operations res) = n \<and>
      map or_status (bx_operations res) = bl_status l2 \<and> bx_status res = st"
    by (simp add: finish_batch_def andThen_def on_store_eval whenever_def emit_def io_simps l2(1) comp_def map_nth [of "bl_status l2", unfolded l2(1)])
  with run dec l2(2) show ?thesis
    by (auto simp: run_batch_def andThen_def n_def [symmetric])
qed

lemma executeBatch_created:
  assumes "batch_environment (filter (\<lambda>cf. cf_id cf \<in> set (bi_operations input)) (cd_configFiles s)) (bi_operations input) None = Some env"
    and "bi_idempotencyKey input = None \<or> bi_idempotencyBodyHash input = None \<or>
      (\<forall>b \<in> set (bd_batches s). \<not> (ba_idempotencyKey b = bi_idempotencyKey input \<and> ba_idempotencyBodyHash b = bi_idempotencyBodyHash input))"
  shows "executeBatch edits sy input s =
    with_locals (start_locals (length (bi_operations input)))
      (run_batch (batch_ctx_of edits sy input (filter (\<lambda>cf. cf_id cf \<in> set (bi_operations input)) (cd_configFiles s))
         (created_row sy input env s)) input env)
      (s\<lparr>bd_batches := bd_batches s @ [created_row sy input env s]\<rparr>)"
proof -
  have "create_batch sy input env s =
      (Inr (created_row sy input env s), s\<lparr>bd_batches := bd_batches s @ [created_row sy input env s]\<rparr>)"
    using assms(2) by (auto simp: create_batch_def created_row_def Let_def)
  then show ?thesis by (simp add: executeBatch_def io_simps andThen_def trap_def assms(1))
qed

text \<open>A rollback after a failing first operation has nothing to take back and ends as \<open>rolled_back\<close>.\<close>

lemma failed_first_operation: "verdict True (OpsFailed # sts) st \<Longrightarrow> st = BatchRolledBack"
  by (auto simp: verdict_def Cons_eq_append_conv)

text \<open>C29: A batch whose files lie in one environment, and whose idempotency key is new, never throws: it reports one
  status per operation, and its verdict is that of those statuses, whatever others do to the config files meanwhile.
  Without rollback all operations run, and it ends as \<open>ok\<close>, \<open>partial\<close> or \<open>failed\<close> as all, some or
  none succeeded. With rollback it ends as \<open>ok\<close> when all succeeded; otherwise everything behind the first failure was
  skipped, and everything before it was taken back or could not be, which makes it \<open>rolled_back\<close> or \<open>partial\<close>.
  The final status is not stated for a batch with rollback whose first operation fails
  (\<open>failed_first_operation\<close> says what the code does then).\<close>

theorem batch_verdict:
  assumes "batch_environment (filter (\<lambda>cf. cf_id cf \<in> set (bi_operations input)) (cd_configFiles s)) (bi_operations input) None \<noteq> None"
    and "bi_idempotencyKey input = None \<or> bi_idempotencyBodyHash input = None \<or>
      (\<forall>b \<in> set (bd_batches s). \<not> (ba_idempotencyKey b = bi_idempotencyKey input \<and> ba_idempotencyBodyHash b = bi_idempotencyBodyHash input))"
  shows "\<exists>res s' st. executeBatch edits sy input s = (Inr res, s') \<and>
    length (bx_operations res) = length (bi_operations input) \<and>
    verdict (bi_rollbackOnFailure input) (map or_status (bx_operations res)) st \<and>
    (bi_rollbackOnFailure input \<and> map or_status (take 1 (bx_operations res)) = [OpsFailed] \<or> bx_status res = st)"
proof -
  let ?c = "\<lambda>env. batch_ctx_of edits sy input (filter (\<lambda>cf. cf_id cf \<in> set (bi_operations input)) (cd_configFiles s))
      (created_row sy input env s)"
  from assms(1) obtain env where env: "batch_environment (filter (\<lambda>cf. cf_id cf \<in> set (bi_operations input)) (cd_configFiles s))
      (bi_operations input) None = Some env" by auto
  obtain res l' s' where "run_batch (?c env) input env (start_locals (length (bi_operations input)),
        s\<lparr>bd_batches := bd_batches s @ [created_row sy input env s]\<rparr>) = (Inr res, l', s')"
    and res: "length (bx_operations res) = length (bi_operations input)"
      "verdict (bi_rollbackOnFailure input) (map or_status (bx_operations res)) (bx_status res)"
    using run_batch_verdict by blast
  then have "executeBatch edits sy input s = (Inr res, s')"
    by (simp add: executeBatch_created [OF env assms(2)] with_locals_def)
  with res show ?thesis by blast
qed

lemma batch_result_length:
  assumes "batch_environment (filter (\<lambda>cf. cf_id cf \<in> set (bi_operations input)) (cd_configFiles s)) (bi_operations input) None = Some env"
    and "bi_idempotencyKey input = None \<or> bi_idempotencyBodyHash input = None \<or>
      (\<forall>b \<in> set (bd_batches s). \<not> (ba_idempotencyKey b = bi_idempotencyKey input \<and> ba_idempotencyBodyHash b = bi_idempotencyBodyHash input))"
    and "executeBatch edits sy input s = (Inr res, s')"
  shows "length (bx_operations res) = length (bi_operations input)"
  using run_batch_verdict [of "batch_ctx_of edits sy input (filter (\<lambda>cf. cf_id cf \<in> set (bi_operations input)) (cd_configFiles s))
      (created_row sy input env s)" input env "s\<lparr>bd_batches := bd_batches s @ [created_row sy input env s]\<rparr>"] assms(3)
  by (auto simp: executeBatch_created [OF assms(1,2)] with_locals_def)

section \<open>What a rollback restores\<close>

text \<open>The row of a config file holds the content that the batch read when it began.\<close>

definition as_before :: "'w batch_ctx \<Rightarrow> ident \<Rightarrow> ('w, 'z) config_db_scheme \<Rightarrow> bool" where
  "as_before c f s \<longleftrightarrow> (\<exists>before cur. preloaded c f = Some before \<and> find_config f s = Some cur \<and>
     cf_content cur = cf_content before \<and> cf_isBinary cur = cf_isBinary before)"

text \<open>Every operation that is marked as taken back has its file as before.\<close>

definition restored :: "'w batch_ctx \<Rightarrow> batch_locals \<times> ('w, 'z) batch_db_scheme \<Rightarrow> bool" where
  "restored c x \<longleftrightarrow> (\<forall>i < length (bl_status (fst x)). bl_status (fst x) ! i = OpsRolledBack \<longrightarrow>
     as_before c (fst (bc_ops c ! i)) (snd x))"

lemma preserves_bind:
  assumes "\<And>s x s'. I s \<Longrightarrow> m s = (Inr x, s') \<Longrightarrow> J s'" and "preserves I m"
    and "\<And>x. preserves J (f x)" and "\<And>s. J s \<Longrightarrow> I s"
  shows "preserves I (andThen m f)"
proof (rule preservesI)
  fix s assume I: "I s"
  obtain r s' where m: "m s = (r, s')" by (metis surj_pair)
  show "I (snd (andThen m f s))"
  proof (cases r)
    case (Inl e)
    with m I assms(2) show ?thesis by (auto simp: andThen_def preserves_def)
  next
    case (Inr x)
    with assms(1) [OF I] m have "J s'" by simp
    then have "J (snd (f x s'))" using assms(3) by (simp add: preserves_def)
    with assms(4) m Inr show ?thesis by (simp add: andThen_def)
  qed
qed

lemma as_before_files: "cd_configFiles s' = cd_configFiles s \<Longrightarrow> as_before c f s' \<longleftrightarrow> as_before c f s"
  by (simp add: as_before_def find_config_def)

lemma files_sync: "keeps cd_configFiles (syncConfigFileToAttachedServices sy i)"
  by (rule keeps_weaken [OF keeps_sync]) (rule sync_frame_fields(2))

lemma files_audit: "keeps cd_configFiles (writeAuditForOp actor b f n e ok rs st rb)"
  unfolding writeAuditForOp_def logAudit_def Let_def by (intro keeps_intros) simp

lemma files_usage: "keeps cd_configFiles (syncUsageForConfigFile fragments cf)"
  unfolding syncUsageForConfigFile_def syncSecretUsageForConfigFile_def syncVarUsageForConfigFile_def
  by (intro keeps_intros) simp_all

lemma find_config_id: "find_config f s = Some x \<Longrightarrow> cf_id x = f"
  unfolding find_config_def by (drule find_SomeD(1)) simp

lemma find_after_update:
  "(\<And>x. k (g x) = k x) \<Longrightarrow>
     List.find (\<lambda>x. k x = j) (update_row k i g xs) = map_option (\<lambda>x. if k x = i then g x else x) (List.find (\<lambda>x. k x = j) xs)"
  by (induction xs) (auto simp: update_row_def)

text \<open>The transaction of a rollback leaves the config files alone, or has put the file back.\<close>

lemma restore_files:
  assumes "restore_content c cf s = (r, s')" and pre: "preloaded c (cf_id cf) = Some cf"
  shows "case r of Inl _ \<Rightarrow> s' = s
     | Inr _ \<Rightarrow> as_before c (cf_id cf) s' \<and> (\<forall>f. as_before c f s \<longrightarrow> as_before c f s')"
proof (cases r)
  case (Inl e)
  with assms(1) show ?thesis by (auto simp: restore_content_def transaction_def split: prod.splits sum.splits)
next
  case (Inr u)
  let ?g = "\<lambda>x. x\<lparr>cf_content := cf_content cf, cf_isBinary := cf_isBinary cf\<rparr>"
  let ?s1 = "\<lambda>cur. s\<lparr>bd_fileHistory := bd_fileHistory s @ [(cf_id cf, cf_content cur, ac_userId (bc_actor c))]\<rparr>"
  from assms(1) Inr obtain cur where cur: "find_config (cf_id cf) s = Some cur"
    and rest: "syncUsageForConfigFile [] (?g cur)
      ((?s1 cur)\<lparr>cd_configFiles := update_row cf_id (cf_id cf) ?g (cd_configFiles s)\<rparr>) = (Inr u, s')"
    by (auto simp: restore_content_def transaction_def io_simps Let_def split: prod.splits sum.splits option.splits)
  have files: "cd_configFiles s' = update_row cf_id (cf_id cf) ?g (cd_configFiles s)"
    using keepsD [OF files_usage rest] by simp
  have look: "find_config f s' = map_option (\<lambda>x. if cf_id x = cf_id cf then ?g x else x) (find_config f s)" for f
    unfolding find_config_def files by (rule find_after_update) simp
  have "as_before c (cf_id cf) s'" using cur pre find_config_id [OF cur] by (simp add: as_before_def look)
  moreover have "as_before c f s'" if "as_before c f s" for f
  proof (cases "f = cf_id cf")
    case True
    with \<open>as_before c (cf_id cf) s'\<close> show ?thesis by simp
  next
    case False
    from that obtain x where "find_config f s = Some x" by (auto simp: as_before_def)
    with that False find_config_id [OF this] show ?thesis by (simp add: as_before_def look)
  qed
  ultimately show ?thesis using Inr by simp
qed

text \<open>The steps of a rollback during which nobody edits.\<close>

definition quiet_rollback :: "other_edits \<Rightarrow> bool" where
  "quiet_rollback edits \<longleftrightarrow> (\<forall>i fs. edits (BeforeRestore i) fs = fs \<and> edits (BeforeResync i) fs = fs)"

lemma restored_status:
  assumes "restored c (l, s)" and "bl_status l' = (bl_status l)[i := st]" and "cd_configFiles s' = cd_configFiles s"
    and "st = OpsRolledBack \<Longrightarrow> as_before c (fst (bc_ops c ! i)) s"
  shows "restored c (l', s')"
  unfolding restored_def fst_conv snd_conv
proof (intro allI impI)
  fix j assume j: "j < length (bl_status l')" "bl_status l' ! j = OpsRolledBack"
  have "as_before c (fst (bc_ops c ! j)) s"
  proof (cases "j = i")
    case True
    with j assms(2) have "st = OpsRolledBack" by simp
    with True assms(4) show ?thesis by simp
  next
    case False
    with j assms(1,2) show ?thesis by (simp add: restored_def)
  qed
  with as_before_files [OF assms(3)] show "as_before c (fst (bc_ops c ! j)) s'" by blast
qed

text \<open>While the file of the current operation is as before.\<close>

definition restored_with :: "'w batch_ctx \<Rightarrow> ident \<Rightarrow> batch_locals \<times> ('w, 'z) batch_db_scheme \<Rightarrow> bool" where
  "restored_with c f x \<longleftrightarrow> restored c x \<and> as_before c f (snd x)"

lemma restored_store:
  assumes "keeps cd_configFiles m"
  shows "preserves (restored c) (on_store m)" and "preserves (restored_with c f) (on_store m)"
proof -
  have "cd_configFiles (snd (m s)) = cd_configFiles s" for s using assms by (simp add: keeps_def)
  note same = as_before_files [OF this]
  show "preserves (restored c) (on_store m)" "preserves (restored_with c f) (on_store m)"
    by (rule preservesI; clarsimp simp: restored_def restored_with_def on_store_eval same)+
qed

lemma update_op_files [simp]: "cd_configFiles (update_op i f s) = cd_configFiles s"
  by (simp add: update_op_def)

lemma restored_settle:
  assumes "\<And>l. bl_status (g l) = (bl_status l)[i := st]"
  shows "st \<noteq> OpsRolledBack \<Longrightarrow> preserves (restored c) (settle_op c' i f g)"
    and "st = OpsRolledBack \<longrightarrow> k = fst (bc_ops c ! i) \<Longrightarrow> preserves (restored_with c k) (settle_op c' i f g)"
proof -
  show "preserves (restored c) (settle_op c' i f g)" if "st \<noteq> OpsRolledBack"
    by (rule preservesI) (use that in \<open>auto simp: settle_op_eval intro!: restored_status [OF _ assms]\<close>)
  show "preserves (restored_with c k) (settle_op c' i f g)" if "st = OpsRolledBack \<longrightarrow> k = fst (bc_ops c ! i)"
  proof (rule preservesI)
    fix x assume x: "restored_with c k x"
    obtain l s where ls: "x = (l, s)" by (cases x)
    have "restored c (g l, update_op (op_row c' i) (f (batch_now c' s)) s)"
      by (rule restored_status [OF _ assms]) (use x ls that in \<open>auto simp: restored_with_def\<close>)
    moreover have "as_before c k (update_op (op_row c' i) (f (batch_now c' s)) s)"
      using x ls as_before_files [of "update_op (op_row c' i) (f (batch_now c' s)) s" s c k] by (simp add: restored_with_def)
    ultimately show "restored_with c k (snd (settle_op c' i f g x))" by (simp add: ls settle_op_eval restored_with_def)
  qed
qed

lemma restored_failed:
  "preserves (restored c) (rollback_failed c' i reason)" "preserves (restored_with c f) (rollback_failed c' i reason)"
  unfolding rollback_failed_def by (rule restored_settle [where st = OpsRollbackFailed]; simp)+

lemma restored_quiet:
  assumes "quiet_rollback (bc_edits c)"
  shows "preserves (restored c) (interleaved c (BeforeRestore i))" "preserves (restored_with c f) (interleaved c (BeforeResync i))"
proof -
  show "preserves (restored c) (interleaved c (BeforeRestore i))"
    by (rule preservesI) (use assms in \<open>auto simp: interleaved_eval quiet_rollback_def\<close>)
  show "preserves (restored_with c f) (interleaved c (BeforeResync i))"
    by (rule preservesI) (use assms in \<open>auto simp: interleaved_eval quiet_rollback_def\<close>)
qed

lemma restored_roll_back:
  assumes "quiet_rollback (bc_edits c)"
  shows "preserves (restored c) (roll_back_op c i)"
proof (cases "preloaded c (fst (bc_ops c ! i))")
  case None
  then show ?thesis by (simp add: roll_back_op_def Let_def restored_failed)
next
  case (Some cf)
  then have pre: "preloaded c (cf_id cf) = Some cf" and id: "cf_id cf = fst (bc_ops c ! i)"
    unfolding preloaded_def using find_SomeD(1) by fastforce+
  have put: "restored_with c (cf_id cf) x'" if "restored c x" "on_store (restore_content c cf) x = (Inr u, x')" for x x' u
  proof -
    obtain l s where x: "x = (l, s)" by (cases x)
    from that(2) obtain s' where run: "restore_content c cf s = (Inr u, s')" and x': "x' = (l, s')"
      by (auto simp: x on_store_def split: prod.splits)
    from restore_files [OF run pre] that(1) show ?thesis by (auto simp: x x' restored_with_def restored_def)
  qed
  have kept: "preserves (restored c) (on_store (restore_content c cf))"
  proof (rule preservesI)
    fix x assume x: "restored c x"
    obtain r x' where run: "on_store (restore_content c cf) x = (r, x')" by (metis surj_pair)
    show "restored c (snd (on_store (restore_content c cf) x))"
    proof (cases r)
      case (Inl e)
      obtain l s where ls: "x = (l, s)" by (cases x)
      with run Inl obtain s' where "restore_content c cf s = (Inl e, s')" "x' = (l, s')"
        by (auto simp: on_store_def split: prod.splits)
      with restore_files [OF this(1) pre] x run ls show ?thesis by simp
    next
      case (Inr u)
      with run put [OF x, of u x'] show ?thesis by (simp add: restored_with_def)
    qed
  qed
  have audit: "preserves (restored_with c (cf_id cf)) (audit_op c f n e ok rs st b)" for f n e ok rs st b
    unfolding audit_op_def by (rule restored_store(2) [OF files_audit])
  have marked: "preserves (restored_with c (cf_id cf)) (settle_op c i g (set_status i OpsRolledBack))" for g
    by (rule restored_settle(2) [where st = OpsRolledBack]) (simp_all add: set_status_def id)
  have pushed: "preserves (restored_with c (cf_id cf)) (on_store (syncConfigFileToAttachedServices sy f))" for sy f
    by (rule restored_store(2) [OF files_sync])
  have later: "preserves (restored_with c (cf_id cf))
     (andThen (interleaved c (BeforeResync i)) (\<lambda>_.
      andThen (on_store (syncConfigFileToAttachedServices (bc_host c) (fst (bc_ops c ! i)))) (\<lambda>restoreOutcome.
      case restoreOutcome of
        None \<Rightarrow>
          andThen (rollback_failed c i ''Config file not found during rollback'') (\<lambda>_.
          audit_op c (fst (bc_ops c ! i)) (cf_name cf) None False [] ''failed'' True)
      | Some oc \<Rightarrow>
          if oc_status oc \<noteq> SyncOk then
            andThen (rollback_failed c i (summarizeSyncFailure oc)) (\<lambda>_.
            audit_op c (fst (bc_ops c ! i)) (oc_configFileName oc) (Some (oc_environmentId oc)) False (oc_results oc)
              (sync_status_text (oc_status oc)) True)
          else
            andThen (settle_op c i (\<lambda>now x. x\<lparr>bo_status := OpsRolledBack, bo_completedAt := Some now\<rparr>)
                       (set_status i OpsRolledBack)) (\<lambda>_.
            audit_op c (fst (bc_ops c ! i)) (oc_configFileName oc) (Some (oc_environmentId oc)) True (oc_results oc)
              (sync_status_text (oc_status oc)) True))))"
    by (rule preserves_andThen [OF restored_quiet(2) [OF assms]], rule preserves_andThen [OF pushed], rule preserves_case_option;
        (rule preserves_if)?; rule preserves_andThen; (rule restored_failed(2) marked audit))
  show ?thesis
    unfolding roll_back_op_def Let_def Some option.case
    by (rule preserves_catching, rule preserves_andThen [OF restored_quiet(1) [OF assms]],
        rule preserves_bind [where J = "restored_with c (cf_id cf)", OF put kept later])
       (simp_all add: restored_with_def restored_failed(1))
qed

text \<open>Before the rollback no operation is marked as taken back.\<close>

definition not_back :: "batch_locals \<times> ('w, 'z) batch_db_scheme \<Rightarrow> bool" where
  "not_back x \<longleftrightarrow> OpsRolledBack \<notin> set (bl_status (fst x))"

lemma not_back_restored: "not_back x \<Longrightarrow> restored c x"
  unfolding not_back_def restored_def by (metis nth_mem)

lemma not_back_run_op: "preserves not_back (run_op c i f)"
proof (rule preservesI)
  fix x :: "batch_locals \<times> ('a, 'b) batch_db_scheme"
  assume "not_back x"
  obtain l s where x: "x = (l, s)" by (cases x)
  have upd: "OpsRolledBack \<notin> set (xs[i := st])" if "OpsRolledBack \<notin> set xs" "st \<noteq> OpsRolledBack" for xs st
    using that set_update_subset_insert [of xs i st] by auto
  from \<open>not_back x\<close> show "not_back (snd (run_op c i f x))"
    by (cases rule: run_op_locals [of c i f l s]) (auto simp: x not_back_def fail_local_def upd)
qed

lemma not_back_run_ops: "preserves not_back (run_ops c rb i fs)"
  by (induction fs arbitrary: i) (auto intro!: preserves_intros not_back_run_op)

lemma restored_skip: "preserves (restored c) (skip_op c i)"
  unfolding skip_op_def by (intro preserves_intros restored_settle(1) [where st = OpsSkipped]) (simp_all add: set_status_def)

lemma restored_decide:
  assumes "quiet_rollback (bc_edits c)"
  shows "preserves (restored c) (decide_status c rb n)"
  unfolding decide_status_def by (intro preserves_intros restored_skip restored_roll_back assms)

text \<open>The result of a finished batch shows the statuses of its operations.\<close>

lemma finish_batch_shows:
  assumes "finish_batch c env status (l, s) = (Inr res, l', s')"
  shows "map or_status (bx_operations res) = bl_status l \<and> cd_configFiles s' = cd_configFiles s"
  using assms
  by (auto simp: finish_batch_def andThen_def on_store_eval whenever_def emit_def io_simps comp_def map_nth split: if_splits)

text \<open>C33: When a batch takes an operation back, its config file ends with the content and the kind that it had
  when the batch began, whatever others wrote to it while the operations ran; only edits during the rollback itself are
  left out. This is for a batch with a new idempotency key whose files lie in one environment.\<close>

theorem rolled_back_files_restored:
  assumes "batch_environment (filter (\<lambda>cf. cf_id cf \<in> set (bi_operations input)) (cd_configFiles s)) (bi_operations input) None \<noteq> None"
    and "bi_idempotencyKey input = None \<or> bi_idempotencyBodyHash input = None \<or>
      (\<forall>b \<in> set (bd_batches s). \<not> (ba_idempotencyKey b = bi_idempotencyKey input \<and> ba_idempotencyBodyHash b = bi_idempotencyBodyHash input))"
    and quiet: "quiet_rollback edits" and run: "executeBatch edits sy input s = (Inr res, s')"
    and i: "i < length (bi_operations input)" "map or_status (bx_operations res) ! i = OpsRolledBack"
  shows "\<exists>before after. find_config (bi_operations input ! i) s = Some before \<and> find_config (bi_operations input ! i) s' = Some after \<and>
    cf_content after = cf_content before \<and> cf_isBinary after = cf_isBinary before"
proof -
  let ?preload = "filter (\<lambda>cf. cf_id cf \<in> set (bi_operations input)) (cd_configFiles s)"
  let ?n = "length (bi_operations input)"
  from assms(1) obtain env where env: "batch_environment ?preload (bi_operations input) None = Some env" by auto
  let ?row = "created_row sy input env s"
  let ?c = "batch_ctx_of edits sy input ?preload ?row" and ?s1 = "s\<lparr>bd_batches := bd_batches s @ [?row]\<rparr>"
  from run obtain l' where "run_batch ?c input env (start_locals ?n, ?s1) = (Inr res, l', s')"
    by (auto simp: executeBatch_created [OF env assms(2)] with_locals_def split: prod.splits)
  then obtain u x1 status l2 s2 where ops: "run_ops ?c (bi_rollbackOnFailure input) 0 (bi_operations input) (start_locals ?n, ?s1) = (Inr u, x1)"
    and dec: "decide_status ?c (bi_rollbackOnFailure input) ?n x1 = (Inr status, l2, s2)"
    and fin: "finish_batch ?c env status (l2, s2) = (Inr res, l', s')"
    unfolding run_batch_def by (auto elim!: andThen_InrE)
  have "not_back x1"
    by (rule preservesD [OF not_back_run_ops _ ops]) (simp add: not_back_def start_locals_def)
  then have "restored ?c (l2, s2)"
    using preservesD [OF restored_decide _ dec] quiet by (simp add: not_back_restored batch_ctx_of_def)
  moreover from finish_batch_shows [OF fin] have listed: "map or_status (bx_operations res) = bl_status l2"
    and files: "cd_configFiles s' = cd_configFiles s2" by auto
  moreover have "length (bx_operations res) = ?n"
    by (rule batch_result_length [OF env assms(2) run])
  ultimately have "as_before ?c (fst (bc_ops ?c ! i)) s'"
    using i as_before_files [OF files] unfolding restored_def by (metis fst_conv length_map snd_conv)
  moreover have "fst (bc_ops ?c ! i) = bi_operations input ! i"
    using i(1) by (simp add: batch_ctx_of_def created_row_def new_op_def)
  moreover have "preloaded ?c f = find_config f s" if "f \<in> set (bi_operations input)" for f
  proof -
    have "List.find (\<lambda>cf. cf_id cf = f) (filter (\<lambda>cf. cf_id cf \<in> set (bi_operations input)) xs) = List.find (\<lambda>cf. cf_id cf = f) xs" for xs
      using that by (induction xs) auto
    then show ?thesis by (simp add: preloaded_def find_config_def batch_ctx_of_def)
  qed
  ultimately show ?thesis using i(1) by (auto simp: as_before_def)
qed

section \<open>Witnesses\<close>

text \<open>A batch that syncs \<open>f\<close> and then \<open>g\<close>, which refers to a missing secret and fails.\<close>

definition sample_batch_db :: "unit batch_db" where
  "sample_batch_db = config_db.extend sample_db (batch_db.fields [] [] [])"

definition sample_input :: "bool \<Rightarrow> batch_input" where
  "sample_input rb =
     \<lparr>bi_operations = [''f'', ''g''], bi_rollbackOnFailure = rb,
      bi_actor = \<lparr>ac_userId = Some ''u'', ac_apiTokenId = None, ac_serviceAccountId = None\<rparr>,
      bi_idempotencyKey = Some ''k'', bi_idempotencyBodyHash = Some ''h''\<rparr>"

definition no_edits :: other_edits where
  "no_edits p fs = fs"

text \<open>Somebody edits \<open>f\<close> while \<open>g\<close> is being synced.\<close>

definition late_edit :: other_edits where
  "late_edit p fs =
     (case p of BeforeSync i \<Rightarrow> if i = 1 then update_row cf_id ''f'' (\<lambda>cf. cf\<lparr>cf_content := ''A=2''\<rparr>) fs else fs | _ \<Rightarrow> fs)"

lemma sample_batch_runs:
  "map (\<lambda>rb. case executeBatch no_edits sample_sync_host (sample_input rb) sample_batch_db of
       (Inl e, s') \<Rightarrow> ([], BatchOk) | (Inr res, s') \<Rightarrow> (map or_status (bx_operations res), bx_status res)) [True, False] =
     [([OpsRolledBack, OpsFailed], BatchRolledBack), ([OpsOk, OpsFailed], BatchPartial)]"
  by code_simp

lemma sample_batch_facts:
  "inj (h_newId (sy_host sample_sync_host))"
  "bd_batches sample_batch_db = []"
  "batch_environment (filter (\<lambda>cf. cf_id cf \<in> set (bi_operations (sample_input rb))) (cd_configFiles sample_batch_db))
     (bi_operations (sample_input rb)) None = Some (Some ''e'')"
  "distinct (map cf_id (cd_configFiles sample_batch_db))"
proof -
  show "inj (h_newId (sy_host sample_sync_host))"
    by (simp add: sample_sync_host_def quiet_host_def inj_def inj_eq [OF inj_nat_str])
  show "bd_batches sample_batch_db = []" by code_simp
  show "batch_environment (filter (\<lambda>cf. cf_id cf \<in> set (bi_operations (sample_input rb))) (cd_configFiles sample_batch_db))
     (bi_operations (sample_input rb)) None = Some (Some ''e'')" by (cases rb) (simp only:, code_simp)+
  show "distinct (map cf_id (cd_configFiles sample_batch_db))" by code_simp
qed

theorem batch_replays_witness:
  "\<exists>res s'. executeBatch no_edits sample_sync_host (sample_input True) sample_batch_db = (Inr res, s') \<and>
     bx_status res = BatchRolledBack \<and> lookupIdempotentBatch ''k'' ''h'' s' = (Inr (Some res), s')"
proof -
  obtain res s' where run: "executeBatch no_edits sample_sync_host (sample_input True) sample_batch_db = (Inr res, s')"
    and st: "bx_status res = BatchRolledBack"
    using sample_batch_runs by (auto split: prod.splits sum.splits)
  have "lookupIdempotentBatch ''k'' ''h'' s' = (Inr (Some res), s')"
    by (rule batch_replays [OF sample_batch_facts(1) _ _ _ _ run])
       (simp_all add: sample_batch_facts, simp_all add: sample_input_def)
  with run st show ?thesis by blast
qed

theorem batch_verdict_witness:
  "\<exists>res s'. executeBatch no_edits sample_sync_host (sample_input False) sample_batch_db = (Inr res, s') \<and>
     verdict False (map or_status (bx_operations res)) (bx_status res) \<and> bx_status res = BatchPartial"
proof -
  have "\<exists>res s' st. executeBatch no_edits sample_sync_host (sample_input False) sample_batch_db = (Inr res, s') \<and>
    length (bx_operations res) = length (bi_operations (sample_input False)) \<and>
    verdict (bi_rollbackOnFailure (sample_input False)) (map or_status (bx_operations res)) st \<and>
    (bi_rollbackOnFailure (sample_input False) \<and> map or_status (take 1 (bx_operations res)) = [OpsFailed] \<or> bx_status res = st)"
    by (rule batch_verdict) (simp_all add: sample_batch_facts)
  then show ?thesis
    using sample_batch_runs by (auto simp: sample_input_def split: prod.splits sum.splits)
qed

lemma late_edit_run:
  "(case executeBatch late_edit sample_sync_host (sample_input True) sample_batch_db of
     (Inl e, s') \<Rightarrow> [] | (Inr res, s') \<Rightarrow> map or_status (bx_operations res)) = [OpsRolledBack, OpsFailed]"
  by code_simp

theorem rolled_back_files_restored_witness:
  "\<exists>after. find_config ''f'' (snd (executeBatch late_edit sample_sync_host (sample_input True) sample_batch_db)) = Some after \<and>
     cf_content after = ''A=1''"
proof -
  obtain res s' where run: "executeBatch late_edit sample_sync_host (sample_input True) sample_batch_db = (Inr res, s')"
    and st: "map or_status (bx_operations res) = [OpsRolledBack, OpsFailed]"
    using late_edit_run by (auto split: prod.splits sum.splits)
  have quiet: "quiet_rollback late_edit" by (simp add: quiet_rollback_def late_edit_def)
  have ops: "bi_operations (sample_input True) = [''f'', ''g'']" by (simp add: sample_input_def)
  have "find_config ''f'' sample_batch_db = Some (sample_file ''f'' ''e'' ''A=1'')" by code_simp
  moreover have "\<exists>before after. find_config (bi_operations (sample_input True) ! 0) sample_batch_db = Some before \<and>
      find_config (bi_operations (sample_input True) ! 0) s' = Some after \<and>
      cf_content after = cf_content before \<and> cf_isBinary after = cf_isBinary before"
    by (rule rolled_back_files_restored [OF _ _ quiet run]) (simp_all add: sample_batch_facts st, simp add: ops)
  ultimately show ?thesis by (auto simp: run ops sample_file_def)
qed

end
