(* ===== verification/Webhook_Guard.thy ===== *)
theory Webhook_Guard
  imports Effects "HOL-Library.Word"
begin

text \<open>
  The SSRF guard of \<open>src/services/webhook-subscriptions.ts\<close>: which literal addresses, and which hosts, a webhook
  may not be sent to; and \<open>isIP\<close> of the runtime, the textual forms of IPv4 and IPv6 addresses. The
  sources decide on the text of an address; the theorems compare that with the address as a number.
  The URL parser and the resolver are parameters.
\<close>

section \<open>The textual forms of addresses\<close>

text \<open>\<open>\d+\<close>; \<open>Number(p)\<close> of a string of digits. The guard applies it to nothing else.\<close>

definition digits :: "string \<Rightarrow> bool" where
  "digits p \<longleftrightarrow> p \<noteq> [] \<and> list_all digit p"

definition js_number :: "string \<Rightarrow> nat option" where
  "js_number p = (if digits p then Some (digits_value p) else None)"

text \<open>An octet of a dotted address: at most 255, without leading zeros.\<close>

definition octet :: "string \<Rightarrow> bool" where
  "octet p \<longleftrightarrow> digits p \<and> (length p = 1 \<or> hd p \<noteq> CHR ''0'') \<and> digits_value p \<le> 255"

definition is_ipv4 :: "string \<Rightarrow> bool" where
  "is_ipv4 t \<longleftrightarrow> length (split_on (CHR ''.'') t) = 4 \<and> list_all octet (split_on (CHR ''.'') t)"

definition hex_digit :: "char \<Rightarrow> bool" where
  "hex_digit c \<longleftrightarrow> list_ex (char_in c) [''09'', ''af'', ''AF'']"

definition hex_digit_value :: "char \<Rightarrow> nat" where
  "hex_digit_value c =
     (if char_in c ''09'' then of_char c - 48 else if char_in c ''af'' then of_char c - 87 else of_char c - 55)"

text \<open>\<open>parseInt(h, 16)\<close> of a string of hexadecimal digits, and one group of an IPv6 address.\<close>

definition hex_value :: "string \<Rightarrow> nat" where
  "hex_value h = foldl (\<lambda>n c. 16 * n + hex_digit_value c) 0 h"

definition quartet :: "string \<Rightarrow> bool" where
  "quartet h \<longleftrightarrow> h \<noteq> [] \<and> length h \<le> 4 \<and> list_all hex_digit h"

definition dotted_groups :: "string \<Rightarrow> nat list" where
  "dotted_groups t =
     (case map digits_value (split_on (CHR ''.'') t) of
        [a, b, c, d] \<Rightarrow> [a * 256 + b, c * 256 + d]
      | _ \<Rightarrow> [])"

text \<open>The groups between colons; only the last one may be a dotted address.\<close>

fun colon_groups :: "string list \<Rightarrow> nat list option" where
  "colon_groups [] = Some []"
| "colon_groups [p] =
     (if quartet p then Some [hex_value p] else if is_ipv4 p then Some (dotted_groups p) else None)"
| "colon_groups (p # ps) = (if quartet p then map_option ((#) (hex_value p)) (colon_groups ps) else None)"

definition plain_groups :: "string \<Rightarrow> nat list option" where
  "plain_groups t =
     (if t = [] then Some []
      else if list_all quartet (split_on (CHR '':'') t) then Some (map hex_value (split_on (CHR '':'') t)) else None)"

definition tail_groups :: "string \<Rightarrow> nat list option" where
  "tail_groups t = (if t = [] then Some [] else colon_groups (split_on (CHR '':'') t))"

text \<open>The text before and behind the first double colon.\<close>

fun cut_double_colon :: "string \<Rightarrow> (string \<times> string) option" where
  "cut_double_colon (a # b # s) =
     (if a = CHR '':'' \<and> b = CHR '':'' then Some ([], s) else map_option (\<lambda>(l, r). (a # l, r)) (cut_double_colon (b # s)))"
| "cut_double_colon s = None"

definition parse_ipv6_plain :: "string \<Rightarrow> nat list option" where
  "parse_ipv6_plain t =
     (case cut_double_colon t of
        None \<Rightarrow> Option.bind (tail_groups t) (\<lambda>gs. if length gs = 8 then Some gs else None)
      | Some (l, r) \<Rightarrow>
          Option.bind (plain_groups l) (\<lambda>gs. Option.bind (tail_groups r) (\<lambda>hs.
          if length gs + length hs \<le> 7 then Some (gs @ replicate (8 - length gs - length hs) 0 @ hs) else None)))"

definition zone_char :: "char \<Rightarrow> bool" where
  "zone_char c \<longleftrightarrow> list_ex (char_in c) [''09'', ''az'', ''AZ'', ''-.'', ''::'']"

text \<open>An address may name a zone behind a percent sign.\<close>

definition parse_ipv6 :: "string \<Rightarrow> nat list option" where
  "parse_ipv6 t =
     (let addr = takeWhile (\<lambda>c. c \<noteq> CHR ''%'') t; zone = dropWhile (\<lambda>c. c \<noteq> CHR ''%'') t
      in if zone \<noteq> [] \<and> \<not> (1 < length zone \<and> list_all zone_char (tl zone)) then None
         else parse_ipv6_plain addr)"

definition isIP :: "string \<Rightarrow> nat" where
  "isIP t = (if is_ipv4 t then 4 else if parse_ipv6 t \<noteq> None then 6 else 0)"

section \<open>The guard\<close>

definition isBlockedIpv4 :: "string \<Rightarrow> bool" where
  "isBlockedIpv4 ip =
     (let parts = map js_number (split_on (CHR ''.'') ip)
      in if length parts \<noteq> 4 \<or> list_ex (\<lambda>p. p = None \<or> 255 < the p) parts then True
         else let a = the (parts ! 0); b = the (parts ! 1)
              in if a = 127 then True
                 else if a = 10 then True
                 else if a = 172 \<and> 16 \<le> b \<and> b \<le> 31 then True
                 else if a = 192 \<and> b = 168 then True
                 else if a = 169 \<and> b = 254 then True
                 else a = 0)"

definition strip_prefix :: "string \<Rightarrow> string \<Rightarrow> string option" where
  "strip_prefix p s = (if take (length p) s = p then Some (drop (length p) s) else None)"

text \<open>
  What may follow \<open>^::(?:ffff:(?:0:)?)?\<close>, in the order in which the matcher tries it.
\<close>

definition v4_tails :: "string \<Rightarrow> string list" where
  "v4_tails host =
     List.map_filter (\<lambda>p. strip_prefix p host) [''::ffff:0:'', ''::ffff:'', ''::'']"

definition dotted_shape :: "string \<Rightarrow> bool" where
  "dotted_shape t \<longleftrightarrow> length (split_on (CHR ''.'') t) = 4 \<and> list_all digits (split_on (CHR ''.'') t)"

definition lower_hex :: "char \<Rightarrow> bool" where
  "lower_hex c \<longleftrightarrow> char_in c ''09'' \<or> char_in c ''af''"

text \<open>\<open>[0-9a-f]{1,4}:[0-9a-f]{1,4}\<close>; the host is in lower case.\<close>

definition hex_shape :: "string \<Rightarrow> bool" where
  "hex_shape t \<longleftrightarrow> length (split_on (CHR '':'') t) = 2 \<and>
     list_all (\<lambda>h. quartet h \<and> list_all lower_hex h) (split_on (CHR '':'') t)"

definition embeddedIpv4 :: "string \<Rightarrow> string option" where
  "embeddedIpv4 host =
     (case List.find dotted_shape (v4_tails host) of
        Some t \<Rightarrow> Some t
      | None \<Rightarrow>
          (case List.find hex_shape (v4_tails host) of
             None \<Rightarrow> None
           | Some t \<Rightarrow>
               (let hi = word_of_nat (hex_value (split_on (CHR '':'') t ! 0)) :: 32 word;
                    lo = word_of_nat (hex_value (split_on (CHR '':'') t ! 1)) :: 32 word
                in Some (join_with ''.'' (map (\<lambda>x. nat_str (unat (and x 255))) [drop_bit 8 hi, hi, drop_bit 8 lo, lo])))))"

text \<open>\<open>/^f..[0-9a-f]:/\<close>, with tests for the second and the third character.\<close>

definition starts_hex4 :: "(char \<Rightarrow> bool) \<Rightarrow> (char \<Rightarrow> bool) \<Rightarrow> string \<Rightarrow> bool" where
  "starts_hex4 second third s \<longleftrightarrow>
     5 \<le> length s \<and> s ! 0 = CHR ''f'' \<and> second (s ! 1) \<and> third (s ! 2) \<and> lower_hex (s ! 3) \<and> s ! 4 = CHR '':''"

definition isBlockedIp :: "string \<Rightarrow> bool" where
  "isBlockedIp ip =
     (let family = isIP ip
      in if family = 4 then isBlockedIpv4 ip
         else if family = 6 then
           (let lower = js_lower ip
            in if lower = ''::1'' \<or> lower = ''::'' then True
               else if starts_hex4 (\<lambda>c. c \<in> set ''cd'') lower_hex lower then True
               else if starts_hex4 (\<lambda>c. c = CHR ''e'') (\<lambda>c. c \<in> set ''89ab'') lower then True
               else let embedsV4 = (strip_prefix ''::ffff:'' lower \<noteq> None \<or> strip_prefix ''::'' lower \<noteq> None \<or>
                                    CHR ''.'' \<in> set lower)
                    in if embedsV4 then (case embeddedIpv4 lower of None \<Rightarrow> True | Some v4 \<Rightarrow> isBlockedIpv4 v4)
                       else False)
         else False)"

text \<open>Loopback names, names of the local network, literal addresses and every address a name resolves to.\<close>

record 'w guard_host =
  gh_parseUrl :: "string \<Rightarrow> (string \<times> string) option"
  gh_dnsLookup :: "string \<Rightarrow> 'w \<Rightarrow> (string + string list) \<times> 'w"

definition ends_with :: "string \<Rightarrow> string \<Rightarrow> bool" where
  "ends_with s suffix \<longleftrightarrow> length suffix \<le> length s \<and> drop (length s - length suffix) s = suffix"

definition isBlockedWebhookHost :: "'w guard_host \<Rightarrow> string \<Rightarrow> ('w, bool) io" where
  "isBlockedWebhookHost g url =
     (case gh_parseUrl g url of
        None \<Rightarrow> ret True
      | Some (protocol, hostname) \<Rightarrow>
          if protocol \<noteq> ''http:'' \<and> protocol \<noteq> ''https:'' then ret True
          else let h = js_lower hostname;
                   host = (if take 1 h = ''['' \<and> ends_with h '']'' then butlast (tl h) else h)
               in if host = ''localhost'' \<or> host = ''localhost.localdomain'' then ret True
                  else if ends_with host ''.local'' then ret True
                  else if isIP host \<noteq> 0 then ret (isBlockedIp host)
                  else catching (andThen (gh_dnsLookup g host) (\<lambda>records. ret (list_ex isBlockedIp records)))
                         (\<lambda>_. ret False))"

section \<open>Addresses as numbers\<close>

text \<open>The networks the guard means to keep out, as prefixes of 32-bit addresses.\<close>

definition in_network :: "32 word \<Rightarrow> 32 word \<times> nat \<Rightarrow> bool" where
  "in_network w net \<longleftrightarrow> drop_bit (32 - snd net) w = drop_bit (32 - snd net) (fst net)"

definition internal_v4 :: "32 word \<Rightarrow> bool" where
  "internal_v4 w \<longleftrightarrow> list_ex (in_network w)
     [(0x7F000000, 8), (0x0A000000, 8), (0xAC100000, 12), (0xC0A80000, 16), (0xA9FE0000, 16), (0, 8)]"

text \<open>An address in dotted decimal form.\<close>

definition dotted :: "32 word \<Rightarrow> string" where
  "dotted w = join_with ''.'' (map (\<lambda>k. nat_str (unat w div 2 ^ k mod 256)) [24, 16, 8, 0])"

lemma digits_nat_str [simp]: "digits (nat_str n)"
  using nat_str_digits [of n] by (simp add: digits_def list_all_iff)

lemma js_number_nat_str [simp]: "js_number (nat_str n) = Some n"
  by (simp add: js_number_def)

lemma dot_free: "digits p \<Longrightarrow> CHR ''.'' \<notin> set p"
  by (auto simp: digits_def list_all_iff digit_def char_in_def less_eq_char_def)

lemma in_network_nat:
  assumes "n < 2 ^ 32" and "m < 2 ^ 32"
  shows "in_network (word_of_nat n) (word_of_nat m, k) \<longleftrightarrow> n div 2 ^ (32 - k) = m div 2 ^ (32 - k)"
proof -
  have shift: "unat (drop_bit j (word_of_nat x :: 32 word)) = x div 2 ^ j" if "x < 2 ^ 32" for x j
    using that unfolding unat_drop_bit_eq by (simp add: drop_bit_eq_div unat_of_nat take_bit_nat_eq_self)
  show ?thesis
    by (simp only: in_network_def fst_conv snd_conv word_unat_eq_iff shift [OF assms(1)] shift [OF assms(2)])
qed

lemma octet_pair: "b < 256 \<Longrightarrow> a * 256 + b = n \<longleftrightarrow> a = n div 256 \<and> b = n mod 256" for a b n :: nat
  by auto

lemma internal_v4_octets:
  assumes "a < 256" "b < 256" "c < 256" "d < 256"
  shows "internal_v4 (word_of_nat (a * 2 ^ 24 + b * 2 ^ 16 + c * 2 ^ 8 + d)) \<longleftrightarrow>
    a = 127 \<or> a = 10 \<or> a = 172 \<and> 16 \<le> b \<and> b \<le> 31 \<or> a = 192 \<and> b = 168 \<or> a = 169 \<and> b = 254 \<or> a = 0"
proof -
  define n where "n = a * 2 ^ 24 + b * 2 ^ 16 + c * 2 ^ 8 + d"
  have n: "n < 2 ^ 32" using assms by (simp add: n_def)
  note net = in_network_nat [OF n]
  have "n div 2 ^ 24 = a" "n div 2 ^ 16 = a * 256 + b" "n div 2 ^ 20 = (a * 256 + b) div 16"
    using assms by (simp_all add: n_def)
  then have "in_network (word_of_nat n) (0x7F000000, 8) \<longleftrightarrow> a = 127"
    "in_network (word_of_nat n) (0x0A000000, 8) \<longleftrightarrow> a = 10"
    "in_network (word_of_nat n) (0xAC100000, 12) \<longleftrightarrow> (a * 256 + b) div 16 = 0xAC1"
    "in_network (word_of_nat n) (0xC0A80000, 16) \<longleftrightarrow> a * 256 + b = 0xC0A8"
    "in_network (word_of_nat n) (0xA9FE0000, 16) \<longleftrightarrow> a * 256 + b = 0xA9FE"
    "in_network (word_of_nat n) (0, 8) \<longleftrightarrow> a = 0"
    using net [of "0x7F000000" 8] net [of "0x0A000000" 8] net [of "0xAC100000" 12] net [of "0xC0A80000" 16]
      net [of "0xA9FE0000" 16] net [of "0" 8] by simp_all
  moreover have "(a * 256 + b) div 16 = 0xAC1 \<longleftrightarrow> a = 172 \<and> 16 \<le> b \<and> b \<le> 31"
    "a * 256 + b = 0xC0A8 \<longleftrightarrow> a = 192 \<and> b = 168" "a * 256 + b = 0xA9FE \<longleftrightarrow> a = 169 \<and> b = 254"
  proof -
    define q where "q = b div 16"
    have q: "q < 16" "16 * q \<le> b" "b < 16 * q + 16" using assms(2) by (simp_all add: q_def)
    have "(a * 256 + b) div 16 = (16 * (a * 16) + b) div 16" by simp
    also have "\<dots> = a * 16 + q" by (simp add: q_def)
    finally have div: "(a * 256 + b) div 16 = a * 16 + q" .
    have "a * 16 + q = 0xAC1 \<longleftrightarrow> a = 172 \<and> q = 1" using q(1) by presburger
    moreover have "q = 1 \<longleftrightarrow> 16 \<le> b \<and> b \<le> 31" using q by auto
    ultimately show "(a * 256 + b) div 16 = 0xAC1 \<longleftrightarrow> a = 172 \<and> 16 \<le> b \<and> b \<le> 31" by (simp only: div)
    show "a * 256 + b = 0xC0A8 \<longleftrightarrow> a = 192 \<and> b = 168" "a * 256 + b = 0xA9FE \<longleftrightarrow> a = 169 \<and> b = 254"
      using octet_pair [OF assms(2), of a] by simp_all
  qed
  ultimately show ?thesis unfolding n_def [symmetric] by (simp add: internal_v4_def)
qed

lemma isBlockedIpv4_digits:
  assumes "split_on (CHR ''.'') t = [p, q, r, s]" and "list_all digits [p, q, r, s]"
  shows "isBlockedIpv4 t \<longleftrightarrow> \<not> list_all (\<lambda>x. digits_value x \<le> 255) [p, q, r, s] \<or>
    (let a = digits_value p; b = digits_value q in
     a = 127 \<or> a = 10 \<or> a = 172 \<and> 16 \<le> b \<and> b \<le> 31 \<or> a = 192 \<and> b = 168 \<or> a = 169 \<and> b = 254 \<or> a = 0)"
  using assms by (auto simp: isBlockedIpv4_def js_number_def Let_def)

lemma isBlockedIpv4_octets:
  assumes "split_on (CHR ''.'') t = [p, q, r, s]" and "list_all digits [p, q, r, s]"
    and "list_all (\<lambda>x. digits_value x < 256) [p, q, r, s]"
  shows "isBlockedIpv4 t \<longleftrightarrow>
    internal_v4 (word_of_nat (digits_value p * 2 ^ 24 + digits_value q * 2 ^ 16 + digits_value r * 2 ^ 8 + digits_value s))"
  using isBlockedIpv4_digits [OF assms(1,2)] internal_v4_octets [of "digits_value p" "digits_value q" "digits_value r" "digits_value s"]
    assms(3) by (simp add: Let_def less_eq_Suc_le [symmetric] less_Suc_eq_le [of _ 255, simplified])

lemma split_dotted: "split_on (CHR ''.'') (join_with ''.'' (map nat_str ns)) = map nat_str ns" if "ns \<noteq> []"
  by (rule split_on_join) (use that dot_free in \<open>auto\<close>)

lemma base_256:
  fixes n :: nat
  assumes "n < 2 ^ 32"
  shows "n div 2 ^ 24 mod 256 * 2 ^ 24 + n div 2 ^ 16 mod 256 * 2 ^ 16 + n div 2 ^ 8 mod 256 * 2 ^ 8 + n mod 256 = n"
proof -
  define a where "a = n div 256"
  define b where "b = a div 256"
  define c where "c = b div 256"
  have "n div 2 ^ 8 = a" "n div 2 ^ 16 = b" "n div 2 ^ 24 = c"
    by (simp_all add: a_def b_def c_def flip: div_mult2_eq)
  moreover have "c < 256" using assms by (simp add: a_def b_def c_def)
  moreover have "n = 256 * a + n mod 256" "a = 256 * b + a mod 256" "b = 256 * c + b mod 256"
    by (simp_all add: a_def b_def c_def)
  ultimately show ?thesis by simp
qed

text \<open>On 32-bit addresses in dotted decimal form the guard, which compares decimal numbers octet by octet, is
  exactly membership in the loopback, private, link-local and zero networks, which are masks of the
  address as a word.\<close>

theorem ipv4_guard_is_prefix_match: "isBlockedIpv4 (dotted w) = internal_v4 w"
proof -
  let ?o = "\<lambda>k. unat w div 2 ^ k mod 256"
  have split: "split_on (CHR ''.'') (dotted w) = [nat_str (?o 24), nat_str (?o 16), nat_str (?o 8), nat_str (?o 0)]"
    using split_dotted [of "[?o 24, ?o 16, ?o 8, ?o 0]"] by (simp add: dotted_def)
  have w: "unat w < 2 ^ 32" using unsigned_less [of w] by simp
  have "?o 24 * 2 ^ 24 + ?o 16 * 2 ^ 16 + ?o 8 * 2 ^ 8 + ?o 0 = unat w"
    using base_256 [OF w] by (simp only: power_0 div_by_1)
  then have "word_of_nat (?o 24 * 2 ^ 24 + ?o 16 * 2 ^ 16 + ?o 8 * 2 ^ 8 + ?o 0) = w" by (simp only: of_nat_unat ucast_id)
  then show ?thesis using isBlockedIpv4_octets [OF split] by simp
qed

section \<open>IPv6 addresses\<close>

text \<open>Unique local (\<open>fc00::/7\<close>) and link-local (\<open>fe80::/10\<close>) addresses, and the IPv4 address in the low 32 bits.\<close>

definition unique_local :: "nat list \<Rightarrow> bool" where
  "unique_local gs \<longleftrightarrow> gs ! 0 div 2 ^ 9 = 0xFC div 2"

definition link_local :: "nat list \<Rightarrow> bool" where
  "link_local gs \<longleftrightarrow> gs ! 0 div 2 ^ 6 = 0x3FA"

definition low_32 :: "nat list \<Rightarrow> 32 word" where
  "low_32 gs = word_of_nat (gs ! 6 * 2 ^ 16 + gs ! 7)"

lemma quartet_colon_free: "quartet p \<Longrightarrow> CHR '':'' \<notin> set p"
  by (auto simp: quartet_def list_all_iff hex_digit_def char_in_def less_eq_char_def)

lemma split_head:
  assumes "split_on c t = p # q # ps"
  shows "\<exists>rest. t = p @ c # rest"
  using assms
proof (induction t arbitrary: p)
  case (Cons x xs)
  then show ?case
  proof (cases "x = c")
    case True
    with Cons.prems show ?thesis by auto
  next
    case False
    with Cons.prems obtain p' where p': "split_on c xs = p' # q # ps" "p = x # p'"
      by (auto split: list.splits)
    then show ?thesis using Cons.IH by auto
  qed
qed simp

lemma split_single: "split_on c t = [p] \<Longrightarrow> t = p"
proof (induction t arbitrary: p)
  case (Cons x xs)
  then show ?case by (auto split: if_splits list.splits)
qed simp

lemma cut_double_colon_SomeD: "cut_double_colon t = Some (l, r) \<Longrightarrow> t = l @ ''::'' @ r"
  by (induction t arbitrary: l r rule: cut_double_colon.induct) (auto split: if_splits)

lemma colon_groups_Cons:
  "colon_groups (p # q # ps) = Some gs \<Longrightarrow> quartet p \<and> (\<exists>hs. gs = hex_value p # hs)"
  by (auto split: if_splits)

text \<open>A first group that is not zero is written out in front of a colon.\<close>

lemma first_group:
  assumes "parse_ipv6_plain t = Some gs" and "0 < gs ! 0"
  shows "\<exists>p rest. t = p @ CHR '':'' # rest \<and> quartet p \<and> hex_value p = gs ! 0"
proof (cases "cut_double_colon t")
  case None
  with assms(1) have gs: "tail_groups t = Some gs" "length gs = 8"
    by (auto simp: parse_ipv6_plain_def bind_eq_Some_conv split: if_splits)
  then have cg: "colon_groups (split_on (CHR '':'') t) = Some gs" by (auto simp: tail_groups_def split: if_splits)
  obtain p ps where ps: "split_on (CHR '':'') t = p # ps" by (metis neq_Nil_conv split_on_nonempty)
  show ?thesis
  proof (cases ps)
    case Nil
    with cg ps gs(2) show ?thesis by (auto simp: dotted_groups_def split: if_splits list.splits)
  next
    case (Cons q qs)
    have "colon_groups (p # q # qs) = Some gs" using cg ps Cons by simp
    then obtain hs where "quartet p" "gs = hex_value p # hs" using colon_groups_Cons by blast
    moreover obtain rest where "t = p @ CHR '':'' # rest" using split_head ps Cons by blast
    ultimately show ?thesis by auto
  qed
next
  case (Some lr)
  then obtain l r where lr: "cut_double_colon t = Some (l, r)" by (cases lr) auto
  with assms(1) obtain ls hs where ls: "plain_groups l = Some ls"
    and gs: "gs = ls @ replicate (8 - length ls - length hs) 0 @ hs" "length ls + length hs \<le> 7"
    by (auto simp: parse_ipv6_plain_def bind_eq_Some_conv split: if_splits)
  have t: "t = l @ ''::'' @ r" using cut_double_colon_SomeD [OF lr] .
  show ?thesis
  proof (cases "l = []")
    case True
    with ls have "ls = []" by (simp add: plain_groups_def)
    with gs assms(2) show ?thesis by (auto simp: nth_append split: if_splits)
  next
    case False
    with ls have q: "list_all quartet (split_on (CHR '':'') l)" "ls = map hex_value (split_on (CHR '':'') l)"
      by (auto simp: plain_groups_def split: if_splits)
    obtain p ps where ps: "split_on (CHR '':'') l = p # ps" by (metis neq_Nil_conv split_on_nonempty)
    have v: "quartet p" "hex_value p = gs ! 0" using q ps gs(1) by auto
    show ?thesis
    proof (cases ps)
      case Nil
      with ps have "l = p" by (simp add: split_single)
      with t have "t = p @ CHR '':'' # CHR '':'' # r" by simp
      with v show ?thesis by blast
    next
      case (Cons p2 ps2)
      with ps split_head [of "CHR '':''" l p p2 ps2] obtain rest where "l = p @ CHR '':'' # rest" by blast
      with t have "t = p @ CHR '':'' # rest @ ''::'' @ r" by simp
      with v show ?thesis by blast
    qed
  qed
qed

lemma hex_digit_less: "hex_digit c \<Longrightarrow> hex_digit_value c < 16"
  by (auto simp: hex_digit_def hex_digit_value_def char_in_def less_eq_char_def)

lemma hex_value_append: "hex_value (h @ [c]) = 16 * hex_value h + hex_digit_value c"
  by (simp add: hex_value_def)

lemma hex_value_bound: "list_all hex_digit h \<Longrightarrow> hex_value h < 16 ^ length h"
proof (induction h rule: rev_induct)
  case (snoc c h)
  then show ?case using hex_digit_less [of c] by (simp add: hex_value_append)
qed (simp add: hex_value_def)

lemma base_16:
  fixes a b c d x :: nat
  assumes "b < 16" "c < 16" "d < 16" and "x = ((a * 16 + b) * 16 + c) * 16 + d"
  shows "a = x div 16 div 16 div 16" "b = x div 16 div 16 mod 16" "c = x div 16 mod 16"
proof -
  have shift: "(n * 16 + k) div 16 = n" "(n * 16 + k) mod 16 = k" if "k < 16" for n k :: nat using that by simp_all
  show "a = x div 16 div 16 div 16" "b = x div 16 div 16 mod 16" "c = x div 16 mod 16"
    by (simp_all only: assms(4) shift assms(1-3))
qed

text \<open>A group of at least \<open>1000\<close> has four digits.\<close>

lemma four_digits:
  assumes "quartet p" and "16 ^ 3 \<le> hex_value p"
  obtains a b c d where "p = [a, b, c, d]" "list_all hex_digit [a, b, c, d]"
    "hex_digit_value a = hex_value p div 16 div 16 div 16" "hex_digit_value b = hex_value p div 16 div 16 mod 16"
    "hex_digit_value c = hex_value p div 16 mod 16"
proof -
  have "\<not> length p \<le> 3"
  proof
    assume "length p \<le> 3"
    then have "(16 :: nat) ^ length p \<le> 16 ^ 3" by (rule power_increasing) simp
    with hex_value_bound [of p] assms show False by (simp add: quartet_def)
  qed
  with assms(1) have "length p = 4" by (simp add: quartet_def)
  then obtain a b c d where p: "p = [a, b, c, d]"
    by (auto simp: numeral_eq_Suc length_Suc_conv)
  with assms(1) have h: "list_all hex_digit [a, b, c, d]" by (simp add: quartet_def)
  have v: "hex_value p = ((hex_digit_value a * 16 + hex_digit_value b) * 16 + hex_digit_value c) * 16 + hex_digit_value d"
    by (simp add: hex_value_def p)
  from h have "hex_digit_value b < 16" "hex_digit_value c < 16" "hex_digit_value d < 16"
    by (simp_all add: hex_digit_less)
  from that [OF p h] base_16 [OF this v] show thesis by blast
qed

text \<open>The digits of the prefixes, in a text without capitals.\<close>

lemma js_lower_fixed: "js_lower s = s \<Longrightarrow> c \<in> set s \<Longrightarrow> \<not> char_in c ''AZ''"
proof (induction s)
  case (Cons x xs)
  have "char_in x ''AZ'' \<Longrightarrow> char_of (of_char x + 32 :: nat) \<noteq> x"
    by (auto simp: char_in_def less_eq_char_def dest!: arg_cong [where f = "of_char :: char \<Rightarrow> nat"])
  with Cons show ?case by (auto simp: js_lower_def split: if_splits)
qed simp

lemma hex_char: "hex_digit c \<Longrightarrow> \<not> char_in c ''AZ'' \<Longrightarrow> lower_hex c"
  by (auto simp: hex_digit_def lower_hex_def char_in_def less_eq_char_def)

lemma lower_hex_char:
  assumes "lower_hex c"
  shows "c = char_of (if hex_digit_value c < 10 then 48 + hex_digit_value c else 87 + hex_digit_value c)"
proof -
  have "of_char c = (if hex_digit_value c < 10 then 48 + hex_digit_value c else 87 + hex_digit_value c)"
    using assms by (auto simp: lower_hex_def hex_digit_value_def char_in_def less_eq_char_def)
  then show ?thesis by (metis char_of_char)
qed

lemma hex_char_value:
  assumes "lower_hex c"
  shows "hex_digit_value c = 15 \<Longrightarrow> c = CHR ''f''" "hex_digit_value c = 14 \<Longrightarrow> c = CHR ''e''"
    "hex_digit_value c \<in> {12, 13} \<Longrightarrow> c \<in> set ''cd''" "hex_digit_value c \<in> {8, 9, 10, 11} \<Longrightarrow> c \<in> set ''89ab''"
proof -
  have "char_of (102 :: nat) = CHR ''f''" "char_of (101 :: nat) = CHR ''e''" "char_of (99 :: nat) = CHR ''c''"
    "char_of (100 :: nat) = CHR ''d''" "char_of (56 :: nat) = CHR ''8''" "char_of (57 :: nat) = CHR ''9''"
    "char_of (97 :: nat) = CHR ''a''" "char_of (98 :: nat) = CHR ''b''"
    by code_simp+
  note char_codes = this
  show "hex_digit_value c = 15 \<Longrightarrow> c = CHR ''f''" "hex_digit_value c = 14 \<Longrightarrow> c = CHR ''e''"
    "hex_digit_value c \<in> {12, 13} \<Longrightarrow> c \<in> set ''cd''" "hex_digit_value c \<in> {8, 9, 10, 11} \<Longrightarrow> c \<in> set ''89ab''"
    using lower_hex_char [OF assms] by (auto simp: char_codes)
qed

text \<open>The written prefix of a unique local or link-local address.\<close>

lemma local_prefix:
  assumes "parse_ipv6_plain t = Some gs" and "unique_local gs \<or> link_local gs" and low: "js_lower (t @ z) = t @ z"
  shows "starts_hex4 (\<lambda>c. c \<in> set ''cd'') lower_hex (t @ z) \<or>
    starts_hex4 (\<lambda>c. c = CHR ''e'') (\<lambda>c. c \<in> set ''89ab'') (t @ z)"
proof -
  let ?g = "gs ! 0"
  have big: "16 ^ 3 \<le> ?g" using assms(2) by (auto simp: unique_local_def link_local_def)
  then have "0 < ?g" by simp
  from first_group [OF assms(1) this] obtain p rest where t: "t = p @ CHR '':'' # rest" and p: "quartet p" "hex_value p = ?g"
    by blast
  from big p(2) have "16 ^ 3 \<le> hex_value p" by simp
  from four_digits [OF p(1) this] obtain a b c d where abcd: "p = [a, b, c, d]" "list_all hex_digit [a, b, c, d]"
    and v: "hex_digit_value a = ?g div 16 div 16 div 16" "hex_digit_value b = ?g div 16 div 16 mod 16"
      "hex_digit_value c = ?g div 16 mod 16"
    unfolding p(2) by blast
  have lower: "lower_hex x" if "x \<in> set [a, b, c, d]" for x
    using that abcd t js_lower_fixed [OF low, of x] hex_char by (auto simp: list_all_iff)
  have nums: "hex_digit_value a = ?g div 2 ^ 12" "hex_digit_value b = ?g div 2 ^ 8 mod 16" "hex_digit_value c = ?g div 2 ^ 4 mod 16"
    by (simp_all add: v flip: div_mult2_eq)
  from assms(2) show ?thesis
  proof
    assume "unique_local gs"
    then have u: "?g div 2 ^ 9 = 126" by (simp add: unique_local_def)
    have "?g div 2 ^ 8 \<in> {252, 253}" "?g div 2 ^ 12 = 15"
    proof -
      have "?g div 2 ^ 8 div 2 = 126" using u by (simp flip: div_mult2_eq)
      then show "?g div 2 ^ 8 \<in> {252, 253}" by auto
      have "?g div 2 ^ 12 = ?g div 2 ^ 9 div 8" by (simp flip: div_mult2_eq)
      then show "?g div 2 ^ 12 = 15" by (simp only: u)
    qed
    then have "hex_digit_value a = 15" "hex_digit_value b \<in> {12, 13}" by (auto simp only: nums) auto
    with lower hex_char_value have "a = CHR ''f''" "b \<in> set ''cd''" by auto
    then show ?thesis using lower t abcd(1) by (simp add: starts_hex4_def)
  next
    assume "link_local gs"
    then have u: "?g div 2 ^ 6 = 1018" by (simp add: link_local_def)
    have "?g div 2 ^ 4 \<in> {4072, 4073, 4074, 4075}"
    proof -
      have "?g div 2 ^ 4 div 4 = 1018" using u by (simp flip: div_mult2_eq)
      then show ?thesis by auto
    qed
    moreover have "?g div 2 ^ 8 = 254" "?g div 2 ^ 12 = 15"
    proof -
      have "?g div 2 ^ 8 = ?g div 2 ^ 6 div 4" "?g div 2 ^ 12 = ?g div 2 ^ 6 div 64" by (simp_all flip: div_mult2_eq)
      then show "?g div 2 ^ 8 = 254" "?g div 2 ^ 12 = 15" by (simp_all only: u)
    qed
    ultimately have "hex_digit_value a = 15" "hex_digit_value b = 14" "hex_digit_value c \<in> {8, 9, 10, 11}"
      by (auto simp only: nums) auto
    with lower hex_char_value have "a = CHR ''f''" "b = CHR ''e''" "c \<in> set ''89ab''" by auto
    then show ?thesis using lower t abcd(1) by (simp add: starts_hex4_def)
  qed
qed

text \<open>The embedded IPv4 address of a text that starts with a double colon is the low half of its last 64 bits.\<close>

lemma word_octets:
  assumes "hi < 2 ^ 16" and "lo < 2 ^ 16"
  shows "map (\<lambda>x. unat (and x 255)) [drop_bit 8 (word_of_nat hi :: 32 word), word_of_nat hi, drop_bit 8 (word_of_nat lo), word_of_nat lo]
    = [hi div 256, hi mod 256, lo div 256, lo mod 256]"
proof -
  have mask: "unat (and x 255) = unat x mod 256" for x :: "32 word"
  proof -
    have "and x 255 = take_bit 8 x" by (simp add: take_bit_eq_mask mask_eq_exp_minus_1)
    then have "and x 255 = x mod 256" by (simp add: take_bit_eq_mod)
    then show ?thesis by (simp add: unat_mod_distrib)
  qed
  have "unat (word_of_nat n :: 32 word) = n" "unat (drop_bit 8 (word_of_nat n :: 32 word)) = n div 256" if "n < 2 ^ 16" for n
    using that unfolding unat_drop_bit_eq by (simp_all add: drop_bit_eq_div unat_of_nat take_bit_nat_eq_self)
  with assms show ?thesis by (simp add: mask)
qed

lemma tail_text:
  assumes "x \<in> set (v4_tails (''::'' @ s))"
  obtains q where "s = q @ x" and "q \<in> set [[], ''ffff:'', ''ffff:0:'']"
proof -
  have strip: "strip_prefix p t = Some x \<longleftrightarrow> t = p @ x" for p t
    by (auto simp: strip_prefix_def) (metis append_take_drop_id)
  from assms have "''::'' @ s = ''::ffff:0:'' @ x \<or> ''::'' @ s = ''::ffff:'' @ x \<or> ''::'' @ s = ''::'' @ x"
    by (auto simp: v4_tails_def List.map_filter_def strip split: option.splits if_splits)
  with that show thesis by force
qed

lemma split_prefixed:
  assumes "q \<in> set [[], ''ffff:'', ''ffff:0:'']"
  shows "\<exists>qs. split_on (CHR '':'') (q @ x) = qs @ split_on (CHR '':'') x \<and> list_all quartet qs"
proof -
  have "split_on (CHR '':'') ([] @ x) = [] @ split_on (CHR '':'') x"
    "split_on (CHR '':'') (''ffff:'' @ x) = [''ffff''] @ split_on (CHR '':'') x"
    "split_on (CHR '':'') (''ffff:0:'' @ x) = [''ffff'', ''0''] @ split_on (CHR '':'') x"
    by simp_all
  moreover have "list_all quartet [''ffff'', ''0'']"
    by (simp add: quartet_def hex_digit_def char_in_def less_eq_char_def)
  ultimately show ?thesis using assms by (metis (no_types) empty_iff list.pred_inject insert_iff list.set)
qed

lemma colon_groups_append:
  "colon_groups (qs @ p # ps) = Some hs \<Longrightarrow> \<exists>vs ws. hs = vs @ ws \<and> colon_groups (p # ps) = Some ws"
proof (induction qs arbitrary: hs)
  case (Cons q qs)
  obtain r rs where r: "qs @ p # ps = r # rs" by (cases qs) auto
  with Cons.prems obtain hs' where "hs = hex_value q # hs'" "colon_groups (qs @ p # ps) = Some hs'"
    by (auto split: if_splits)
  with Cons.IH show ?case by (metis append_Cons)
qed auto

lemma split_text: "list_all (list_all P) (split_on d x) \<Longrightarrow> c \<in> set x \<Longrightarrow> P c \<or> c = d"
proof (induction x)
  case (Cons y ys)
  then show ?case by (cases "split_on d ys") (auto split: if_splits)
qed simp

lemma dotted_shape_text: "dotted_shape x \<Longrightarrow> c \<in> set x \<Longrightarrow> digit c \<or> c = CHR ''.''"
  by (rule split_text) (auto simp: dotted_shape_def digits_def list_all_iff)

lemma hex_shape_text: "hex_shape x \<Longrightarrow> c \<in> set x \<Longrightarrow> hex_digit c \<or> c = CHR '':''"
  by (rule split_text) (auto simp: hex_shape_def quartet_def list_all_iff)

lemma not_punct: "digit c \<Longrightarrow> c \<noteq> CHR ''%'' \<and> c \<noteq> CHR '':''" "hex_digit c \<Longrightarrow> c \<noteq> CHR ''%''"
  by (auto simp: digit_def hex_digit_def char_in_def less_eq_char_def)

lemma hex_value_quartet: "quartet p \<Longrightarrow> hex_value p < 2 ^ 16"
proof -
  assume "quartet p"
  then have "hex_value p < 16 ^ length p" "length p \<le> 4" by (auto simp: quartet_def hex_value_bound)
  moreover have "(16 :: nat) ^ length p \<le> 16 ^ 4" by (rule power_increasing) (use calculation in simp_all)
  ultimately show ?thesis by simp
qed

lemma embedded_v4:
  assumes e: "embeddedIpv4 (''::'' @ r @ z) = Some v" and hs: "tail_groups r = Some hs"
    and z: "z = [] \<or> hd z = CHR ''%''"
  shows "\<exists>vs hi lo. hs = vs @ [hi, lo] \<and> isBlockedIpv4 v = internal_v4 (word_of_nat (hi * 2 ^ 16 + lo))"
proof -
  obtain x where x: "x \<in> set (v4_tails (''::'' @ r @ z))" and shape: "dotted_shape x \<and> v = x \<or>
      hex_shape x \<and> v = join_with ''.'' (map (\<lambda>x. nat_str (unat (and x 255)))
        [drop_bit 8 (word_of_nat (hex_value (split_on (CHR '':'') x ! 0)) :: 32 word), word_of_nat (hex_value (split_on (CHR '':'') x ! 0)),
         drop_bit 8 (word_of_nat (hex_value (split_on (CHR '':'') x ! 1))), word_of_nat (hex_value (split_on (CHR '':'') x ! 1))])"
    using e by (auto simp: embeddedIpv4_def Let_def dest!: find_SomeD split: option.splits)
  from tail_text [OF x] obtain q where q: "r @ z = q @ x" "q \<in> set [[], ''ffff:'', ''ffff:0:'']" by blast
  have "CHR ''%'' \<notin> set (q @ x)"
    using q(2) shape dotted_shape_text [of x "CHR ''%''"] hex_shape_text [of x "CHR ''%''"] not_punct
    by auto
  then have "CHR ''%'' \<notin> set z" unfolding q(1) [symmetric] by simp
  with z have "z = []" by (cases z) auto
  with q(1) have r: "r = q @ x" by simp
  from split_prefixed [OF q(2)] obtain qs where qs: "split_on (CHR '':'') (q @ x) = qs @ split_on (CHR '':'') x" by blast
  have "x \<noteq> []" using shape by (auto simp: dotted_shape_def hex_shape_def)
  with hs r have cg: "colon_groups (qs @ split_on (CHR '':'') x) = Some hs"
    by (auto simp: tail_groups_def qs split: if_splits)
  from shape show ?thesis
  proof
    assume d: "dotted_shape x \<and> v = x"
    then have "CHR '':'' \<notin> set x" using dotted_shape_text [of x "CHR '':''"] not_punct(1) by auto
    then have "split_on (CHR '':'') x = [x]" by (rule split_on_word)
    with cg colon_groups_append [of qs x "[]" hs] obtain vs ws where ws: "hs = vs @ ws" "colon_groups [x] = Some ws" by auto
    obtain a b c d' where s: "split_on (CHR ''.'') x = [a, b, c, d']"
      using d by (auto simp: dotted_shape_def numeral_eq_Suc length_Suc_conv)
    have "CHR ''.'' \<in> set x" using s split_single [of "CHR ''.''" x] split_on_word [of "CHR ''.''" x] by auto
    then have "\<not> quartet x"
      by (auto simp: quartet_def list_all_iff hex_digit_def char_in_def less_eq_char_def dest!: bspec)
    with ws(2) have ip: "is_ipv4 x" and g: "ws = dotted_groups x" by (auto split: if_splits)
    have o: "list_all (\<lambda>y. digits y \<and> digits_value y < 256) [a, b, c, d']"
      using ip s by (auto simp: is_ipv4_def octet_def)
    have "ws = [digits_value a * 256 + digits_value b, digits_value c * 256 + digits_value d']"
      by (simp add: g dotted_groups_def s)
    moreover have "isBlockedIpv4 v \<longleftrightarrow> internal_v4 (word_of_nat
        ((digits_value a * 256 + digits_value b) * 2 ^ 16 + (digits_value c * 256 + digits_value d')))"
    proof -
      have sum: "(digits_value a * 256 + digits_value b) * 2 ^ 16 + (digits_value c * 256 + digits_value d') =
        digits_value a * 2 ^ 24 + digits_value b * 2 ^ 16 + digits_value c * 2 ^ 8 + digits_value d'" by simp
      from o have "list_all digits [a, b, c, d']" "list_all (\<lambda>y. digits_value y < 256) [a, b, c, d']" by simp_all
      from isBlockedIpv4_octets [OF s this] d show ?thesis by (simp only: sum)
    qed
    ultimately show ?thesis using ws(1) by blast
  next
    assume h: "hex_shape x \<and> v = join_with ''.'' (map (\<lambda>x. nat_str (unat (and x 255)))
        [drop_bit 8 (word_of_nat (hex_value (split_on (CHR '':'') x ! 0)) :: 32 word), word_of_nat (hex_value (split_on (CHR '':'') x ! 0)),
         drop_bit 8 (word_of_nat (hex_value (split_on (CHR '':'') x ! 1))), word_of_nat (hex_value (split_on (CHR '':'') x ! 1))])"
    then obtain h1 h2 where s: "split_on (CHR '':'') x = [h1, h2]"
      by (auto simp: hex_shape_def numeral_eq_Suc length_Suc_conv)
    with h have qu: "quartet h1" "quartet h2" by (auto simp: hex_shape_def)
    from cg s colon_groups_append [of qs h1 "[h2]" hs] qu obtain vs where ws: "hs = vs @ [hex_value h1, hex_value h2]"
      by (auto simp: map_option_case split: option.splits)
    have small: "hex_value h1 < 2 ^ 16" "hex_value h2 < 2 ^ 16"
      using qu hex_value_quartet by blast+
    let ?hi = "hex_value h1" and ?lo = "hex_value h2"
    have halves: "?hi div 256 < 256" "?hi mod 256 < 256" "?lo div 256 < 256" "?lo mod 256 < 256"
      using small by (simp_all add: less_mult_imp_div_less)
    have v: "v = join_with ''.'' (map nat_str [?hi div 256, ?hi mod 256, ?lo div 256, ?lo mod 256])"
      using h s word_octets [OF small] by (simp add: comp_def) 
    have "split_on (CHR ''.'') v = map nat_str [?hi div 256, ?hi mod 256, ?lo div 256, ?lo mod 256]"
      unfolding v by (rule split_dotted) simp
    then have "isBlockedIpv4 v = internal_v4 (word_of_nat (?hi div 256 * 2 ^ 24 + ?hi mod 256 * 2 ^ 16 + ?lo div 256 * 2 ^ 8 + ?lo mod 256))"
      using isBlockedIpv4_octets [of v "nat_str (?hi div 256)" "nat_str (?hi mod 256)" "nat_str (?lo div 256)" "nat_str (?lo mod 256)"]
        halves by (simp only: list.map list.pred_inject digits_value_nat_str digits_nat_str simp_thms)
    moreover have "?hi div 256 * 2 ^ 24 + ?hi mod 256 * 2 ^ 16 + ?lo div 256 * 2 ^ 8 + ?lo mod 256 = ?hi * 2 ^ 16 + ?lo"
    proof -
      have "n div 256 * 2 ^ 24 + n mod 256 * 2 ^ 16 = n * 2 ^ 16" for n :: nat
      proof -
        have "n div 256 * 2 ^ 24 + n mod 256 * 2 ^ 16 = (n div 256 * 256 + n mod 256) * 2 ^ 16"
          by (simp only: add_mult_distrib mult.assoc) simp
        then show ?thesis by (simp only: div_mult_mod_eq)
      qed
      moreover have "?lo div 256 * 2 ^ 8 + ?lo mod 256 = ?lo" by simp
      ultimately show ?thesis by (simp only: add.assoc [symmetric])
    qed
    ultimately show ?thesis using ws by metis
  qed
qed

text \<open>No internal address passes the guard: a valid IPv6 text whose address is unique local or link-local is
  blocked, and so is one that starts with a double colon and carries an internal IPv4 address in its
  last 32 bits, dotted or in hexadecimal, mapped, compatible or translated; loopback and the
  unspecified address among them. The text is in lower case, as the URL parser and the resolver give it.\<close>

theorem internal_ipv6_blocked:
  assumes "isIP t = 6" and "parse_ipv6 t = Some gs" and "js_lower t = t"
    and "unique_local gs \<or> link_local gs \<or> take 2 t = ''::'' \<and> internal_v4 (low_32 gs)"
  shows "isBlockedIp t"
proof -
  define addr where "addr = takeWhile (\<lambda>c. c \<noteq> CHR ''%'') t"
  define z where "z = dropWhile (\<lambda>c. c \<noteq> CHR ''%'') t"
  have t: "t = addr @ z" by (simp add: addr_def z_def)
  have z: "z = [] \<or> hd z = CHR ''%''" using hd_dropWhile [of "\<lambda>c. c \<noteq> CHR ''%''" t] by (auto simp: z_def)
  have parse: "parse_ipv6_plain addr = Some gs"
    using assms(2) by (auto simp: parse_ipv6_def addr_def Let_def split: if_splits)
  consider "starts_hex4 (\<lambda>c. c \<in> set ''cd'') lower_hex t" | "starts_hex4 (\<lambda>c. c = CHR ''e'') (\<lambda>c. c \<in> set ''89ab'') t"
    | "take 2 t = ''::''" "internal_v4 (low_32 gs)"
    using assms(4) local_prefix [OF parse, of z] assms(3) unfolding t by blast
  then show ?thesis
  proof cases
    case 3
    then obtain s where s: "t = ''::'' @ s" by (metis append_take_drop_id)
    then have "addr = ''::'' @ takeWhile (\<lambda>c. c \<noteq> CHR ''%'') s" by (simp add: addr_def)
    then obtain r where r: "addr = ''::'' @ r" by blast
    then have "cut_double_colon addr = Some ([], r)" by simp
    with parse obtain hs where hs: "tail_groups r = Some hs" "gs = replicate (8 - length hs) 0 @ hs" "length hs \<le> 7"
      by (auto simp: parse_ipv6_plain_def plain_groups_def bind_eq_Some_conv split: if_splits)
    have "isBlockedIpv4 v" if v: "embeddedIpv4 t = Some v" for v
    proof -
      from v have "embeddedIpv4 (''::'' @ r @ z) = Some v" by (simp add: t r)
      from embedded_v4 [OF this hs(1) z] obtain vs hi lo where h: "hs = vs @ [hi, lo]"
        and b: "isBlockedIpv4 v = internal_v4 (word_of_nat (hi * 2 ^ 16 + lo))" by blast
      have "length gs = 8" using hs by simp
      have "gs = (replicate (6 - length vs) 0 @ vs) @ [hi, lo]" "length (replicate (6 - length vs) 0 @ vs) = 6"
        using hs(2,3) h by simp_all
      then have "gs ! 6 = hi" "gs ! 7 = lo" by (simp_all only: nth_append) simp_all
      with b 3(2) show ?thesis by (simp only: low_32_def)
    qed
    moreover have "strip_prefix ''::'' t \<noteq> None" by (simp add: s strip_prefix_def)
    ultimately show ?thesis
      using assms(1,3) by (auto simp: isBlockedIp_def Let_def split: option.split)
  qed (use assms(1,3) in \<open>simp_all add: isBlockedIp_def Let_def\<close>)
qed

lemmas text_eval = isIP_def is_ipv4_def octet_def digits_def digit_def parse_ipv6_def parse_ipv6_plain_def tail_groups_def
  plain_groups_def quartet_def hex_digit_def hex_value_def hex_digit_value_def zone_char_def char_in_def less_eq_char_def
  js_lower_def latin_capital_def

lemma replicate_5_6: "replicate 5 x = [x, x, x, x, x]" "replicate 6 x = [x, x, x, x, x, x]"
  by (simp_all add: numeral_eq_Suc)

theorem internal_ipv6_blocked_witness: "isBlockedIp ''::ffff:7f00:1'' \<and> isBlockedIp ''fd00::1%eth0''"
proof
  show "isBlockedIp ''::ffff:7f00:1''"
    by (rule internal_ipv6_blocked [where gs = "[0, 0, 0, 0, 0, 65535, 32512, 1]"])
       (simp_all add: text_eval replicate_5_6 low_32_def internal_v4_def in_network_def drop_bit_eq_div)
  show "isBlockedIp ''fd00::1%eth0''"
    by (rule internal_ipv6_blocked [where gs = "[64768, 0, 0, 0, 0, 0, 0, 1]"])
       (simp_all add: text_eval replicate_5_6 unique_local_def)
qed

text \<open>Texts that are not compressed escape the comparison of texts; neither the URL parser nor the resolver yields them.\<close>

lemma uncompressed_forms_pass: "\<not> isBlockedIp ''0:0:0:0:0:0:0:1''"
  by (simp add: isBlockedIp_def text_eval starts_hex4_def strip_prefix_def)

end
