(* ===== verification/Webhook_Delivery.thy ===== *)
theory Webhook_Delivery
  imports Webhook_Guard
begin

text \<open>
  The subscriptions and deliveries of \<open>src/services/webhook-subscriptions.ts\<close>. A sweep of \<open>deliverPending\<close> runs
  several deliveries at once, so its workers are a step relation: a delivery is checked, posted and
  recorded in steps between which other workers and the callers of the other operations may run.
  \<open>hk_posts\<close> lists every request that was sent. The events column holds the list it was written from, or
  text that does not parse; the payload column holds the value that is sent and signed. A call of
  another operation is one step; \<open>updatedAt\<close>, which nothing reads, is left out.
\<close>

section \<open>Rows\<close>

datatype events_column = EventList "string list" | UnreadableEvents

record webhook_subscription =
  ws_id :: ident
  ws_environmentId :: ident
  ws_url :: string
  ws_encryptedSecret :: "string option"
  ws_secretNonce :: "string option"
  ws_events :: events_column
  ws_enabled :: bool
  ws_createdAt :: millis

datatype delivery_status = DelPending | DelDelivered | DelFailed

record hook_body =
  hb_event :: string
  hb_environmentId :: ident
  hb_timestamp :: millis
  hb_data :: "(string \<times> string option) list"

record delivery_row =
  wd_id :: ident
  wd_subscriptionId :: ident
  wd_event :: string
  wd_payload :: hook_body
  wd_status :: delivery_status
  wd_attempts :: nat
  wd_nextAttemptAt :: "millis option"
  wd_lastError :: "string option"
  wd_responseStatus :: "int option"
  wd_createdAt :: millis
  wd_deliveredAt :: "millis option"

record hook_post =
  po_delivery :: ident
  po_url :: string
  po_headers :: "(string \<times> string) list"
  po_body :: hook_body

record 'w hook_db =
  hk_world :: 'w
  hk_nextId :: nat
  hk_subs :: "webhook_subscription list"
  hk_deliveries :: "delivery_row list"
  hk_posts :: "hook_post list"

text \<open>The environment: clock, ids, crypto, the network, and the settings of \<open>src/lib/config.ts\<close>.\<close>

record 'w hook_host =
  hh_guard :: "'w guard_host"
  hh_now :: "'w \<Rightarrow> millis"
  hh_newId :: "nat \<Rightarrow> ident"
  hh_encrypt :: "string \<Rightarrow> 'w \<Rightarrow> (string \<times> string) \<times> 'w"
  hh_decrypt :: "string \<Rightarrow> string \<Rightarrow> string + string"
  hh_hmac :: "string \<Rightarrow> hook_body \<Rightarrow> string"
  hh_fetch :: "hook_post \<Rightarrow> 'w \<Rightarrow> (string + int) \<times> 'w"
  hh_maxAttempts :: nat
  hh_batchSize :: nat
  hh_concurrency :: nat

definition hook_now :: "'w hook_host \<Rightarrow> 'w hook_db \<Rightarrow> millis" where
  "hook_now h s = hh_now h (hk_world s)"

definition on_hook :: "('w \<Rightarrow> (string + 'a) \<times> 'w) \<Rightarrow> ('w hook_db, 'a) io" where
  "on_hook m s = (case m (hk_world s) of (r, w) \<Rightarrow> (r, s\<lparr>hk_world := w\<rparr>))"

section \<open>Subscriptions\<close>

definition webhook_events :: "string list" where
  "webhook_events =
     [''deployment.completed'', ''deployment.failed'', ''plan.completed'', ''plan.failed'', ''plan.rolled_back'',
      ''backup.completed'', ''backup.failed'', ''sync.completed'']"

record subscription_output =
  wo_id :: ident
  wo_environmentId :: ident
  wo_url :: string
  wo_events :: "string list"
  wo_hasSecret :: bool
  wo_enabled :: bool
  wo_createdAt :: millis

definition events_of :: "webhook_subscription \<Rightarrow> string list" where
  "events_of sub = (case ws_events sub of EventList es \<Rightarrow> es | UnreadableEvents \<Rightarrow> [])"

definition toOutput :: "webhook_subscription \<Rightarrow> subscription_output" where
  "toOutput sub =
     \<lparr>wo_id = ws_id sub, wo_environmentId = ws_environmentId sub, wo_url = ws_url sub, wo_events = events_of sub,
      wo_hasSecret = truthy (ws_encryptedSecret sub), wo_enabled = ws_enabled sub, wo_createdAt = ws_createdAt sub\<rparr>"

definition areValidEvents :: "string list \<Rightarrow> bool" where
  "areValidEvents events \<longleftrightarrow> 0 < length events \<and> list_all (\<lambda>e. e \<in> set webhook_events) events"

record subscription_input =
  si_url :: string
  si_secret :: "string option"
  si_events :: "string list"
  si_enabled :: "bool option"

definition createWebhookSubscription :: "'w hook_host \<Rightarrow> ident \<Rightarrow> subscription_input
    \<Rightarrow> ('w hook_db, subscription_output) io" where
  "createWebhookSubscription h environmentId input =
     andThen (on_hook (isBlockedWebhookHost (hh_guard h) (si_url input))) (\<lambda>blocked.
     if blocked then
       throw ''Webhook URL targets a private, loopback, link-local, or metadata address, which is not allowed''
     else
       andThen (if truthy (si_secret input)
                then on_hook (\<lambda>w. case hh_encrypt h (the (si_secret input)) w of (c, w') \<Rightarrow> (Inr (Some c), w'))
                else ret None) (\<lambda>secret.
       andThen (reads (\<lambda>s.
         \<lparr>ws_id = hh_newId h (hk_nextId s), ws_environmentId = environmentId, ws_url = si_url input,
          ws_encryptedSecret = map_option fst secret, ws_secretNonce = map_option snd secret,
          ws_events = EventList (si_events input), ws_enabled = nullish (si_enabled input) True,
          ws_createdAt = hook_now h s\<rparr>)) (\<lambda>sub.
       andThen (writes (\<lambda>s. s\<lparr>hk_subs := hk_subs s @ [sub], hk_nextId := hk_nextId s + 1\<rparr>)) (\<lambda>_.
       ret (toOutput sub)))))"

definition listWebhookSubscriptions :: "ident \<Rightarrow> ('w hook_db, subscription_output list) io" where
  "listWebhookSubscriptions environmentId =
     reads (\<lambda>s. map toOutput (sort_key (\<lambda>x. - ws_createdAt x) (filter (\<lambda>x. ws_environmentId x = environmentId) (hk_subs s))))"

definition find_sub :: "ident \<Rightarrow> 'w hook_db \<Rightarrow> webhook_subscription option" where
  "find_sub i s = List.find (\<lambda>x. ws_id x = i) (hk_subs s)"

definition getWebhookSubscription :: "ident \<Rightarrow> ident \<Rightarrow> ('w hook_db, subscription_output option) io" where
  "getWebhookSubscription environmentId i =
     reads (\<lambda>s. case find_sub i s of
        None \<Rightarrow> None
      | Some sub \<Rightarrow> if ws_environmentId sub \<noteq> environmentId then None else Some (toOutput sub))"

text \<open>Deleting a subscription deletes its deliveries.\<close>

definition deleteWebhookSubscription :: "ident \<Rightarrow> ident \<Rightarrow> ('w hook_db, bool) io" where
  "deleteWebhookSubscription environmentId i =
     andThen (reads (find_sub i)) (\<lambda>found.
     case found of
       None \<Rightarrow> ret False
     | Some sub \<Rightarrow>
         if ws_environmentId sub \<noteq> environmentId then ret False
         else andThen (writes (\<lambda>s. s\<lparr>hk_subs := filter (\<lambda>x. ws_id x \<noteq> i) (hk_subs s),
                                     hk_deliveries := filter (\<lambda>d. wd_subscriptionId d \<noteq> i) (hk_deliveries s)\<rparr>))
                (\<lambda>_. ret True))"

text \<open>A page of the delivery history, without the payloads, and the number of all deliveries.\<close>

definition listed_delivery :: "delivery_row \<Rightarrow> ident \<times> string \<times> delivery_status \<times> nat \<times> millis option \<times> string option
    \<times> int option \<times> millis \<times> millis option" where
  "listed_delivery d =
     (wd_id d, wd_event d, wd_status d, wd_attempts d, wd_nextAttemptAt d, wd_lastError d, wd_responseStatus d,
      wd_createdAt d, wd_deliveredAt d)"

definition listWebhookDeliveries :: "ident \<Rightarrow> nat \<Rightarrow> nat \<Rightarrow> ('w hook_db, (ident \<times> string \<times> delivery_status \<times> nat
    \<times> millis option \<times> string option \<times> int option \<times> millis \<times> millis option) list \<times> nat) io" where
  "listWebhookDeliveries subscriptionId limit offset =
     reads (\<lambda>s. let mine = filter (\<lambda>d. wd_subscriptionId d = subscriptionId) (hk_deliveries s)
       in (map listed_delivery (take limit (drop offset (sort_key (\<lambda>d. - wd_createdAt d) mine))), length mine))"

section \<open>Events\<close>

text \<open>One pending delivery for every enabled subscription of the environment that lists the event.\<close>

definition matching_subs :: "string \<Rightarrow> ident \<Rightarrow> 'w hook_db \<Rightarrow> webhook_subscription list" where
  "matching_subs event environmentId s =
     filter (\<lambda>x. event \<in> set (events_of x))
       (filter (\<lambda>x. ws_environmentId x = environmentId \<and> ws_enabled x) (hk_subs s))"

definition new_delivery :: "'w hook_host \<Rightarrow> string \<Rightarrow> hook_body \<Rightarrow> 'w hook_db \<Rightarrow> nat \<Rightarrow> ident \<Rightarrow> delivery_row" where
  "new_delivery h event body s n subscriptionId =
     \<lparr>wd_id = hh_newId h n, wd_subscriptionId = subscriptionId, wd_event = event, wd_payload = body,
      wd_status = DelPending, wd_attempts = 0, wd_nextAttemptAt = Some (hook_now h s), wd_lastError = None,
      wd_responseStatus = None, wd_createdAt = hook_now h s, wd_deliveredAt = None\<rparr>"

definition emitWebhookEvent :: "'w hook_host \<Rightarrow> string \<Rightarrow> ident \<Rightarrow> (string \<times> string option) list \<Rightarrow> ('w hook_db, unit) io" where
  "emitWebhookEvent h event environmentId payload =
     andThen (reads (matching_subs event environmentId)) (\<lambda>matching.
     if length matching = 0 then ret ()
     else
       writes (\<lambda>s.
         let body = \<lparr>hb_event = event, hb_environmentId = environmentId, hb_timestamp = hook_now h s, hb_data = payload\<rparr>;
             n = hk_nextId s
         in s\<lparr>hk_deliveries := hk_deliveries s @
                map (\<lambda>(k, x). new_delivery h event body s (n + k) (ws_id x)) (enumerate 0 matching),
              hk_nextId := n + length matching\<rparr>))"

section \<open>Deliveries\<close>

definition backoffMs :: "nat \<Rightarrow> millis" where
  "backoffMs attempts = min (5000 * 2 ^ (attempts - 1)) (5 * 60 * 1000)"

definition markFailed :: "'w hook_host \<Rightarrow> ident \<Rightarrow> nat \<Rightarrow> string \<Rightarrow> int option \<Rightarrow> ('w hook_db, unit) io" where
  "markFailed h i attempts err responseStatus =
     writes (\<lambda>s.
       let terminal = hh_maxAttempts h \<le> attempts
       in s\<lparr>hk_deliveries := update_row wd_id i (\<lambda>r. r\<lparr>wd_status := DelFailed, wd_attempts := attempts,
              wd_lastError := Some err, wd_responseStatus := responseStatus,
              wd_nextAttemptAt := (if terminal then None else Some (hook_now h s + backoffMs attempts))\<rparr>)
            (hk_deliveries s)\<rparr>)"

type_synonym due_delivery = "delivery_row \<times> webhook_subscription"

datatype hook_outcome = Delivered int | NotDelivered string "int option"

datatype hook_stage = Checking | Posting "(string \<times> string) list" | Recording hook_outcome

definition hook_headers :: "delivery_row \<Rightarrow> (string \<times> string) list" where
  "hook_headers delivery =
     [(''Content-Type'', ''application/json''), (''User-Agent'', ''BridgePort-Webhook/1.0''),
      (''X-BridgePort-Event'', wd_event delivery), (''X-BridgePort-Delivery'', wd_id delivery)]"

text \<open>What happens before the request is sent.\<close>

definition check_delivery :: "'w hook_host \<Rightarrow> due_delivery \<Rightarrow> ('w hook_db, hook_stage) io" where
  "check_delivery h d =
     (let delivery = fst d; sub = snd d; fail = (\<lambda>e. Recording (NotDelivered e None)) in
      if \<not> ws_enabled sub then ret (fail ''Subscription disabled'')
      else
        andThen (on_hook (isBlockedWebhookHost (hh_guard h) (ws_url sub))) (\<lambda>blocked.
        if blocked then
          ret (fail ''Destination resolves to a blocked (private/loopback/link-local/metadata) address'')
        else if truthy (ws_encryptedSecret sub) \<and> truthy (ws_secretNonce sub) then
          (case hh_decrypt h (the (ws_encryptedSecret sub)) (the (ws_secretNonce sub)) of
             Inl _ \<Rightarrow> ret (fail ''Failed to decrypt signing secret'')
           | Inr secret \<Rightarrow>
               ret (Posting (hook_headers delivery @
                 [(''X-BridgePort-Signature'', ''sha256='' @ hh_hmac h secret (wd_payload delivery))])))
        else ret (Posting (hook_headers delivery))))"

text \<open>The request; redirects are not followed, so a status that is not in the two hundreds is a failure.\<close>

definition post_delivery :: "'w hook_host \<Rightarrow> due_delivery \<Rightarrow> (string \<times> string) list \<Rightarrow> ('w hook_db, hook_stage) io" where
  "post_delivery h d headers =
     (let post = \<lparr>po_delivery = wd_id (fst d), po_url = ws_url (snd d), po_headers = headers, po_body = wd_payload (fst d)\<rparr> in
      andThen (writes (\<lambda>s. s\<lparr>hk_posts := hk_posts s @ [post]\<rparr>)) (\<lambda>_.
      andThen (trap (on_hook (hh_fetch h post))) (\<lambda>r.
      ret (Recording (case r of
         Inl e \<Rightarrow> NotDelivered e None
       | Inr status \<Rightarrow>
           if 200 \<le> status \<and> status \<le> 299 then Delivered status
           else NotDelivered (''HTTP '' @ int_str status) (Some status))))))"

definition record_delivery :: "'w hook_host \<Rightarrow> due_delivery \<Rightarrow> hook_outcome \<Rightarrow> ('w hook_db, unit) io" where
  "record_delivery h d oc =
     (case oc of
        Delivered status \<Rightarrow>
          writes (\<lambda>s. s\<lparr>hk_deliveries := update_row wd_id (wd_id (fst d)) (\<lambda>r. r\<lparr>wd_status := DelDelivered,
             wd_attempts := wd_attempts (fst d) + 1, wd_responseStatus := Some status,
             wd_deliveredAt := Some (hook_now h s), wd_nextAttemptAt := None, wd_lastError := None\<rparr>) (hk_deliveries s)\<rparr>)
      | NotDelivered e status \<Rightarrow> markFailed h (wd_id (fst d)) (wd_attempts (fst d) + 1) e status)"

text \<open>One delivery without interruption.\<close>

definition deliverOne :: "'w hook_host \<Rightarrow> due_delivery \<Rightarrow> ('w hook_db, unit) io" where
  "deliverOne h d =
     andThen (check_delivery h d) (\<lambda>st.
     andThen (case st of Posting headers \<Rightarrow> post_delivery h d headers | _ \<Rightarrow> ret st) (\<lambda>st'.
     case st' of Recording oc \<Rightarrow> record_delivery h d oc | _ \<Rightarrow> ret ()))"

definition due_deliveries :: "'w hook_host \<Rightarrow> 'w hook_db \<Rightarrow> due_delivery list" where
  "due_deliveries h s =
     List.map_filter (\<lambda>d. map_option (Pair d) (find_sub (wd_subscriptionId d) s))
       (take (hh_batchSize h) (sort_key wd_createdAt (filter (\<lambda>d. wd_status d \<in> {DelPending, DelFailed} \<and>
          wd_attempts d < hh_maxAttempts h \<and> (\<exists>t \<in> set_option (wd_nextAttemptAt d). t \<le> hook_now h s)) (hk_deliveries s))))"

definition cleanupOldDeliveries :: "'w hook_host \<Rightarrow> nat \<Rightarrow> ('w hook_db, nat) io" where
  "cleanupOldDeliveries h retentionDays =
     andThen (reads (\<lambda>s. hook_now h s - int retentionDays * 24 * 60 * 60 * 1000)) (\<lambda>cutoff.
     let old = (\<lambda>d. wd_status d \<in> {DelDelivered, DelFailed} \<and> wd_createdAt d < cutoff) in
     andThen (reads (\<lambda>s. length (filter old (hk_deliveries s)))) (\<lambda>count.
     andThen (writes (\<lambda>s. s\<lparr>hk_deliveries := filter (\<lambda>d. \<not> old d) (hk_deliveries s)\<rparr>)) (\<lambda>_.
     ret count)))"

section \<open>Sweeps\<close>

text \<open>The module's flag, the rows a sweep has still to take, and the deliveries its workers are in.\<close>

record 'w sweep_state =
  sw_db :: "'w hook_db"
  sw_delivering :: bool
  sw_queue :: "due_delivery list"
  sw_running :: "(due_delivery \<times> hook_stage) list"

text \<open>The head of \<open>deliverPending\<close>: nothing while another sweep is on, else the query for due rows.\<close>

definition begin_sweep :: "'w hook_host \<Rightarrow> 'w sweep_state \<Rightarrow> 'w sweep_state" where
  "begin_sweep h st =
     (if sw_delivering st then st
      else st\<lparr>sw_delivering := True, sw_queue := due_deliveries h (sw_db st)\<rparr>)"

text \<open>The next step of a delivery; nothing remains after it is recorded.\<close>

definition advance :: "'w hook_host \<Rightarrow> due_delivery \<Rightarrow> hook_stage \<Rightarrow> ('w hook_db, hook_stage option) io" where
  "advance h d st =
     (case st of
        Checking \<Rightarrow> andThen (check_delivery h d) (\<lambda>x. ret (Some x))
      | Posting headers \<Rightarrow> andThen (post_delivery h d headers) (\<lambda>x. ret (Some x))
      | Recording oc \<Rightarrow> andThen (record_delivery h d oc) (\<lambda>_. ret None))"

inductive hook_step :: "'w hook_host \<Rightarrow> 'w sweep_state \<Rightarrow> 'w sweep_state \<Rightarrow> bool" for h where
  kick: "hook_step h st (begin_sweep h st)"
| take_next: "sw_queue st = d # q \<Longrightarrow> length (sw_running st) < hh_concurrency h \<Longrightarrow>
    hook_step h st (st\<lparr>sw_queue := q, sw_running := sw_running st @ [(d, Checking)]\<rparr>)"
| work: "sw_running st = xs @ (d, stage) # ys \<Longrightarrow> advance h d stage (sw_db st) = (Inr stage', db') \<Longrightarrow>
    hook_step h st (st\<lparr>sw_db := db', sw_running := xs @ (case stage' of None \<Rightarrow> [] | Some x \<Rightarrow> [(d, x)]) @ ys\<rparr>)"
| sweep_done: "sw_delivering st \<Longrightarrow> sw_queue st = [] \<Longrightarrow> sw_running st = [] \<Longrightarrow>
    hook_step h st (st\<lparr>sw_delivering := False\<rparr>)"
| emitted: "emitWebhookEvent h event env payload (sw_db st) = (r, db') \<Longrightarrow> hook_step h st (st\<lparr>sw_db := db'\<rparr>)"
| created: "createWebhookSubscription h env input (sw_db st) = (r2, db') \<Longrightarrow> hook_step h st (st\<lparr>sw_db := db'\<rparr>)"
| deleted: "deleteWebhookSubscription env i (sw_db st) = (r3, db') \<Longrightarrow> hook_step h st (st\<lparr>sw_db := db'\<rparr>)"
| cleaned: "cleanupOldDeliveries h days (sw_db st) = (r4, db') \<Longrightarrow> hook_step h st (st\<lparr>sw_db := db'\<rparr>)"
| elsewhere: "hook_step h st (st\<lparr>sw_db := (sw_db st)\<lparr>hk_world := w\<rparr>\<rparr>)"

definition no_hooks :: "'w \<Rightarrow> 'w sweep_state" where
  "no_hooks w =
     \<lparr>sw_db = \<lparr>hk_world = w, hk_nextId = 0, hk_subs = [], hk_deliveries = [], hk_posts = []\<rparr>, sw_delivering = False,
      sw_queue = [], sw_running = []\<rparr>"

inductive hook_reachable :: "'w hook_host \<Rightarrow> 'w sweep_state \<Rightarrow> bool" for h where
  start: "hook_reachable h (no_hooks w)"
| step: "hook_reachable h st \<Longrightarrow> hook_step h st st' \<Longrightarrow> hook_reachable h st'"

inductive_cases hook_stepE: "hook_step h st st'"

section \<open>The invariant of sweeps\<close>

text \<open>What the columns of a delivery say together.\<close>

definition row_ok :: "'w hook_host \<Rightarrow> delivery_row \<Rightarrow> bool" where
  "row_ok h r \<longleftrightarrow> wd_attempts r \<le> hh_maxAttempts h \<and>
     (case wd_status r of
        DelPending \<Rightarrow> wd_attempts r = 0 \<and> wd_nextAttemptAt r \<noteq> None \<and> wd_lastError r = None \<and> wd_deliveredAt r = None
      | DelDelivered \<Rightarrow> 0 < wd_attempts r \<and> wd_nextAttemptAt r = None \<and> wd_lastError r = None \<and> wd_deliveredAt r \<noteq> None
      | DelFailed \<Rightarrow> 0 < wd_attempts r \<and> wd_lastError r \<noteq> None \<and> wd_deliveredAt r = None \<and>
          (wd_nextAttemptAt r = None \<longleftrightarrow> wd_attempts r = hh_maxAttempts h))"

definition posts_of :: "ident \<Rightarrow> hook_post list \<Rightarrow> nat" where
  "posts_of i posts = length (filter (\<lambda>p. po_delivery p = i) posts)"

type_synonym flight = "(due_delivery \<times> hook_stage) list"

definition flight_id :: "due_delivery \<times> hook_stage \<Rightarrow> ident" where
  "flight_id e = wd_id (fst (fst e))"

definition sent :: "hook_stage \<Rightarrow> nat" where
  "sent st = (case st of Recording _ \<Rightarrow> 1 | _ \<Rightarrow> 0)"

text \<open>A delivery in flight: its row is as the query found it, and it was sent at most once since.\<close>

definition entry_ok :: "'w hook_host \<Rightarrow> ident set \<Rightarrow> delivery_row list \<Rightarrow> hook_post list \<Rightarrow> due_delivery \<times> hook_stage \<Rightarrow> bool" where
  "entry_ok h used rows posts e \<longleftrightarrow>
     flight_id e \<in> used \<and> wd_attempts (fst (fst e)) < hh_maxAttempts h \<and>
     posts_of (flight_id e) posts \<le> wd_attempts (fst (fst e)) + sent (snd e) \<and>
     (\<forall>r \<in> set rows. wd_id r = flight_id e \<longrightarrow> wd_attempts r = wd_attempts (fst (fst e)) \<and> wd_status r \<noteq> DelDelivered)"

definition rows_inv :: "'w hook_host \<Rightarrow> flight \<Rightarrow> ident set \<Rightarrow> delivery_row list \<Rightarrow> hook_post list \<Rightarrow> bool" where
  "rows_inv h fl used rows posts \<longleftrightarrow>
     (\<forall>r \<in> set rows. row_ok h r \<and> wd_id r \<in> used) \<and> distinct (map wd_id rows) \<and>
     (\<forall>p \<in> set posts. po_delivery p \<in> used) \<and> (\<forall>i. posts_of i posts \<le> hh_maxAttempts h) \<and>
     distinct (map flight_id fl) \<and> (\<forall>e \<in> set fl. entry_ok h used rows posts e) \<and>
     (\<forall>r \<in> set rows. wd_id r \<notin> set (map flight_id fl) \<longrightarrow> posts_of (wd_id r) posts \<le> wd_attempts r)"

definition used_ids :: "'w hook_host \<Rightarrow> nat \<Rightarrow> ident set" where
  "used_ids h n = hh_newId h ` {..<n}"

definition in_flight :: "'w sweep_state \<Rightarrow> flight" where
  "in_flight st = map (\<lambda>d. (d, Checking)) (sw_queue st) @ sw_running st"

definition db_inv :: "'w hook_host \<Rightarrow> flight \<Rightarrow> 'w hook_db \<Rightarrow> bool" where
  "db_inv h fl s \<longleftrightarrow> rows_inv h fl (used_ids h (hk_nextId s)) (hk_deliveries s) (hk_posts s)"

definition sweep_inv :: "'w hook_host \<Rightarrow> 'w sweep_state \<Rightarrow> bool" where
  "sweep_inv h st \<longleftrightarrow> db_inv h (in_flight st) (sw_db st) \<and> (\<not> sw_delivering st \<longrightarrow> in_flight st = []) \<and>
     length (sw_running st) \<le> hh_concurrency h"

lemma posts_of_append [simp]:
  "posts_of i (ps @ [p]) = posts_of i ps + (if po_delivery p = i then 1 else 0)"
  by (simp add: posts_of_def)

lemma posts_of_fresh: "\<forall>p \<in> set posts. po_delivery p \<noteq> i \<Longrightarrow> posts_of i posts = 0"
  by (simp add: posts_of_def)

lemma used_ids_mono: "n \<le> m \<Longrightarrow> used_ids h n \<subseteq> used_ids h m"
  by (auto simp: used_ids_def)

lemma used_ids_fresh: "inj (hh_newId h) \<Longrightarrow> n \<le> k \<Longrightarrow> hh_newId h k \<notin> used_ids h n"
  by (auto simp: used_ids_def dest: injD)

text \<open>What rows_inv asks of the flight is a property of its elements and of their ids.\<close>

lemma rows_inv_perm:
  assumes "mset fl' = mset fl" and "rows_inv h fl used rows posts"
  shows "rows_inv h fl' used rows posts"
proof -
  have "set fl' = set fl" using assms(1) by (rule mset_eq_setD)
  moreover have "distinct (map flight_id fl') \<longleftrightarrow> distinct (map flight_id fl)"
    using assms(1) by (metis mset_map mset_eq_imp_distinct_iff)
  ultimately show ?thesis using assms(2) by (simp add: rows_inv_def)
qed

text \<open>Deleting rows keeps the invariant, and so does adding rows under new ids.\<close>

lemma rows_inv_filter:
  assumes "rows_inv h fl used rows posts"
  shows "rows_inv h fl used (filter P rows) posts"
  using assms by (auto simp: rows_inv_def entry_ok_def distinct_map_filter)

lemma rows_inv_widen:
  assumes "rows_inv h fl used rows posts" and "used \<subseteq> used'"
  shows "rows_inv h fl used' rows posts"
  using assms by (auto simp: rows_inv_def entry_ok_def)

lemma rows_inv_add:
  assumes inv: "rows_inv h fl used rows posts" and sub: "used \<subseteq> used'"
    and new: "\<forall>r \<in> set new. row_ok h r \<and> wd_id r \<in> used' \<and> wd_id r \<notin> used" "distinct (map wd_id new)"
  shows "rows_inv h fl used' (rows @ new) posts"
proof -
  note w = rows_inv_widen [OF inv sub]
  have "posts_of (wd_id r) posts = 0" if "r \<in> set new" for r
    by (rule posts_of_fresh) (use inv new that in \<open>auto simp: rows_inv_def\<close>)
  moreover have "wd_id r \<noteq> flight_id e" if "r \<in> set new" "e \<in> set fl" for r e
    using inv new that by (auto simp: rows_inv_def entry_ok_def)
  moreover have "set (map wd_id rows) \<inter> set (map wd_id new) = {}"
    using inv new by (auto simp: rows_inv_def)
  ultimately show ?thesis
    using w new unfolding rows_inv_def entry_ok_def by (auto simp: distinct_append)
qed

section \<open>The steps keep the invariant\<close>

definition hook_view :: "'w hook_db \<Rightarrow> nat \<times> delivery_row list \<times> hook_post list" where
  "hook_view s = (hk_nextId s, hk_deliveries s, hk_posts s)"

lemma db_inv_view: "hook_view s' = hook_view s \<Longrightarrow> db_inv h fl s \<Longrightarrow> db_inv h fl s'"
  by (simp add: hook_view_def db_inv_def)

lemma keeps_on_hook [keeps_intros]: "keeps hook_view (on_hook m)"
  by (rule keepsI) (simp add: on_hook_def hook_view_def split: prod.split)

lemma keeps_check: "keeps hook_view (check_delivery h d)"
  unfolding check_delivery_def Let_def by (intro keeps_intros)

lemma post_view:
  assumes "post_delivery h d headers s = (Inr st, s')"
  shows "hk_nextId s' = hk_nextId s" and "hk_deliveries s' = hk_deliveries s" and "sent st = 1"
    and "\<exists>p. hk_posts s' = hk_posts s @ [p] \<and> po_delivery p = wd_id (fst d)"
  using assms
  by (auto simp: post_delivery_def Let_def andThen_def trap_def on_hook_def io_simps sent_def split: prod.splits)

lemma own_ok: "rows_inv h (xs @ e # ys) used rows posts \<Longrightarrow> entry_ok h used rows posts e"
  by (simp add: rows_inv_def)

lemma flight_id_pair [simp]: "flight_id (d, st) = wd_id (fst d)"
  by (simp add: flight_id_def)

lemma other_ids:
  assumes "rows_inv h (xs @ e # ys) used rows posts" and "x \<in> set (xs @ ys)"
  shows "flight_id x \<noteq> flight_id e"
proof -
  have "flight_id e \<notin> flight_id ` set (xs @ ys)" using assms(1) by (simp add: rows_inv_def image_Un)
  moreover have "flight_id x \<in> flight_id ` set (xs @ ys)" using assms(2) by (rule imageI)
  ultimately show ?thesis by metis
qed

lemma check_inv:
  assumes "db_inv h (xs @ (d, Checking) # ys) s" and "check_delivery h d s = (Inr st, s')"
  shows "db_inv h (xs @ (d, st) # ys) s'"
proof -
  have "hook_view s' = hook_view s" by (rule keepsD [OF keeps_check assms(2)])
  with assms(1) have "db_inv h (xs @ (d, Checking) # ys) s'" by (rule db_inv_view [rotated])
  then show ?thesis
    by (auto simp: db_inv_def rows_inv_def entry_ok_def sent_def)
qed

lemma post_inv:
  assumes inv: "db_inv h (xs @ (d, Posting headers) # ys) s" and run: "post_delivery h d headers s = (Inr st, s')"
  shows "db_inv h (xs @ (d, st) # ys) s'"
proof -
  note v = post_view [OF run]
  let ?i = "wd_id (fst d)" and ?used = "used_ids h (hk_nextId s)"
  obtain p where p: "hk_posts s' = hk_posts s @ [p]" "po_delivery p = ?i" using v(4) by blast
  from inv have r: "rows_inv h (xs @ (d, Posting headers) # ys) ?used (hk_deliveries s) (hk_posts s)"
    by (simp add: db_inv_def)
  have other: "flight_id e \<noteq> ?i" if "e \<in> set (xs @ ys)" for e
    using other_ids [OF r that] by simp
  have "rows_inv h (xs @ (d, st) # ys) ?used (hk_deliveries s) (hk_posts s @ [p])"
    unfolding rows_inv_def
  proof (intro conjI)
    show "\<forall>e \<in> set (xs @ (d, st) # ys). entry_ok h ?used (hk_deliveries s) (hk_posts s @ [p]) e"
    proof
      fix e assume "e \<in> set (xs @ (d, st) # ys)"
      then consider "e = (d, st)" | "e \<in> set (xs @ ys)" by auto
      then show "entry_ok h ?used (hk_deliveries s) (hk_posts s @ [p]) e"
      proof cases
        case 1
        with own_ok [OF r] v(3) p(2) show ?thesis by (auto simp: entry_ok_def sent_def)
      next
        case 2
        with other [OF 2] r p(2) show ?thesis by (auto simp: rows_inv_def entry_ok_def)
      qed
    qed
    show "\<forall>i. posts_of i (hk_posts s @ [p]) \<le> hh_maxAttempts h"
      using own_ok [OF r] r p(2) by (auto simp: rows_inv_def entry_ok_def sent_def)
  qed (use r own_ok [OF r] p(2) in \<open>auto simp: rows_inv_def entry_ok_def\<close>)
  then show ?thesis by (simp add: db_inv_def v(1,2) p(1))
qed

lemma map_id_update_row: "(\<And>r. k (f r) = k r) \<Longrightarrow> map k (update_row k i f rows) = map k rows"
  by (simp add: update_row_def)

lemma rows_inv_record:
  assumes inv: "rows_inv h (xs @ (d, Recording oc) # ys) used rows posts"
    and f: "\<And>r. wd_id (f r) = wd_id r" "\<And>r. wd_attempts (f r) = wd_attempts (fst d) + 1"
    and ok: "\<And>r. r \<in> set rows \<Longrightarrow> wd_id r = wd_id (fst d) \<Longrightarrow> row_ok h (f r)"
  shows "rows_inv h (xs @ ys) used (update_row wd_id (wd_id (fst d)) f rows) posts"
proof -
  let ?i = "wd_id (fst d)" and ?rows = "update_row wd_id (wd_id (fst d)) f rows"
  have mem: "r \<in> set ?rows \<longleftrightarrow> (\<exists>x \<in> set rows. r = (if wd_id x = ?i then f x else x))" for r
    by (auto simp: update_row_def)
  have own: "posts_of ?i posts \<le> wd_attempts (fst d) + 1" using own_ok [OF inv] by (simp add: entry_ok_def sent_def)
  note other = other_ids [OF inv, simplified]
  have entries: "entry_ok h used ?rows posts e" if "e \<in> set (xs @ ys)" for e
  proof -
    have e: "entry_ok h used rows posts e" using inv that by (auto simp: rows_inv_def)
    have "r \<in> set rows" if "r \<in> set ?rows" "wd_id r = flight_id e" for r
      using that other [of e] \<open>e \<in> set (xs @ ys)\<close> f(1) unfolding mem by (metis Un_iff set_append)
    with e show ?thesis unfolding entry_ok_def by blast
  qed
  have rows: "row_ok h r \<and> wd_id r \<in> used" if "r \<in> set ?rows" for r
  proof -
    from that obtain x where x: "x \<in> set rows" "r = (if wd_id x = ?i then f x else x)" unfolding mem by blast
    then have "row_ok h x" "wd_id x \<in> used" using inv by (auto simp: rows_inv_def)
    with x ok f(1) show ?thesis by auto
  qed
  have counts: "posts_of (wd_id r) posts \<le> wd_attempts r"
    if "r \<in> set ?rows" and "wd_id r \<notin> set (map flight_id (xs @ ys))" for r
  proof -
    from that(1) obtain x where x: "x \<in> set rows" "r = (if wd_id x = ?i then f x else x)" unfolding mem by blast
    show ?thesis
    proof (cases "wd_id x = ?i")
      case True
      with x own f show ?thesis by simp
    next
      case False
      with x inv that(2) show ?thesis by (simp add: rows_inv_def)
    qed
  qed
  have "distinct (map wd_id ?rows)" using inv by (simp add: rows_inv_def map_id_update_row [of wd_id f, OF f(1)])
  moreover have "distinct (map flight_id (xs @ ys))" using inv by (simp add: rows_inv_def)
  moreover have "(\<forall>p \<in> set posts. po_delivery p \<in> used) \<and> (\<forall>i. posts_of i posts \<le> hh_maxAttempts h)"
    using inv by (simp add: rows_inv_def)
  ultimately show ?thesis using entries rows counts unfolding rows_inv_def by blast
qed

lemma record_inv:
  assumes inv: "db_inv h (xs @ (d, Recording oc) # ys) s" and run: "record_delivery h d oc s = (r, s')"
  shows "db_inv h (xs @ ys) s'"
proof -
  let ?used = "used_ids h (hk_nextId s)" and ?a = "wd_attempts (fst d)"
  from inv have rinv: "rows_inv h (xs @ (d, Recording oc) # ys) ?used (hk_deliveries s) (hk_posts s)"
    by (simp add: db_inv_def)
  have a: "?a < hh_maxAttempts h" using own_ok [OF rinv] by (simp add: entry_ok_def)
  have old: "wd_deliveredAt x = None" if "x \<in> set (hk_deliveries s)" "wd_id x = wd_id (fst d)" for x
  proof -
    have "row_ok h x" "wd_status x \<noteq> DelDelivered"
      using rinv own_ok [OF rinv] that by (auto simp: rows_inv_def entry_ok_def)
    then show ?thesis by (cases "wd_status x") (auto simp: row_ok_def)
  qed
  obtain f where s': "s' = s\<lparr>hk_deliveries := update_row wd_id (wd_id (fst d)) f (hk_deliveries s)\<rparr>"
    and f: "\<And>x. wd_id (f x) = wd_id x" "\<And>x. wd_attempts (f x) = ?a + 1"
    and ok: "\<And>x. x \<in> set (hk_deliveries s) \<Longrightarrow> wd_id x = wd_id (fst d) \<Longrightarrow> row_ok h (f x)"
  proof (cases oc)
    case (Delivered status)
    let ?f = "\<lambda>r. r\<lparr>wd_status := DelDelivered, wd_attempts := ?a + 1, wd_responseStatus := Some status,
       wd_deliveredAt := Some (hook_now h s), wd_nextAttemptAt := None, wd_lastError := None\<rparr>"
    have "s' = s\<lparr>hk_deliveries := update_row wd_id (wd_id (fst d)) ?f (hk_deliveries s)\<rparr>"
      using run Delivered by (simp add: record_delivery_def io_simps)
    then show thesis by (rule that) (use a in \<open>simp_all add: row_ok_def\<close>)
  next
    case (NotDelivered e status)
    let ?f = "\<lambda>r. r\<lparr>wd_status := DelFailed, wd_attempts := ?a + 1, wd_lastError := Some e, wd_responseStatus := status,
       wd_nextAttemptAt := (if hh_maxAttempts h \<le> ?a + 1 then None else Some (hook_now h s + backoffMs (?a + 1)))\<rparr>"
    have "s' = s\<lparr>hk_deliveries := update_row wd_id (wd_id (fst d)) ?f (hk_deliveries s)\<rparr>"
      using run NotDelivered by (auto simp: record_delivery_def markFailed_def Let_def io_simps)
    then show thesis by (rule that) (use a old in \<open>auto simp: row_ok_def\<close>)
  qed
  show ?thesis
    using rows_inv_record [OF rinv f ok] by (simp add: db_inv_def s')
qed

lemma advance_inv:
  assumes inv: "db_inv h (xs @ (d, stage) # ys) s" and run: "advance h d stage s = (Inr stage', s')"
  shows "db_inv h (xs @ (case stage' of None \<Rightarrow> [] | Some x \<Rightarrow> [(d, x)]) @ ys) s'"
proof (cases stage)
  case Checking
  with run obtain x where "check_delivery h d s = (Inr x, s')" "stage' = Some x"
    by (auto simp: advance_def io_simps elim!: andThen_InrE)
  then show ?thesis using check_inv [OF inv [unfolded Checking]] by simp
next
  case (Posting headers)
  with run obtain x where "post_delivery h d headers s = (Inr x, s')" "stage' = Some x"
    by (auto simp: advance_def io_simps elim!: andThen_InrE)
  then show ?thesis using post_inv [OF inv [unfolded Posting]] by simp
next
  case (Recording oc)
  with run obtain x where "record_delivery h d oc s = (x, s')" "stage' = None"
    by (auto simp: advance_def io_simps elim!: andThen_InrE)
  then show ?thesis using record_inv [OF inv [unfolded Recording]] by simp
qed

lemma due_deliveries_rows:
  "(d, sub) \<in> set (due_deliveries h s) \<Longrightarrow> d \<in> set (hk_deliveries s) \<and> wd_attempts d < hh_maxAttempts h \<and>
     wd_status d \<noteq> DelDelivered"
  by (auto simp: due_deliveries_def List.map_filter_def dest!: in_set_takeD split: option.splits)

lemma distinct_map_filter_fst:
  "distinct (map g xs) \<Longrightarrow> distinct (map (g \<circ> fst) (List.map_filter (\<lambda>d. map_option (Pair d) (f d)) xs))"
  by (induction xs) (auto simp: List.map_filter_def split: option.splits)

lemma due_deliveries_distinct:
  assumes "distinct (map wd_id (hk_deliveries s))"
  shows "distinct (map (wd_id \<circ> fst) (due_deliveries h s))"
  unfolding due_deliveries_def
proof (rule distinct_map_filter_fst)
  let ?due = "filter (\<lambda>d. wd_status d \<in> {DelPending, DelFailed} \<and> wd_attempts d < hh_maxAttempts h \<and>
      (\<exists>t \<in> set_option (wd_nextAttemptAt d). t \<le> hook_now h s)) (hk_deliveries s)"
  have "mset (map wd_id (sort_key wd_createdAt ?due)) = mset (map wd_id ?due)" by simp
  then have "distinct (map wd_id (sort_key wd_createdAt ?due)) \<longleftrightarrow> distinct (map wd_id ?due)"
    by (rule mset_eq_imp_distinct_iff)
  moreover have "distinct (map wd_id ?due)" by (rule distinct_map_filter [OF assms])
  ultimately have "distinct (map wd_id (sort_key wd_createdAt ?due))" by simp
  then show "distinct (map wd_id (take (hh_batchSize h) (sort_key wd_createdAt ?due)))"
    by (simp only: take_map [symmetric] distinct_take)
qed

lemma begin_inv:
  assumes "sweep_inv h st"
  shows "sweep_inv h (begin_sweep h st)"
proof (cases "sw_delivering st")
  case False
  let ?s = "sw_db st" and ?due = "due_deliveries h (sw_db st)"
  from assms False have empty: "sw_running st = []" and r: "rows_inv h [] (used_ids h (hk_nextId ?s)) (hk_deliveries ?s) (hk_posts ?s)"
    by (auto simp: sweep_inv_def in_flight_def db_inv_def)
  have rows: "distinct (map wd_id (hk_deliveries ?s))" using r by (simp add: rows_inv_def)
  have "rows_inv h (map (\<lambda>d. (d, Checking)) ?due) (used_ids h (hk_nextId ?s)) (hk_deliveries ?s) (hk_posts ?s)"
    unfolding rows_inv_def
  proof (intro conjI)
    show "distinct (map flight_id (map (\<lambda>d. (d, Checking)) ?due))"
      using due_deliveries_distinct [OF rows, of h] by (simp add: comp_def)
    show "\<forall>e \<in> set (map (\<lambda>d. (d, Checking)) ?due). entry_ok h (used_ids h (hk_nextId ?s)) (hk_deliveries ?s) (hk_posts ?s) e"
    proof
      fix e assume "e \<in> set (map (\<lambda>d. (d, Checking)) ?due)"
      then obtain d sub where e: "e = ((d, sub), Checking)" and d: "(d, sub) \<in> set ?due" by auto
      from due_deliveries_rows [OF d] have d: "d \<in> set (hk_deliveries ?s)" "wd_attempts d < hh_maxAttempts h" "wd_status d \<noteq> DelDelivered"
        by auto
      have same: "x = d" if "x \<in> set (hk_deliveries ?s)" "wd_id x = wd_id d" for x
        using rows that d(1) by (auto simp: distinct_map dest: inj_onD)
      with d r show "entry_ok h (used_ids h (hk_nextId ?s)) (hk_deliveries ?s) (hk_posts ?s) e"
        unfolding e entry_ok_def by (auto simp: rows_inv_def sent_def)
    qed
  qed (use r in \<open>auto simp: rows_inv_def\<close>)
  with False empty show ?thesis by (simp add: sweep_inv_def begin_sweep_def in_flight_def db_inv_def)
qed (use assms in \<open>simp add: begin_sweep_def\<close>)
text \<open>The operations that run beside the sweeps.\<close>

lemma emit_inv:
  assumes inj: "inj (hh_newId h)" and inv: "db_inv h fl s" and run: "emitWebhookEvent h event env payload s = (r, s')"
  shows "db_inv h fl s'"
proof (cases "matching_subs event env s = []")
  case True
  with inv run show ?thesis by (simp add: emitWebhookEvent_def io_simps)
next
  case False
  let ?m = "matching_subs event env s" and ?n = "hk_nextId s"
  let ?body = "\<lparr>hb_event = event, hb_environmentId = env, hb_timestamp = hook_now h s, hb_data = payload\<rparr>"
  let ?new = "map (\<lambda>(k, x). new_delivery h event ?body s (?n + k) (ws_id x)) (enumerate 0 ?m)"
  have s': "s' = s\<lparr>hk_deliveries := hk_deliveries s @ ?new, hk_nextId := ?n + length ?m\<rparr>"
    using run False by (simp add: emitWebhookEvent_def io_simps Let_def)
  have ids: "map wd_id ?new = map (\<lambda>k. hh_newId h (?n + k)) [0..<length ?m]"
    by (rule nth_equalityI) (simp_all add: new_delivery_def nth_enumerate_eq split_def)
  have "rows_inv h fl (used_ids h (?n + length ?m)) (hk_deliveries s @ ?new) (hk_posts s)"
  proof (rule rows_inv_add [OF inv [unfolded db_inv_def]])
    show "used_ids h ?n \<subseteq> used_ids h (?n + length ?m)" by (rule used_ids_mono) simp
    show "distinct (map wd_id ?new)"
      unfolding ids distinct_map using injD [OF inj] by (fastforce simp: inj_on_def)
    have "wd_id r \<in> used_ids h (?n + length ?m) \<and> wd_id r \<notin> used_ids h ?n" if "r \<in> set ?new" for r
    proof -
      from that have "wd_id r \<in> set (map wd_id ?new)" unfolding set_map by (rule imageI)
      then obtain k where "wd_id r = hh_newId h (?n + k)" "k < length ?m" unfolding ids by auto
      then show ?thesis using used_ids_fresh [OF inj, of ?n "?n + k"] by (auto simp: used_ids_def)
    qed
    moreover have "row_ok h r" if "r \<in> set ?new" for r
      using that by (auto simp: row_ok_def new_delivery_def)
    ultimately show "\<forall>r \<in> set ?new. row_ok h r \<and> wd_id r \<in> used_ids h (?n + length ?m) \<and> wd_id r \<notin> used_ids h ?n"
      by blast
  qed
  then show ?thesis by (simp add: db_inv_def s')
qed

lemma preserves_on_hook: "preserves (db_inv h fl) (on_hook m)"
  by (rule preserves_keeps [OF keeps_on_hook]) (rule db_inv_view)

lemma create_inv:
  assumes inv: "db_inv h fl s" and run: "createWebhookSubscription h env input s = (r, s')"
  shows "db_inv h fl s'"
proof -
  have "preserves (db_inv h fl) (createWebhookSubscription h env input)"
    unfolding createWebhookSubscription_def
  proof (intro preserves_intros preserves_on_hook)
    fix s :: "'a hook_db" and sub
    assume "db_inv h fl s"
    then show "db_inv h fl (s\<lparr>hk_subs := hk_subs s @ [sub], hk_nextId := hk_nextId s + 1\<rparr>)"
      using rows_inv_widen used_ids_mono [of "hk_nextId s" "hk_nextId s + 1" h] by (auto simp: db_inv_def)
  qed
  with inv run show ?thesis by (blast dest: preservesD)
qed

lemma delete_inv:
  assumes inv: "db_inv h fl s" and run: "deleteWebhookSubscription env i s = (r, s')"
  shows "db_inv h fl s'"
proof -
  have "preserves (db_inv h fl) (deleteWebhookSubscription env i)"
    unfolding deleteWebhookSubscription_def by (intro preserves_intros) (simp add: db_inv_def rows_inv_filter)
  with inv run show ?thesis by (blast dest: preservesD)
qed

lemma cleanup_inv:
  assumes inv: "db_inv h fl s" and run: "cleanupOldDeliveries h days s = (r, s')"
  shows "db_inv h fl s'"
proof -
  have "preserves (db_inv h fl) (cleanupOldDeliveries h days)"
    unfolding cleanupOldDeliveries_def Let_def by (intro preserves_intros) (simp add: db_inv_def rows_inv_filter)
  with inv run show ?thesis by (blast dest: preservesD)
qed

lemma sweep_inv_step:
  assumes "inj (hh_newId h)" and inv: "sweep_inv h st" and step: "hook_step h st st'"
  shows "sweep_inv h st'"
proof -
  have db: "sweep_inv h (st\<lparr>sw_db := s'\<rparr>)" if "db_inv h (in_flight st) s'" for s'
    using inv that by (simp add: sweep_inv_def in_flight_def)
  from inv have cur: "db_inv h (in_flight st) (sw_db st)" by (simp add: sweep_inv_def)
  from step show ?thesis
  proof (cases rule: hook_step.cases)
    case kick
    with begin_inv [OF inv] show ?thesis by simp
  next
    case (take_next d q)
    have "mset (map (\<lambda>d. (d, Checking)) q @ sw_running st @ [(d, Checking)]) = mset (in_flight st)"
      by (simp add: in_flight_def take_next(2))
    from rows_inv_perm [OF this cur [unfolded db_inv_def]] inv take_next show ?thesis
      by (auto simp: sweep_inv_def in_flight_def db_inv_def)
  next
    case (work xs d stage ys stage' db')
    let ?q = "map (\<lambda>d. (d, Checking)) (sw_queue st)"
    have "db_inv h ((?q @ xs) @ (d, stage) # ys) (sw_db st)" using cur by (simp add: in_flight_def work(2))
    from advance_inv [OF this work(3)] inv work(1,2) show ?thesis
      by (auto simp: sweep_inv_def in_flight_def split: option.splits)
  next
    case sweep_done
    with inv show ?thesis by (simp add: sweep_inv_def in_flight_def)
  next
    case emitted
    with db emit_inv [OF assms(1) cur] show ?thesis by blast
  next
    case created
    with db create_inv [OF cur] show ?thesis by blast
  next
    case deleted
    with db delete_inv [OF cur] show ?thesis by blast
  next
    case cleaned
    with db cleanup_inv [OF cur] show ?thesis by blast
  next
    case (elsewhere w)
    have "db_inv h (in_flight st) ((sw_db st)\<lparr>hk_world := w\<rparr>)"
      by (rule db_inv_view [OF _ cur]) (simp add: hook_view_def)
    with db elsewhere show ?thesis by blast
  qed
qed

lemma reachable_inv: "hook_reachable h st \<Longrightarrow> inj (hh_newId h) \<Longrightarrow> sweep_inv h st"
proof (induction rule: hook_reachable.induct)
  case (start w)
  then show ?case
    by (simp add: sweep_inv_def no_hooks_def in_flight_def db_inv_def rows_inv_def posts_of_def)
next
  case (step st st')
  then show ?case using sweep_inv_step by blast
qed

section \<open>What the subscribers and the operators see\<close>

text \<open>C34: However the workers, the events and the other operations interleave, a delivery is sent at most as often as
  the configured number of attempts, and no more deliveries run at once than configured. Ids are
  never reused.\<close>

theorem deliveries_bounded:
  assumes "inj (hh_newId h)" and "hook_reachable h st"
  shows "posts_of i (hk_posts (sw_db st)) \<le> hh_maxAttempts h \<and> length (sw_running st) \<le> hh_concurrency h"
  using reachable_inv [OF assms(2,1)] by (auto simp: sweep_inv_def db_inv_def rows_inv_def)

text \<open>C35: The columns of a delivery always fit together: a pending one was never tried and has a next attempt, a
  delivered one has a time and neither an error nor a next attempt, a failed one has an error and a
  next attempt exactly while attempts are left.\<close>

theorem delivery_rows_typed:
  assumes "inj (hh_newId h)" and "hook_reachable h st" and "r \<in> set (hk_deliveries (sw_db st))"
  shows "row_ok h r"
  using reachable_inv [OF assms(2,1)] assms(3) by (auto simp: sweep_inv_def db_inv_def rows_inv_def)

text \<open>C36: A request is sent only for an enabled subscription whose host the guard has just let pass, once per
  attempt, to the URL of the subscription; with a secret it carries the signature of exactly the body
  that is sent.\<close>

theorem delivery_guarded_and_signed:
  assumes run: "deliverOne h (delivery, sub) s = (r, s')"
  shows "hk_posts s' = hk_posts s \<or>
    ws_enabled sub \<and> fst (isBlockedWebhookHost (hh_guard h) (ws_url sub) (hk_world s)) = Inr False \<and>
    (\<exists>p. hk_posts s' = hk_posts s @ [p] \<and> po_url p = ws_url sub \<and> po_body p = wd_payload delivery \<and>
       (truthy (ws_encryptedSecret sub) \<and> truthy (ws_secretNonce sub) \<longrightarrow>
          (\<exists>secret. hh_decrypt h (the (ws_encryptedSecret sub)) (the (ws_secretNonce sub)) = Inr secret \<and>
             (''X-BridgePort-Signature'', ''sha256='' @ hh_hmac h secret (po_body p)) \<in> set (po_headers p))))"
proof -
  have rec: "hk_posts s2 = hk_posts s1" if "record_delivery h d oc s1 = (x, s2)" for d oc s1 x s2
    using that by (auto simp: record_delivery_def markFailed_def Let_def io_simps split: hook_outcome.splits)
  obtain c s1 where check: "check_delivery h (delivery, sub) s = (c, s1)" by (cases "check_delivery h (delivery, sub) s")
  have same: "hk_posts s1 = hk_posts s"
    using keepsD [OF keeps_check check] by (simp add: hook_view_def)
  show ?thesis
  proof (cases c)
    case (Inl e)
    with run check same show ?thesis by (simp add: deliverOne_def andThen_def)
  next
    case c: (Inr stage)
    show ?thesis
    proof (cases stage)
      case (Posting headers)
      from check c Posting have ok: "ws_enabled sub" "fst (isBlockedWebhookHost (hh_guard h) (ws_url sub) (hk_world s)) = Inr False"
        and sig: "truthy (ws_encryptedSecret sub) \<and> truthy (ws_secretNonce sub) \<Longrightarrow>
          \<exists>secret. hh_decrypt h (the (ws_encryptedSecret sub)) (the (ws_secretNonce sub)) = Inr secret \<and>
             (''X-BridgePort-Signature'', ''sha256='' @ hh_hmac h secret (wd_payload delivery)) \<in> set headers"
        by (auto simp: check_delivery_def Let_def andThen_def on_hook_def io_simps split: if_splits prod.splits sum.splits)
      obtain x s2 where post: "post_delivery h (delivery, sub) headers s1 = (x, s2)" by (cases "post_delivery h (delivery, sub) headers s1")
      obtain st where st: "x = Inr st" and posts: "hk_posts s2 = hk_posts s1 @
          [\<lparr>po_delivery = wd_id delivery, po_url = ws_url sub, po_headers = headers, po_body = wd_payload delivery\<rparr>]"
        and once: "sent st = 1"
        using post by (auto simp: post_delivery_def Let_def andThen_def trap_def on_hook_def io_simps sent_def split: prod.splits)
      then obtain oc where "st = Recording oc" by (cases st) (auto simp: sent_def)
      with run check c Posting post st have "record_delivery h (delivery, sub) oc s2 = (r, s')"
        by (simp add: deliverOne_def andThen_def)
      with rec posts same have "hk_posts s' = hk_posts s @
          [\<lparr>po_delivery = wd_id delivery, po_url = ws_url sub, po_headers = headers, po_body = wd_payload delivery\<rparr>]"
        by metis
      with ok sig show ?thesis by auto
    qed (use run check c same rec in \<open>auto simp: deliverOne_def andThen_def io_simps\<close>)
  qed
qed

text \<open>A delivery of a disabled subscription is not abandoned: its attempt counts as failed and, while attempts
  are left, the next one is scheduled, although the source calls it terminal.\<close>

theorem disabled_delivery_is_rescheduled:
  assumes "\<not> ws_enabled sub" and "delivery \<in> set (hk_deliveries s)" and "wd_attempts delivery + 1 < hh_maxAttempts h"
  shows "\<exists>s'. deliverOne h (delivery, sub) s = (Inr (), s') \<and>
    (\<exists>row \<in> set (hk_deliveries s'). wd_id row = wd_id delivery \<and> wd_status row = DelFailed \<and>
       wd_nextAttemptAt row = Some (hook_now h s + backoffMs (wd_attempts delivery + 1)))"
proof -
  have "\<exists>f s'. deliverOne h (delivery, sub) s = (Inr (), s') \<and>
      hk_deliveries s' = map (\<lambda>r. if wd_id r = wd_id delivery then f r else r) (hk_deliveries s) \<and>
      (\<forall>r. wd_id (f r) = wd_id r \<and> wd_status (f r) = DelFailed \<and>
         wd_nextAttemptAt (f r) = Some (hook_now h s + backoffMs (wd_attempts delivery + 1)))"
    using assms(1,3) by (auto simp: deliverOne_def check_delivery_def record_delivery_def markFailed_def Let_def io_simps
        update_row_def)
  then show ?thesis using assms(2) by force
qed

text \<open>The cleanup deletes such a row as well: it looks at the status only.\<close>

lemma cleanup_deletes_retrying_rows:
  assumes "wd_status r = DelFailed" and "wd_createdAt r < hook_now h s - int days * 24 * 60 * 60 * 1000"
  shows "r \<notin> set (hk_deliveries (snd (cleanupOldDeliveries h days s)))"
  using assms by (auto simp: cleanupOldDeliveries_def Let_def io_simps)

section \<open>Witnesses\<close>

text \<open>A schedule: the next row is taken, or the first delivery makes a step.\<close>

definition take_head :: "'w hook_host \<Rightarrow> 'w sweep_state \<Rightarrow> 'w sweep_state" where
  "take_head h st =
     (case sw_queue st of
        [] \<Rightarrow> st
      | d # q \<Rightarrow> if length (sw_running st) < hh_concurrency h
                 then st\<lparr>sw_queue := q, sw_running := sw_running st @ [(d, Checking)]\<rparr> else st)"

definition work_head :: "'w hook_host \<Rightarrow> 'w sweep_state \<Rightarrow> 'w sweep_state" where
  "work_head h st =
     (case sw_running st of
        [] \<Rightarrow> st
      | (d, stage) # ys \<Rightarrow>
          (case advance h d stage (sw_db st) of
             (Inl e, _) \<Rightarrow> st
           | (Inr stage', db') \<Rightarrow>
               st\<lparr>sw_db := db', sw_running := [] @ (case stage' of None \<Rightarrow> [] | Some x \<Rightarrow> [(d, x)]) @ ys\<rparr>))"

lemma reachable_schedule:
  assumes "hook_reachable h st"
  shows "hook_reachable h (take_head h st)" "hook_reachable h (work_head h st)" "hook_reachable h (begin_sweep h st)"
    "hook_reachable h (st\<lparr>sw_db := snd (emitWebhookEvent h event env payload (sw_db st))\<rparr>)"
    "hook_reachable h (st\<lparr>sw_db := snd (createWebhookSubscription h env input (sw_db st))\<rparr>)"
proof -
  show "hook_reachable h (take_head h st)"
    using assms by (auto simp: take_head_def split: list.split intro: hook_reachable.step hook_step.take_next)
  show "hook_reachable h (work_head h st)"
    using assms
    by (auto simp: work_head_def split: list.split prod.split sum.split
        intro: hook_reachable.step hook_step.work [where xs = "[]", simplified append_Nil])
  show "hook_reachable h (begin_sweep h st)" by (rule hook_reachable.step [OF assms hook_step.kick])
  show "hook_reachable h (st\<lparr>sw_db := snd (emitWebhookEvent h event env payload (sw_db st))\<rparr>)"
    by (rule hook_reachable.step [OF assms hook_step.emitted]) (rule prod.collapse [symmetric])
  show "hook_reachable h (st\<lparr>sw_db := snd (createWebhookSubscription h env input (sw_db st))\<rparr>)"
    by (rule hook_reachable.step [OF assms hook_step.created]) (rule prod.collapse [symmetric])
qed

definition sample_hooks :: "unit hook_host" where
  "sample_hooks =
     \<lparr>hh_guard = \<lparr>gh_parseUrl = (\<lambda>_. Some (''https:'', ''8.8.8.8'')), gh_dnsLookup = (\<lambda>_ w. (Inl ''no resolver'', w))\<rparr>,
      hh_now = (\<lambda>_. 7), hh_newId = (\<lambda>n. ''w'' @ nat_str n), hh_encrypt = (\<lambda>s w. ((s, ''n''), w)),
      hh_decrypt = (\<lambda>c _. Inr c), hh_hmac = (\<lambda>s b. s @ hb_event b), hh_fetch = (\<lambda>_ w. (Inr 503, w)),
      hh_maxAttempts = 2, hh_batchSize = 50, hh_concurrency = 10\<rparr>"

text \<open>One subscription, one event, one sweep that has got an answer 503.\<close>

definition sample_sweep :: "unit sweep_state" where
  "sample_sweep =
     (let h = sample_hooks;
          a = no_hooks ();
          b = a\<lparr>sw_db := snd (createWebhookSubscription h ''e'' \<lparr>si_url = ''u'', si_secret = Some ''k'',
                 si_events = [''sync.completed''], si_enabled = None\<rparr> (sw_db a))\<rparr>;
          c = b\<lparr>sw_db := snd (emitWebhookEvent h ''sync.completed'' ''e'' [] (sw_db b))\<rparr>
      in work_head h (work_head h (work_head h (take_head h (begin_sweep h c)))))"

lemma sample_sweep_reachable: "hook_reachable sample_hooks sample_sweep"
  unfolding sample_sweep_def Let_def
  by (intro reachable_schedule hook_reachable.start)

lemma sample_hooks_inj: "inj (hh_newId sample_hooks)"
  by (simp add: sample_hooks_def inj_def inj_eq [OF inj_nat_str])

lemma sample_sweep_rows:
  "map (\<lambda>r. (wd_status r, wd_attempts r, wd_nextAttemptAt r)) (hk_deliveries (sw_db sample_sweep)) = [(DelFailed, 1, Some 5007)]"
  "posts_of ''w1'' (hk_posts (sw_db sample_sweep)) = 1"
  by code_simp+

theorem deliveries_bounded_witness:
  "posts_of ''w1'' (hk_posts (sw_db sample_sweep)) = 1 \<and>
   posts_of ''w1'' (hk_posts (sw_db sample_sweep)) \<le> hh_maxAttempts sample_hooks"
  using deliveries_bounded [OF sample_hooks_inj sample_sweep_reachable, of "''w1''"] sample_sweep_rows(2) by blast

theorem delivery_rows_typed_witness:
  "\<exists>r. r \<in> set (hk_deliveries (sw_db sample_sweep)) \<and> wd_attempts r = 1 \<and> row_ok sample_hooks r"
proof -
  obtain r where r: "r \<in> set (hk_deliveries (sw_db sample_sweep))" "wd_attempts r = 1"
    using sample_sweep_rows(1) by (auto simp: map_eq_Cons_conv)
  with delivery_rows_typed [OF sample_hooks_inj sample_sweep_reachable r(1)] show ?thesis by blast
qed

definition sample_sub :: "bool \<Rightarrow> webhook_subscription" where
  "sample_sub enabled =
     \<lparr>ws_id = ''w0'', ws_environmentId = ''e'', ws_url = ''u'', ws_encryptedSecret = Some ''k'', ws_secretNonce = Some ''n'',
      ws_events = EventList [''sync.completed''], ws_enabled = enabled, ws_createdAt = 7\<rparr>"

definition sample_delivery :: delivery_row where
  "sample_delivery =
     \<lparr>wd_id = ''w1'', wd_subscriptionId = ''w0'', wd_event = ''sync.completed'',
      wd_payload = \<lparr>hb_event = ''sync.completed'', hb_environmentId = ''e'', hb_timestamp = 7, hb_data = []\<rparr>,
      wd_status = DelPending, wd_attempts = 0, wd_nextAttemptAt = Some 7, wd_lastError = None, wd_responseStatus = None,
      wd_createdAt = 7, wd_deliveredAt = None\<rparr>"

definition sample_hook_db :: "unit hook_db" where
  "sample_hook_db =
     \<lparr>hk_world = (), hk_nextId = 2, hk_subs = [sample_sub True], hk_deliveries = [sample_delivery], hk_posts = []\<rparr>"

theorem delivery_guarded_and_signed_witness:
  "\<exists>p. hk_posts (snd (deliverOne sample_hooks (sample_delivery, sample_sub True) sample_hook_db)) = [p] \<and>
     (''X-BridgePort-Signature'', ''sha256=ksync.completed'') \<in> set (po_headers p)"
proof -
  obtain r s' where run: "deliverOne sample_hooks (sample_delivery, sample_sub True) sample_hook_db = (r, s')"
    by (cases "deliverOne sample_hooks (sample_delivery, sample_sub True) sample_hook_db")
  have posts: "hk_posts (snd (deliverOne sample_hooks (sample_delivery, sample_sub True) sample_hook_db)) \<noteq>
      hk_posts sample_hook_db" by code_simp
  from delivery_guarded_and_signed [OF run] posts run show ?thesis
    by (auto simp: sample_hook_db_def sample_sub_def sample_delivery_def sample_hooks_def)
qed

theorem disabled_delivery_is_rescheduled_witness:
  "\<exists>s'. deliverOne sample_hooks (sample_delivery, sample_sub False) sample_hook_db = (Inr (), s')"
proof -
  have "\<not> ws_enabled (sample_sub False)" "sample_delivery \<in> set (hk_deliveries sample_hook_db)"
    "wd_attempts sample_delivery + 1 < hh_maxAttempts sample_hooks"
    by (simp_all add: sample_sub_def sample_hook_db_def sample_delivery_def sample_hooks_def)
  from disabled_delivery_is_rescheduled [OF this] show ?thesis by blast
qed

end
