(* ===== verification/Response_Cache.thy ===== *)
theory Response_Cache
  imports Prelude
begin

text \<open>
  \<open>src/lib/response-cache.ts\<close>: a cache of responses with a short life time that computes a key at most once at
  a time. A promise is a number; its continuation runs in two steps, the one that stores the value and
  the one of \<open>finally\<close>, between which other callers may run. \<open>Map\<close> is a list of pairs in insertion order.
  The specification has no storage at all: it says which answers are allowed.
\<close>

section \<open>The cache\<close>

record 'v cache_entry =
  ce_value :: 'v
  ce_expiresAt :: int

record cache_options =
  co_ttlMs :: int
  co_maxEntries :: nat

text \<open>A compute in progress: its key, the time of the call that started it, and whether its value is stored.\<close>

record cache_call =
  cc_key :: string
  cc_now :: int
  cc_settled :: bool

record 'v cache =
  ca_entries :: "(string \<times> 'v cache_entry) list"
  ca_inflight :: "string \<rightharpoonup> nat"
  ca_calls :: "nat \<rightharpoonup> cache_call"
  ca_next :: nat

definition createResponseCache :: "'v cache" where
  "createResponseCache = \<lparr>ca_entries = [], ca_inflight = Map.empty, ca_calls = Map.empty, ca_next = 0\<rparr>"

text \<open>\<open>entries.set\<close> and \<open>entries.get\<close>.\<close>

definition set_entry :: "string \<Rightarrow> 'v cache_entry \<Rightarrow> (string \<times> 'v cache_entry) list \<Rightarrow> (string \<times> 'v cache_entry) list" where
  "set_entry key e xs =
     (if key \<in> set (map fst xs) then map (\<lambda>x. if fst x = key then (key, e) else x) xs else xs @ [(key, e)])"

definition store_entry :: "cache_options \<Rightarrow> string \<Rightarrow> 'v \<Rightarrow> int \<Rightarrow> (string \<times> 'v cache_entry) list
    \<Rightarrow> (string \<times> 'v cache_entry) list" where
  "store_entry opts key v now xs =
     (let entries = set_entry key \<lparr>ce_value = v, ce_expiresAt = now + co_ttlMs opts\<rparr> xs
      in if co_maxEntries opts < length entries then
           (let sorted = sort_key (\<lambda>x. ce_expiresAt (snd x)) entries;
                evict = map fst (take (length sorted div 2) sorted)
            in filter (\<lambda>x. fst x \<notin> set evict) entries)
         else entries)"

datatype 'v answer = Hit 'v | Join nat | Started nat

definition getOrCompute :: "string \<Rightarrow> int \<Rightarrow> 'v cache \<Rightarrow> 'v answer \<times> 'v cache" where
  "getOrCompute key now c =
     (case map_of (ca_entries c) key of
        Some hit \<Rightarrow>
          if now < ce_expiresAt hit then (Hit (ce_value hit), c)
          else (case ca_inflight c key of
                  Some pending \<Rightarrow> (Join pending, c)
                | None \<Rightarrow> (Started (ca_next c), c\<lparr>ca_inflight := (ca_inflight c)(key \<mapsto> ca_next c),
                     ca_calls := (ca_calls c)(ca_next c \<mapsto> \<lparr>cc_key = key, cc_now = now, cc_settled = False\<rparr>), ca_next := ca_next c + 1\<rparr>))
      | None \<Rightarrow>
          (case ca_inflight c key of
             Some pending \<Rightarrow> (Join pending, c)
           | None \<Rightarrow> (Started (ca_next c), c\<lparr>ca_inflight := (ca_inflight c)(key \<mapsto> ca_next c),
                ca_calls := (ca_calls c)(ca_next c \<mapsto> \<lparr>cc_key = key, cc_now = now, cc_settled = False\<rparr>), ca_next := ca_next c + 1\<rparr>)))"

text \<open>\<open>then\<close> after a successful compute, and \<open>finally\<close>.\<close>

definition settle_store :: "cache_options \<Rightarrow> nat \<Rightarrow> cache_call \<Rightarrow> 'v \<Rightarrow> 'v cache \<Rightarrow> 'v cache" where
  "settle_store opts p call v c =
     c\<lparr>ca_entries := store_entry opts (cc_key call) v (cc_now call) (ca_entries c),
       ca_calls := (ca_calls c)(p \<mapsto> call\<lparr>cc_settled := True\<rparr>)\<rparr>"

definition settle_clear :: "nat \<Rightarrow> cache_call \<Rightarrow> 'v cache \<Rightarrow> 'v cache" where
  "settle_clear p call c =
     c\<lparr>ca_inflight := (ca_inflight c)(cc_key call := None), ca_calls := (ca_calls c)(p := None)\<rparr>"

text \<open>\<open>reset\<close> and \<open>size\<close>; tests call \<open>reset\<close> between requests only, so it is no step below.\<close>

definition reset_cache :: "'v cache \<Rightarrow> 'v cache" where
  "reset_cache c = c\<lparr>ca_entries := [], ca_inflight := Map.empty\<rparr>"

definition cache_size :: "'v cache \<Rightarrow> nat" where
  "cache_size c = length (ca_entries c)"

text \<open>What can be observed: a call and its answer, a value that a compute returned, and the end of a compute.\<close>

datatype 'v cache_label = Asked string int "'v answer" | Computed nat 'v | Cleared nat

inductive cache_step :: "cache_options \<Rightarrow> 'v cache \<Rightarrow> 'v cache_label \<Rightarrow> 'v cache \<Rightarrow> bool" for opts where
  asked: "getOrCompute key now c = (a, c') \<Longrightarrow> cache_step opts c (Asked key now a) c'"
| computed: "ca_calls c p = Some call \<Longrightarrow> \<not> cc_settled call \<Longrightarrow>
    cache_step opts c (Computed p v) (settle_store opts p call v c)"
| cleared: "ca_calls c p = Some call \<Longrightarrow> cache_step opts c (Cleared p) (settle_clear p call c)"

inductive cache_trace :: "cache_options \<Rightarrow> 'v cache_label list \<Rightarrow> 'v cache \<Rightarrow> bool" for opts where
  fresh: "cache_trace opts [] createResponseCache"
| more_calls: "cache_trace opts ls c \<Longrightarrow> cache_step opts c l c' \<Longrightarrow> cache_trace opts (ls @ [l]) c'"

section \<open>The specification\<close>

text \<open>
  Every value that was ever computed, with its key and the time of the call that started it, and the
  compute that runs for a key. A hit must be a value computed for the key by a call less than the life
  time ago; a call joins the compute that runs, and starts one only when none runs.
\<close>

record 'v spec =
  sp_results :: "(string \<times> 'v \<times> int) set"
  sp_running :: "string \<rightharpoonup> nat"
  sp_calls :: "nat \<rightharpoonup> cache_call"
  sp_next :: nat

definition spec_start :: "'v spec" where
  "spec_start = \<lparr>sp_results = {}, sp_running = Map.empty, sp_calls = Map.empty, sp_next = 0\<rparr>"

inductive spec_step :: "int \<Rightarrow> 'v spec \<Rightarrow> 'v cache_label \<Rightarrow> 'v spec \<Rightarrow> bool" for ttl where
  hit: "(key, v, t) \<in> sp_results s \<Longrightarrow> now < t + ttl \<Longrightarrow> spec_step ttl s (Asked key now (Hit v)) s"
| join: "sp_running s key = Some p \<Longrightarrow> spec_step ttl s (Asked key now (Join p)) s"
| started: "sp_running s key = None \<Longrightarrow> p = sp_next s \<Longrightarrow>
    spec_step ttl s (Asked key now (Started p))
      (s\<lparr>sp_running := (sp_running s)(key \<mapsto> p), sp_calls := (sp_calls s)(p \<mapsto> \<lparr>cc_key = key, cc_now = now, cc_settled = False\<rparr>), sp_next := p + 1\<rparr>)"
| computed: "sp_calls s p = Some call \<Longrightarrow> \<not> cc_settled call \<Longrightarrow> sp_running s (cc_key call) = Some p \<Longrightarrow>
    spec_step ttl s (Computed p v)
      (s\<lparr>sp_results := insert (cc_key call, v, cc_now call) (sp_results s),
         sp_calls := (sp_calls s)(p \<mapsto> call\<lparr>cc_settled := True\<rparr>)\<rparr>)"
| cleared: "sp_calls s p = Some call \<Longrightarrow> sp_running s (cc_key call) = Some p \<Longrightarrow>
    spec_step ttl s (Cleared p)
      (s\<lparr>sp_running := (sp_running s)(cc_key call := None), sp_calls := (sp_calls s)(p := None)\<rparr>)"

inductive spec_trace :: "int \<Rightarrow> 'v cache_label list \<Rightarrow> 'v spec \<Rightarrow> bool" for ttl where
  nothing: "spec_trace ttl [] spec_start"
| then_step: "spec_trace ttl ls s \<Longrightarrow> spec_step ttl s l s' \<Longrightarrow> spec_trace ttl (ls @ [l]) s'"

section \<open>Refinement\<close>

text \<open>The stored entries are values that were computed, within the bound, and a key is in flight exactly while
  one of its calls is.\<close>

definition cache_rel :: "cache_options \<Rightarrow> 'v cache \<Rightarrow> 'v spec \<Rightarrow> bool" where
  "cache_rel opts c s \<longleftrightarrow>
     ca_inflight c = sp_running s \<and> ca_calls c = sp_calls s \<and> ca_next c = sp_next s \<and>
     (\<forall>(key, e) \<in> set (ca_entries c). (key, ce_value e, ce_expiresAt e - co_ttlMs opts) \<in> sp_results s) \<and>
     (\<forall>p call. ca_calls c p = Some call \<longrightarrow> p < ca_next c \<and> ca_inflight c (cc_key call) = Some p) \<and>
     (\<forall>key p. ca_inflight c key = Some p \<longrightarrow> (\<exists>call. ca_calls c p = Some call \<and> cc_key call = key)) \<and>
     distinct (map fst (ca_entries c)) \<and> (0 < co_maxEntries opts \<longrightarrow> length (ca_entries c) \<le> co_maxEntries opts)"

lemma set_entry_mem: "x \<in> set (set_entry key e xs) \<Longrightarrow> x = (key, e) \<or> x \<in> set xs"
  by (auto simp: set_entry_def split: if_splits)

lemma set_entry_keys: "distinct (map fst xs) \<Longrightarrow> distinct (map fst (set_entry key e xs))"
  by (auto simp: set_entry_def comp_def if_distrib [of fst] cong: if_cong)

lemma set_entry_length: "length (set_entry key e xs) \<le> length xs + 1"
  by (simp add: set_entry_def)

lemma store_entry_mem: "x \<in> set (store_entry opts key v now xs) \<Longrightarrow>
    x = (key, \<lparr>ce_value = v, ce_expiresAt = now + co_ttlMs opts\<rparr>) \<or> x \<in> set xs"
  by (auto simp: store_entry_def Let_def dest!: set_entry_mem split: if_splits)

lemma store_entry_keys: "distinct (map fst xs) \<Longrightarrow> distinct (map fst (store_entry opts key v now xs))"
  by (simp add: store_entry_def Let_def set_entry_keys distinct_map_filter)

text \<open>Half of the entries go, by distinct keys, so the bound holds again.\<close>

lemma length_filter_keys:
  assumes "distinct (map fst xs)" and "set ks \<subseteq> set (map fst xs)" and "distinct ks"
  shows "length (filter (\<lambda>x. fst x \<notin> set ks) xs) = length xs - length ks"
proof -
  have "length (filter (\<lambda>x. fst x \<in> set ks) xs) = card (set (map fst (filter (\<lambda>x. fst x \<in> set ks) xs)))"
    using distinct_card [OF distinct_map_filter [OF assms(1), of "\<lambda>x. fst x \<in> set ks"]] by simp
  also have "set (map fst (filter (\<lambda>x. fst x \<in> set ks) xs)) = set ks" using assms(2) by auto
  also have "card (set ks) = length ks" using assms(3) by (rule distinct_card)
  finally show ?thesis using sum_length_filter_compl [of "\<lambda>x. fst x \<in> set ks" xs] by simp
qed

lemma store_entry_length:
  assumes "distinct (map fst xs)" and "length xs \<le> co_maxEntries opts" and "0 < co_maxEntries opts"
  shows "length (store_entry opts key v now xs) \<le> co_maxEntries opts"
proof -
  let ?e = "set_entry key \<lparr>ce_value = v, ce_expiresAt = now + co_ttlMs opts\<rparr> xs"
  let ?s = "sort_key (\<lambda>x. ce_expiresAt (snd x)) ?e"
  let ?ks = "map fst (take (length ?s div 2) ?s)"
  have d: "distinct (map fst ?e)" using assms(1) by (rule set_entry_keys)
  have "mset (map fst ?s) = mset (map fst ?e)" by simp
  then have ds: "distinct (map fst ?s)" using d by (metis mset_eq_imp_distinct_iff)
  have "set ?ks \<subseteq> set (map fst ?e)" using set_take_subset [of "length ?s div 2" ?s] by auto
  moreover have "distinct ?ks" using ds by (simp only: take_map [symmetric] distinct_take)
  ultimately have "length (filter (\<lambda>x. fst x \<notin> set ?ks) ?e) = length ?e - length ?ks"
    by (rule length_filter_keys [OF d])
  moreover have "length ?ks = length ?e div 2" by simp
  moreover have "length ?e \<le> co_maxEntries opts + 1" using set_entry_length assms(2) by (meson add_le_mono1 le_trans)
  moreover have "n - n div 2 \<le> m" if "m < n" "n \<le> m + 1" "0 < m" for n m :: nat using that by presburger
  ultimately have kept: "co_maxEntries opts < length ?e \<Longrightarrow> length (filter (\<lambda>x. fst x \<notin> set ?ks) ?e) \<le> co_maxEntries opts"
    using assms(3) by (simp only:)
  show ?thesis
  proof (cases "co_maxEntries opts < length ?e")
    case True
    from kept [OF True] show ?thesis by (simp only: store_entry_def Let_def True if_True)
  next
    case False
    then show ?thesis by (simp add: store_entry_def Let_def)
  qed
qed

lemma cache_rel_start: "cache_rel opts createResponseCache spec_start"
  by (simp add: cache_rel_def createResponseCache_def spec_start_def)

text \<open>A call that finds neither a fresh value nor a compute starts one.\<close>

lemma getOrCompute_cases:
  assumes "getOrCompute key now c = (a, c')"
  obtains (hit) e where "map_of (ca_entries c) key = Some e" "now < ce_expiresAt e" "a = Hit (ce_value e)" "c' = c"
  | (join) p where "ca_inflight c key = Some p" "a = Join p" "c' = c"
  | (started) "ca_inflight c key = None" "a = Started (ca_next c)"
      "c' = c\<lparr>ca_inflight := (ca_inflight c)(key \<mapsto> ca_next c),
         ca_calls := (ca_calls c)(ca_next c \<mapsto> \<lparr>cc_key = key, cc_now = now, cc_settled = False\<rparr>), ca_next := ca_next c + 1\<rparr>"
proof (cases "\<exists>e. map_of (ca_entries c) key = Some e \<and> now < ce_expiresAt e")
  case True
  then obtain e where e: "map_of (ca_entries c) key = Some e" "now < ce_expiresAt e" by blast
  with assms have "a = Hit (ce_value e)" "c' = c" by (simp_all add: getOrCompute_def)
  with e hit show thesis by blast
next
  case False
  then have miss: "getOrCompute key now c = (case ca_inflight c key of
      Some pending \<Rightarrow> (Join pending, c)
    | None \<Rightarrow> (Started (ca_next c), c\<lparr>ca_inflight := (ca_inflight c)(key \<mapsto> ca_next c),
         ca_calls := (ca_calls c)(ca_next c \<mapsto> \<lparr>cc_key = key, cc_now = now, cc_settled = False\<rparr>), ca_next := ca_next c + 1\<rparr>))"
    by (auto simp: getOrCompute_def split: option.split)
  show thesis
  proof (cases "ca_inflight c key")
    case None
    with assms miss have "a = Started (ca_next c)" "c' = c\<lparr>ca_inflight := (ca_inflight c)(key \<mapsto> ca_next c),
         ca_calls := (ca_calls c)(ca_next c \<mapsto> \<lparr>cc_key = key, cc_now = now, cc_settled = False\<rparr>), ca_next := ca_next c + 1\<rparr>"
      by simp_all
    then show thesis by (rule started [OF None])
  next
    case (Some p)
    with assms miss have "a = Join p" "c' = c" by simp_all
    then show thesis by (rule join [OF Some])
  qed
qed

lemma cache_simulation:
  assumes rel: "cache_rel opts c s" and step: "cache_step opts c l c'"
  shows "\<exists>s'. spec_step (co_ttlMs opts) s l s' \<and> cache_rel opts c' s'"
proof -
  have same: "ca_inflight c = sp_running s" "ca_calls c = sp_calls s" "ca_next c = sp_next s"
    and known: "\<And>key e. (key, e) \<in> set (ca_entries c) \<Longrightarrow> (key, ce_value e, ce_expiresAt e - co_ttlMs opts) \<in> sp_results s"
    and calls: "\<And>p call. ca_calls c p = Some call \<Longrightarrow> p < ca_next c \<and> ca_inflight c (cc_key call) = Some p"
    and keys: "\<And>key p. ca_inflight c key = Some p \<Longrightarrow> \<exists>call. ca_calls c p = Some call \<and> cc_key call = key"
    and bound: "distinct (map fst (ca_entries c))" "0 < co_maxEntries opts \<longrightarrow> length (ca_entries c) \<le> co_maxEntries opts"
    using rel by (auto simp: cache_rel_def)
  from step show ?thesis
  proof cases
    case (asked key now a)
    from asked(2) show ?thesis
    proof (cases rule: getOrCompute_cases)
      case (hit e)
      from map_of_SomeD [OF hit(1)] have "(key, ce_value e, ce_expiresAt e - co_ttlMs opts) \<in> sp_results s" by (rule known)
      then have "spec_step (co_ttlMs opts) s (Asked key now (Hit (ce_value e))) s" by (rule spec_step.hit) (use hit(2) in simp)
      with rel asked hit show ?thesis by auto
    next
      case (join p)
      with rel asked same show ?thesis by (auto intro: spec_step.join)
    next
      case started
      let ?s = "s\<lparr>sp_running := (sp_running s)(key \<mapsto> sp_next s),
         sp_calls := (sp_calls s)(sp_next s \<mapsto> \<lparr>cc_key = key, cc_now = now, cc_settled = False\<rparr>), sp_next := sp_next s + 1\<rparr>"
      have "spec_step (co_ttlMs opts) s l ?s"
        using spec_step.started [of s key "sp_next s"] started(1,2) asked(1) same by auto
      moreover have "cache_rel opts c' ?s"
        unfolding cache_rel_def started(3)
      proof (intro conjI)
        show "\<forall>p call. ca_calls (c\<lparr>ca_inflight := (ca_inflight c)(key \<mapsto> ca_next c),
           ca_calls := (ca_calls c)(ca_next c \<mapsto> \<lparr>cc_key = key, cc_now = now, cc_settled = False\<rparr>), ca_next := ca_next c + 1\<rparr>) p = Some call \<longrightarrow>
           p < ca_next (c\<lparr>ca_inflight := (ca_inflight c)(key \<mapsto> ca_next c),
           ca_calls := (ca_calls c)(ca_next c \<mapsto> \<lparr>cc_key = key, cc_now = now, cc_settled = False\<rparr>), ca_next := ca_next c + 1\<rparr>) \<and>
           ca_inflight (c\<lparr>ca_inflight := (ca_inflight c)(key \<mapsto> ca_next c),
           ca_calls := (ca_calls c)(ca_next c \<mapsto> \<lparr>cc_key = key, cc_now = now, cc_settled = False\<rparr>), ca_next := ca_next c + 1\<rparr>) (cc_key call) = Some p"
          using calls started(1) by (auto simp: less_Suc_eq)
        have below: "q < ca_next c" if "ca_inflight c k = Some q" for k q using keys [OF that] calls by blast
        show "\<forall>k p. ca_inflight (c\<lparr>ca_inflight := (ca_inflight c)(key \<mapsto> ca_next c),
           ca_calls := (ca_calls c)(ca_next c \<mapsto> \<lparr>cc_key = key, cc_now = now, cc_settled = False\<rparr>), ca_next := ca_next c + 1\<rparr>) k = Some p \<longrightarrow>
          (\<exists>call. ca_calls (c\<lparr>ca_inflight := (ca_inflight c)(key \<mapsto> ca_next c),
           ca_calls := (ca_calls c)(ca_next c \<mapsto> \<lparr>cc_key = key, cc_now = now, cc_settled = False\<rparr>), ca_next := ca_next c + 1\<rparr>) p = Some call \<and> cc_key call = k)"
          using keys by (auto dest: below)
      qed (use same known bound in auto)
      ultimately show ?thesis by blast
    qed
  next
    case (computed p call v)
    let ?s = "s\<lparr>sp_results := insert (cc_key call, v, cc_now call) (sp_results s),
         sp_calls := (sp_calls s)(p \<mapsto> call\<lparr>cc_settled := True\<rparr>)\<rparr>"
    have run: "sp_running s (cc_key call) = Some p" using calls [OF computed(3)] same by simp
    have "spec_step (co_ttlMs opts) s l ?s"
      unfolding computed(1) by (rule spec_step.computed [OF _ computed(4) run]) (use computed(3) same in simp)
    moreover have "cache_rel opts c' ?s"
      unfolding cache_rel_def
    proof (intro conjI)
      have c': "ca_inflight c' = ca_inflight c" "ca_calls c' = (ca_calls c)(p \<mapsto> call\<lparr>cc_settled := True\<rparr>)" "ca_next c' = ca_next c"
        "ca_entries c' = store_entry opts (cc_key call) v (cc_now call) (ca_entries c)"
        by (simp_all add: computed(2) settle_store_def)
      show "\<forall>(key, e) \<in> set (ca_entries c'). (key, ce_value e, ce_expiresAt e - co_ttlMs opts) \<in> sp_results ?s"
        using known by (auto simp: c' dest!: store_entry_mem)
      show "\<forall>q call'. ca_calls c' q = Some call' \<longrightarrow> q < ca_next c' \<and> ca_inflight c' (cc_key call') = Some q"
        using calls calls [OF computed(3)] by (simp add: c' split: if_splits)
      show "\<forall>key q. ca_inflight c' key = Some q \<longrightarrow> (\<exists>call'. ca_calls c' q = Some call' \<and> cc_key call' = key)"
      proof (intro allI impI)
        fix key q assume "ca_inflight c' key = Some q"
        then obtain call' where "ca_calls c q = Some call'" "cc_key call' = key" using keys unfolding c' by blast
        then show "\<exists>call'. ca_calls c' q = Some call' \<and> cc_key call' = key" using computed(3) by (auto simp: c')
      qed
      show "distinct (map fst (ca_entries c'))" unfolding c' by (rule store_entry_keys [OF bound(1)])
      show "0 < co_maxEntries opts \<longrightarrow> length (ca_entries c') \<le> co_maxEntries opts"
        unfolding c' using store_entry_length [OF bound(1)] bound(2) by blast
    qed (use same in \<open>simp_all add: computed(2) settle_store_def\<close>)
    ultimately show ?thesis by blast
  next
    case (cleared p call)
    let ?s = "s\<lparr>sp_running := (sp_running s)(cc_key call := None), sp_calls := (sp_calls s)(p := None)\<rparr>"
    have run: "sp_running s (cc_key call) = Some p" using calls [OF cleared(3)] same by simp
    have "spec_step (co_ttlMs opts) s l ?s"
      unfolding cleared(1) by (rule spec_step.cleared [OF _ run]) (use cleared(3) same in simp)
    moreover have "cache_rel opts c' ?s"
      unfolding cache_rel_def cleared(2) settle_clear_def
    proof (intro conjI)
      have "cc_key call' \<noteq> cc_key call" if "ca_calls c q = Some call'" "q \<noteq> p" for q call'
        using calls [OF that(1)] run same(1) that(2) by auto
      then show "\<forall>q call'. ca_calls (c\<lparr>ca_inflight := (ca_inflight c)(cc_key call := None), ca_calls := (ca_calls c)(p := None)\<rparr>) q = Some call' \<longrightarrow>
          q < ca_next (c\<lparr>ca_inflight := (ca_inflight c)(cc_key call := None), ca_calls := (ca_calls c)(p := None)\<rparr>) \<and>
          ca_inflight (c\<lparr>ca_inflight := (ca_inflight c)(cc_key call := None), ca_calls := (ca_calls c)(p := None)\<rparr>) (cc_key call') = Some q"
        using calls by (simp split: if_splits)
      have "q \<noteq> p" if "ca_inflight c k = Some q" "k \<noteq> cc_key call" for k q
        using keys [OF that(1)] cleared(3) that(2) by auto
      then show "\<forall>k q. ca_inflight (c\<lparr>ca_inflight := (ca_inflight c)(cc_key call := None), ca_calls := (ca_calls c)(p := None)\<rparr>) k = Some q \<longrightarrow>
          (\<exists>call'. ca_calls (c\<lparr>ca_inflight := (ca_inflight c)(cc_key call := None), ca_calls := (ca_calls c)(p := None)\<rparr>) q = Some call' \<and> cc_key call' = k)"
        using keys by (simp split: if_splits)
    qed (use same known bound in auto)
    ultimately show ?thesis by blast
  qed
qed

lemma cache_trace_related: "cache_trace opts ls c \<Longrightarrow> \<exists>s. spec_trace (co_ttlMs opts) ls s \<and> cache_rel opts c s"
proof (induction rule: cache_trace.induct)
  case fresh
  then show ?case using spec_trace.nothing cache_rel_start by blast
next
  case (more_calls ls c l c')
  then show ?case using cache_simulation spec_trace.then_step by blast
qed

text \<open>C39: Every history of the cache is one that the specification allows: a hit is a value computed for its key by a
  call less than the life time ago, callers of one key share the compute that runs, and none is started
  while one runs. And however many keys are asked for, no more values are kept than configured.\<close>

theorem cache_refines_spec:
  assumes "cache_trace opts ls c" and "0 < co_maxEntries opts"
  shows "(\<exists>s. spec_trace (co_ttlMs opts) ls s) \<and> cache_size c \<le> co_maxEntries opts"
  using cache_trace_related [OF assms(1)] assms(2) by (auto simp: cache_rel_def cache_size_def)

text \<open>Two callers share a compute; its value is then served until its time is over.\<close>

definition sample_labels :: "nat cache_label list" where
  "sample_labels =
     [Asked ''k'' 0 (Started 0), Asked ''k'' 1 (Join 0), Computed 0 42, Cleared 0, Asked ''k'' 4 (Hit 42), Asked ''k'' 5 (Started 1)]"

fun replay :: "cache_options \<Rightarrow> nat cache_label list \<Rightarrow> nat cache \<Rightarrow> nat cache option" where
  "replay opts [] c = Some c"
| "replay opts (Asked key now a # ls) c =
     (case getOrCompute key now c of (b, c') \<Rightarrow> if b = a then replay opts ls c' else None)"
| "replay opts (Computed p v # ls) c =
     (case ca_calls c p of
        Some call \<Rightarrow> if \<not> cc_settled call then replay opts ls (settle_store opts p call v c) else None
      | None \<Rightarrow> None)"
| "replay opts (Cleared p # ls) c =
     (case ca_calls c p of Some call \<Rightarrow> replay opts ls (settle_clear p call c) | None \<Rightarrow> None)"

lemma replay_trace: "replay opts ls c = Some c' \<Longrightarrow> cache_trace opts ks c \<Longrightarrow> cache_trace opts (ks @ ls) c'"
proof (induction opts ls c arbitrary: ks rule: replay.induct)
  case (2 opts key now a ls c)
  then obtain c1 where "getOrCompute key now c = (a, c1)" "replay opts ls c1 = Some c'"
    by (auto split: prod.splits if_splits)
  with 2 show ?case using cache_trace.more_calls [OF 2(3) cache_step.asked] by fastforce
next
  case (3 opts p v ls c)
  then obtain call where "ca_calls c p = Some call" "\<not> cc_settled call" "replay opts ls (settle_store opts p call v c) = Some c'"
    by (auto split: option.splits if_splits)
  with 3 show ?case using cache_trace.more_calls [OF 3(3) cache_step.computed] by fastforce
next
  case (4 opts p ls c)
  then obtain call where "ca_calls c p = Some call" "replay opts ls (settle_clear p call c) = Some c'"
    by (auto split: option.splits)
  with 4 show ?case using cache_trace.more_calls [OF 4(3) cache_step.cleared] by fastforce
qed simp

theorem cache_refines_spec_witness:
  "\<exists>s c. spec_trace 5 sample_labels s \<and> cache_size (c :: nat cache) \<le> 2"
proof -
  let ?opts = "\<lparr>co_ttlMs = 5, co_maxEntries = 2\<rparr>"
  obtain c where "replay ?opts sample_labels createResponseCache = Some c"
  proof -
    have "map_option (\<lambda>c. length (ca_entries c)) (replay ?opts sample_labels createResponseCache) = Some 1"
      by code_simp
    then show thesis using that by (auto simp: map_option_case split: option.splits)
  qed
  then have "cache_trace ?opts ([] @ sample_labels) c" by (rule replay_trace) (rule cache_trace.fresh)
  then have "cache_trace ?opts sample_labels c" by simp
  from cache_refines_spec [OF this] show ?thesis by auto
qed

end
