(* ===== verification/Idempotency.thy ===== *)
theory Idempotency
  imports Prelude
begin

text \<open>
  \<open>src/lib/idempotency.ts\<close>: replays of mutating requests by \<open>Idempotency-Key\<close>. The hooks of concurrent requests
  interleave at every \<open>await\<close>: a request looks its row up, deletes a dead one, creates its own, runs the
  handler, and settles the row after the response. A request is a number (\<open>is_requests\<close> is the log of what arrived under it), the route handlers are
  arbitrary, and a crash is a request that never goes on. SHA-256 is a parameter. The environment that a
  row names for attribution is left out; nothing reads it.
\<close>

section \<open>Requests\<close>

datatype header_value = NoHeader | OneHeader string | ManyHeaders "string list"

text \<open>A body: none, an object with its \<open>JSON.stringify\<close> text, or something that is not hashed.\<close>

datatype request_body = NoBody | ObjectBody string | OtherBody

record http_request =
  rq_method :: string
  rq_path :: string
  rq_key :: header_value
  rq_authorization :: "string option"
  rq_cookie :: "string option"
  rq_body :: request_body
  rq_params :: "string \<rightharpoonup> string"

record idem_options =
  io_sha256 :: "string \<Rightarrow> string"
  io_retentionMs :: int
  io_staleMs :: int

definition exempt_paths :: "string list" where
  "exempt_paths = [''/api/sync/batch'', ''/mcp'']"

definition readKey :: "http_request \<Rightarrow> string + string option" where
  "readKey request =
     (let v = (case rq_key request of
                 NoHeader \<Rightarrow> None
               | OneHeader s \<Rightarrow> Some s
               | ManyHeaders xs \<Rightarrow> (case xs of [] \<Rightarrow> None | s # _ \<Rightarrow> Some s))
      in case v of
           None \<Rightarrow> Inr None
         | Some s \<Rightarrow>
             (let trimmed = js_trim s
              in if trimmed = [] then Inr None
                 else if 200 < length trimmed then Inl ''VALIDATION_ERROR''
                 else Inr (Some trimmed)))"

definition hashBody :: "idem_options \<Rightarrow> request_body \<Rightarrow> string option" where
  "hashBody opts body =
     (case body of
        NoBody \<Rightarrow> Some (io_sha256 opts ''null'')
      | ObjectBody json \<Rightarrow> Some (io_sha256 opts json)
      | OtherBody \<Rightarrow> None)"

definition resolveEnvironmentId :: "http_request \<Rightarrow> string option" where
  "resolveEnvironmentId request = (case rq_params request ''envId'' of Some e \<Rightarrow> Some e | None \<Rightarrow> rq_params request ''id'')"

definition hasCredential :: "http_request \<Rightarrow> bool" where
  "hasCredential request \<longleftrightarrow>
     (\<exists>a \<in> set_option (rq_authorization request). js_trim a \<noteq> []) \<or> (\<exists>c \<in> set_option (rq_cookie request). js_trim c \<noteq> [])"

definition scopeHash :: "idem_options \<Rightarrow> http_request \<Rightarrow> string" where
  "scopeHash opts request =
     (let auth = nullish (rq_authorization request) []; cookie = nullish (rq_cookie request) [];
          credential = (if auth \<noteq> [] then auth else cookie)
      in take 16 (io_sha256 opts credential))"

text \<open>What identifies a row, with the hash of the body.\<close>

record idem_ident =
  ii_key :: string
  ii_path :: string
  ii_hash :: string

datatype engagement = PassThrough | Refused string | Engaged idem_ident

text \<open>The part of \<open>preHandler\<close> before the first query.\<close>

definition engage :: "idem_options \<Rightarrow> http_request \<Rightarrow> engagement" where
  "engage opts request =
     (if js_upper (rq_method request) \<noteq> ''POST'' then PassThrough
      else if rq_path request \<in> set exempt_paths then PassThrough
      else case readKey request of
             Inl e \<Rightarrow> Refused e
           | Inr None \<Rightarrow> PassThrough
           | Inr (Some key) \<Rightarrow>
               (case hashBody opts (rq_body request) of
                  None \<Rightarrow> PassThrough
                | Some requestHash \<Rightarrow>
                    if \<not> hasCredential request then PassThrough
                    else Engaged
                      \<lparr>ii_key = scopeHash opts request @ '':'' @ nullish (resolveEnvironmentId request) ''-'' @ '':'' @ key,
                       ii_path = rq_path request, ii_hash = requestHash\<rparr>))"

text \<open>No other route parameter enters the key: requests for two deployments of one service, on the route
  \<open>/api/services/:id/deployments/:depId/deploy\<close>, have the same identity.\<close>

lemma other_params_share_row:
  "params ''envId'' = rq_params request ''envId'' \<Longrightarrow> params ''id'' = rq_params request ''id'' \<Longrightarrow>
     engage opts (request\<lparr>rq_params := params\<rparr>) = engage opts request"
proof -
  let ?r = "request\<lparr>rq_params := params\<rparr>"
  assume "params ''envId'' = rq_params request ''envId''" "params ''id'' = rq_params request ''id''"
  then have "resolveEnvironmentId ?r = resolveEnvironmentId request" by (simp add: resolveEnvironmentId_def split: option.split)
  moreover have "readKey ?r = readKey request" "hasCredential ?r = hasCredential request" "scopeHash opts ?r = scopeHash opts request"
    by (simp_all add: readKey_def hasCredential_def scopeHash_def)
  ultimately show ?thesis by (simp add: engage_def cong: if_cong option.case_cong sum.case_cong)
qed

section \<open>Rows and steps\<close>

record idem_row =
  ik_id :: nat
  ik_ident :: idem_ident
  ik_responseStatus :: "int option"
  ik_responseBody :: "string option"
  ik_inProgress :: bool
  ik_createdAt :: int
  ik_expiresAt :: int

text \<open>Where a request is. An answer carries the captured body: the payload if it was text.\<close>

datatype stage =
    Looking
  | Deleting nat
  | Creating
  | Handling nat
  | Responded nat int "string option"
  | Answered nat int "string option"
  | Replayed int string
  | Rejected string
  | Bypassed

record idem_call =
  ic_ident :: "idem_ident option"
  ic_stage :: stage

record idem_state =
  is_rows :: "idem_row list"
  is_calls :: "nat \<rightharpoonup> idem_call"
  is_next :: nat
  is_requests :: "nat \<rightharpoonup> http_request"

text \<open>\<open>key_method_path\<close>; the method is always \<open>POST\<close>.\<close>

definition same_slot :: "idem_ident \<Rightarrow> idem_ident \<Rightarrow> bool" where
  "same_slot a b \<longleftrightarrow> ii_key a = ii_key b \<and> ii_path a = ii_path b"

definition find_row :: "idem_ident \<Rightarrow> idem_row list \<Rightarrow> idem_row option" where
  "find_row i rows = List.find (\<lambda>r. same_slot (ik_ident r) i) rows"

text \<open>The decision on the row that the query found.\<close>

definition look_up :: "idem_options \<Rightarrow> int \<Rightarrow> idem_ident \<Rightarrow> idem_row list \<Rightarrow> stage" where
  "look_up opts now i rows =
     (case find_row i rows of
        None \<Rightarrow> Creating
      | Some existing \<Rightarrow>
          if ik_expiresAt existing \<le> now then Deleting (ik_id existing)
          else if ii_hash (ik_ident existing) \<noteq> ii_hash i then Rejected ''IDEMPOTENCY_KEY_REUSED''
          else if ik_inProgress existing then
            (if ik_createdAt existing < now - io_staleMs opts then Deleting (ik_id existing) else Rejected ''CONFLICT'')
          else Replayed (nullish (ik_responseStatus existing) 200)
                 (if truthy (ik_responseBody existing) then the (ik_responseBody existing) else []))"

definition delete_row :: "nat \<Rightarrow> idem_row list \<Rightarrow> idem_row list" where
  "delete_row i rows = filter (\<lambda>r. ik_id r \<noteq> i) rows"

text \<open>\<open>create\<close> under the unique index.\<close>

definition create_row :: "idem_options \<Rightarrow> int \<Rightarrow> idem_ident \<Rightarrow> idem_state \<Rightarrow> stage \<times> idem_state" where
  "create_row opts now i st =
     (if find_row i (is_rows st) \<noteq> None then (Rejected ''CONFLICT'', st)
      else (Handling (is_next st),
            st\<lparr>is_rows := is_rows st @
                 [\<lparr>ik_id = is_next st, ik_ident = i, ik_responseStatus = None, ik_responseBody = None, ik_inProgress = True,
                   ik_createdAt = now, ik_expiresAt = now + io_retentionMs opts\<rparr>],
               is_next := is_next st + 1\<rparr>))"

text \<open>\<open>finalizeOnResponse\<close>: a success is kept for replays, anything else frees the key.\<close>

definition finalize_row :: "nat \<Rightarrow> int \<Rightarrow> string option \<Rightarrow> idem_row list \<Rightarrow> idem_row list" where
  "finalize_row i status body rows =
     (if 200 \<le> status \<and> status < 300 then
        update_row ik_id i (\<lambda>r. r\<lparr>ik_inProgress := False, ik_responseStatus := Some status, ik_responseBody := body\<rparr>) rows
      else delete_row i rows)"

definition cleanupExpiredIdempotencyKeys :: "int \<Rightarrow> idem_row list \<Rightarrow> nat \<times> idem_row list" where
  "cleanupExpiredIdempotencyKeys now rows =
     (length (filter (\<lambda>r. ik_expiresAt r < now) rows), filter (\<lambda>r. \<not> ik_expiresAt r < now) rows)"

definition set_stage :: "nat \<Rightarrow> stage \<Rightarrow> idem_state \<Rightarrow> idem_state" where
  "set_stage n s st = st\<lparr>is_calls := (is_calls st)(n := map_option (\<lambda>c. c\<lparr>ic_stage := s\<rparr>) (is_calls st n))\<rparr>"

definition at_stage :: "idem_state \<Rightarrow> nat \<Rightarrow> idem_ident \<Rightarrow> stage \<Rightarrow> bool" where
  "at_stage st n i s \<longleftrightarrow> is_calls st n = Some \<lparr>ic_ident = Some i, ic_stage = s\<rparr>"

definition arrival :: "engagement \<Rightarrow> idem_call" where
  "arrival e =
     (case e of
        PassThrough \<Rightarrow> \<lparr>ic_ident = None, ic_stage = Bypassed\<rparr>
      | Refused err \<Rightarrow> \<lparr>ic_ident = None, ic_stage = Rejected err\<rparr>
      | Engaged i \<Rightarrow> \<lparr>ic_ident = Some i, ic_stage = Looking\<rparr>)"

inductive idem_step :: "idem_options \<Rightarrow> idem_state \<Rightarrow> idem_state \<Rightarrow> bool" for opts where
  arrive: "is_calls st n = None \<Longrightarrow> 
    idem_step opts st (st\<lparr>is_calls := (is_calls st)(n \<mapsto> arrival (engage opts request)), is_requests := (is_requests st)(n \<mapsto> request)\<rparr>)"
| look: "at_stage st n i Looking \<Longrightarrow> idem_step opts st (set_stage n (look_up opts now i (is_rows st)) st)"
| delete: "at_stage st n i (Deleting r) \<Longrightarrow>
    idem_step opts st (set_stage n Creating (st\<lparr>is_rows := delete_row r (is_rows st)\<rparr>))"
| create: "at_stage st n i Creating \<Longrightarrow> create_row opts now i st = (s, st') \<Longrightarrow> idem_step opts st (set_stage n s st')"
| respond: "at_stage st n i (Handling r) \<Longrightarrow> idem_step opts st (set_stage n (Responded r status body) st)"
| settle: "at_stage st n i (Responded r status body) \<Longrightarrow>
    idem_step opts st (set_stage n (Answered r status body) (st\<lparr>is_rows := finalize_row r status body (is_rows st)\<rparr>))"
| cleanup: "idem_step opts st (st\<lparr>is_rows := snd (cleanupExpiredIdempotencyKeys now (is_rows st))\<rparr>)"

definition idem_start :: idem_state where
  "idem_start = \<lparr>is_rows = [], is_calls = Map.empty, is_next = 0, is_requests = Map.empty\<rparr>"

inductive idem_reachable :: "idem_options \<Rightarrow> idem_state \<Rightarrow> bool" for opts where
  start: "idem_reachable opts idem_start"
| step: "idem_reachable opts st \<Longrightarrow> idem_step opts st st' \<Longrightarrow> idem_reachable opts st'"

section \<open>The invariant\<close>

text \<open>The row that a request owns, from its creation on.\<close>

fun owned :: "stage \<Rightarrow> nat option" where
  "owned (Handling r) = Some r"
| "owned (Responded r _ _) = Some r"
| "owned (Answered r _ _) = Some r"
| "owned _ = None"

text \<open>A row under way belongs to a request that has not settled it, a finished one to the request whose success
  it holds.\<close>

definition holds_answer :: "idem_row \<Rightarrow> stage \<Rightarrow> bool" where
  "holds_answer r s \<longleftrightarrow>
     (if ik_inProgress r then \<forall>status body. s \<noteq> Answered (ik_id r) status body
      else \<exists>status body. s = Answered (ik_id r) status body \<and> 200 \<le> status \<and> status < 300 \<and>
        ik_responseStatus r = Some status \<and> ik_responseBody r = body)"

definition row_owner :: "idem_state \<Rightarrow> idem_row \<Rightarrow> bool" where
  "row_owner st r \<longleftrightarrow> (\<exists>n s. at_stage st n (ik_ident r) s \<and> owned s = Some (ik_id r) \<and> holds_answer r s)"

text \<open>A replay repeats the answer of a request with the same key, path and body.\<close>

definition genuine :: "idem_state \<Rightarrow> idem_ident \<Rightarrow> int \<Rightarrow> string \<Rightarrow> bool" where
  "genuine st i status body \<longleftrightarrow>
     (\<exists>n r captured. at_stage st n i (Answered r status captured) \<and> 200 \<le> status \<and> status < 300 \<and> body = nullish captured [])"

definition idem_inv :: "idem_state \<Rightarrow> bool" where
  "idem_inv st \<longleftrightarrow>
     (\<forall>r \<in> set (is_rows st). ik_id r < is_next st \<and> row_owner st r) \<and>
     distinct (map ik_id (is_rows st)) \<and> distinct (map (\<lambda>r. (ii_key (ik_ident r), ii_path (ik_ident r))) (is_rows st)) \<and>
     (\<forall>n c r. is_calls st n = Some c \<longrightarrow> owned (ic_stage c) = Some r \<longrightarrow> r < is_next st) \<and>
     (\<forall>n m c d r. is_calls st n = Some c \<longrightarrow> is_calls st m = Some d \<longrightarrow> owned (ic_stage c) = Some r \<longrightarrow>
        owned (ic_stage d) = Some r \<longrightarrow> n = m) \<and>
     (\<forall>n c status body. is_calls st n = Some c \<longrightarrow> ic_stage c = Replayed status body \<longrightarrow>
        (\<exists>i. ic_ident c = Some i \<and> genuine st i status body))"

inductive_cases idem_stepE: "idem_step opts st st'"

lemma calls_set_stage [simp]:
  "is_calls (set_stage n s st) m = (if m = n then map_option (\<lambda>c. c\<lparr>ic_stage := s\<rparr>) (is_calls st n) else is_calls st m)"
  "is_rows (set_stage n s st) = is_rows st" "is_next (set_stage n s st) = is_next st"
  by (simp_all add: set_stage_def)

lemma at_stage_other: "m \<noteq> n \<Longrightarrow> at_stage (set_stage n s st) m i t \<longleftrightarrow> at_stage st m i t"
  by (simp add: at_stage_def)

lemma at_stage_self: "at_stage st n i t \<Longrightarrow> at_stage (set_stage n s st) n i s"
  by (simp add: at_stage_def)

lemma at_stage_unique: "at_stage st n i s \<Longrightarrow> at_stage st n j t \<Longrightarrow> s = t"
  by (simp add: at_stage_def)

definition calls_kept :: "idem_state \<Rightarrow> idem_state \<Rightarrow> stage set \<Rightarrow> bool" where
  "calls_kept st st' ss \<longleftrightarrow> (\<forall>n i s. at_stage st n i s \<longrightarrow> s \<in> ss \<longrightarrow> at_stage st' n i s)"

lemma genuine_kept:
  "calls_kept st st' {s. owned s \<noteq> None \<and> (\<exists>r a b. s = Answered r a b)} \<Longrightarrow> genuine st i status body \<Longrightarrow> genuine st' i status body"
  unfolding genuine_def calls_kept_def by fastforce

lemma row_owner_kept: "calls_kept st st' {s. owned s = Some (ik_id r)} \<Longrightarrow> row_owner st r \<Longrightarrow> row_owner st' r"
  unfolding row_owner_def calls_kept_def by (metis (mono_tags, lifting) mem_Collect_eq)

lemma kept_set_stage: "at_stage st n i s0 \<Longrightarrow> s0 \<notin> ss \<Longrightarrow> calls_kept st (set_stage n s (st\<lparr>is_rows := rows\<rparr>)) ss"
  unfolding calls_kept_def at_stage_def by auto

text \<open>The parts of the invariant.\<close>

definition rows_owned :: "idem_state \<Rightarrow> bool" where
  "rows_owned st \<longleftrightarrow> (\<forall>r \<in> set (is_rows st). ik_id r < is_next st \<and> row_owner st r) \<and>
     distinct (map ik_id (is_rows st)) \<and> distinct (map (\<lambda>r. (ii_key (ik_ident r), ii_path (ik_ident r))) (is_rows st))"

definition owners_apart :: "idem_state \<Rightarrow> bool" where
  "owners_apart st \<longleftrightarrow>
     (\<forall>n c r. is_calls st n = Some c \<longrightarrow> owned (ic_stage c) = Some r \<longrightarrow> r < is_next st) \<and>
     (\<forall>n m c d r. is_calls st n = Some c \<longrightarrow> is_calls st m = Some d \<longrightarrow> owned (ic_stage c) = Some r \<longrightarrow>
        owned (ic_stage d) = Some r \<longrightarrow> n = m)"

definition replays_genuine :: "idem_state \<Rightarrow> bool" where
  "replays_genuine st \<longleftrightarrow>
     (\<forall>n c status body. is_calls st n = Some c \<longrightarrow> ic_stage c = Replayed status body \<longrightarrow>
        (\<exists>i. ic_ident c = Some i \<and> genuine st i status body))"

lemma idem_inv_parts: "idem_inv st \<longleftrightarrow> rows_owned st \<and> owners_apart st \<and> replays_genuine st"
  by (auto simp: idem_inv_def rows_owned_def owners_apart_def replays_genuine_def)

lemma rows_owned_filter: "rows_owned st \<Longrightarrow> rows_owned (st\<lparr>is_rows := filter P (is_rows st)\<rparr>)"
  by (auto simp: rows_owned_def row_owner_def at_stage_def distinct_map_filter)

text \<open>A stage that owns the same row as before leaves the owners apart.\<close>

lemma owners_move:
  assumes "owners_apart st" and "at_stage st n i s0" and "owned s = owned s0 \<or> owned s = None"
  shows "owners_apart (set_stage n s st)"
proof -
  have n: "is_calls st n = Some \<lparr>ic_ident = Some i, ic_stage = s0\<rparr>" using assms(2) by (simp add: at_stage_def)
  have old: "\<exists>c'. is_calls st m = Some c' \<and> owned (ic_stage c') = Some r"
    if "is_calls (set_stage n s st) m = Some c" "owned (ic_stage c) = Some r" for m c r
    using that n assms(3) by (auto split: if_splits)
  show ?thesis
    unfolding owners_apart_def
  proof (intro conjI allI impI)
    fix m c r assume "is_calls (set_stage n s st) m = Some c" "owned (ic_stage c) = Some r"
    with old assms(1) show "r < is_next (set_stage n s st)" unfolding owners_apart_def by fastforce
  next
    fix m k c d r
    assume "is_calls (set_stage n s st) m = Some c" "is_calls (set_stage n s st) k = Some d"
      "owned (ic_stage c) = Some r" "owned (ic_stage d) = Some r"
    with old assms(1) show "m = k" unfolding owners_apart_def by metis
  qed
qed

lemma replays_move:
  assumes "replays_genuine st" and "at_stage st n i s0" and "\<And>r a b. s0 \<noteq> Answered r a b"
    and "\<And>status body. s = Replayed status body \<Longrightarrow> genuine st i status body"
  shows "replays_genuine (set_stage n s st)"
proof -
  have kept: "genuine (set_stage n s st) j status body" if "genuine st j status body" for j status body
    by (rule genuine_kept [OF _ that]) (use assms(2,3) in \<open>auto simp: calls_kept_def at_stage_def\<close>)
  show ?thesis
    unfolding replays_genuine_def
  proof (intro allI impI)
    fix m c status body
    assume c: "is_calls (set_stage n s st) m = Some c" and r: "ic_stage c = Replayed status body"
    show "\<exists>j. ic_ident c = Some j \<and> genuine (set_stage n s st) j status body"
    proof (cases "m = n")
      case True
      with c assms(2) have "c = \<lparr>ic_ident = Some i, ic_stage = s\<rparr>" by (auto simp: at_stage_def)
      with r assms(4) kept show ?thesis by auto
    next
      case False
      with c have "is_calls st m = Some c" by simp
      with r assms(1) obtain j where "ic_ident c = Some j" "genuine st j status body"
        unfolding replays_genuine_def by blast
      with kept show ?thesis by blast
    qed
  qed
qed

lemma rows_move:
  assumes "rows_owned st" and "at_stage st n i s0" and "owned s0 = None"
  shows "rows_owned (set_stage n s st)"
proof -
  have "row_owner (set_stage n s st) r" if "row_owner st r" for r
    by (rule row_owner_kept [OF _ that]) (use assms(2,3) in \<open>auto simp: calls_kept_def at_stage_def\<close>)
  with assms(1) show ?thesis by (auto simp: rows_owned_def)
qed

lemma drop_rows:
  assumes "idem_inv st"
  shows "idem_inv (st\<lparr>is_rows := filter P (is_rows st)\<rparr>)"
  using assms rows_owned_filter [of st P]
  by (auto simp: idem_inv_parts owners_apart_def replays_genuine_def genuine_def at_stage_def)

lemma find_row_slot: "find_row i rows = Some r \<Longrightarrow> r \<in> set rows \<and> ii_key (ik_ident r) = ii_key i \<and> ii_path (ik_ident r) = ii_path i"
  by (auto simp: find_row_def find_Some_iff same_slot_def)

lemma find_row_none: "find_row i rows = None \<Longrightarrow> r \<in> set rows \<Longrightarrow> \<not> (ii_key (ik_ident r) = ii_key i \<and> ii_path (ik_ident r) = ii_path i)"
  by (auto simp: find_row_def find_None_iff same_slot_def)

lemma owned_look_up: "owned (look_up opts t i rows) = None"
  by (simp add: look_up_def split: option.splits)

lemma look_up_replay:
  assumes "look_up opts t i rows = Replayed status body"
  obtains r where "r \<in> set rows" "ik_ident r = i" "\<not> ik_inProgress r" "t < ik_expiresAt r"
    "status = nullish (ik_responseStatus r) 200" "body = nullish (ik_responseBody r) []"
proof -
  from assms obtain r where r: "find_row i rows = Some r" and "t < ik_expiresAt r" "\<not> ik_inProgress r"
    "ii_hash (ik_ident r) = ii_hash i" "status = nullish (ik_responseStatus r) 200" "body = nullish (ik_responseBody r) []"
    by (auto simp: look_up_def nullish_def truthy_def split: option.splits if_splits)
  moreover from find_row_slot [OF r] have "r \<in> set rows" "ik_ident r = i"
    using \<open>ii_hash (ik_ident r) = ii_hash i\<close> by auto
  ultimately show thesis using that by blast
qed

lemma finished_row_genuine:
  "rows_owned st \<Longrightarrow> r \<in> set (is_rows st) \<Longrightarrow> \<not> ik_inProgress r \<Longrightarrow>
     genuine st (ik_ident r) (nullish (ik_responseStatus r) 200) (nullish (ik_responseBody r) [])"
  by (fastforce simp: rows_owned_def row_owner_def holds_answer_def genuine_def nullish_def)

lemma keep_look:
  assumes "idem_inv st" and "at_stage st n i Looking"
  shows "idem_inv (set_stage n (look_up opts t i (is_rows st)) st)"
proof -
  have "genuine st i status body" if "look_up opts t i (is_rows st) = Replayed status body" for status body
    using look_up_replay [OF that] finished_row_genuine assms(1) by (metis idem_inv_parts)
  then show ?thesis
    using assms by (auto simp: idem_inv_parts owned_look_up intro: rows_move owners_move replays_move)
qed

lemma keep_delete:
  assumes "idem_inv st" and "at_stage st n i (Deleting r)"
  shows "idem_inv (set_stage n Creating (st\<lparr>is_rows := delete_row r (is_rows st)\<rparr>))"
proof -
  have "idem_inv (st\<lparr>is_rows := delete_row r (is_rows st)\<rparr>)" unfolding delete_row_def by (rule drop_rows [OF assms(1)])
  moreover have "at_stage (st\<lparr>is_rows := delete_row r (is_rows st)\<rparr>) n i (Deleting r)"
    using assms(2) by (simp add: at_stage_def)
  ultimately show ?thesis
    by (auto simp: idem_inv_parts intro: rows_move owners_move replays_move)
qed

lemma keep_arrive:
  assumes "idem_inv st" and new: "is_calls st n = None"
  shows "idem_inv (st\<lparr>is_calls := (is_calls st)(n \<mapsto> arrival e)\<rparr>)"
proof -
  let ?st = "st\<lparr>is_calls := (is_calls st)(n \<mapsto> arrival e)\<rparr>"
  have idle: "owned (ic_stage (arrival e)) = None" "ic_stage (arrival e) \<noteq> Replayed status body" for status body
    by (simp_all add: arrival_def split: engagement.splits)
  have kept: "calls_kept st ?st ss" for ss
    using new by (auto simp: calls_kept_def at_stage_def)
  have "rows_owned ?st"
    using assms(1) row_owner_kept [OF kept] by (auto simp: idem_inv_parts rows_owned_def)
  moreover have "owners_apart ?st"
    using assms(1) idle by (auto simp: idem_inv_parts owners_apart_def)
  moreover have "replays_genuine ?st"
    unfolding replays_genuine_def
  proof (intro allI impI)
    fix m c status body
    assume c: "is_calls ?st m = Some c" and r: "ic_stage c = Replayed status body"
    have "m \<noteq> n" using c r idle(2) [of status body] by auto
    with c have "is_calls st m = Some c" by simp
    with r assms(1) obtain j where "ic_ident c = Some j" "genuine st j status body"
      unfolding idem_inv_parts replays_genuine_def by blast
    with genuine_kept [OF kept] show "\<exists>j. ic_ident c = Some j \<and> genuine ?st j status body" by blast
  qed
  ultimately show ?thesis by (simp add: idem_inv_parts)
qed

text \<open>A row changes only together with the request that owns it.\<close>

lemma rows_move_owner:
  assumes inv: "idem_inv st" and at: "at_stage st n i s0" and own: "owned s0 = Some k" and s: "owned s = Some k"
    and f: "\<And>r. ik_id (f r) = ik_id r \<and> ik_ident (f r) = ik_ident r"
    and mine: "\<And>r. r \<in> set (is_rows st) \<Longrightarrow> ik_id r = k \<Longrightarrow> holds_answer (f r) s"
  shows "rows_owned (set_stage n s (st\<lparr>is_rows := update_row ik_id k f (is_rows st)\<rparr>))"
proof -
  let ?st = "set_stage n s (st\<lparr>is_rows := update_row ik_id k f (is_rows st)\<rparr>)"
  have ro: "rows_owned st" and oa: "owners_apart st" using inv by (simp_all add: idem_inv_parts)
  have "row_owner ?st (if ik_id r = k then f r else r)" if r: "r \<in> set (is_rows st)" for r
  proof -
    obtain m t where t: "at_stage st m (ik_ident r) t" "owned t = Some (ik_id r)"
      and ok: "holds_answer r t"
      using ro r unfolding rows_owned_def row_owner_def by blast
    show ?thesis
    proof (cases "ik_id r = k")
      case True
      with t(1,2) at own oa have "m = n" unfolding owners_apart_def at_stage_def by fastforce
      with t(1) at have "ik_ident r = i" by (simp add: at_stage_def)
      with at have "at_stage ?st n (ik_ident (f r)) s" using f by (simp add: at_stage_def)
      with mine [OF r True] True f s show ?thesis unfolding row_owner_def by auto
    next
      case False
      with t at own have "m \<noteq> n" by (auto simp: at_stage_def)
      with t(1) have "at_stage ?st m (ik_ident r) t" by (simp add: at_stage_def)
      with t(2) ok False show ?thesis unfolding row_owner_def by auto
    qed
  qed
  moreover have "map g (update_row ik_id k f (is_rows st)) = map g (is_rows st)"
    if "\<And>r. g (f r) = g r" for g :: "idem_row \<Rightarrow> 'x"
    using that by (auto simp: update_row_def)
  ultimately show ?thesis
    using ro f by (auto simp: rows_owned_def update_row_def comp_def if_distrib cong: if_cong)
qed

lemma keep_create:
  assumes inv: "idem_inv st" and at: "at_stage st n i Creating" and c: "create_row opts t i st = (s, st')"
  shows "idem_inv (set_stage n s st')"
proof (cases "find_row i (is_rows st)")
  case (Some r)
  with c have "s = Rejected ''CONFLICT''" "st' = st" by (simp_all add: create_row_def)
  with inv at show ?thesis by (auto simp: idem_inv_parts intro: rows_move owners_move replays_move)
next
  case None
  define row where "row = \<lparr>ik_id = is_next st, ik_ident = i, ik_responseStatus = None, ik_responseBody = None,
    ik_inProgress = True, ik_createdAt = t, ik_expiresAt = t + io_retentionMs opts\<rparr>"
  define st1 where "st1 = st\<lparr>is_rows := is_rows st @ [row], is_next := is_next st + 1\<rparr>"
  from c None have s: "s = Handling (is_next st)" and st': "st' = st1"
    by (simp_all add: create_row_def row_def st1_def)
  let ?st = "set_stage n s st1"
  have calls: "is_calls ?st m = (if m = n then Some \<lparr>ic_ident = Some i, ic_stage = s\<rparr> else is_calls st m)" for m
    using at by (auto simp: st1_def at_stage_def)
  have kept: "calls_kept st ?st {x. owned x \<noteq> None}"
    using at by (auto simp: calls_kept_def at_stage_def st1_def)
  have "row_owner ?st row" unfolding row_owner_def holds_answer_def
    using at by (intro exI [of _ n] exI [of _ s]) (simp add: at_stage_def st1_def s row_def)
  moreover have "row_owner ?st r" if "row_owner st r" for r
    using row_owner_kept [OF _ that, of ?st] kept by (auto simp: calls_kept_def)
  moreover have "(ii_key i, ii_path i) \<notin> (\<lambda>r. (ii_key (ik_ident r), ii_path (ik_ident r))) ` set (is_rows st)"
    using find_row_none [OF None] by (metis (no_types, lifting) imageE prod.inject)
  moreover have "is_rows ?st = is_rows st @ [row]" "is_next ?st = Suc (is_next st)" "ik_ident row = i" "ik_id row = is_next st"
    by (simp_all add: st1_def row_def)
  ultimately have "rows_owned ?st"
    using inv unfolding idem_inv_parts rows_owned_def by (auto simp del: calls_set_stage image_iff simp: less_SucI)
  moreover have "owners_apart ?st"
  proof -
    have old: "r < is_next st" if "is_calls st m = Some d" "owned (ic_stage d) = Some r" for m d r
      using inv that unfolding idem_inv_parts owners_apart_def by blast
    have one: "m = m'" if "is_calls st m = Some d" "is_calls st m' = Some d'" "owned (ic_stage d) = Some r"
      "owned (ic_stage d') = Some r" for m m' d d' r
      using inv that unfolding idem_inv_parts owners_apart_def by blast
    show ?thesis
      unfolding owners_apart_def calls using one s by (auto simp: st1_def less_SucI split: if_splits dest: old)
  qed
  moreover have "replays_genuine ?st"
    unfolding replays_genuine_def
  proof (intro allI impI)
    fix m d status body
    assume d: "is_calls ?st m = Some d" and r: "ic_stage d = Replayed status body"
    with calls s have "is_calls st m = Some d" by (auto split: if_splits)
    with r inv obtain j where "ic_ident d = Some j" "genuine st j status body"
      unfolding idem_inv_parts replays_genuine_def by blast
    moreover have "genuine ?st j status body" if "genuine st j status body" for j
      using genuine_kept [OF _ that, of ?st] kept by (auto simp: calls_kept_def)
    ultimately show "\<exists>j. ic_ident d = Some j \<and> genuine ?st j status body" by blast
  qed
  ultimately show ?thesis by (simp add: idem_inv_parts st')
qed

lemma keep_respond:
  assumes inv: "idem_inv st" and at: "at_stage st n i (Handling k)"
  shows "idem_inv (set_stage n (Responded k status body) st)"
proof -
  have "rows_owned (set_stage n (Responded k status body) (st\<lparr>is_rows := update_row ik_id k (\<lambda>r. r) (is_rows st)\<rparr>))"
  proof (rule rows_move_owner [OF inv at])
    fix r assume r: "r \<in> set (is_rows st)" "ik_id r = k"
    obtain m t where t: "at_stage st m (ik_ident r) t" "owned t = Some k" and ok: "holds_answer r t"
      using inv r unfolding idem_inv_parts rows_owned_def row_owner_def by blast
    with at inv have "m = n" unfolding idem_inv_parts owners_apart_def at_stage_def by fastforce
    with t at have "t = Handling k" by (simp add: at_stage_def)
    with ok show "holds_answer r (Responded k status body)" by (auto simp: holds_answer_def split: if_splits)
  qed simp_all
  then have "rows_owned (set_stage n (Responded k status body) st)" by (simp add: update_row_def cong: if_cong)
  with inv at show ?thesis
    by (auto simp: idem_inv_parts intro: owners_move replays_move)
qed

lemma rows_irrelevant [simp]:
  "owners_apart (set_stage n s (st\<lparr>is_rows := rows\<rparr>)) \<longleftrightarrow> owners_apart (set_stage n s st)"
  "replays_genuine (set_stage n s (st\<lparr>is_rows := rows\<rparr>)) \<longleftrightarrow> replays_genuine (set_stage n s st)"
  by (simp_all add: set_stage_def owners_apart_def replays_genuine_def genuine_def at_stage_def)

lemma keep_settle:
  assumes inv: "idem_inv st" and at: "at_stage st n i (Responded k status body)"
  shows "idem_inv (set_stage n (Answered k status body) (st\<lparr>is_rows := finalize_row k status body (is_rows st)\<rparr>))"
proof -
  let ?s = "Answered k status body"
  have rest: "owners_apart (set_stage n ?s st)" "replays_genuine (set_stage n ?s st)"
    using inv at by (auto simp: idem_inv_parts intro: owners_move replays_move)
  show ?thesis
  proof (cases "200 \<le> status \<and> status < 300")
    case True
    let ?f = "\<lambda>r. r\<lparr>ik_inProgress := False, ik_responseStatus := Some status, ik_responseBody := body\<rparr>"
    have "rows_owned (set_stage n ?s (st\<lparr>is_rows := update_row ik_id k ?f (is_rows st)\<rparr>))"
      by (rule rows_move_owner [OF inv at]) (use True in \<open>auto simp: holds_answer_def\<close>)
    with rest True show ?thesis by (simp add: idem_inv_parts finalize_row_def)
  next
    case False
    have "rows_owned (set_stage n ?s (st\<lparr>is_rows := delete_row k (is_rows st)\<rparr>))"
      unfolding rows_owned_def
    proof (intro conjI ballI)
      fix r assume "r \<in> set (is_rows (set_stage n ?s (st\<lparr>is_rows := delete_row k (is_rows st)\<rparr>)))"
      then have r: "r \<in> set (is_rows st)" "ik_id r \<noteq> k" by (auto simp: delete_row_def)
      with inv show "ik_id r < is_next (set_stage n ?s (st\<lparr>is_rows := delete_row k (is_rows st)\<rparr>))"
        by (simp add: idem_inv_parts rows_owned_def)
      from r(1) inv have "row_owner st r" by (simp add: idem_inv_parts rows_owned_def)
      moreover have "calls_kept st (set_stage n ?s (st\<lparr>is_rows := delete_row k (is_rows st)\<rparr>)) {s. owned s = Some (ik_id r)}"
        using at r(2) by (auto simp: calls_kept_def at_stage_def)
      ultimately show "row_owner (set_stage n ?s (st\<lparr>is_rows := delete_row k (is_rows st)\<rparr>)) r"
        by (rule row_owner_kept [rotated])
    qed (use inv in \<open>auto simp: idem_inv_parts rows_owned_def delete_row_def distinct_map_filter\<close>)
    with rest False show ?thesis by (auto simp: idem_inv_parts finalize_row_def)
  qed
qed

lemma inv_requests [simp]: "idem_inv (st\<lparr>is_requests := q\<rparr>) \<longleftrightarrow> idem_inv st"
  by (simp add: idem_inv_def row_owner_def genuine_def at_stage_def)

lemma idem_step_keeps: "idem_step opts st st' \<Longrightarrow> idem_inv st \<Longrightarrow> idem_inv st'"
  by (erule idem_stepE)
     (simp_all add: keep_arrive keep_look keep_delete keep_create keep_respond keep_settle drop_rows
        cleanupExpiredIdempotencyKeys_def)

lemma idem_start_inv: "idem_inv idem_start"
  by (simp add: idem_inv_def idem_start_def)

lemma idem_reachable_inv: "idem_reachable opts st \<Longrightarrow> idem_inv st"
  by (induction rule: idem_reachable.induct) (auto simp: idem_start_inv intro: idem_step_keeps)

text \<open>A handler whose row is live holds the row of its own identity, and holds it alone.\<close>

lemma live_holder:
  assumes inv: "idem_inv st" and at: "at_stage st n i (Handling k)" and live: "k \<in> ik_id ` set (is_rows st)"
  shows "\<exists>row \<in> set (is_rows st). ik_id row = k \<and> ik_ident row = i"
proof -
  from live obtain row where row: "row \<in> set (is_rows st)" "ik_id row = k" by auto
  then obtain m t where m: "at_stage st m (ik_ident row) t" "owned t = Some k"
    using inv unfolding idem_inv_parts rows_owned_def row_owner_def by blast
  with at inv have "m = n" unfolding idem_inv_parts owners_apart_def at_stage_def by fastforce
  with m at row show ?thesis by (auto simp: at_stage_def)
qed

lemma live_handlers_apart:
  assumes inv: "idem_inv st" and n: "at_stage st n i (Handling r)" and m: "at_stage st m j (Handling q)"
    and same: "same_slot i j" and live: "{r, q} \<subseteq> ik_id ` set (is_rows st)"
  shows "n = m"
proof -
  obtain x where x: "x \<in> set (is_rows st)" "ik_id x = r" "ik_ident x = i" using live_holder [OF inv n] live by blast
  obtain y where y: "y \<in> set (is_rows st)" "ik_id y = q" "ik_ident y = j" using live_holder [OF inv m] live by blast
  from inv x y same have "x = y"
    unfolding idem_inv_parts rows_owned_def same_slot_def distinct_map by (auto dest: inj_onD)
  with n m x y inv show ?thesis unfolding idem_inv_parts owners_apart_def at_stage_def by fastforce
qed

lemma replay_source:
  assumes inv: "idem_inv st" and c: "is_calls st n = Some c" "ic_stage c = Replayed status body"
  shows "\<exists>m i r captured. m \<noteq> n \<and> ic_ident c = Some i \<and> at_stage st m i (Answered r status captured) \<and>
               200 \<le> status \<and> status < 300 \<and> body = nullish captured []"
proof -
  from c inv obtain i where i: "ic_ident c = Some i" "genuine st i status body"
    unfolding idem_inv_parts replays_genuine_def by blast
  then obtain m r captured where m: "at_stage st m i (Answered r status captured)" "200 \<le> status" "status < 300"
    "body = nullish captured []" unfolding genuine_def by blast
  moreover from c m(1) have "m \<noteq> n" by (auto simp: at_stage_def)
  ultimately show ?thesis using i(1) by blast
qed

section \<open>The requests behind the calls\<close>

text \<open>A call that has an identity got it from its request.\<close>

definition attributed :: "idem_options \<Rightarrow> idem_state \<Rightarrow> bool" where
  "attributed opts st \<longleftrightarrow>
     (\<forall>n c i. is_calls st n = Some c \<longrightarrow> ic_ident c = Some i \<longrightarrow> (\<exists>q. is_requests st n = Some q \<and> engage opts q = Engaged i))"

lemma requests_set_stage [simp]: "is_requests (set_stage n s st) = is_requests st"
  by (simp add: set_stage_def)

lemma attributed_set_stage: "attributed opts st \<Longrightarrow> attributed opts (set_stage n s st)"
  by (auto simp: attributed_def split: if_splits)

lemma attributed_rows [simp]: "attributed opts (st\<lparr>is_rows := rows\<rparr>) \<longleftrightarrow> attributed opts st"
  by (simp add: attributed_def)

lemma attributed_arrive: "attributed opts st \<Longrightarrow>
    attributed opts (st\<lparr>is_calls := (is_calls st)(n \<mapsto> arrival (engage opts q)), is_requests := (is_requests st)(n \<mapsto> q)\<rparr>)"
  by (auto simp: attributed_def arrival_def split: engagement.splits)

lemma attributed_create: "create_row opts now i st = (s, st') \<Longrightarrow> attributed opts st \<Longrightarrow> attributed opts st'"
  by (auto simp: create_row_def attributed_def split: if_splits)

lemma idem_step_attributed: "idem_step opts st st' \<Longrightarrow> attributed opts st \<Longrightarrow> attributed opts st'"
  by (erule idem_stepE) (simp_all add: attributed_arrive attributed_create attributed_set_stage)

lemma idem_reachable_attributed: "idem_reachable opts st \<Longrightarrow> attributed opts st"
proof (induction rule: idem_reachable.induct)
  case start
  then show ?case by (simp add: attributed_def idem_start_def)
next
  case (step st st')
  then show ?case by (blast intro: idem_step_attributed)
qed

text \<open>Two requests ask for the same thing: same credential scope, route, body hash, environment and key. The key is
  stored behind the environment and a colon, so the last two are told apart when the route parameters hold no colon.\<close>

definition same_request :: "idem_options \<Rightarrow> http_request \<Rightarrow> http_request \<Rightarrow> bool" where
  "same_request opts q q' \<longleftrightarrow>
     js_upper (rq_method q) = ''POST'' \<and> js_upper (rq_method q') = ''POST'' \<and>
     scopeHash opts q = scopeHash opts q' \<and> rq_path q = rq_path q' \<and> hashBody opts (rq_body q) = hashBody opts (rq_body q') \<and>
     (let env = nullish (resolveEnvironmentId q) ''-''; env' = nullish (resolveEnvironmentId q') ''-'' in
      \<exists>key key'. readKey q = Inr (Some key) \<and> readKey q' = Inr (Some key') \<and> env @ '':'' @ key = env' @ '':'' @ key' \<and>
        (CHR '':'' \<notin> set env \<and> CHR '':'' \<notin> set env' \<longrightarrow> env = env' \<and> key = key'))"

lemma engage_Engaged:
  assumes "engage opts q = Engaged i"
  shows "js_upper (rq_method q) = ''POST'' \<and> (\<exists>key. readKey q = Inr (Some key) \<and> hashBody opts (rq_body q) = Some (ii_hash i) \<and>
     ii_key i = scopeHash opts q @ '':'' @ nullish (resolveEnvironmentId q) ''-'' @ '':'' @ key) \<and> ii_path i = rq_path q"
  using assms by (auto simp: engage_def split: if_splits sum.splits option.splits)

lemma colon_split:
  "xs @ '':'' @ ys = xs' @ '':'' @ ys' \<Longrightarrow> CHR '':'' \<notin> set xs \<Longrightarrow> CHR '':'' \<notin> set xs' \<Longrightarrow> xs = xs' \<and> ys = ys'"
  by (induction xs arbitrary: xs') (case_tac xs'; auto)+

lemma engaged_alike:
  assumes "engage opts q = Engaged i" and "engage opts q' = Engaged i" and len: "\<And>x. length (io_sha256 opts x) = 64"
  shows "same_request opts q q'"
proof -
  note q = engage_Engaged [OF assms(1)] and q' = engage_Engaged [OF assms(2)]
  from q obtain key where key: "readKey q = Inr (Some key)" "hashBody opts (rq_body q) = Some (ii_hash i)"
    "ii_key i = scopeHash opts q @ '':'' @ nullish (resolveEnvironmentId q) ''-'' @ '':'' @ key" by blast
  from q' obtain key' where key': "readKey q' = Inr (Some key')" "hashBody opts (rq_body q') = Some (ii_hash i)"
    "ii_key i = scopeHash opts q' @ '':'' @ nullish (resolveEnvironmentId q') ''-'' @ '':'' @ key'" by blast
  have "length (scopeHash opts q) = length (scopeHash opts q')"
    by (simp add: scopeHash_def Let_def len)
  with key(3) key'(3) have same: "scopeHash opts q = scopeHash opts q'"
    "nullish (resolveEnvironmentId q) ''-'' @ '':'' @ key = nullish (resolveEnvironmentId q') ''-'' @ '':'' @ key'"
    by auto
  with q q' key key' colon_split [OF same(2)] show ?thesis
    unfolding same_request_def Let_def by auto
qed

section \<open>The property\<close>

text \<open>C38: whatever the interleaving, a replayed response repeats the status and the captured body of a 2xx answer
  that the handler gave to another request, and both are \<open>POST\<close> requests with the same credential scope, the same route,
  the same body hash and the same stored environment and key. Two handlers never hold live rows of the same key and
  route. Assumed: a SHA-256 digest has 64 hexadecimal digits.\<close>

theorem replays_are_genuine:
  assumes "idem_reachable opts st" and "\<And>x. length (io_sha256 opts x) = 64"
  shows "(is_calls st n = Some c \<and> ic_stage c = Replayed status body \<longrightarrow>
            (\<exists>m q q' i r captured. m \<noteq> n \<and> is_requests st n = Some q \<and> is_requests st m = Some q' \<and> same_request opts q q' \<and>
               at_stage st m i (Answered r status captured) \<and> 200 \<le> status \<and> status < 300 \<and> body = nullish captured [])) \<and>
         (at_stage st n i (Handling r) \<and> at_stage st m j (Handling k) \<and> same_slot i j \<and>
            {r, k} \<subseteq> ik_id ` set (is_rows st) \<longrightarrow> n = m)"
proof -
  from assms(1) have inv: "idem_inv st" by (rule idem_reachable_inv)
  have att: "\<exists>q. is_requests st n = Some q \<and> engage opts q = Engaged i" if "is_calls st n = Some c" "ic_ident c = Some i" for n c i
    using idem_reachable_attributed [OF assms(1)] that unfolding attributed_def by blast
  show ?thesis
  proof (intro conjI impI)
    assume "is_calls st n = Some c \<and> ic_stage c = Replayed status body"
    then have c: "is_calls st n = Some c" "ic_stage c = Replayed status body" by auto
    obtain m i r captured where m: "m \<noteq> n" "ic_ident c = Some i" "at_stage st m i (Answered r status captured)"
      "200 \<le> status" "status < 300" "body = nullish captured []"
      using replay_source [OF inv c] by blast
    obtain q where q: "is_requests st n = Some q" "engage opts q = Engaged i" using att [OF c(1) m(2)] by blast
    obtain q' where q': "is_requests st m = Some q'" "engage opts q' = Engaged i"
      using att [of m _ i] m(3) unfolding at_stage_def by fastforce
    from q(1) q'(1) engaged_alike [OF q(2) q'(2) assms(2)] m
    show "\<exists>m q q' i r captured. m \<noteq> n \<and> is_requests st n = Some q \<and> is_requests st m = Some q' \<and> same_request opts q q' \<and>
               at_stage st m i (Answered r status captured) \<and> 200 \<le> status \<and> status < 300 \<and> body = nullish captured []"
      by blast
  next
    assume "at_stage st n i (Handling r) \<and> at_stage st m j (Handling k) \<and> same_slot i j \<and>
            {r, k} \<subseteq> ik_id ` set (is_rows st)"
    then show "n = m" by (elim conjE) (rule live_handlers_apart [OF inv])
  qed
qed

text \<open>A retry with blanks around the key replays the first answer.\<close>

definition retry_opts :: idem_options where
  "retry_opts = \<lparr>io_sha256 = (\<lambda>s. take 64 (s @ replicate 64 CHR ''0'')), io_retentionMs = 86400000, io_staleMs = 300000\<rparr>"

definition retry_request :: "string \<Rightarrow> http_request" where
  "retry_request key =
     \<lparr>rq_method = ''post'', rq_path = ''/api/x'', rq_key = OneHeader key, rq_authorization = Some ''Bearer t'',
      rq_cookie = None, rq_body = ObjectBody ''{}'', rq_params = [''envId'' \<mapsto> ''e'']\<rparr>"

definition retry_ident :: idem_ident where
  "retry_ident = \<lparr>ii_key = ''Bearer t00000000:e:k'', ii_path = ''/api/x'', ii_hash = ''{}'' @ replicate 62 CHR ''0''\<rparr>"

lemma retry_engages: "engage retry_opts (retry_request ''k'') = Engaged retry_ident"
    "engage retry_opts (retry_request '' k '') = Engaged retry_ident"
  by code_simp+

definition retry_row :: idem_row where
  "retry_row = \<lparr>ik_id = 0, ik_ident = retry_ident, ik_responseStatus = Some 201, ik_responseBody = Some ''ok'',
     ik_inProgress = False, ik_createdAt = 5, ik_expiresAt = 86400005\<rparr>"

definition retried :: "stage \<Rightarrow> idem_state" where
  "retried s = \<lparr>is_rows = [retry_row],
     is_calls = [0 \<mapsto> \<lparr>ic_ident = Some retry_ident, ic_stage = Answered 0 201 (Some ''ok'')\<rparr>,
                 1 \<mapsto> \<lparr>ic_ident = Some retry_ident, ic_stage = s\<rparr>], is_next = 1,
     is_requests = [0 \<mapsto> retry_request ''k'', 1 \<mapsto> retry_request '' k '']\<rparr>"

lemma retried_reachable: "idem_reachable retry_opts (retried (Replayed 201 ''ok''))"
proof -
  let ?s = "\<lambda>rows k s. \<lparr>is_rows = rows, is_calls = [0 \<mapsto> \<lparr>ic_ident = Some retry_ident, ic_stage = s\<rparr>], is_next = k,
       is_requests = [0 \<mapsto> retry_request ''k'']\<rparr>"
  let ?r = "retry_row\<lparr>ik_responseStatus := None, ik_responseBody := None, ik_inProgress := True\<rparr>"
  note next_state = idem_reachable.step
  have "idem_reachable retry_opts (?s [] 0 Looking)"
    using next_state [OF idem_reachable.start idem_step.arrive [of idem_start 0 retry_opts "retry_request ''k''"]]
    by (simp add: idem_start_def retry_engages arrival_def)
  then have "idem_reachable retry_opts (?s [] 0 Creating)"
    using next_state [OF _ idem_step.look [of "?s [] 0 Looking" 0 retry_ident retry_opts 3]]
    by (simp add: at_stage_def set_stage_def look_up_def find_row_def)
  then have "idem_reachable retry_opts (?s [?r] 1 (Handling 0))"
    using next_state [OF _ idem_step.create [of "?s [] 0 Creating" 0 retry_ident retry_opts 5]]
    by (simp add: at_stage_def set_stage_def create_row_def find_row_def retry_row_def retry_opts_def)
  then have "idem_reachable retry_opts (?s [?r] 1 (Responded 0 201 (Some ''ok'')))"
    using next_state [OF _ idem_step.respond [of "?s [?r] 1 (Handling 0)" 0 retry_ident 0 retry_opts 201 "Some ''ok''"]]
    by (simp add: at_stage_def set_stage_def)
  then have "idem_reachable retry_opts (?s [retry_row] 1 (Answered 0 201 (Some ''ok'')))"
    using next_state [OF _ idem_step.settle [of "?s [?r] 1 (Responded 0 201 (Some ''ok''))" 0 retry_ident 0 201 "Some ''ok''" retry_opts]]
    by (simp add: at_stage_def set_stage_def finalize_row_def update_row_def retry_row_def)
  then have "idem_reachable retry_opts (retried Looking)"
    using next_state [OF _ idem_step.arrive [of "?s [retry_row] 1 (Answered 0 201 (Some ''ok''))" 1 retry_opts "retry_request '' k ''"]]
    by (simp add: retry_engages arrival_def retried_def)
  then show ?thesis
    using next_state [OF _ idem_step.look [of "retried Looking" 1 retry_ident retry_opts 9]]
    by (simp add: at_stage_def set_stage_def look_up_def find_row_def retried_def retry_row_def same_slot_def truthy_def)
qed

theorem replays_are_genuine_witness:
  "\<exists>m q' i r captured. m \<noteq> 1 \<and> is_requests (retried (Replayed 201 ''ok'')) m = Some q' \<and>
     same_request retry_opts (retry_request '' k '') q' \<and>
     at_stage (retried (Replayed 201 ''ok'')) m i (Answered r 201 captured) \<and> ''ok'' = nullish captured []"
proof -
  have "length (io_sha256 retry_opts x) = 64" for x
    by (simp add: retry_opts_def)
  from replays_are_genuine [OF retried_reachable this, of 1 "\<lparr>ic_ident = Some retry_ident, ic_stage = Replayed 201 ''ok''\<rparr>" 201 "''ok''"]
  show ?thesis by (auto simp: retried_def)
qed

end
