(* ===== verification/Calendar.thy ===== *)
theory Calendar
  imports Prelude
begin

text \<open>
  The calendar of ECMAScript's \<open>Date\<close> that the scheduler and the backup rotation compute with: a day is its
  number since the epoch, its year, month (from 0) and date are read off the lengths of years and months, and
  \<open>make_day\<close> is the setter that \<open>Date.UTC\<close>, \<open>setMonth\<close> and \<open>setDate\<close> share, with months and days out of
  range carried over. The proleptic Gregorian rules are those of the language specification.
\<close>

definition leap :: "int \<Rightarrow> bool" where
  "leap y \<longleftrightarrow> y mod 4 = 0 \<and> y mod 100 \<noteq> 0 \<or> y mod 400 = 0"

text \<open>The number of the first day of a year.\<close>

definition year_start :: "int \<Rightarrow> int" where
  "year_start y = 365 * (y - 1970) + (y - 1969) div 4 - (y - 1901) div 100 + (y - 1601) div 400"

text \<open>An estimate by the mean length of a year is off by at most one.\<close>

definition year_of :: "int \<Rightarrow> int" where
  "year_of n =
     (let y = 1970 + 400 * n div 146097
      in if n < year_start y then y - 1 else if year_start (y + 1) \<le> n then y + 1 else y)"

definition month_starts :: "bool \<Rightarrow> int list" where
  "month_starts lp =
     (if lp then [0, 31, 60, 91, 121, 152, 182, 213, 244, 274, 305, 335]
      else [0, 31, 59, 90, 120, 151, 181, 212, 243, 273, 304, 334])"

definition year_length :: "int \<Rightarrow> int" where
  "year_length y = (if leap y then 366 else 365)"

definition month_start :: "int \<Rightarrow> int \<Rightarrow> int" where
  "month_start y m = (if m < 12 then year_start y + month_starts (leap y) ! nat m else year_start (y + 1))"

text \<open>\<open>getMonth\<close>, \<open>getDate\<close> and \<open>getDay\<close>.\<close>

definition month_of :: "int \<Rightarrow> int" where
  "month_of n = int (length (filter (\<lambda>s. year_start (year_of n) + s \<le> n) (month_starts (leap (year_of n))))) - 1"

definition date_of :: "int \<Rightarrow> int" where
  "date_of n = n - month_start (year_of n) (month_of n) + 1"

definition weekday :: "int \<Rightarrow> int" where
  "weekday n = (n + 4) mod 7"

definition make_day :: "int \<Rightarrow> int \<Rightarrow> int \<Rightarrow> int" where
  "make_day y m d = month_start (y + m div 12) (m mod 12) + d - 1"

section \<open>Years\<close>

lemma div_step: "0 < k \<Longrightarrow> (a + 1) div k = a div k + (if (a + 1) mod k = 0 then 1 else 0)" for a k :: int
proof -
  assume k: "0 < k"
  have a: "a + 1 = k * (a div k) + (a mod k + 1)" using mult_div_mod_eq [of k a] by linarith
  show ?thesis
  proof (cases "a mod k + 1 = k")
    case True
    with a have "a + 1 = k * (a div k + 1) + 0" by (simp only: distrib_left mult_1_right add_0_right)
    with k show ?thesis using int_div_pos_eq [of "a + 1" k "a div k + 1" 0] int_mod_pos_eq [of "a + 1" k "a div k + 1" 0] by simp
  next
    case False
    with k have "a mod k + 1 < k" "0 \<le> a mod k" using pos_mod_bound [of k a] pos_mod_sign [of k a] by - linarith+
    with a k show ?thesis
      using int_div_pos_eq [of "a + 1" k "a div k" "a mod k + 1"] int_mod_pos_eq [of "a + 1" k "a div k" "a mod k + 1"] by simp
  qed
qed

lemma year_start_next: "year_start (y + 1) = year_start y + year_length y"
proof -
  have m: "(y - 1968) mod 4 = y mod 4" "(y - 1900) mod 100 = y mod 100" "(y - 1600) mod 400 = y mod 400"
    using mod_mult_self1 [of y "-492" 4] mod_mult_self1 [of y "-19" 100] mod_mult_self1 [of y "-4" 400] by simp_all
  define a b c where "a = (y - 1969) div 4" and "b = (y - 1901) div 100" and "c = (y - 1601) div 400"
  define p q r where "p \<longleftrightarrow> y mod 4 = 0" and "q \<longleftrightarrow> y mod 100 = 0" and "r \<longleftrightarrow> y mod 400 = 0"
  have e: "y - 1969 + 1 = y - 1968" "y - 1901 + 1 = y - 1900" "y - 1601 + 1 = y - 1600" by simp_all
  have "(y - 1968) div 4 = a + (if p then 1 else 0)"
    using div_step [of 4 "y - 1969"] by (simp only: e m a_def p_def zero_less_numeral True_implies_equals)
  moreover have "(y - 1900) div 100 = b + (if q then 1 else 0)"
    using div_step [of 100 "y - 1901"] by (simp only: e m b_def q_def zero_less_numeral True_implies_equals)
  moreover have "(y - 1600) div 400 = c + (if r then 1 else 0)"
    using div_step [of 400 "y - 1601"] by (simp only: e m c_def r_def zero_less_numeral True_implies_equals)
  ultimately have "year_start (y + 1) = 365 * (y - 1970) + 365 + a + (if p then 1 else 0) - b - (if q then 1 else 0) + c + (if r then 1 else 0)"
    by (simp add: year_start_def)
  moreover have "year_start y = 365 * (y - 1970) + a - b + c" by (simp add: year_start_def a_def b_def c_def)
  moreover have "year_length y = (if p \<and> \<not> q \<or> r then 366 else 365)" by (simp add: year_length_def leap_def p_def q_def r_def)
  moreover have "r \<Longrightarrow> q" "q \<Longrightarrow> p"
    unfolding p_def q_def r_def using mod_mod_cancel [of 100 400 y] mod_mod_cancel [of 4 100 y] by simp_all
  ultimately show ?thesis by auto
qed

lemma year_length_bounds: "365 \<le> year_length y" "year_length y \<le> 366"
  by (simp_all add: year_length_def)

lemma year_start_mono: "x \<le> y \<Longrightarrow> year_start x \<le> year_start y"
proof (induction y rule: int_ge_induct)
  case (step y)
  then show ?case using year_start_next [of y] year_length_bounds(1) [of y] by linarith
qed simp

lemma year_start_less: "x < y \<Longrightarrow> year_start x < year_start y"
  using year_start_mono [of "x + 1" y] year_start_next [of x] year_length_bounds(1) [of x] by linarith

lemma div_bounds: "0 < k \<Longrightarrow> k * (a div k) \<le> a" "0 < k \<Longrightarrow> a - k + 1 \<le> k * (a div k)" for a k :: int
  using mult_div_mod_eq [of k a] pos_mod_bound [of k a] pos_mod_sign [of k a] by - linarith+

lemma div_less_int: "0 < k \<Longrightarrow> a div k < b \<longleftrightarrow> a < k * b" for a b k :: int
proof
  assume k: "0 < k" and "a div k < b"
  then have "k * (a div k + 1) \<le> k * b" by (intro mult_left_mono) simp_all
  with div_bounds(2) [OF k, of a] show "a < k * b" by (simp add: distrib_left)
next
  assume k: "0 < k" and a: "a < k * b"
  have "k * (a div k) < k * b" using div_bounds(1) [OF k, of a] a by simp
  with k show "a div k < b" by simp
qed

lemma year_start_approx:
  "146097 * (y - 1970) - 506 \<le> 400 * year_start y" "400 * year_start y \<le> 146097 * (y - 1970) + 589"
proof -
  define a b c where "a = (y - 1969) div 4" and "b = (y - 1901) div 100" and "c = (y - 1601) div 400"
  have "4 * a \<le> y - 1969" "y - 1969 - 3 \<le> 4 * a" "100 * b \<le> y - 1901" "y - 1901 - 99 \<le> 100 * b"
    "400 * c \<le> y - 1601" "y - 1601 - 399 \<le> 400 * c"
    using div_bounds [of 4 "y - 1969"] div_bounds [of 100 "y - 1901"] div_bounds [of 400 "y - 1601"]
    by (simp_all add: a_def b_def c_def)
  moreover have "year_start y = 365 * (y - 1970) + a - b + c" by (simp add: year_start_def a_def b_def c_def)
  ultimately show "146097 * (y - 1970) - 506 \<le> 400 * year_start y" "400 * year_start y \<le> 146097 * (y - 1970) + 589"
    by simp_all
qed

lemma year_of_bounds: "year_start (year_of n) \<le> n" "n < year_start (year_of n + 1)"
proof -
  define q where "q = 1970 + 400 * n div 146097"
  have "146097 * (q - 1970) \<le> 400 * n" "400 * n < 146097 * (q - 1970) + 146097"
    using div_bounds [of 146097 "400 * n"] by (simp_all add: q_def)
  then have "year_start (q - 1) \<le> n" "n < year_start (q + 2)"
    using year_start_approx(2) [of "q - 1"] year_start_approx(1) [of "q + 2"] by simp_all
  then show "year_start (year_of n) \<le> n" "n < year_start (year_of n + 1)"
    by (auto simp: year_of_def Let_def q_def [symmetric] add.commute)
qed

lemma year_of_unique: "year_start y \<le> n \<Longrightarrow> n < year_start (y + 1) \<Longrightarrow> year_of n = y"
  using year_of_bounds [of n] year_start_mono [of "y + 1" "year_of n"] year_start_mono [of "year_of n + 1" y] by linarith

section \<open>Months\<close>

lemma month_start_bounds [simp]: "month_start y 0 = year_start y" "month_start y 12 = year_start (y + 1)"
  by (simp_all add: month_start_def month_starts_def)

lemma twelve_months: "0 \<le> m \<Longrightarrow> m < 12 \<Longrightarrow> m \<in> {0, 1, 2, 3, 4, 5, 6, 7, 8, 9, 10, 11 :: int}"
  by (simp; presburger)

lemma month_start_within:
  assumes "0 \<le> m" "m < 12"
  shows "year_start y \<le> month_start y m" "month_start y m < month_start y (m + 1)" "month_start y (m + 1) \<le> year_start (y + 1)"
  using twelve_months [OF assms] unfolding year_start_next
  by (auto simp: month_start_def month_starts_def year_length_def year_start_next)

lemma month_of_unique:
  assumes m: "0 \<le> m" "m < 12" and n: "month_start y m \<le> n" "n < month_start y (m + 1)"
  shows "year_of n = y" "month_of n = m"
proof -
  show y: "year_of n = y"
    by (rule year_of_unique) (use month_start_within [OF m, of y] n in linarith)+
  show "month_of n = m"
    unfolding month_of_def y using twelve_months [OF m] n
    by (cases "leap y") (auto simp: month_start_def month_starts_def year_start_next year_length_def)
qed

lemma month_exists:
  assumes "year_start y \<le> n" "n < year_start (y + 1)"
  obtains m where "0 \<le> m" "m < 12" "month_start y m \<le> n" "n < month_start y (m + 1)"
proof -
  let ?P = "\<lambda>m. month_start y (int m) \<le> n"
  have "?P 0" using assms by simp
  have "\<not> ?P 12" using assms by simp
  then have "\<exists>k. \<not> ?P k" by (rule exI)
  then obtain k where k: "\<not> ?P k" "\<And>i. i < k \<Longrightarrow> ?P i" using exists_least_iff [of "\<lambda>m. \<not> ?P m"] by blast
  with \<open>?P 0\<close> obtain j where j: "k = Suc j" by (cases k) auto
  have "k \<le> 12" using k(2) [of 12] \<open>\<not> ?P 12\<close> by (meson not_le)
  with j k show ?thesis by (intro that [of "int j"]) (auto simp: add.commute)
qed

lemma month_of_bounds:
  "0 \<le> month_of n" "month_of n < 12" "month_start (year_of n) (month_of n) \<le> n" "n < month_start (year_of n) (month_of n + 1)"
proof -
  obtain m where m: "0 \<le> m" "m < 12" "month_start (year_of n) m \<le> n" "n < month_start (year_of n) (m + 1)"
    using month_exists [OF year_of_bounds [of n]] .
  with month_of_unique [OF m] show "0 \<le> month_of n" "month_of n < 12"
    "month_start (year_of n) (month_of n) \<le> n" "n < month_start (year_of n) (month_of n + 1)" by simp_all
qed

lemma make_day_parts: "make_day (year_of n) (month_of n) (date_of n) = n"
  using month_of_bounds(1,2) [of n] by (simp add: make_day_def date_of_def)

text \<open>\<open>setMonth(getMonth() + 1, 1)\<close> goes to the first day behind the month.\<close>

lemma next_month_first: "make_day (year_of n) (month_of n + 1) 1 = month_start (year_of n) (month_of n + 1)"
proof (cases "month_of n + 1 = 12")
  case True
  then show ?thesis by (simp add: make_day_def)
next
  case False
  with month_of_bounds(1,2) [of n] show ?thesis by (simp add: make_day_def)
qed

lemma same_month:
  assumes "n \<le> k" "k < make_day (year_of n) (month_of n + 1) 1"
  shows "month_of k = month_of n"
  using assms month_of_bounds [of n] next_month_first [of n] by (intro month_of_unique(2) [of _ "year_of n"]) auto

lemma next_month_later: "n < make_day (year_of n) (month_of n + 1) 1"
  using month_of_bounds(4) [of n] by (simp add: next_month_first)

lemma date_of_bounds: "1 \<le> date_of n" "date_of n \<le> 31"
proof -
  show "1 \<le> date_of n" using month_of_bounds(3) [of n] by (simp add: date_of_def)
  have "month_start (year_of n) (month_of n + 1) \<le> month_start (year_of n) (month_of n) + 31"
    using twelve_months [OF month_of_bounds(1,2) [of n]]
    by (auto simp: month_start_def month_starts_def year_start_next year_length_def)
  with month_of_bounds(4) [of n] show "date_of n \<le> 31" by (simp add: date_of_def)
qed

text \<open>Days are ordered as their parts are.\<close>

lemma parts_ordered:
  assumes "n < k"
  shows "year_of n < year_of k \<or> year_of n = year_of k \<and>
           (month_of n < month_of k \<or> month_of n = month_of k \<and> date_of n < date_of k)"
proof -
  have y: "year_of n \<le> year_of k"
    using year_of_bounds [of n] year_of_bounds [of k] year_start_mono [of "year_of k + 1" "year_of n"] assms by linarith
  have "month_of n \<le> month_of k" if "year_of n = year_of k"
  proof (rule ccontr)
    assume "\<not> month_of n \<le> month_of k"
    then have "month_of k + 1 \<le> month_of n" by simp
    moreover have "month_start y a \<le> month_start y b" if "a \<le> b" "0 \<le> a" "b < 12" for y a b
      using that
    proof (induction b rule: int_ge_induct)
      case (step b)
      then show ?case using month_start_within(2) [of b y] by simp
    qed simp
    ultimately have "month_start (year_of n) (month_of k + 1) \<le> month_start (year_of n) (month_of n)"
      using month_of_bounds(1,2) [of n] month_of_bounds(1) [of k] by simp
    with assms that month_of_bounds(3) [of n] month_of_bounds(4) [of k] show False by simp
  qed
  with y assms show ?thesis by (auto simp: date_of_def)
qed

end
