(* ===== verification/Cron_Schedule.thy ===== *)
theory Cron_Schedule
  imports Calendar Complex_Main
begin

text \<open>
  Cron expressions of backup schedules, in \<open>src/services/database-backup.ts\<close>: \<open>parseCronField\<close> with the
  conversions of texts to numbers that it relies on, \<open>getNextRunTime\<close> and \<open>isScheduleDue\<close>. Numbers are
  exact, with \<open>NaN\<close> and \<open>Infinity\<close>. A loop whose counter never passes its end does not return: that is
  \<open>None\<close>. Times are readings of the local clock in milliseconds; a clock that is put forward or back
  is outside of the model.
\<close>

section \<open>Numbers from texts\<close>

datatype js_num = NaN | Infinite | Num rat

definition js_le :: "js_num \<Rightarrow> js_num \<Rightarrow> bool" where
  "js_le a b =
     (case (a, b) of
        (Num x, Num y) \<Rightarrow> x \<le> y
      | (Num x, Infinite) \<Rightarrow> True
      | (Infinite, Infinite) \<Rightarrow> True
      | _ \<Rightarrow> False)"

definition js_add :: "js_num \<Rightarrow> js_num \<Rightarrow> js_num" where
  "js_add a b =
     (case (a, b) of
        (NaN, _) \<Rightarrow> NaN
      | (_, NaN) \<Rightarrow> NaN
      | (Num x, Num y) \<Rightarrow> Num (x + y)
      | _ \<Rightarrow> Infinite)"

definition radix_digit :: "char \<Rightarrow> nat" where
  "radix_digit c =
     (if char_in c ''09'' then of_char c - 48
      else if char_in c ''az'' then of_char c - 87
      else if char_in c ''AZ'' then of_char c - 55
      else 36)"

definition radix_value :: "nat \<Rightarrow> string \<Rightarrow> nat" where
  "radix_value r s = foldl (\<lambda>n c. r * n + radix_digit c) 0 s"

definition take_sign :: "string \<Rightarrow> bool \<times> string" where
  "take_sign s =
     (case s of
        c # cs \<Rightarrow> if c = CHR ''-'' then (True, cs) else if c = CHR ''+'' then (False, cs) else (False, s)
      | [] \<Rightarrow> (False, []))"

text \<open>\<open>parseInt\<close> without a radix.\<close>

definition parse_int :: "string \<Rightarrow> js_num" where
  "parse_int s =
     (let (neg, u) = take_sign (dropWhile js_space s);
          hex = take 2 u \<in> {''0x'', ''0X''};
          r = (if hex then 16 else 10);
          ds = takeWhile (\<lambda>c. radix_digit c < r) (if hex then drop 2 u else u)
      in if ds = [] then NaN else Num (of_int (if neg then - int (radix_value r ds) else int (radix_value r ds))))"

text \<open>\<open>Number\<close> of a text without a minus sign: decimal literals, the prefixed radices and \<open>Infinity\<close>.\<close>

definition decimal_literal :: "string \<Rightarrow> js_num" where
  "decimal_literal u =
     (let ip = takeWhile digit u; r1 = dropWhile digit u;
          fraction = (r1 \<noteq> [] \<and> hd r1 = CHR ''.'');
          fp = (if fraction then takeWhile digit (tl r1) else []);
          r2 = (if fraction then dropWhile digit (tl r1) else r1);
          base = of_nat (radix_value 10 (ip @ fp)) / 10 ^ length fp
      in if ip = [] \<and> fp = [] then NaN
         else if r2 = [] then Num base
         else if hd r2 \<in> {CHR ''e'', CHR ''E''} then
           (let ds = snd (take_sign (tl r2))
            in if ds \<noteq> [] \<and> list_all digit ds then Num (base * 10 ^ radix_value 10 ds) else NaN)
         else NaN)"

definition js_Number :: "string \<Rightarrow> js_num" where
  "js_Number s =
     (let t = js_trim s; prefixed = (\<lambda>r. let ds = drop 2 t in
            if ds \<noteq> [] \<and> list_all (\<lambda>c. radix_digit c < r) ds then Num (of_nat (radix_value r ds)) else NaN)
      in if t = [] then Num 0
         else if take 2 t \<in> {''0x'', ''0X''} then prefixed 16
         else if take 2 t \<in> {''0o'', ''0O''} then prefixed 8
         else if take 2 t \<in> {''0b'', ''0B''} then prefixed 2
         else if snd (take_sign t) = ''Infinity'' then Infinite
         else decimal_literal (snd (take_sign t)))"

section \<open>Fields\<close>

text \<open>\<open>for (let i = start; i <= end; i += step) values.add(i)\<close>.\<close>

partial_function (option) add_range :: "js_num \<Rightarrow> js_num \<Rightarrow> js_num \<Rightarrow> js_num list option" where
  "add_range i e step =
     (if js_le i e then Option.bind (add_range (js_add i step) e step) (\<lambda>xs. Some (i # xs)) else Some [])"

definition parse_part :: "string \<Rightarrow> int \<Rightarrow> int \<Rightarrow> js_num list option" where
  "parse_part part lo hi =
     (if CHR ''/'' \<in> set part then
        (let pieces = split_on (CHR ''/'') part; range = pieces ! 0; step = parse_int (pieces ! 1);
             bounds = map js_Number (split_on (CHR ''-'') range)
         in if range = ''*'' then add_range (Num (of_int lo)) (Num (of_int hi)) step
            else if CHR ''-'' \<in> set range then add_range (bounds ! 0) (bounds ! 1) step
            else add_range (parse_int range) (Num (of_int hi)) step)
      else if part = ''*'' then add_range (Num (of_int lo)) (Num (of_int hi)) (Num 1)
      else if CHR ''-'' \<in> set part then
        (let bounds = map js_Number (split_on (CHR ''-'') part) in add_range (bounds ! 0) (bounds ! 1) (Num 1))
      else Some [parse_int part])"

fun parse_parts :: "string list \<Rightarrow> int \<Rightarrow> int \<Rightarrow> js_num list option" where
  "parse_parts [] lo hi = Some []"
| "parse_parts (p # ps) lo hi =
     Option.bind (parse_part p lo hi) (\<lambda>xs. Option.bind (parse_parts ps lo hi) (\<lambda>ys. Some (xs @ ys)))"

definition parseCronField :: "string \<Rightarrow> int \<Rightarrow> int \<Rightarrow> js_num list option" where
  "parseCronField field lo hi = parse_parts (split_on (CHR '','') field) lo hi"

text \<open>\<open>values.has(n)\<close>.\<close>

definition has_value :: "js_num list \<Rightarrow> int \<Rightarrow> bool" where
  "has_value values n \<longleftrightarrow> Num (of_int n) \<in> set values"

section \<open>The next run\<close>

text \<open>\<open>split(/\s+/)\<close>.\<close>

function split_spaces :: "string \<Rightarrow> string list" where
  "split_spaces [] = [[]]"
| "split_spaces (c # cs) =
     (if js_space c then [] # split_spaces (dropWhile js_space cs)
      else (case split_spaces cs of [] \<Rightarrow> [[c]] | p # ps \<Rightarrow> (c # p) # ps))"
  by pat_completeness auto
termination
  by (relation "measure length") (auto simp: le_imp_less_Suc length_dropWhile_le)

record cron =
  cr_minutes :: "js_num list"
  cr_hours :: "js_num list"
  cr_daysOfMonth :: "js_num list"
  cr_months :: "js_num list"
  cr_daysOfWeek :: "js_num list"
  cr_hasDom :: bool
  cr_hasDow :: bool

definition parse_cron :: "string list \<Rightarrow> cron option" where
  "parse_cron parts =
     Option.bind (parseCronField (parts ! 0) 0 59) (\<lambda>minutes.
     Option.bind (parseCronField (parts ! 1) 0 23) (\<lambda>hours.
     Option.bind (parseCronField (parts ! 2) 1 31) (\<lambda>daysOfMonth.
     Option.bind (parseCronField (parts ! 3) 1 12) (\<lambda>months.
     Option.bind (parseCronField (parts ! 4) 0 7) (\<lambda>daysOfWeek.
       Some \<lparr>cr_minutes = minutes, cr_hours = hours, cr_daysOfMonth = daysOfMonth, cr_months = months,
             cr_daysOfWeek = (if has_value daysOfWeek 7 then Num 0 # daysOfWeek else daysOfWeek),
             cr_hasDom = (parts ! 2 \<noteq> ''*''), cr_hasDow = (parts ! 4 \<noteq> ''*'')\<rparr>)))))"

definition day_match :: "cron \<Rightarrow> int \<Rightarrow> bool" where
  "day_match c day \<longleftrightarrow>
     (let domMatch = has_value (cr_daysOfMonth c) (date_of day); dowMatch = has_value (cr_daysOfWeek c) (weekday day)
      in if cr_hasDom c \<and> cr_hasDow c then domMatch \<or> dowMatch else domMatch \<and> dowMatch)"

text \<open>The search, on minutes since the epoch.\<close>

fun cron_search :: "nat \<Rightarrow> cron \<Rightarrow> int \<Rightarrow> int option" where
  "cron_search 0 c m = None"
| "cron_search (Suc k) c m =
     (let day = m div 1440 in
      if \<not> has_value (cr_months c) (month_of day + 1)
      then cron_search k c (1440 * make_day (year_of day) (month_of day + 1) 1)
      else if \<not> day_match c day then cron_search k c (1440 * (day + 1))
      else if \<not> has_value (cr_hours c) (m div 60 mod 24) then cron_search k c (60 * (m div 60 + 1))
      else if \<not> has_value (cr_minutes c) (m mod 60) then cron_search k c (m + 1)
      else Some m)"

definition getNextRunTime :: "string \<Rightarrow> millis \<Rightarrow> millis option" where
  "getNextRunTime cronExpression start =
     (let parts = split_spaces (js_trim cronExpression); fallback = start + 86400000 in
      if length parts < 5 then Some fallback
      else map_option
             (\<lambda>c. case cron_search (366 * 24 * 60) c (start div 60000 + 1) of Some m \<Rightarrow> 60000 * m | None \<Rightarrow> fallback)
             (parse_cron parts))"

definition isScheduleDue :: "string \<Rightarrow> millis option \<Rightarrow> millis \<Rightarrow> bool option" where
  "isScheduleDue cronExpression lastRunAt now =
     (case lastRunAt of
        None \<Rightarrow> Some True
      | Some t \<Rightarrow> map_option (\<lambda>nextRun. nextRun \<le> now) (getNextRunTime cronExpression t))"

section \<open>The search finds the next minute\<close>

text \<open>The minutes that an expression names, without any search.\<close>

definition cron_names :: "cron \<Rightarrow> int \<Rightarrow> bool" where
  "cron_names c m \<longleftrightarrow>
     has_value (cr_months c) (month_of (m div 1440) + 1) \<and> day_match c (m div 1440) \<and>
     has_value (cr_hours c) (m div 60 mod 24) \<and> has_value (cr_minutes c) (m mod 60)"


lemma skip_month:
  assumes "\<not> has_value (cr_months c) (month_of (m div 1440) + 1)" and "m \<le> u"
    and "u < 1440 * make_day (year_of (m div 1440)) (month_of (m div 1440) + 1) 1"
  shows "\<not> cron_names c u"
proof -
  have "m div 1440 \<le> u div 1440" using assms(2) by (rule zdiv_mono1) simp
  moreover have "u div 1440 < make_day (year_of (m div 1440)) (month_of (m div 1440) + 1) 1"
    using assms(3) by (simp add: div_less_int)
  ultimately have "month_of (u div 1440) = month_of (m div 1440)" by (rule same_month)
  with assms(1) show ?thesis by (simp add: cron_names_def)
qed

lemma same_quotient: "0 < k \<Longrightarrow> m \<le> u \<Longrightarrow> u < k * (m div k + 1) \<Longrightarrow> u div k = m div k" for k m u :: int
  using zdiv_mono1 [of m u k] div_less_int [of k u "m div k + 1"] by linarith

lemma before_next: "0 < k \<Longrightarrow> m < k * (m div k + 1)" for k m :: int
  using div_less_int [of k m "m div k + 1"] by simp

lemma before_next_month: "m < 1440 * make_day (year_of (m div 1440)) (month_of (m div 1440) + 1) 1"
  using next_month_later [of "m div 1440"] by (simp add: div_less_int)

lemma cron_step_cases:
  obtains (found) "cron_names c m" "cron_search (Suc k) c m = Some m"
  | (skipped) m' where "m < m'" "\<And>u. m \<le> u \<Longrightarrow> u < m' \<Longrightarrow> \<not> cron_names c u" "cron_search (Suc k) c m = cron_search k c m'"
proof (cases "has_value (cr_months c) (month_of (m div 1440) + 1)")
  case False
  then show ?thesis
    by (intro skipped [OF before_next_month skip_month]) (simp_all add: Let_def)
next
  case month: True
  show ?thesis
  proof (cases "day_match c (m div 1440)")
    case False
    then show ?thesis using month
      by (intro skipped [of "1440 * (m div 1440 + 1)"]) (simp_all add: Let_def before_next cron_names_def same_quotient)
  next
    case day: True
    show ?thesis
    proof (cases "has_value (cr_hours c) (m div 60 mod 24)")
      case False
      then show ?thesis using month day
        by (intro skipped [of "60 * (m div 60 + 1)"]) (simp_all add: Let_def before_next cron_names_def same_quotient)
    next
      case hour: True
      show ?thesis
      proof (cases "has_value (cr_minutes c) (m mod 60)")
        case False
        then show ?thesis using month day hour
          by (intro skipped [of "m + 1"]) (auto simp: Let_def cron_names_def dest!: antisym)
      next
        case True
        with month day hour show ?thesis by (intro found) (simp_all add: cron_names_def Let_def)
      qed
    qed
  qed
qed

lemma cron_search_least:
  "cron_search k c m = Some r \<Longrightarrow> m \<le> r \<and> cron_names c r \<and> (\<forall>u. m \<le> u \<longrightarrow> u < r \<longrightarrow> \<not> cron_names c u)"
proof (induction k arbitrary: m)
  case (Suc k)
  show ?case
  proof (cases rule: cron_step_cases [of c m k])
    case found
    with Suc.prems show ?thesis by simp
  next
    case (skipped m')
    with Suc.prems have "m' \<le> r \<and> cron_names c r \<and> (\<forall>u. m' \<le> u \<longrightarrow> u < r \<longrightarrow> \<not> cron_names c u)"
      by (intro Suc.IH) simp
    moreover have "\<not> cron_names c u" if "m \<le> u" "u < r" for u
      using calculation skipped(2) [of u] that by (cases "u < m'") auto
    ultimately show ?thesis using skipped(1) by simp
  qed
qed simp

lemma cron_search_exhausted:
  "cron_search k c m = None \<Longrightarrow> m \<le> u \<Longrightarrow> u < m + int k \<Longrightarrow> \<not> cron_names c u"
proof (induction k arbitrary: m)
  case (Suc k)
  show ?case
  proof (cases rule: cron_step_cases [of c m k])
    case found
    with Suc.prems show ?thesis by simp
  next
    case (skipped m')
    with Suc.prems Suc.IH [of m'] show ?thesis by (cases "u < m'") auto
  qed
qed simp

section \<open>The meaning of fields\<close>

text \<open>The elements of a field as they are meant, their text and the numbers they stand for.\<close>

datatype cron_part = Every | EveryStep nat | Span nat nat | SpanStep nat nat nat | At nat | AtStep nat nat

fun part_text :: "cron_part \<Rightarrow> string" where
  "part_text Every = ''*''"
| "part_text (EveryStep k) = ''*/'' @ nat_str k"
| "part_text (Span a b) = nat_str a @ ''-'' @ nat_str b"
| "part_text (SpanStep a b k) = nat_str a @ ''-'' @ nat_str b @ ''/'' @ nat_str k"
| "part_text (At a) = nat_str a"
| "part_text (AtStep a k) = nat_str a @ ''/'' @ nat_str k"

fun part_step :: "cron_part \<Rightarrow> nat" where
  "part_step (EveryStep k) = k"
| "part_step (SpanStep a b k) = k"
| "part_step (AtStep a k) = k"
| "part_step _ = 1"

fun part_means :: "int \<Rightarrow> int \<Rightarrow> cron_part \<Rightarrow> int \<Rightarrow> bool" where
  "part_means lo hi Every n \<longleftrightarrow> lo \<le> n \<and> n \<le> hi"
| "part_means lo hi (EveryStep k) n \<longleftrightarrow> lo \<le> n \<and> n \<le> hi \<and> int k dvd (n - lo)"
| "part_means lo hi (Span a b) n \<longleftrightarrow> int a \<le> n \<and> n \<le> int b"
| "part_means lo hi (SpanStep a b k) n \<longleftrightarrow> int a \<le> n \<and> n \<le> int b \<and> int k dvd (n - int a)"
| "part_means lo hi (At a) n \<longleftrightarrow> n = int a"
| "part_means lo hi (AtStep a k) n \<longleftrightarrow> int a \<le> n \<and> n \<le> hi \<and> int k dvd (n - int a)"

lemma digit_props:
  assumes "digit c"
  shows "\<not> js_space c" "c \<noteq> CHR ''-''" "c \<noteq> CHR ''+''" "c \<noteq> CHR ''/''" "c \<noteq> CHR '',''" "c \<noteq> CHR ''*''" "c \<noteq> CHR ''x''"
    "c \<noteq> CHR ''X''" "c \<noteq> CHR ''o''" "c \<noteq> CHR ''O''" "c \<noteq> CHR ''b''" "c \<noteq> CHR ''B''" "c \<noteq> CHR ''I''"
    "radix_digit c = of_char c - 48" "radix_digit c < 10"
  using assms by (auto simp: digit_def char_in_def js_space_def less_eq_char_def radix_digit_def)

lemma radix_value_digits: "\<forall>c \<in> set s. digit c \<Longrightarrow> radix_value 10 s = digits_value s"
proof -
  have "foldl (\<lambda>n c. 10 * n + radix_digit c) a s = foldl (\<lambda>n c. 10 * n + (of_char c - 48)) a s"
    if "\<forall>c \<in> set s. digit c" for a
    using that by (induction s arbitrary: a) (simp_all add: digit_props)
  then show "\<forall>c \<in> set s. digit c \<Longrightarrow> ?thesis" by (simp add: radix_value_def digits_value_def)
qed

lemma nat_str_shape:
  obtains c cs where "nat_str n = c # cs" "digit c" "\<forall>d \<in> set cs. digit d"
  using nat_str_digits [of n] nat_str_nonempty [of n] by (cases "nat_str n") auto

lemma nat_str_free: "CHR ''/'' \<notin> set (nat_str n)" "CHR ''-'' \<notin> set (nat_str n)" "CHR '','' \<notin> set (nat_str n)"
    "CHR ''*'' \<notin> set (nat_str n)" "nat_str n \<noteq> ''*''"
  using nat_str_digits [of n] digit_props by fastforce+

lemma take_sign_nat_str [simp]: "take_sign (nat_str n) = (False, nat_str n)"
  by (rule nat_str_shape [of n]) (auto simp: take_sign_def digit_props)

lemma takeWhile_nat_str [simp]:
  "takeWhile digit (nat_str n) = nat_str n" "dropWhile digit (nat_str n) = []"
  "takeWhile (\<lambda>c. radix_digit c < 10) (nat_str n) = nat_str n"
  using nat_str_digits [of n] by (auto simp: takeWhile_eq_all_conv dropWhile_eq_Nil_conv digit_props(15))

lemma js_trim_nat_str [simp]: "js_trim (nat_str n) = nat_str n" "dropWhile js_space (nat_str n) = nat_str n"
proof -
  have a: "dropWhile js_space s = s" if "\<forall>c \<in> set s. digit c" for s
    using that by (cases s) (auto simp: digit_props)
  show "dropWhile js_space (nat_str n) = nat_str n" by (rule a) (rule nat_str_digits)
  moreover have "dropWhile js_space (rev (nat_str n)) = rev (nat_str n)"
    by (rule a) (use nat_str_digits [of n] in simp)
  ultimately show "js_trim (nat_str n) = nat_str n" by (simp add: js_trim_def js_trimEnd_def)
qed

lemma nat_str_second: "take 2 (nat_str n) = [a, c] \<Longrightarrow> digit c"
  using nat_str_digits [of n] in_set_takeD [of c 2 "nat_str n"] by auto

lemma no_digits: "\<not> digit CHR ''x''" "\<not> digit CHR ''X''" "\<not> digit CHR ''o''" "\<not> digit CHR ''O''" "\<not> digit CHR ''b''"
    "\<not> digit CHR ''B''" "\<not> digit CHR ''I''"
  by (simp_all add: digit_def char_in_def less_eq_char_def)

lemma no_radix_prefix [simp]:
  "take 2 (nat_str n) \<noteq> ''0x''" "take 2 (nat_str n) \<noteq> ''0X''" "take 2 (nat_str n) \<noteq> ''0o''"
  "take 2 (nat_str n) \<noteq> ''0O''" "take 2 (nat_str n) \<noteq> ''0b''" "take 2 (nat_str n) \<noteq> ''0B''"
  using nat_str_second no_digits by metis+

lemma nat_str_not_infinity [simp]: "nat_str n \<noteq> ''Infinity''"
  using nat_str_digits [of n] no_digits(7) by auto

lemma parse_int_nat_str [simp]: "parse_int (nat_str n) = Num (of_nat n)"
  by (simp add: parse_int_def Let_def radix_value_digits nat_str_digits)

lemma js_Number_nat_str [simp]: "js_Number (nat_str n) = Num (of_nat n)"
  by (simp add: js_Number_def decimal_literal_def Let_def radix_value_digits nat_str_digits)

lemma add_range_ints:
  assumes "0 < k"
  shows "\<exists>xs. add_range (Num (of_int a)) (Num (of_int b)) (Num (of_int k)) = Some xs \<and>
           (\<forall>n. has_value xs n \<longleftrightarrow> a \<le> n \<and> n \<le> b \<and> k dvd (n - a))"
proof (induction "nat (b + 1 - a)" arbitrary: a rule: less_induct)
  case less
  show ?case
  proof (cases "a \<le> b")
    case True
    with assms have "nat (b + 1 - (a + k)) < nat (b + 1 - a)" by simp
    from less [OF this] obtain xs where xs: "add_range (Num (of_int (a + k))) (Num (of_int b)) (Num (of_int k)) = Some xs"
      and v: "\<And>n. has_value xs n \<longleftrightarrow> a + k \<le> n \<and> n \<le> b \<and> k dvd (n - (a + k))" by blast
    have "has_value (Num (of_int a) # xs) n \<longleftrightarrow> a \<le> n \<and> n \<le> b \<and> k dvd (n - a)" for n
    proof (cases "n = a")
      case False
      have "k dvd (n - (a + k)) \<longleftrightarrow> k dvd (n - a)" using dvd_add_left_iff [of k k "n - (a + k)"] by simp
      moreover have "a + k \<le> n" if "a \<le> n" "k dvd (n - a)"
        using that False assms zdvd_imp_le [of k "n - a"] by simp
      ultimately show ?thesis using False v assms by (auto simp: has_value_def)
    qed (use True in \<open>simp add: has_value_def\<close>)
    moreover have "add_range (Num (of_int a)) (Num (of_int b)) (Num (of_int k)) = Some (Num (of_int a) # xs)"
      using True xs by (subst add_range.simps) (simp add: js_le_def js_add_def)
    ultimately show ?thesis by blast
  next
    case False
    then have "add_range (Num (of_int a)) (Num (of_int b)) (Num (of_int k)) = Some []"
      by (subst add_range.simps) (simp add: js_le_def)
    with False show ?thesis by (auto simp: has_value_def)
  qed
qed

lemma add_range_nats:
  assumes "0 < k"
  shows "\<exists>xs. add_range (Num (of_int a)) (Num (of_int b)) (Num (of_nat k)) = Some xs \<and>
           (\<forall>n. has_value xs n \<longleftrightarrow> a \<le> n \<and> n \<le> b \<and> int k dvd (n - a))"
  using add_range_ints [of "int k" a b] assms by simp

lemma slash_pieces:
  "CHR ''/'' \<notin> set r \<Longrightarrow> split_on (CHR ''/'') (r @ CHR ''/'' # nat_str k) = [r, nat_str k]"
  by (simp add: split_on_append split_on_word nat_str_free)

lemma dash_pieces:
  "split_on (CHR ''-'') (nat_str a @ CHR ''-'' # nat_str b) = [nat_str a, nat_str b]"
  by (simp add: split_on_append split_on_word nat_str_free)

lemma dash_shape: "nat_str a @ CHR ''-'' # w \<noteq> ''*''"
  by (rule nat_str_shape [of a]) auto

lemma parse_part_means:
  assumes "0 < part_step p"
  shows "\<exists>xs. parse_part (part_text p) lo hi = Some xs \<and> (\<forall>n. has_value xs n \<longleftrightarrow> part_means lo hi p n)"
proof (cases p)
  case Every
  then show ?thesis using add_range_nats [of 1 lo hi] by (auto simp: parse_part_def)
next
  case (EveryStep k)
  then show ?thesis using add_range_nats [of k lo hi] assms slash_pieces [of "''*''" k] by (auto simp: parse_part_def Let_def)
next
  case (Span a b)
  then show ?thesis using add_range_nats [of 1 "int a" "int b"]
    by (auto simp: parse_part_def Let_def dash_pieces dash_shape nat_str_free)
next
  case (SpanStep a b k)
  have "split_on (CHR ''/'') (nat_str a @ CHR ''-'' # nat_str b @ CHR ''/'' # nat_str k)
          = [nat_str a @ CHR ''-'' # nat_str b, nat_str k]"
    using slash_pieces [of "nat_str a @ CHR ''-'' # nat_str b" k] by (simp add: nat_str_free)
  with SpanStep show ?thesis using add_range_nats [of k "int a" "int b"] assms
    by (auto simp: parse_part_def Let_def dash_pieces dash_shape)
next
  case (At a)
  then show ?thesis by (auto simp: parse_part_def nat_str_free has_value_def)
next
  case (AtStep a k)
  then show ?thesis using add_range_nats [of k "int a" hi] assms
    by (auto simp: parse_part_def Let_def slash_pieces nat_str_free)
qed

lemma part_text_free: "CHR '','' \<notin> set (part_text p)"
  by (cases p) (auto simp: nat_str_free)

text \<open>A cron field written as a list of \<open>*\<close>, numbers and ranges with positive steps is parsed, and the set
  holds exactly the numbers the elements stand for.\<close>

theorem cron_field_parsed:
  assumes "ps \<noteq> []" and "\<forall>p \<in> set ps. 0 < part_step p"
  shows "\<exists>values. parseCronField (join_with '','' (map part_text ps)) lo hi = Some values \<and>
           (\<forall>n. has_value values n \<longleftrightarrow> (\<exists>p \<in> set ps. part_means lo hi p n))"
proof -
  have "split_on (CHR '','') (join_with '','' (map part_text ps)) = map part_text ps"
    using assms(1) part_text_free by (intro split_on_join) auto
  moreover have "\<exists>values. parse_parts (map part_text qs) lo hi = Some values \<and>
           (\<forall>n. has_value values n \<longleftrightarrow> (\<exists>p \<in> set qs. part_means lo hi p n))"
    if "\<forall>p \<in> set qs. 0 < part_step p" for qs
    using that
  proof (induction qs)
    case (Cons q qs)
    then obtain ys where ys: "parse_parts (map part_text qs) lo hi = Some ys"
      "\<forall>n. has_value ys n \<longleftrightarrow> (\<exists>p \<in> set qs. part_means lo hi p n)" by auto
    obtain xs where "parse_part (part_text q) lo hi = Some xs" "\<forall>n. has_value xs n \<longleftrightarrow> part_means lo hi q n"
      using parse_part_means [of q lo hi] Cons.prems by auto
    with ys show ?case by (auto simp: has_value_def)
  qed (simp add: has_value_def)
  ultimately show ?thesis using assms(2) by (simp add: parseCronField_def)
qed

theorem cron_field_parsed_witness:
  "\<exists>values. parseCronField (join_with '','' (map part_text [At 5, SpanStep 10 20 5])) 0 59 = Some values \<and>
     has_value values 15 \<and> \<not> has_value values 16"
  using cron_field_parsed [of "[At 5, SpanStep 10 20 5]" 0 59] by auto

text \<open>A step of zero.\<close>

lemma add_range_zero_step:
  assumes "js_le i e" "js_add i step = i"
  shows "add_range i e step = None"
proof (cases "add_range i e step")
  case (Some xs)
  have "add_range i e step = Option.bind (add_range i e step) (\<lambda>xs. Some (i # xs))"
    using assms by (subst add_range.simps) simp
  with Some show ?thesis by simp
qed

text \<open>An expression whose minutes are \<open>*/0\<close> sends the computation of the next run into an endless loop.\<close>

theorem zero_step_never_returns:
  assumes "split_spaces (js_trim expression) = ''*/0'' # rest" and "4 \<le> length rest"
  shows "getNextRunTime expression t = None"
proof -
  have "parseCronField ''*/0'' 0 59 = None"
    by (simp add: parseCronField_def parse_part_def Let_def parse_int_def take_sign_def js_space_def radix_digit_def radix_value_def
        char_in_def less_eq_char_def add_range_zero_step js_le_def js_add_def)
  with assms show ?thesis by (simp add: getNextRunTime_def parse_cron_def Let_def)
qed

theorem zero_step_never_returns_witness:
  "getNextRunTime ''*/0 * * * *'' 0 = None"
  by (rule zero_step_never_returns [of _ "[''*'', ''*'', ''*'', ''*'']"]) code_simp+

text \<open>C37: the next run is the first minute after the given time that the expression names; only when none
  is named for 366 days is it the same time of the next day.\<close>

theorem next_run_is_earliest:
  assumes "getNextRunTime expression t = Some r" and "split_spaces (js_trim expression) = parts" and "5 \<le> length parts"
  shows "\<exists>c. parse_cron parts = Some c \<and>
           ((\<exists>m. r = 60000 * m \<and> t < r \<and> cron_names c m \<and> (\<forall>u. t < 60000 * u \<and> u < m \<longrightarrow> \<not> cron_names c u)) \<or>
            r = t + 86400000 \<and> (\<forall>u. t < 60000 * u \<and> 60000 * u \<le> t + 366 * 86400000 \<longrightarrow> \<not> cron_names c u))"
proof -
  let ?m = "t div 60000 + 1"
  have first: "?m \<le> u" if "t < 60000 * u" for u
    using that div_less_int [of 60000 t u] by simp
  from assms obtain c where c: "parse_cron parts = Some c"
    and r: "r = (case cron_search (366 * 24 * 60) c ?m of Some m \<Rightarrow> 60000 * m | None \<Rightarrow> t + 86400000)"
    by (auto simp: getNextRunTime_def Let_def simp del: cron_search.simps)
  show ?thesis
  proof (cases "cron_search (366 * 24 * 60) c ?m")
    case None
    have "\<not> cron_names c u" if "t < 60000 * u" "60000 * u \<le> t + 366 * 86400000" for u
    proof (rule cron_search_exhausted [OF None first [OF that(1)]])
      have "60000 * (t div 60000) \<le> t" "t < 60000 * (t div 60000) + 60000" using div_bounds [of 60000 t] by simp_all
      with that show "u < ?m + int (366 * 24 * 60)" by simp
    qed
    with c r None show ?thesis by auto
  next
    case (Some m)
    then have m: "?m \<le> m" "cron_names c m" "\<And>u. ?m \<le> u \<Longrightarrow> u < m \<Longrightarrow> \<not> cron_names c u"
      by (auto dest: cron_search_least)
    have "t < 60000 * m" using m(1) div_less_int [of 60000 t m] by simp
    with c r Some m first show ?thesis by (auto intro!: exI [of _ m])
  qed
qed

text \<open>A daily schedule.\<close>

lemma daily_at_two:
  obtains c where "parse_cron [''0'', ''2'', ''*'', ''*'', ''*''] = Some c" "\<And>m. cron_names c m \<longleftrightarrow> m mod 1440 = 120"
proof -
  have digits: "nat_str 0 = ''0''" "nat_str 2 = ''2''" by code_simp+
  obtain mi h dom mo dow where v: "parseCronField ''0'' 0 59 = Some mi" "\<And>n. has_value mi n \<longleftrightarrow> n = 0"
    "parseCronField ''2'' 0 23 = Some h" "\<And>n. has_value h n \<longleftrightarrow> n = 2"
    "parseCronField ''*'' 1 31 = Some dom" "\<And>n. has_value dom n \<longleftrightarrow> 1 \<le> n \<and> n \<le> 31"
    "parseCronField ''*'' 1 12 = Some mo" "\<And>n. has_value mo n \<longleftrightarrow> 1 \<le> n \<and> n \<le> 12"
    "parseCronField ''*'' 0 7 = Some dow" "\<And>n. has_value dow n \<longleftrightarrow> 0 \<le> n \<and> n \<le> 7"
    using parse_part_means [of "At 0" 0 59] parse_part_means [of "At 2" 0 23] parse_part_means [of Every 1 31]
      parse_part_means [of Every 1 12] parse_part_means [of Every 0 7]
    by (auto simp: parseCronField_def digits)
  let ?c = "\<lparr>cr_minutes = mi, cr_hours = h, cr_daysOfMonth = dom, cr_months = mo, cr_daysOfWeek = Num 0 # dow,
    cr_hasDom = False, cr_hasDow = False\<rparr>"
  have "parse_cron [''0'', ''2'', ''*'', ''*'', ''*''] = Some ?c" using v by (simp add: parse_cron_def)
  moreover have "cron_names ?c m \<longleftrightarrow> m mod 1440 = 120" for m
  proof -
    have "has_value (Num 0 # dow) (weekday d)" "1 \<le> date_of d" "date_of d \<le> 31" "0 \<le> month_of d" "month_of d \<le> 11" for d
      using v(10) date_of_bounds month_of_bounds(1,2) [of d] by (auto simp: has_value_def weekday_def)
    then have "cron_names ?c m \<longleftrightarrow> m div 60 mod 24 = 2 \<and> m mod 60 = 0"
      by (simp add: cron_names_def day_match_def v)
    also have "\<dots> \<longleftrightarrow> m mod 1440 = 120"
    proof -
      have "m mod 1440 = 60 * (m div 60 mod 24) + m mod 60" using zmod_zmult2_eq [of 24 m 60] by simp
      moreover have "60 * x + y = 120 \<longleftrightarrow> x = 2 \<and> y = 0" if "0 \<le> y" "y < 60" for x y :: int
        using that by presburger
      ultimately show ?thesis using pos_mod_sign [of 60 m] pos_mod_bound [of 60 m] by simp
    qed
    finally show ?thesis .
  qed
  ultimately show ?thesis using that by blast
qed

theorem next_run_is_earliest_witness: "getNextRunTime ''0 2 * * *'' 0 = Some 7200000"
proof -
  have parts: "split_spaces (js_trim ''0 2 * * *'') = [''0'', ''2'', ''*'', ''*'', ''*'']" by code_simp
  obtain c where c: "parse_cron [''0'', ''2'', ''*'', ''*'', ''*''] = Some c" "\<And>m. cron_names c m \<longleftrightarrow> m mod 1440 = 120"
    by (rule daily_at_two) blast
  obtain r where r: "getNextRunTime ''0 2 * * *'' 0 = Some r"
    using c(1) by (simp add: getNextRunTime_def Let_def parts del: cron_search.simps)
  from next_run_is_earliest [OF r parts] c(1)
  have "(\<exists>m. r = 60000 * m \<and> 0 < r \<and> m mod 1440 = 120 \<and> (\<forall>u. 0 < 60000 * u \<and> u < m \<longrightarrow> u mod 1440 \<noteq> 120)) \<or>
        (\<forall>u. 0 < 60000 * u \<and> 60000 * u \<le> 366 * 86400000 \<longrightarrow> u mod 1440 \<noteq> (120 :: int))"
    by (auto simp: c(2))
  then obtain m where m: "r = 60000 * m" "0 < m" "m mod 1440 = 120" "\<And>u. 0 < u \<Longrightarrow> u < m \<Longrightarrow> u mod 1440 \<noteq> 120"
    by (auto dest: spec [of _ 120])
  from m(2,3) m(4) [of 120] have "m = 120" by (cases "120 < m") (auto simp: mod_pos_pos_trivial)
  with m(1) r show ?thesis by simp
qed


end
