(* ===== verification/Backup_Retention.thy ===== *)
theory Backup_Retention
  imports Cron_Schedule Config_Sync "HOL-Library.List_Lexorder"
begin

text \<open>
  Backup rotation of \<open>src/services/database-backup.ts\<close>: the calendar keys of the retention tiers, the selection
  of the backups to keep (tiers, floor, size cap), the deletion of artifacts and rows, \<open>rotateDatabase\<close>, and the
  clean-up of stuck and failed backups. The store extends the one of \<open>Hosts\<close> by the rows of \<open>DatabaseBackup\<close>,
  \<open>Database\<close> and \<open>BackupRetentionPolicy\<close> and the system settings. The calendar day of an instant in a time zone
  (\<open>Intl.DateTimeFormat\<close>), the SSH key lookup and the object store are parameters. A JavaScript \<open>Set\<close> of ids is a
  list without repetitions.
\<close>

section \<open>Rows\<close>

datatype backup_type = ManualBackup | ScheduledBackup

datatype backup_status = BackupPending | BackupInProgress | BackupCompleted | BackupFailed

record backup_error =
  be_message :: string
  be_step :: string
  be_stderr :: "string option"
  be_exitCode :: "int option"

record backup_row =
  bk_id :: ident
  bk_filename :: string
  bk_size :: int
  bk_type :: backup_type
  bk_status :: backup_status
  bk_error :: "backup_error option"
  bk_storageType :: string
  bk_storagePath :: string
  bk_progress :: nat
  bk_duration :: "int option"
  bk_createdAt :: millis
  bk_completedAt :: "millis option"
  bk_isPinned :: bool
  bk_lastRotationError :: "string option"
  bk_databaseId :: ident

text \<open>\<open>Database\<close>, with the backup command of its \<open>DatabaseType\<close>.\<close>

record database_row =
  da_id :: ident
  da_name :: string
  da_environmentId :: ident
  da_serverId :: "ident option"
  da_spacesBucket :: "string option"
  da_pgDumpTimeoutMs :: int
  da_type :: string
  da_host :: "string option"
  da_port :: "int option"
  da_databaseName :: "string option"
  da_encryptedCredentials :: "string option"
  da_credentialsNonce :: "string option"
  da_filePath :: "string option"
  da_backupCommand :: "string option"
  da_backupStorageType :: string
  da_backupLocalPath :: "string option"
  da_spacesPrefix :: "string option"
  da_backupFormat :: string
  da_backupCompression :: string
  da_backupCompressionLevel :: int
  da_pgDumpOptions :: "string option"

text \<open>\<open>EffectivePolicy\<close>.\<close>

record retention_policy =
  rp_keepLast :: int
  rp_daily :: int
  rp_weekly :: int
  rp_monthly :: int
  rp_yearly :: int
  rp_minFloor :: int
  rp_maxTotalBytes :: "int option"
  rp_preset :: string
  rp_source :: string
  rp_autoApplied :: bool

record policy_row =
  pr_databaseId :: ident
  pr_inheritGlobal :: bool
  pr_policy :: retention_policy

record system_settings =
  ss_timezone :: string
  ss_retention :: retention_policy
  ss_failedBackupRetentionDays :: int
  ss_pgDumpTimeoutMs :: int

record 'w backup_db = "'w store" +
  bu_backups :: "backup_row list"
  bu_databases :: "database_row list"
  bu_policies :: "policy_row list"
  bu_settings :: system_settings

text \<open>What the AWS client throws.\<close>

record object_error =
  oe_name :: "string option"
  oe_Code :: "string option"
  oe_httpStatus :: "int option"
  oe_text :: string

record 'w backup_host =
  bh_host :: "'w host"
  bh_credentials :: "ident \<Rightarrow> 'w \<Rightarrow> (string + (string \<times> string) option) \<times> 'w"
  bh_spacesConfig :: "ident \<Rightarrow> 'w \<Rightarrow> (string + bool) \<times> 'w"
  bh_deleteObject :: "ident \<Rightarrow> string \<Rightarrow> string \<Rightarrow> 'w \<Rightarrow> object_error option \<times> 'w"
  bh_localDay :: "string \<Rightarrow> millis \<Rightarrow> int"

section \<open>Period keys\<close>

datatype period = Day | Week | Month | Year

text \<open>\<open>String(n).padStart(2, '0')\<close>.\<close>

definition pad2 :: "int \<Rightarrow> string" where
  "pad2 n = replicate (2 - length (int_str n)) (CHR ''0'') @ int_str n"

definition isoWeekKey :: "int \<Rightarrow> int \<Rightarrow> int \<Rightarrow> string" where
  "isoWeekKey year month day =
     (let date = make_day year (month - 1) day;
          dow = (if weekday date = 0 then 7 else weekday date);
          thursday = date + (4 - dow);
          isoYear = year_of thursday;
          jan1 = make_day isoYear 0 1;
          week = (thursday - jan1) div 7 + 1
      in int_str isoYear @ ''-W'' @ pad2 week)"

text \<open>On the calendar day that \<open>tzDateParts\<close> finds.\<close>

definition periodKey :: "int \<Rightarrow> period \<Rightarrow> string" where
  "periodKey local period =
     (let year = year_of local; month = month_of local + 1; day = date_of local in
      case period of
        Day \<Rightarrow> int_str year @ ''-'' @ pad2 month @ ''-'' @ pad2 day
      | Week \<Rightarrow> isoWeekKey year month day
      | Month \<Rightarrow> int_str year @ ''-'' @ pad2 month
      | Year \<Rightarrow> int_str year)"

section \<open>Selection\<close>

text \<open>\<open>Set.add\<close>.\<close>

definition add_id :: "ident \<Rightarrow> ident list \<Rightarrow> ident list" where
  "add_id i xs = (if i \<in> set xs then xs else xs @ [i])"

definition newest_by_bucket :: "(millis \<Rightarrow> string) \<Rightarrow> backup_row list \<Rightarrow> (string \<times> backup_row) list" where
  "newest_by_bucket key candidates =
     fold (\<lambda>c m. let k = key (bk_createdAt c) in
             case map_of m k of
               None \<Rightarrow> set_pair k c m
             | Some current \<Rightarrow> if bk_createdAt current < bk_createdAt c then set_pair k c m else m)
       candidates []"

definition selectPeriodTier :: "(millis \<Rightarrow> int) \<Rightarrow> backup_row list \<Rightarrow> period \<Rightarrow> int \<Rightarrow> ident list" where
  "selectPeriodTier localDay candidates period wanted =
     (if wanted \<le> 0 then []
      else let m = newest_by_bucket (\<lambda>t. periodKey (localDay t) period) candidates;
               keys = take (nat wanted) (rev (sort (map fst m)))
           in fold (\<lambda>k sel. add_id (bk_id (the (map_of m k))) sel) keys [])"

text \<open>Newest first; \<open>sort\<close> is stable.\<close>

definition by_newest :: "backup_row list \<Rightarrow> backup_row list" where
  "by_newest candidates = sort_key (\<lambda>c. - bk_createdAt c) candidates"

definition selectKeep :: "(millis \<Rightarrow> int) \<Rightarrow> backup_row list \<Rightarrow> retention_policy \<Rightarrow> ident list" where
  "selectKeep localDay candidates policy =
     (let recent = map bk_id (take (nat (rp_keepLast policy)) (by_newest candidates));
          tiers = selectPeriodTier localDay candidates Day (rp_daily policy)
                @ selectPeriodTier localDay candidates Week (rp_weekly policy)
                @ selectPeriodTier localDay candidates Month (rp_monthly policy)
                @ selectPeriodTier localDay candidates Year (rp_yearly policy)
      in fold add_id (recent @ tiers) [])"

fun floor_loop :: "int \<Rightarrow> int \<Rightarrow> backup_row list \<Rightarrow> ident list \<Rightarrow> ident list" where
  "floor_loop exempt minFloor [] keep = keep"
| "floor_loop exempt minFloor (c # cs) keep =
     (let retained = exempt + int (length keep) in
      if minFloor \<le> retained then keep else floor_loop exempt minFloor cs (add_id (bk_id c) keep))"

definition applyFloor :: "backup_row list \<Rightarrow> ident list \<Rightarrow> int \<Rightarrow> int \<Rightarrow> ident list" where
  "applyFloor candidates keepIds exemptSuccessfulCount minFloor =
     floor_loop exemptSuccessfulCount minFloor (by_newest candidates) keepIds"

fun cap_loop :: "int \<Rightarrow> int \<Rightarrow> int \<Rightarrow> backup_row list \<Rightarrow> ident list \<Rightarrow> int \<Rightarrow> ident list \<times> int" where
  "cap_loop exempt minFloor cap [] keep bytes = (keep, bytes)"
| "cap_loop exempt minFloor cap (victim # vs) keep bytes =
     (if bytes \<le> cap then (keep, bytes)
      else if exempt + (int (length keep) - 1) < minFloor then (keep, bytes)
      else cap_loop exempt minFloor cap vs (removeAll (bk_id victim) keep) (bytes - bk_size victim))"

definition applySizeCap :: "backup_row list \<Rightarrow> ident list \<Rightarrow> int \<Rightarrow> int \<Rightarrow> int \<Rightarrow> int option \<Rightarrow> ident list \<times> bool" where
  "applySizeCap candidates keepIds exemptSize exemptSuccessfulCount minFloor maxTotalBytes =
     (case maxTotalBytes of
        None \<Rightarrow> (keepIds, False)
      | Some cap \<Rightarrow>
          (let sizeById = map (\<lambda>c. (bk_id c, bk_size c)) candidates;
               bytes = exemptSize + sum_list (map (\<lambda>i. nullish (map_of sizeById i) 0) keepIds);
               keptOldestFirst = sort_key bk_createdAt (filter (\<lambda>c. bk_id c \<in> set keepIds) candidates);
               (keep, rest) = cap_loop exemptSuccessfulCount minFloor cap keptOldestFirst keepIds bytes
           in (keep, cap < rest)))"

section \<open>Deleting a backup\<close>

definition isNotFoundError :: "object_error \<Rightarrow> bool" where
  "isNotFoundError e \<longleftrightarrow>
     oe_name e = Some ''NoSuchKey'' \<or> oe_name e = Some ''NotFound'' \<or> oe_Code e = Some ''NoSuchKey'' \<or> oe_httpStatus e = Some 404"

text \<open>A backup with its database and the database's server, as \<open>findUnique\<close> includes them.\<close>

definition database_of :: "ident \<Rightarrow> ('w, 'z) backup_db_scheme \<Rightarrow> database_row option" where
  "database_of i s = List.find (\<lambda>d. da_id d = i) (bu_databases s)"

definition server_of :: "database_row \<Rightarrow> ('w, 'z) backup_db_scheme \<Rightarrow> server_row option" where
  "server_of d s = Option.bind (da_serverId d) (\<lambda>i. List.find (\<lambda>r. srv_id r = i) (db_servers s))"

definition backup_of :: "ident \<Rightarrow> ('w, 'z) backup_db_scheme \<Rightarrow> backup_row option" where
  "backup_of i s = List.find (\<lambda>b. bk_id b = i) (bu_backups s)"

definition set_backup :: "ident \<Rightarrow> (backup_row \<Rightarrow> backup_row) \<Rightarrow> (('w, 'z) backup_db_scheme, unit) io" where
  "set_backup i f = writes (\<lambda>s. s\<lparr>bu_backups := update_row bk_id i f (bu_backups s)\<rparr>)"

definition drop_backup :: "ident \<Rightarrow> (('w, 'z) backup_db_scheme, unit) io" where
  "drop_backup i = writes (\<lambda>s. s\<lparr>bu_backups := filter (\<lambda>b. bk_id b \<noteq> i) (bu_backups s)\<rparr>)"

definition delete_local_file :: "'w backup_host \<Rightarrow> string \<Rightarrow> server_row \<Rightarrow> (('w, 'z) backup_db_scheme, string option) io" where
  "delete_local_file bh path server =
     (let h = bh_host bh; sid = srv_id server in
      catching
        (andThen (remote h (OpConnect sid)) (\<lambda>_.
         andThen (remote h (OpExec sid (''rm -f -- '' @ shellEscape path))) (\<lambda>result.
         andThen (remote h (OpDisconnect sid)) (\<lambda>_.
         ret (if ex_code result \<noteq> 0
              then Some (non_empty (ex_stderr result) (non_empty (ex_stdout result) (''rm exited '' @ int_str (ex_code result))))
              else None)))))
        (\<lambda>e. andThen (trap (remote h (OpDisconnect sid))) (\<lambda>_. ret (Some e))))"

definition delete_spaces_object :: "'w backup_host \<Rightarrow> ident \<Rightarrow> string \<Rightarrow> string \<Rightarrow> (('w, 'z) backup_db_scheme, string option) io" where
  "delete_spaces_object bh environmentId bucket path =
     catching
       (andThen (on_world (bh_spacesConfig bh environmentId)) (\<lambda>spacesConfig.
        if \<not> spacesConfig then ret (Some ''Spaces not configured for this environment'')
        else andThen (on_world (\<lambda>w. case bh_deleteObject bh environmentId bucket path w of (r, w') \<Rightarrow> (Inr r, w'))) (\<lambda>failed.
          case failed of
            None \<Rightarrow> ret None
          | Some e \<Rightarrow> ret (if isNotFoundError e then None else Some (oe_text e)))))
       (\<lambda>e. ret (Some e))"

text \<open>The result is the error, if any.\<close>

definition deleteBackupArtifact :: "'w backup_host \<Rightarrow> backup_row \<Rightarrow> database_row \<Rightarrow> server_row option
    \<Rightarrow> (('w, 'z) backup_db_scheme, string option) io" where
  "deleteBackupArtifact bh backup database server =
     (if bk_storageType backup = ''local'' then
        (case server of
           None \<Rightarrow> ret None
         | Some srv \<Rightarrow>
             if isLocalhost (srv_hostname srv) then delete_local_file bh (bk_storagePath backup) srv
             else andThen (on_world (bh_credentials bh (da_environmentId database))) (\<lambda>sshCreds.
               if sshCreds = None then ret (Some ''SSH key not configured for this environment'')
               else delete_local_file bh (bk_storagePath backup) srv))
      else if bk_storageType backup = ''spaces'' \<and> truthy (da_spacesBucket database) then
        delete_spaces_object bh (da_environmentId database) (the (da_spacesBucket database)) (bk_storagePath backup)
      else ret None)"

text \<open>The rows that the deletions load; a backup's database exists, by its foreign key.\<close>

definition with_storage :: "ident \<Rightarrow> (('w, 'z) backup_db_scheme, (backup_row \<times> database_row \<times> server_row option) option) io" where
  "with_storage i =
     andThen (reads (backup_of i)) (\<lambda>found.
     case found of
       None \<Rightarrow> ret None
     | Some b \<Rightarrow>
         andThen (reads (database_of (bk_databaseId b))) (\<lambda>d. andThen (the_row d) (\<lambda>d.
         andThen (reads (server_of d)) (\<lambda>srv. ret (Some (b, d, srv))))))"

definition deleteBackup :: "'w backup_host \<Rightarrow> ident \<Rightarrow> (('w, 'z) backup_db_scheme, unit) io" where
  "deleteBackup bh i =
     andThen (with_storage i) (\<lambda>found.
     case found of
       None \<Rightarrow> throw ''Backup not found''
     | Some (b, d, srv) \<Rightarrow> andThen (deleteBackupArtifact bh b d srv) (\<lambda>_. drop_backup i))"

definition pruneBackup :: "'w backup_host \<Rightarrow> ident \<Rightarrow> (('w, 'z) backup_db_scheme, string option) io" where
  "pruneBackup bh i =
     andThen (with_storage i) (\<lambda>found.
     case found of
       None \<Rightarrow> ret None
     | Some (b, d, srv) \<Rightarrow>
         andThen (deleteBackupArtifact bh b d srv) (\<lambda>result.
         case result of
           Some error \<Rightarrow>
             andThen (set_backup i (\<lambda>r. r\<lparr>bk_lastRotationError := Some error\<rparr>)) (\<lambda>_. ret (Some error))
         | None \<Rightarrow> andThen (drop_backup i) (\<lambda>_. ret None)))"

section \<open>Rotation\<close>

definition globalDefaultPolicyFromSettings :: "system_settings \<Rightarrow> retention_policy" where
  "globalDefaultPolicyFromSettings settings =
     (ss_retention settings)\<lparr>rp_source := ''inherited'', rp_autoApplied := False\<rparr>"

definition effective_policy :: "ident \<Rightarrow> ('w, 'z) backup_db_scheme \<Rightarrow> retention_policy" where
  "effective_policy databaseId s =
     (case List.find (\<lambda>p. pr_databaseId p = databaseId) (bu_policies s) of
        Some override \<Rightarrow>
          if \<not> pr_inheritGlobal override then (pr_policy override)\<lparr>rp_source := ''override''\<rparr>
          else globalDefaultPolicyFromSettings (bu_settings s)
      | None \<Rightarrow> globalDefaultPolicyFromSettings (bu_settings s))"

definition resolveRetentionPolicy :: "ident \<Rightarrow> (('w, 'z) backup_db_scheme, retention_policy) io" where
  "resolveRetentionPolicy databaseId = reads (effective_policy databaseId)"

record rotation_options =
  ro_dryRun :: bool
  ro_trigger :: string
  ro_policy :: "retention_policy option"

record rotation_result =
  rr_keep :: "ident list"
  rr_prune :: "ident list"
  rr_bytesFreed :: int
  rr_cappedButUnreachable :: "bool option"
  rr_errors :: "(ident \<times> string) list option"

definition prunable :: "ident \<Rightarrow> backup_row \<Rightarrow> bool" where
  "prunable databaseId b \<longleftrightarrow>
     bk_databaseId b = databaseId \<and> bk_status b = BackupCompleted \<and> bk_type b = ScheduledBackup \<and> \<not> bk_isPinned b"

definition exempt_backup :: "ident \<Rightarrow> backup_row \<Rightarrow> bool" where
  "exempt_backup databaseId b \<longleftrightarrow>
     bk_databaseId b = databaseId \<and> bk_status b = BackupCompleted \<and> (bk_type b = ManualBackup \<or> bk_isPinned b)"

text \<open>Tiers, floor and cap: the ids to keep, and whether the cap is out of reach.\<close>

definition keep_decision :: "(millis \<Rightarrow> int) \<Rightarrow> retention_policy \<Rightarrow> backup_row list \<Rightarrow> backup_row list \<Rightarrow> ident list \<times> bool" where
  "keep_decision localDay policy candidates exempt =
     (let exemptSuccessfulCount = int (length exempt);
          exemptSize = sum_list (map bk_size exempt);
          keep = selectKeep localDay candidates policy;
          floored = applyFloor candidates keep exemptSuccessfulCount (rp_minFloor policy)
      in applySizeCap candidates floored exemptSize exemptSuccessfulCount (rp_minFloor policy) (rp_maxTotalBytes policy))"

record prune_progress =
  pp_errors :: "(ident \<times> string) list"
  pp_prunedIds :: "ident list"
  pp_prunedFilenames :: "string list"
  pp_bytesFreed :: int

fun prune_each :: "'w backup_host \<Rightarrow> backup_row list \<Rightarrow> prune_progress \<Rightarrow> (('w, 'z) backup_db_scheme, prune_progress) io" where
  "prune_each bh [] p = ret p"
| "prune_each bh (c # cs) p =
     andThen (pruneBackup bh (bk_id c)) (\<lambda>result.
     prune_each bh cs
       (case result of
          None \<Rightarrow> p\<lparr>pp_prunedIds := pp_prunedIds p @ [bk_id c], pp_prunedFilenames := pp_prunedFilenames p @ [bk_filename c],
                    pp_bytesFreed := pp_bytesFreed p + bk_size c\<rparr>
        | Some error \<Rightarrow> p\<lparr>pp_errors := pp_errors p @ [(bk_id c, error)]\<rparr>))"

definition rotation_notice :: "ident \<Rightarrow> (ident \<times> string) list \<Rightarrow> (('w, 'z) backup_db_scheme, unit) io" where
  "rotation_notice databaseId errors =
     andThen (reads (database_of databaseId)) (\<lambda>found.
     case found of
       None \<Rightarrow> ret ()
     | Some d \<Rightarrow>
         emit (SystemNotice ''backup.rotation_error'' (da_environmentId d)
           [(''databaseName'', Some (da_name d)),
            (''error'', Some (if errors \<noteq> [] then nat_str (length errors) @ '' backup(s) could not be deleted: ''
                                @ join_with ''; '' (map snd errors)
                             else ''Storage size cap could not be met without removing pinned/manual backups.''))]))"

definition prune_list :: "'w backup_host \<Rightarrow> ident \<Rightarrow> string \<Rightarrow> backup_row list \<Rightarrow> backup_row list \<Rightarrow> bool
    \<Rightarrow> (('w, 'z) backup_db_scheme, rotation_result) io" where
  "prune_list bh databaseId trigger keepList pruneList capped =
     (let keptWithError = map bk_id (filter (\<lambda>b. bk_lastRotationError b \<noteq> None) keepList) in
      andThen (writes (\<lambda>s. s\<lparr>bu_backups := map (\<lambda>b. if bk_id b \<in> set keptWithError then b\<lparr>bk_lastRotationError := None\<rparr> else b)
                              (bu_backups s)\<rparr>)) (\<lambda>_.
      andThen (prune_each bh pruneList \<lparr>pp_errors = [], pp_prunedIds = [], pp_prunedFilenames = [], pp_bytesFreed = 0\<rparr>) (\<lambda>p.
      andThen (whenever (pp_prunedIds p \<noteq> [])
                (emit (AuditEntry ''backup.rotate'' databaseId databaseId
                   (map (\<lambda>i. (''prunedId'', Some i)) (pp_prunedIds p) @ map (\<lambda>f. (''prunedFilename'', Some f)) (pp_prunedFilenames p)
                    @ [(''bytesFreed'', Some (int_str (pp_bytesFreed p))), (''trigger'', Some trigger)])))) (\<lambda>_.
      andThen (whenever (pp_errors p \<noteq> [] \<or> capped) (rotation_notice databaseId (pp_errors p))) (\<lambda>_.
      ret \<lparr>rr_keep = map bk_id keepList, rr_prune = pp_prunedIds p, rr_bytesFreed = pp_bytesFreed p,
           rr_cappedButUnreachable = Some capped, rr_errors = (if pp_errors p \<noteq> [] then Some (pp_errors p) else None)\<rparr>)))))"

definition rotateDatabase :: "'w backup_host \<Rightarrow> ident \<Rightarrow> rotation_options \<Rightarrow> (('w, 'z) backup_db_scheme, rotation_result) io" where
  "rotateDatabase bh databaseId opts =
     andThen (case ro_policy opts of Some p \<Rightarrow> ret p | None \<Rightarrow> resolveRetentionPolicy databaseId) (\<lambda>policy.
     andThen (reads bu_settings) (\<lambda>settings.
     let localDay = bh_localDay bh (non_empty (ss_timezone settings) ''UTC'');
         isAutomaticTrigger = (ro_trigger opts = ''sweep'' \<or> ro_trigger opts = ''post-backup'')
     in
     andThen (reads (\<lambda>s. filter (prunable databaseId) (bu_backups s))) (\<lambda>universe.
     if isAutomaticTrigger \<and> rp_autoApplied policy \<and> ro_policy opts = None then
       ret \<lparr>rr_keep = map bk_id universe, rr_prune = [], rr_bytesFreed = 0, rr_cappedButUnreachable = None, rr_errors = None\<rparr>
     else
       andThen (reads (\<lambda>s. filter (exempt_backup databaseId) (bu_backups s))) (\<lambda>exempt.
       let candidates = by_newest universe;
           (keep, capped) = keep_decision localDay policy candidates exempt;
           pruneList = filter (\<lambda>c. bk_id c \<notin> set keep) candidates;
           keepList = filter (\<lambda>c. bk_id c \<in> set keep) candidates
       in
       if ro_dryRun opts then
         ret \<lparr>rr_keep = map bk_id keepList, rr_prune = map bk_id pruneList, rr_bytesFreed = sum_list (map bk_size pruneList),
              rr_cappedButUnreachable = Some capped, rr_errors = None\<rparr>
       else prune_list bh databaseId (ro_trigger opts) keepList pruneList capped))))"

section \<open>Stuck and failed backups\<close>

definition stuck_grace :: int where
  "stuck_grace = 5 * 60 * 1000"

definition truthy_int :: "int \<Rightarrow> int \<Rightarrow> int" where
  "truthy_int n d = (if n = 0 then d else n)"

text \<open>Between the query and the conditional update nothing else runs here, so the status in its condition holds.\<close>

definition stuck :: "int \<Rightarrow> millis \<Rightarrow> ('w, 'z) backup_db_scheme \<Rightarrow> backup_row \<Rightarrow> bool" where
  "stuck fallbackTimeout t s b \<longleftrightarrow>
     bk_status b = BackupInProgress \<and>
     (case database_of (bk_databaseId b) s of
        None \<Rightarrow> False
      | Some d \<Rightarrow> bk_createdAt b + truthy_int (da_pgDumpTimeoutMs d) fallbackTimeout + stuck_grace < t)"

definition timed_out :: backup_error where
  "timed_out = \<lparr>be_message = ''Backup timed out: still in progress past the configured pg_dump timeout. Marked failed by the cleanup sweep.'',
     be_step = ''dump'', be_stderr = None, be_exitCode = None\<rparr>"

definition markStuckBackupsFailed :: "'w backup_host \<Rightarrow> (('w, 'z) backup_db_scheme, nat) io" where
  "markStuckBackupsFailed bh =
     andThen (reads (\<lambda>s. (now (bh_host bh) s, truthy_int (ss_pgDumpTimeoutMs (bu_settings s)) 300000))) (\<lambda>(t, fallbackTimeout).
     andThen (reads (\<lambda>s. filter (stuck fallbackTimeout t s) (bu_backups s))) (\<lambda>rows.
     andThen (for_each (\<lambda>b. andThen (reads (now (bh_host bh))) (\<lambda>completedAt. set_backup (bk_id b) (\<lambda>r.
         if bk_status r = BackupInProgress
         then r\<lparr>bk_status := BackupFailed, bk_error := Some timed_out, bk_completedAt := Some completedAt\<rparr> else r))) rows) (\<lambda>_.
     ret (length rows))))"

fun clean_each :: "'w backup_host \<Rightarrow> ident list \<Rightarrow> nat \<Rightarrow> (('w, 'z) backup_db_scheme, nat) io" where
  "clean_each bh [] deleted = ret deleted"
| "clean_each bh (i # is) deleted =
     andThen
       (catching
          (andThen (with_storage i) (\<lambda>found.
           case found of
             None \<Rightarrow> ret deleted
           | Some (b, d, srv) \<Rightarrow>
               andThen (deleteBackupArtifact bh b d srv) (\<lambda>result.
               case result of
                 Some error \<Rightarrow>
                   andThen (set_backup i (\<lambda>r. r\<lparr>bk_lastRotationError := Some error\<rparr>)) (\<lambda>_. ret deleted)
               | None \<Rightarrow> andThen (drop_backup i) (\<lambda>_. ret (deleted + 1)))))
          (\<lambda>_. ret deleted))
       (clean_each bh is)"

definition cleanupFailedBackups :: "'w backup_host \<Rightarrow> (('w, 'z) backup_db_scheme, nat) io" where
  "cleanupFailedBackups bh =
     andThen (reads (\<lambda>s. ss_failedBackupRetentionDays (bu_settings s))) (\<lambda>retentionDays.
     if retentionDays \<le> 0 then ret 0
     else andThen (reads (\<lambda>s. let cutoff = now (bh_host bh) s - retentionDays * 24 * 60 * 60 * 1000 in
              map bk_id (filter (\<lambda>b. bk_status b = BackupFailed \<and> bk_createdAt b < cutoff) (bu_backups s)))) (\<lambda>old.
       clean_each bh old 0))"

section \<open>What is kept\<close>

lemma add_id_simps [simp]: "set (add_id i xs) = insert i (set xs)" "distinct xs \<Longrightarrow> distinct (add_id i xs)"
  by (auto simp: add_id_def)

lemma fold_add_id: "set (fold add_id xs ys) = set ys \<union> set xs" "distinct ys \<Longrightarrow> distinct (fold add_id xs ys)"
  by (induction xs arbitrary: ys) auto

lemma set_by_newest [simp]: "set (by_newest cs) = set cs" "mset (by_newest cs) = mset cs"
  by (simp_all add: by_newest_def)

lemma fold_add_map: "fold (\<lambda>k sel. add_id (f k) sel) ks xs = fold add_id (map f ks) xs"
  by (induction ks arbitrary: xs) simp_all

lemma floor_loop_props:
  "set keep \<subseteq> set (floor_loop exempt mf cs keep) \<and> set (floor_loop exempt mf cs keep) \<subseteq> set keep \<union> bk_id ` set cs \<and>
     (distinct keep \<longrightarrow> distinct (floor_loop exempt mf cs keep)) \<and>
     (mf \<le> exempt + int (length (floor_loop exempt mf cs keep)) \<or> bk_id ` set cs \<subseteq> set (floor_loop exempt mf cs keep))"
proof (induction cs arbitrary: keep)
  case (Cons c cs)
  show ?case using Cons.IH [of "add_id (bk_id c) keep"] by (auto simp: Let_def subset_iff)
qed simp

lemma length_removeAll_distinct: "distinct xs \<Longrightarrow> x \<in> set xs \<Longrightarrow> length (removeAll x xs) = length xs - 1"
  by (induction xs) (auto simp: removeAll_id neq_Nil_conv split: if_splits, metis Suc_pred length_pos_if_in_set)

text \<open>The eviction loop removes a prefix of the victims, oldest first.\<close>

lemma cap_loop_prefix:
  assumes "distinct keep" and "distinct (map bk_id vs)" and "bk_id ` set vs \<subseteq> set keep"
    and "cap_loop exempt mf cap vs keep bytes = (keep', bytes')"
  shows "\<exists>n \<le> length vs. keep' = filter (\<lambda>i. i \<notin> bk_id ` set (take n vs)) keep \<and>
           bytes' = bytes - sum_list (map bk_size (take n vs)) \<and> length keep' = length keep - n \<and>
           (0 < n \<longrightarrow> mf \<le> exempt + int (length keep')) \<and>
           (bytes' \<le> cap \<or> exempt + (int (length keep') - 1) < mf \<or> n = length vs)"
  using assms
proof (induction vs arbitrary: keep bytes)
  case Nil
  then show ?case by simp
next
  case (Cons v vs)
  show ?case
  proof (cases "bytes \<le> cap \<or> exempt + (int (length keep) - 1) < mf")
    case True
    with Cons.prems(4) have "keep' = keep" "bytes' = bytes" by (auto split: if_splits)
    with True show ?thesis by (intro exI [of _ 0]) auto
  next
    case False
    let ?k = "removeAll (bk_id v) keep"
    have len: "length ?k = length keep - 1" using Cons.prems by (intro length_removeAll_distinct) auto
    from False Cons.prems(4) have run: "cap_loop exempt mf cap vs ?k (bytes - bk_size v) = (keep', bytes')" by simp
    have "bk_id v \<notin> bk_id ` set vs" using Cons.prems(2) by simp
    then have "distinct ?k" "distinct (map bk_id vs)" "bk_id ` set vs \<subseteq> set ?k"
      using Cons.prems(1-3) by (auto simp: distinct_removeAll) (metis imageI)
    from Cons.IH [OF this run] obtain n where n: "n \<le> length vs" "keep' = filter (\<lambda>i. i \<notin> bk_id ` set (take n vs)) ?k"
      "bytes' = bytes - bk_size v - sum_list (map bk_size (take n vs))" "length keep' = length ?k - n"
      "0 < n \<longrightarrow> mf \<le> exempt + int (length keep')"
      "bytes' \<le> cap \<or> exempt + (int (length keep') - 1) < mf \<or> n = length vs" by blast
    have "0 < length keep" using Cons.prems(3) by (cases keep) auto
    with False len have "mf \<le> exempt + int (length ?k)" by linarith
    with n have "mf \<le> exempt + int (length keep')" by (cases "n = 0") auto
    moreover have "filter (\<lambda>i. i \<notin> bk_id ` set (take n vs)) ?k = filter (\<lambda>i. i \<notin> bk_id ` set (take (Suc n) (v # vs))) keep"
      by (simp add: removeAll_filter_not_eq) (rule filter_cong, auto)
    ultimately show ?thesis using n len by (intro exI [of _ "Suc n"]) auto
  qed
qed

text \<open>The map of the newest backup per bucket.\<close>

definition newest_in :: "(millis \<Rightarrow> string) \<Rightarrow> backup_row list \<Rightarrow> (string \<times> backup_row) list \<Rightarrow> bool" where
  "newest_in key cs m \<longleftrightarrow>
     distinct (map fst m) \<and> fst ` set m = (\<lambda>c. key (bk_createdAt c)) ` set cs \<and>
     (\<forall>k c. map_of m k = Some c \<longrightarrow> c \<in> set cs \<and> key (bk_createdAt c) = k \<and>
        (\<forall>d \<in> set cs. key (bk_createdAt d) = k \<longrightarrow> bk_createdAt d \<le> bk_createdAt c))"

lemma newest_step:
  assumes "newest_in key cs m"
  shows "newest_in key (cs @ [c])
     (let k = key (bk_createdAt c) in
      case map_of m k of
        None \<Rightarrow> set_pair k c m
      | Some current \<Rightarrow> if bk_createdAt current < bk_createdAt c then set_pair k c m else m)"
proof (cases "map_of m (key (bk_createdAt c))")
  case None
  then have "key (bk_createdAt c) \<notin> fst ` set m" by (simp add: map_of_eq_None_iff)
  with assms have "key (bk_createdAt d) \<noteq> key (bk_createdAt c)" if "d \<in> set cs" for d
    using that unfolding newest_in_def by (metis (no_types, lifting) imageI)
  with assms None show ?thesis
    by (auto simp: newest_in_def Let_def fst_set_pair simp del: map_of_eq_Some_iff)
next
  case (Some d)
  then have "key (bk_createdAt c) \<in> fst ` set m" by (force dest: map_of_SomeD)
  then have "insert (key (bk_createdAt c)) (fst ` set m) = fst ` set m" by blast
  moreover have "fst ` set m = (\<lambda>c. key (bk_createdAt c)) ` set cs" using assms by (simp add: newest_in_def)
  moreover have "d \<in> set cs" "key (bk_createdAt d) = key (bk_createdAt c)"
    "\<And>e. e \<in> set cs \<Longrightarrow> key (bk_createdAt e) = key (bk_createdAt c) \<Longrightarrow> bk_createdAt e \<le> bk_createdAt d"
    using assms Some unfolding newest_in_def by blast+
  moreover have "bk_createdAt e \<le> bk_createdAt c"
    if "bk_createdAt d < bk_createdAt c" "e \<in> set cs" "key (bk_createdAt e) = key (bk_createdAt c)" for e
    using calculation(5) [OF that(2,3)] that(1) by simp
  ultimately show ?thesis
    using assms Some by (auto simp: newest_in_def Let_def fst_set_pair simp del: map_of_eq_Some_iff)
qed

lemma newest_by_bucket_spec: "newest_in key cs (newest_by_bucket key cs)"
proof (induction cs rule: rev_induct)
  case Nil
  then show ?case by (simp add: newest_by_bucket_def newest_in_def)
next
  case (snoc c cs)
  have "newest_by_bucket key (cs @ [c]) =
     (let k = key (bk_createdAt c); m = newest_by_bucket key cs in
      case map_of m k of
        None \<Rightarrow> set_pair k c m
      | Some current \<Rightarrow> if bk_createdAt current < bk_createdAt c then set_pair k c m else m)"
    by (simp add: newest_by_bucket_def Let_def)
  with newest_step [OF snoc, of c] show ?case by (simp only: Let_def)
qed

lemma period_tier_set:
  "set (selectPeriodTier localDay cs period n) =
     bk_id ` (\<lambda>k. the (map_of (newest_by_bucket (\<lambda>t. periodKey (localDay t) period) cs) k)) `
       set (take (nat n) (rev (sort (map fst (newest_by_bucket (\<lambda>t. periodKey (localDay t) period) cs)))))"
proof (cases "n \<le> 0")
  case True
  then show ?thesis by (simp add: selectPeriodTier_def)
next
  case False
  then show ?thesis
    unfolding selectPeriodTier_def Let_def
    by (subst fold_add_map) (simp only: if_False fold_add_id set_map image_image list.set(1) Un_empty_left)
qed

lemma period_tier_subset: "set (selectPeriodTier localDay cs period n) \<subseteq> bk_id ` set cs"
proof -
  let ?m = "newest_by_bucket (\<lambda>t. periodKey (localDay t) period) cs"
  have "the (map_of ?m k) \<in> set cs" if "k \<in> fst ` set ?m" for k
  proof -
    from that obtain c where "map_of ?m k = Some c" by (metis map_of_eq_None_iff option.exhaust)
    moreover from this newest_by_bucket_spec have "c \<in> set cs" unfolding newest_in_def by blast
    ultimately show ?thesis by simp
  qed
  moreover have "set (take (nat n) (rev (sort (map fst ?m)))) \<subseteq> fst ` set ?m"
    using set_take_subset [of "nat n" "rev (sort (map fst ?m))"] by simp
  ultimately show ?thesis unfolding period_tier_set by blast
qed

lemma selectKeep_subset: "set (selectKeep localDay cs policy) \<subseteq> bk_id ` set cs"
proof -
  have "set (take n (by_newest cs)) \<subseteq> set cs" for n using set_take_subset [of n "by_newest cs"] by simp
  then show ?thesis
    using period_tier_subset [of localDay cs] by (auto simp: selectKeep_def Let_def fold_add_id)
qed

lemma selectKeep_distinct: "distinct (selectKeep localDay cs policy)"
  by (simp add: selectKeep_def Let_def fold_add_id)

lemma sum_by_ids:
  assumes "distinct (map bk_id cs)" and "distinct keep" and "set keep \<subseteq> bk_id ` set cs"
  shows "sum_list (map (\<lambda>i. nullish (map_of (map (\<lambda>c. (bk_id c, bk_size c)) cs) i) 0) keep) =
           sum_list (map bk_size (filter (\<lambda>c. bk_id c \<in> set keep) cs))"
proof -
  let ?f = "\<lambda>i. nullish (map_of (map (\<lambda>c. (bk_id c, bk_size c)) cs) i) 0"
  have f: "?f (bk_id c) = bk_size c" if "c \<in> set cs" for c
    using that assms(1) by (subst map_of_is_SomeI [of _ _ "bk_size c"]) (auto simp: comp_def)
  have "sum_list (map ?f keep) = sum ?f (set keep)"
    using assms(2) by (simp add: sum_list_distinct_conv_sum_set)
  also have "set keep = bk_id ` set (filter (\<lambda>c. bk_id c \<in> set keep) cs)" using assms(3) by auto
  also have "sum ?f \<dots> = sum (?f \<circ> bk_id) (set (filter (\<lambda>c. bk_id c \<in> set keep) cs))"
    using assms(1) by (intro sum.reindex) (auto simp: distinct_map inj_on_def)
  also have "\<dots> = sum bk_size (set (filter (\<lambda>c. bk_id c \<in> set keep) cs))"
    using f by (intro sum.cong) auto
  also have "\<dots> = sum_list (map bk_size (filter (\<lambda>c. bk_id c \<in> set keep) cs))"
    using assms(1) by (simp add: distinct_map sum_list_distinct_conv_sum_set)
  finally show ?thesis .
qed

lemma sum_same_elements:
  "set xs = set ys \<Longrightarrow> distinct xs \<Longrightarrow> distinct ys \<Longrightarrow> sum_list (map f xs) = sum_list (map f ys)" for f :: "'x \<Rightarrow> int"
  by (simp add: sum_list_distinct_conv_sum_set)

text \<open>The floor and the cap together.\<close>

lemma floored_props:
  fixes localDay policy cs exempt
  defines "keep \<equiv> applyFloor cs (selectKeep localDay cs policy) exempt (rp_minFloor policy)"
  shows "set (selectKeep localDay cs policy) \<subseteq> set keep" "set keep \<subseteq> bk_id ` set cs" "distinct keep"
    "rp_minFloor policy \<le> exempt + int (length keep) \<or> set keep = bk_id ` set cs"
  using floor_loop_props [of "selectKeep localDay cs policy" exempt "rp_minFloor policy" "by_newest cs"]
    selectKeep_subset [of localDay cs policy] selectKeep_distinct [of localDay cs policy]
  by (auto simp: keep_def applyFloor_def)

text \<open>The victims of the cap: the oldest kept candidates, as many as needed or as the floor allows.\<close>

lemma size_cap_split:
  assumes "distinct (map bk_id cs)" and "distinct keep" and "set keep \<subseteq> bk_id ` set cs"
    and "applySizeCap cs keep exemptSize exempt mf (Some cap) = (keep', capped)"
  obtains n where "n \<le> length keep"
    "keep' = filter (\<lambda>i. i \<notin> bk_id ` set (take n (sort_key bk_createdAt (filter (\<lambda>c. bk_id c \<in> set keep) cs)))) keep"
    "length keep' = length keep - n" "0 < n \<longrightarrow> mf \<le> exempt + int (length keep')"
    "capped \<longleftrightarrow> cap < exemptSize + sum_list (map bk_size (filter (\<lambda>c. bk_id c \<in> set keep') cs))"
    "capped \<longrightarrow> exempt + (int (length keep') - 1) < mf \<or> keep' = []"
proof -
  let ?vs = "sort_key bk_createdAt (filter (\<lambda>c. bk_id c \<in> set keep) cs)"
  let ?b = "exemptSize + sum_list (map bk_size (filter (\<lambda>c. bk_id c \<in> set keep) cs))"
  obtain bytes' where run: "cap_loop exempt mf cap ?vs keep ?b = (keep', bytes')" "capped \<longleftrightarrow> cap < bytes'"
    using assms(4) by (auto simp: applySizeCap_def Let_def sum_by_ids [OF assms(1-3)] split: prod.splits)
  have dvs: "distinct (map bk_id ?vs)"
    using assms(1) by (metis distinct_map distinct_sort distinct_filter set_sort inj_on_filter_key_eq distinct_map_filter)
  have sub: "bk_id ` set ?vs = set keep" using assms(3) by auto
  have len: "length ?vs = length keep"
    using dvs sub assms(2) by (metis distinct_card length_map list.set_map)
  from cap_loop_prefix [OF assms(2) dvs _ run(1)] sub
  obtain n where n: "n \<le> length ?vs" "keep' = filter (\<lambda>i. i \<notin> bk_id ` set (take n ?vs)) keep"
    "bytes' = ?b - sum_list (map bk_size (take n ?vs))" "length keep' = length keep - n"
    "0 < n \<longrightarrow> mf \<le> exempt + int (length keep')"
    "bytes' \<le> cap \<or> exempt + (int (length keep') - 1) < mf \<or> n = length ?vs" by blast
  have "sum_list (map bk_size (filter (\<lambda>c. bk_id c \<in> set keep') cs)) = sum_list (map bk_size (drop n ?vs))"
  proof -
    have "set (filter (\<lambda>c. bk_id c \<in> set keep') cs) = set (drop n ?vs)"
    proof -
      have "x \<in> set (drop n ?vs) \<longleftrightarrow> x \<in> set ?vs \<and> bk_id x \<notin> bk_id ` set (take n ?vs)" for x
      proof -
        have "distinct (map bk_id (take n ?vs @ drop n ?vs))" using dvs by simp
        then have "bk_id ` set (take n ?vs) \<inter> bk_id ` set (drop n ?vs) = {}" by (simp only: map_append distinct_append set_map)
        moreover have "set ?vs = set (take n ?vs) \<union> set (drop n ?vs)" by (metis append_take_drop_id set_append)
        ultimately show ?thesis by blast
      qed
      then show ?thesis using n(2) assms(3) by auto
    qed
    moreover have "distinct (filter (\<lambda>c. bk_id c \<in> set keep') cs)" using assms(1) by (simp add: distinct_map)
    moreover have "distinct (drop n ?vs)" using dvs by (simp add: distinct_map)
    ultimately show ?thesis by (intro sum_same_elements)
  qed
  moreover have "sum_list (map bk_size ?vs) = sum_list (map bk_size (filter (\<lambda>c. bk_id c \<in> set keep) cs))"
    by (rule sum_same_elements) (use assms(1) in \<open>simp_all add: distinct_map\<close>)
  moreover have "sum_list (map bk_size ?vs) = sum_list (map bk_size (take n ?vs)) + sum_list (map bk_size (drop n ?vs))"
    by (metis append_take_drop_id map_append sum_list_append)
  ultimately have b: "bytes' = exemptSize + sum_list (map bk_size (filter (\<lambda>c. bk_id c \<in> set keep') cs))"
    using n(3) by simp
  show ?thesis
  proof (rule that [of n])
    show "capped \<longrightarrow> exempt + (int (length keep') - 1) < mf \<or> keep' = []"
      using n(4,6) run(2) len by auto
    show "capped \<longleftrightarrow> cap < exemptSize + sum_list (map bk_size (filter (\<lambda>c. bk_id c \<in> set keep') cs))"
      using run(2) b by simp
    show "n \<le> length keep" using n(1) len by simp
  qed (fact n)+
qed

lemma sizeCap_None: "applySizeCap cs keep exemptSize exempt mf None = (keep, False)"
  by (simp add: applySizeCap_def)

text \<open>Whatever the policy, the decision keeps some of the candidates, at least as many as the floor asks for, and
  without a cap everything a tier selects.\<close>

lemma keep_decision_props:
  assumes "distinct (map bk_id cs)" and "keep_decision localDay policy cs exempt = (keep, capped)"
  shows "distinct keep" "set keep \<subseteq> bk_id ` set cs"
    "rp_minFloor policy \<le> int (length exempt) + int (length keep) \<or> set keep = bk_id ` set cs"
    "rp_maxTotalBytes policy = None \<longrightarrow> set (selectKeep localDay cs policy) \<subseteq> set keep"
proof -
  define floored where "floored = applyFloor cs (selectKeep localDay cs policy) (int (length exempt)) (rp_minFloor policy)"
  note fl = floored_props [where localDay = localDay and policy = policy and cs = cs and exempt = "int (length exempt)", folded floored_def]
  have run: "applySizeCap cs floored (sum_list (map bk_size exempt)) (int (length exempt)) (rp_minFloor policy) (rp_maxTotalBytes policy)
      = (keep, capped)"
    using assms(2) by (simp add: keep_decision_def Let_def floored_def)
  show "rp_maxTotalBytes policy = None \<longrightarrow> set (selectKeep localDay cs policy) \<subseteq> set keep"
    using run fl(1) by (auto simp: sizeCap_None)
  have "distinct keep \<and> set keep \<subseteq> bk_id ` set cs \<and>
    (rp_minFloor policy \<le> int (length exempt) + int (length keep) \<or> set keep = bk_id ` set cs)"
  proof (cases "rp_maxTotalBytes policy")
    case None
    with run fl show ?thesis by (auto simp: sizeCap_None)
  next
    case (Some cap)
    with run have run': "applySizeCap cs floored (sum_list (map bk_size exempt)) (int (length exempt)) (rp_minFloor policy) (Some cap)
      = (keep, capped)" by simp
    from size_cap_split [OF assms(1) fl(3) fl(2) run'] obtain n V where n: "n \<le> length floored"
      "keep = filter (\<lambda>i. i \<notin> V) floored" "length keep = length floored - n"
      "0 < n \<longrightarrow> rp_minFloor policy \<le> int (length exempt) + int (length keep)" by metis
    from n(2) fl(2,3) have "distinct keep" "set keep \<subseteq> bk_id ` set cs" by auto
    moreover have "rp_minFloor policy \<le> int (length exempt) + int (length keep) \<or> set keep = bk_id ` set cs"
    proof (cases "n = 0")
      case True
      with n(2,3) have "length (filter (\<lambda>i. i \<notin> V) floored) = length floored" by simp
      then have "\<forall>i \<in> set floored. i \<notin> V" using length_filter_less [of _ floored "\<lambda>i. i \<notin> V"] by fastforce
      with n(2) have "keep = floored" by simp
      with fl(4) show ?thesis by simp
    qed (use n(4) in simp)
    ultimately show ?thesis by simp
  qed
  then show "distinct keep" "set keep \<subseteq> bk_id ` set cs"
    "rp_minFloor policy \<le> int (length exempt) + int (length keep) \<or> set keep = bk_id ` set cs" by simp_all
qed

text \<open>With a size cap the decision either brings the completed backups under the cap, or says so and has
  pruned down to the floor or to the last prunable backup; what the cap evicts is older than what stays.\<close>

theorem size_cap_met_or_floor:
  assumes "distinct (map bk_id cs)" and "rp_maxTotalBytes policy = Some cap"
    and "keep_decision localDay policy cs exempt = (keep, capped)"
  shows "(capped \<longleftrightarrow> cap < sum_list (map bk_size exempt) + sum_list (map bk_size (filter (\<lambda>c. bk_id c \<in> set keep) cs))) \<and>
     (capped \<longrightarrow> int (length exempt) + int (length keep) \<le> rp_minFloor policy \<or> keep = []) \<and>
     (\<forall>c \<in> set cs. \<forall>d \<in> set cs. bk_id c \<in> set keep \<and> bk_id d \<notin> set keep \<and>
        bk_id d \<in> set (applyFloor cs (selectKeep localDay cs policy) (int (length exempt)) (rp_minFloor policy)) \<longrightarrow>
        bk_createdAt d \<le> bk_createdAt c)"
proof -
  define floored where "floored = applyFloor cs (selectKeep localDay cs policy) (int (length exempt)) (rp_minFloor policy)"
  note fl = floored_props [where localDay = localDay and policy = policy and cs = cs and exempt = "int (length exempt)", folded floored_def]
  have run: "applySizeCap cs floored (sum_list (map bk_size exempt)) (int (length exempt)) (rp_minFloor policy) (Some cap)
      = (keep, capped)"
    using assms(2,3) by (simp add: keep_decision_def Let_def floored_def)
  let ?vs = "sort_key bk_createdAt (filter (\<lambda>c. bk_id c \<in> set floored) cs)"
  from size_cap_split [OF assms(1) fl(3) fl(2) run] obtain n where n:
    "keep = filter (\<lambda>i. i \<notin> bk_id ` set (take n ?vs)) floored"
    "capped \<longleftrightarrow> cap < sum_list (map bk_size exempt) + sum_list (map bk_size (filter (\<lambda>c. bk_id c \<in> set keep) cs))"
    "capped \<longrightarrow> int (length exempt) + (int (length keep) - 1) < rp_minFloor policy \<or> keep = []" by metis
  have "bk_createdAt d \<le> bk_createdAt c"
    if c: "c \<in> set cs" "bk_id c \<in> set keep" and d: "d \<in> set cs" "bk_id d \<notin> set keep" "bk_id d \<in> set floored" for c d
  proof -
    have cv: "c \<in> set ?vs" "bk_id c \<notin> bk_id ` set (take n ?vs)" using c n(1) by auto
    then have cd: "c \<in> set (drop n ?vs)" by (metis Un_iff append_take_drop_id imageI set_append)
    have "bk_id d \<in> bk_id ` set (take n ?vs)" using d n(1) by auto
    then obtain e where e: "e \<in> set (take n ?vs)" "bk_id e = bk_id d" by auto
    then have "e \<in> set cs" using set_take_subset [of n ?vs] by auto
    with e(2) d(1) assms(1) have "e = d" by (auto simp: distinct_map dest: inj_onD)
    have "sorted (map bk_createdAt (take n ?vs @ drop n ?vs))" by (simp only: append_take_drop_id sorted_sort_key)
    then have "\<forall>x \<in> set (take n ?vs). \<forall>y \<in> set (drop n ?vs). bk_createdAt x \<le> bk_createdAt y"
      by (simp only: map_append sorted_append set_map) blast
    with e \<open>e = d\<close> cd show ?thesis by blast
  qed
  with n(2,3) show ?thesis by (auto simp: floored_def [symmetric])
qed

section \<open>Period keys are ordered as the periods are\<close>

text \<open>The number of a period: days, weeks from Monday, months and years since the epoch.\<close>

fun period_index :: "period \<Rightarrow> int \<Rightarrow> int" where
  "period_index Day d = d"
| "period_index Week d = (d + 3) div 7"
| "period_index Month d = 12 * year_of d + month_of d"
| "period_index Year d = year_of d"

lemma less_append: "length a = length b \<Longrightarrow> a @ x < b @ y \<longleftrightarrow> a < b \<or> a = b \<and> x < y" for a b :: string
  by (induction a b rule: list_induct2) auto

lemma digits_snoc: "digits_value (s @ [c]) = 10 * digits_value s + (of_char c - 48)"
  by (simp add: digits_value_def)

lemma less_char_digit: "digit c \<Longrightarrow> digit d \<Longrightarrow> c < d \<longleftrightarrow> (of_char c - 48 :: nat) < of_char d - 48"
    "digit c \<Longrightarrow> digit d \<Longrightarrow> c = d \<longleftrightarrow> (of_char c - 48 :: nat) = of_char d - 48"
    "digit c \<Longrightarrow> (of_char c - 48 :: nat) < 10"
proof -
  assume "digit c"
  then have c: "48 \<le> (of_char c :: nat)" "of_char c < (58 :: nat)" by (auto simp: digit_def char_in_def less_eq_char_def)
  then show "(of_char c - 48 :: nat) < 10" by simp
  assume "digit d"
  then have d: "48 \<le> (of_char d :: nat)" by (auto simp: digit_def char_in_def less_eq_char_def)
  with c show "c < d \<longleftrightarrow> (of_char c - 48 :: nat) < of_char d - 48" by (auto simp: less_char_def)
  show "c = d \<longleftrightarrow> (of_char c - 48 :: nat) = of_char d - 48"
  proof
    assume "(of_char c - 48 :: nat) = of_char d - 48"
    with c d have "(of_char c :: nat) = of_char d" by linarith
    then show "c = d" by (simp only: of_char_eq_iff)
  qed simp
qed

lemma less_digits:
  assumes "length a = length b" "\<forall>c \<in> set a. digit c" "\<forall>c \<in> set b. digit c"
  shows "(a < b \<longleftrightarrow> digits_value a < digits_value b) \<and> (a = b \<longleftrightarrow> digits_value a = digits_value b)"
  using assms
proof (induction a arbitrary: b rule: rev_induct)
  case (snoc x xs)
  then obtain ys y where b: "b = ys @ [y]" "length xs = length ys" by (cases b rule: rev_cases) auto
  with snoc have IH: "xs < ys \<longleftrightarrow> digits_value xs < digits_value ys" "xs = ys \<longleftrightarrow> digits_value xs = digits_value ys" by auto
  have "digit x" "digit y" using snoc.prems b by auto
  then show ?case
    using IH less_char_digit(1,2) [of x y] less_char_digit(3) [of x] less_char_digit(3) [of y] unfolding b(1)
    by (auto simp: less_append b(2) digits_snoc)
qed (simp add: digits_value_def)

lemma length_nat_str: "10 ^ k \<le> n \<Longrightarrow> n < 10 ^ (k + 1) \<Longrightarrow> length (nat_str n) = k + 1"
proof (induction k arbitrary: n)
  case 0
  then show ?case by (subst nat_str.simps) simp
next
  case (Suc k)
  then have "10 ^ k \<le> n div 10" "n div 10 < 10 ^ (k + 1)" by (auto simp: div_less_iff_less_mult less_eq_div_iff_mult_less_eq)
  then have "length (nat_str (n div 10)) = k + 1" by (rule Suc.IH)
  moreover have "(10 :: nat) \<le> 10 ^ (k + 1)" by simp
  then have "\<not> n < 10" using Suc.prems(1) by (metis Suc_eq_plus1 le_trans not_le)
  ultimately show ?case by (subst nat_str.simps) simp
qed

lemma year_digits:
  "1000 \<le> y \<Longrightarrow> y \<le> 9999 \<Longrightarrow> length (int_str y) = 4 \<and> (\<forall>c \<in> set (int_str y). digit c) \<and> int (digits_value (int_str y)) = y"
  using length_nat_str [of 3 "nat y"] nat_str_digits [of "nat y"] by (simp add: int_str_def)

lemma two_digits:
  assumes "0 \<le> n" "n \<le> 99"
  shows "length (pad2 n) = 2 \<and> (\<forall>c \<in> set (pad2 n). digit c) \<and> int (digits_value (pad2 n)) = n"
proof -
  have l: "length (nat_str (nat n)) = (if n < 10 then 1 else 2)"
  proof (cases "n < 10")
    case True
    then show ?thesis using assms by (subst nat_str.simps) simp
  next
    case False
    then show ?thesis using assms length_nat_str [of 1 "nat n"] by simp
  qed
  have d0: "digit CHR ''0''" by (simp add: digit_def char_in_def less_eq_char_def)
  show ?thesis
    using assms l d0 nat_str_digits [of "nat n"] digits_value_nat_str [of "nat n"]
    by (auto simp: pad2_def int_str_def digits_value_def eval_nat_numeral)
qed

lemma less_fixed:
  assumes "length a = length b" "\<forall>c \<in> set a. digit c" "\<forall>c \<in> set b. digit c"
    and "int (digits_value a) = y" "int (digits_value b) = z"
  shows "a @ u < b @ v \<longleftrightarrow> y < z \<or> y = z \<and> u < v"
proof -
  have "a < b \<longleftrightarrow> y < z" "a = b \<longleftrightarrow> y = z" using less_digits [OF assms(1-3)] assms(4,5) by auto
  then show ?thesis by (simp only: less_append [OF assms(1)])
qed

lemma less_year: "1000 \<le> y \<Longrightarrow> y \<le> 9999 \<Longrightarrow> 1000 \<le> z \<Longrightarrow> z \<le> 9999 \<Longrightarrow>
    int_str y @ u < int_str z @ v \<longleftrightarrow> y < z \<or> y = z \<and> u < v"
  using year_digits [of y] year_digits [of z] by (intro less_fixed) simp_all

lemma less_pad2: "0 \<le> m \<Longrightarrow> m \<le> 99 \<Longrightarrow> 0 \<le> n \<Longrightarrow> n \<le> 99 \<Longrightarrow> pad2 m @ u < pad2 n @ v \<longleftrightarrow> m < n \<or> m = n \<and> u < v"
  using two_digits [of m] two_digits [of n] by (intro less_fixed) simp_all

definition four_digit_year :: "int \<Rightarrow> bool" where
  "four_digit_year d \<longleftrightarrow> 1001 \<le> year_of d \<and> year_of d \<le> 9998"

text \<open>The Thursday of a day's week.\<close>

definition thursday :: "int \<Rightarrow> int" where
  "thursday d = 7 * ((d + 3) div 7)"

lemma year_of_mono: "d \<le> e \<Longrightarrow> year_of d \<le> year_of e"
  using parts_ordered [of d e] by (cases "d = e") auto

lemma iso_week_shape:
  "isoWeekKey (year_of d) (month_of d + 1) (date_of d) =
     int_str (year_of (thursday d)) @ ''-W'' @ pad2 ((thursday d - year_start (year_of (thursday d))) div 7 + 1)"
proof -
  have "d + (4 - (if weekday d = 0 then 7 else weekday d)) = thursday d"
  proof -
    have "d + 4 = 7 * ((d + 4) div 7) + weekday d" by (simp add: weekday_def)
    moreover have "(d + 3) div 7 = (if weekday d = 0 then (d + 4) div 7 - 1 else (d + 4) div 7)"
      using div_step [of 7 "d + 3"] by (simp add: weekday_def add.commute)
    ultimately show ?thesis unfolding thursday_def by (simp split: if_splits)
  qed
  moreover have "make_day (year_of d) (month_of d + 1 - 1) (date_of d) = d" using make_day_parts [of d] by simp
  moreover have "make_day y 0 1 = year_start y" for y by (simp add: make_day_def)
  ultimately show ?thesis by (simp add: isoWeekKey_def Let_def)
qed

lemma week_number:
  assumes "year_start y \<le> t" "t < year_start (y + 1)"
  shows "1 \<le> (t - year_start y) div 7 + 1" "(t - year_start y) div 7 + 1 \<le> 99"
proof -
  have "t - year_start y \<le> 365" using assms year_start_next [of y] year_length_bounds(2) [of y] by simp
  then have "(t - year_start y) div 7 \<le> 365 div 7" by (rule zdiv_mono1) simp
  then show "(t - year_start y) div 7 + 1 \<le> 99" by simp
  show "1 \<le> (t - year_start y) div 7 + 1" using assms(1) by (simp add: pos_imp_zdiv_nonneg_iff)
qed

lemma thursday_near: "thursday d - 3 \<le> d" "d \<le> thursday d + 3"
  using div_bounds [of 7 "d + 3"] by (simp_all add: thursday_def)

lemma year_step: "d \<le> e \<Longrightarrow> e \<le> d + 3 \<Longrightarrow> year_of e \<le> year_of d + 1"
  using year_of_bounds(2) [of d] year_of_unique [of "year_of d" e] year_of_unique [of "year_of d + 1" e]
    year_start_next [of "year_of d + 1"] year_length_bounds(1) [of "year_of d + 1"] year_of_bounds(1) [of d]
  by (cases "e < year_start (year_of d + 1)") (auto simp: add.assoc)

lemma thursday_year:
  assumes "four_digit_year d"
  shows "1000 \<le> year_of (thursday d)" "year_of (thursday d) \<le> 9999"
proof (atomize (full), cases "d \<le> thursday d")
  case True
  then show "1000 \<le> year_of (thursday d) \<and> year_of (thursday d) \<le> 9999"
    using assms year_step [of d "thursday d"] year_of_mono [of d "thursday d"] thursday_near [of d] by (simp add: four_digit_year_def)
next
  case False
  then show "1000 \<le> year_of (thursday d) \<and> year_of (thursday d) \<le> 9999"
    using assms year_step [of "thursday d" d] year_of_mono [of "thursday d" d] thursday_near [of d] by (simp add: four_digit_year_def)
qed

lemma key_less:
  assumes "four_digit_year d" "four_digit_year e" "period_index p d < period_index p e"
  shows "periodKey d p < periodKey e p"
proof -
  have y: "1000 \<le> year_of d" "year_of d \<le> 9999" "1000 \<le> year_of e" "year_of e \<le> 9999"
    using assms(1,2) by (simp_all add: four_digit_year_def)
  have m: "0 \<le> month_of x + 1" "month_of x + 1 \<le> 99" "0 \<le> date_of x" "date_of x \<le> 99" for x
    using month_of_bounds(1,2) [of x] date_of_bounds [of x] by simp_all
  show ?thesis
  proof (cases p)
    case Day
    with assms(3) have "d < e" by simp
    from parts_ordered [OF this] Day y m show ?thesis
      using less_pad2 [of "date_of d" "date_of e" "[]" "[]"] by (auto simp: periodKey_def Let_def less_year less_pad2)
  next
    case Week
    with assms(3) have w: "thursday d + 7 \<le> thursday e" by (simp add: thursday_def)
    let ?y = "\<lambda>x. year_of (thursday x)" and ?w = "\<lambda>x. (thursday x - year_start (year_of (thursday x))) div 7 + 1"
    have ord: "?y d < ?y e \<or> ?y d = ?y e \<and> ?w d < ?w e"
    proof (cases "?y d = ?y e")
      case True
      have "(thursday d - year_start (?y d)) div 7 + 1 = (thursday d - year_start (?y d) + 7) div 7" by simp
      also have "\<dots> \<le> (thursday e - year_start (?y e)) div 7" using w True by (intro zdiv_mono1) simp_all
      finally show ?thesis using True by simp
    qed (use year_of_mono [of "thursday d" "thursday e"] w in simp)
    have b: "0 \<le> ?w x" "?w x \<le> 99" for x
      using week_number [OF year_of_bounds [of "thursday x"]] by simp_all
    have "periodKey x Week = int_str (?y x) @ ''-W'' @ pad2 (?w x) @ []" for x
      by (simp add: periodKey_def Let_def iso_week_shape)
    then show ?thesis
      using ord thursday_year [OF assms(1)] thursday_year [OF assms(2)] less_pad2 [OF b(1) [of d] b(2) [of d] b(1) [of e] b(2) [of e], of "[]" "[]"]
      unfolding Week by (auto simp: less_year)
  next
    case Month
    have "year_of d < year_of e \<or> year_of d = year_of e \<and> month_of d < month_of e"
      using assms(3) Month month_of_bounds(1,2) [of d] month_of_bounds(1,2) [of e] by auto
    with Month y m show ?thesis
      using less_pad2 [of "month_of d + 1" "month_of e + 1" "[]" "[]"] by (auto simp: periodKey_def Let_def less_year)
  next
    case Year
    with assms(3) y show ?thesis
      using less_year [of "year_of d" "year_of e" "[]" "[]"] by (simp add: periodKey_def Let_def)
  qed
qed

lemma key_eq:
  assumes "period_index p d = period_index p e"
  shows "periodKey d p = periodKey e p"
proof (cases p)
  case Week
  with assms have "thursday d = thursday e" by (simp add: thursday_def)
  with Week show ?thesis by (simp add: periodKey_def Let_def iso_week_shape)
next
  case Month
  with assms have e: "12 * year_of d + month_of d = 12 * year_of e + month_of e" by simp
  then have "year_of d = year_of e"
    using month_of_bounds(1,2) [of d] month_of_bounds(1,2) [of e] by presburger
  with e have "year_of d = year_of e" "month_of d = month_of e" by simp_all
  with Month show ?thesis by (simp add: periodKey_def Let_def)
qed (use assms in \<open>simp_all add: periodKey_def Let_def\<close>)

lemma key_order:
  assumes "four_digit_year d" "four_digit_year e"
  shows "periodKey d p < periodKey e p \<longleftrightarrow> period_index p d < period_index p e"
    "periodKey d p = periodKey e p \<longleftrightarrow> period_index p d = period_index p e"
  using key_less [OF assms] key_less [OF assms(2,1)] key_eq [of p d e]
  by (metis less_asym less_irrefl linorder_cases)+

text \<open>The first elements of a descending list are those with few greater ones.\<close>

lemma take_descending:
  fixes ys :: "'a :: linorder list"
  assumes "sorted_wrt (>) ys" and "k \<in> set ys"
  shows "k \<in> set (take n ys) \<longleftrightarrow> card {x \<in> set ys. k < x} < n"
  using assms
proof (induction ys arbitrary: n)
  case (Cons y ys)
  show ?case
  proof (cases "k = y")
    case True
    with Cons.prems have "{x \<in> set (y # ys). k < x} = {}" by auto
    then have "card {x \<in> set (y # ys). k < x} = 0" by (simp only: card.empty)
    then show ?thesis using True by (cases n) (simp_all only: take_Suc_Cons take_0, simp_all)
  next
    case False
    with Cons.prems have k: "k \<in> set ys" "k < y" by auto
    then have "{x \<in> set (y # ys). k < x} = insert y {x \<in> set ys. k < x}" by auto
    moreover have "y \<notin> set ys" using Cons.prems(1) by auto
    ultimately have "card {x \<in> set (y # ys). k < x} = Suc (card {x \<in> set ys. k < x})" by simp
    with Cons.IH [OF _ k(1), of "n - 1"] Cons.prems(1) False show ?thesis by (cases n) auto
  qed
qed simp

lemma descending_keys: "distinct xs \<Longrightarrow> sorted_wrt (>) (rev (sort xs))" for xs :: "'a :: linorder list"
  by (simp add: sorted_wrt_rev strict_sorted_iff)

lemma card_same_kernel:
  assumes "\<And>x y. x \<in> A \<Longrightarrow> y \<in> A \<Longrightarrow> f x = f y \<longleftrightarrow> g x = g y"
  shows "card (f ` A) = card (g ` A)"
proof -
  let ?h = "\<lambda>y. f (inv_into A g y)"
  have h: "?h (g x) = f x" if "x \<in> A" for x
    using assms [of "inv_into A g (g x)" x] that inv_into_into [of "g x" g A] f_inv_into_f [of "g x" g A] by auto
  then have "?h ` (g ` A) = f ` A" by force
  moreover have "inj_on ?h (g ` A)"
  proof (rule inj_onI)
    fix u v assume "u \<in> g ` A" "v \<in> g ` A" "?h u = ?h v"
    then obtain x y where "x \<in> A" "u = g x" "y \<in> A" "v = g y" "f x = f y" using h by auto
    with assms show "u = v" by blast
  qed
  ultimately show ?thesis using card_image by metis
qed

text \<open>With four-digit years a retention tier of \<open>n\<close> periods selects a newest backup of each period that fewer
  than \<open>n\<close> of the periods present are more recent than, and nothing else.\<close>

theorem period_tier_newest:
  assumes year: "\<forall>c \<in> set cs. four_digit_year (localDay (bk_createdAt c))"
    and idx: "idx = (\<lambda>c. period_index p (localDay (bk_createdAt c)))"
  shows "\<exists>S \<subseteq> set cs. set (selectPeriodTier localDay cs p n) = bk_id ` S \<and>
           (\<forall>d \<in> S. \<forall>e \<in> set cs. idx e = idx d \<longrightarrow> bk_createdAt e \<le> bk_createdAt d) \<and>
           (\<forall>c \<in> set cs. (\<exists>d \<in> S. idx d = idx c) \<longleftrightarrow> int (card {i \<in> idx ` set cs. idx c < i}) < n)"
proof -
  define key where "key c = periodKey (localDay (bk_createdAt c)) p" for c :: backup_row
  define m where "m = newest_by_bucket (\<lambda>t. periodKey (localDay t) p) cs"
  define taken where "taken = set (take (nat n) (rev (sort (map fst m))))"
  define pick where "pick k = the (map_of m k)" for k
  have m: "newest_in (\<lambda>t. periodKey (localDay t) p) cs m" unfolding m_def by (rule newest_by_bucket_spec)
  have ord: "key c < key d \<longleftrightarrow> idx c < idx d" "key c = key d \<longleftrightarrow> idx c = idx d" if "c \<in> set cs" "d \<in> set cs" for c d
    using year that key_order by (simp_all add: key_def idx)
  have keys: "fst ` set m = key ` set cs" using m by (auto simp: newest_in_def key_def)
  have pick: "pick k \<in> set cs \<and> key (pick k) = k \<and> (\<forall>e \<in> set cs. key e = k \<longrightarrow> bk_createdAt e \<le> bk_createdAt (pick k))"
    if "k \<in> key ` set cs" for k
  proof -
    from that keys obtain c where "map_of m k = Some c" by (metis map_of_eq_None_iff option.exhaust)
    moreover from this m have "c \<in> set cs \<and> key c = k \<and> (\<forall>e \<in> set cs. key e = k \<longrightarrow> bk_createdAt e \<le> bk_createdAt c)"
      unfolding newest_in_def key_def by blast
    ultimately show ?thesis by (simp add: pick_def)
  qed
  have sub: "taken \<subseteq> key ` set cs"
    using set_take_subset [of "nat n" "rev (sort (map fst m))"] keys by (simp add: taken_def)
  have taken: "key c \<in> taken \<longleftrightarrow> int (card {i \<in> idx ` set cs. idx c < i}) < n" if c: "c \<in> set cs" for c
  proof -
    have "key c \<in> taken \<longleftrightarrow> card {x \<in> key ` set cs. key c < x} < nat n"
      using take_descending [OF descending_keys [of "map fst m"], of "key c" "nat n"] m keys c
      by (simp add: taken_def newest_in_def)
    also have "card {x \<in> key ` set cs. key c < x} = card {i \<in> idx ` set cs. idx c < i}"
    proof -
      have "{x \<in> key ` set cs. key c < x} = key ` {e \<in> set cs. idx c < idx e}" using ord c by auto
      moreover have "{i \<in> idx ` set cs. idx c < i} = idx ` {e \<in> set cs. idx c < idx e}" by auto
      moreover have "card (key ` {e \<in> set cs. idx c < idx e}) = card (idx ` {e \<in> set cs. idx c < idx e})"
        by (rule card_same_kernel) (use ord in auto)
      ultimately show ?thesis by simp
    qed
    finally show ?thesis by linarith
  qed
  have sel: "set (selectPeriodTier localDay cs p n) = bk_id ` pick ` taken"
    unfolding period_tier_set by (simp add: m_def taken_def pick_def [abs_def])
  have sub_cs: "pick ` taken \<subseteq> set cs" using pick sub by blast
  have newest: "bk_createdAt e \<le> bk_createdAt d" if "d \<in> pick ` taken" "e \<in> set cs" "idx e = idx d" for d e
    using that pick sub ord by (metis (no_types, lifting) image_iff subsetD)
  have iff: "(\<exists>d \<in> pick ` taken. idx d = idx c) \<longleftrightarrow> int (card {i \<in> idx ` set cs. idx c < i}) < n" if c: "c \<in> set cs" for c
  proof -
    have "(\<exists>d \<in> pick ` taken. idx d = idx c) \<longleftrightarrow> key c \<in> taken"
    proof
      assume "\<exists>d \<in> pick ` taken. idx d = idx c"
      then obtain k where k: "k \<in> taken" "idx (pick k) = idx c" by auto
      then have "pick k \<in> set cs" "key (pick k) = k" using pick sub by auto
      with k c ord(2) show "key c \<in> taken" by metis
    next
      assume "key c \<in> taken"
      moreover have "idx (pick (key c)) = idx c" using pick [of "key c"] c ord(2) by auto
      ultimately show "\<exists>d \<in> pick ` taken. idx d = idx c" by blast
    qed
    with taken [OF c] show ?thesis by simp
  qed
  show ?thesis
    by (intro exI [of _ "pick ` taken"] conjI ballI impI sel sub_cs iff; (rule newest; assumption)?)
qed

section \<open>An example\<close>

definition sample_backup :: "string \<Rightarrow> int \<Rightarrow> backup_row" where
  "sample_backup i day =
     \<lparr>bk_id = i, bk_filename = i, bk_size = 10, bk_type = ScheduledBackup, bk_status = BackupCompleted, bk_error = None,
      bk_storageType = ''none'', bk_storagePath = [], bk_progress = 100, bk_duration = None, bk_createdAt = day,
      bk_completedAt = None, bk_isPinned = False, bk_lastRotationError = None, bk_databaseId = ''d''\<rparr>"

definition sample_policy :: "int option \<Rightarrow> retention_policy" where
  "sample_policy cap =
     \<lparr>rp_keepLast = 1, rp_daily = 0, rp_weekly = 0, rp_monthly = 0, rp_yearly = 0, rp_minFloor = 2, rp_maxTotalBytes = cap,
      rp_preset = ''custom'', rp_source = ''override'', rp_autoApplied = False\<rparr>"

definition sample_days :: "backup_row list" where
  "sample_days = [sample_backup ''a'' 1, sample_backup ''b'' 2, sample_backup ''c'' 3]"

theorem period_tier_newest_witness:
  "\<exists>S \<subseteq> set sample_days. set (selectPeriodTier (\<lambda>t. t) sample_days Day 2) = bk_id ` S \<and>
     (\<forall>d \<in> S. \<forall>e \<in> set sample_days. bk_createdAt e = bk_createdAt d \<longrightarrow> bk_createdAt e \<le> bk_createdAt d) \<and>
     (\<forall>c \<in> set sample_days. (\<exists>d \<in> S. bk_createdAt d = bk_createdAt c) \<longleftrightarrow>
        int (card {i \<in> bk_createdAt ` set sample_days. bk_createdAt c < i}) < 2)"
proof -
  have "year_of 1 = 1970" "year_of 2 = 1970" "year_of 3 = 1970" by code_simp+
  then have "\<forall>c \<in> set sample_days. four_digit_year (bk_createdAt c)"
    by (simp add: sample_days_def sample_backup_def four_digit_year_def)
  from period_tier_newest [OF this refl, of Day 2] show ?thesis by simp
qed

theorem size_cap_met_or_floor_witness:
  "keep_decision (\<lambda>t. t) (sample_policy (Some 15)) sample_days [] = ([''c'', ''b''], True) \<and>
     15 < sum_list (map bk_size (filter (\<lambda>c. bk_id c \<in> set [''c'', ''b'']) sample_days))"
proof -
  have run: "keep_decision (\<lambda>t. t) (sample_policy (Some 15)) sample_days [] = ([''c'', ''b''], True)" by code_simp
  have "distinct (map bk_id sample_days)" by code_simp
  moreover have "rp_maxTotalBytes (sample_policy (Some 15)) = Some 15" by (simp add: sample_policy_def)
  ultimately show ?thesis
    using size_cap_met_or_floor [OF _ _ run] run by simp
qed

section \<open>What a rotation deletes\<close>

definition without_error :: "backup_row \<Rightarrow> backup_row" where
  "without_error b = b\<lparr>bk_lastRotationError := None\<rparr>"

text \<open>Some of the rows with the given ids are gone, the others are as before up to the recorded error.\<close>

definition rows_after :: "ident set \<Rightarrow> backup_row list \<Rightarrow> backup_row list \<Rightarrow> bool" where
  "rows_after P old new \<longleftrightarrow> (\<exists>Q \<subseteq> P. map without_error new = map without_error (filter (\<lambda>b. bk_id b \<notin> Q) old))"

lemma without_error_simps [simp]:
  "bk_id (without_error b) = bk_id b" "bk_databaseId (without_error b) = bk_databaseId b" "bk_status (without_error b) = bk_status b"
  "without_error (b\<lparr>bk_lastRotationError := e\<rparr>) = without_error b"
  by (simp_all add: without_error_def)

lemma rows_after_refl: "rows_after P old old"
  unfolding rows_after_def by (intro exI [of _ "{}"]) simp

lemma rows_after_update:
  "rows_after P old new \<Longrightarrow> (\<And>r. without_error (f r) = without_error r) \<Longrightarrow> rows_after P old (map f new)"
  by (auto simp: rows_after_def comp_def)

lemma rows_after_drop:
  assumes "rows_after P old new" and "i \<in> P"
  shows "rows_after P old (filter (\<lambda>b. bk_id b \<noteq> i) new)"
proof -
  from assms(1) obtain Q where Q: "Q \<subseteq> P" "map without_error new = map without_error (filter (\<lambda>b. bk_id b \<notin> Q) old)"
    by (auto simp: rows_after_def)
  have swap: "map without_error (filter (\<lambda>b. bk_id b \<noteq> i) xs) = filter (\<lambda>b. bk_id b \<noteq> i) (map without_error xs)" for xs
    by (induction xs) auto
  have "map without_error (filter (\<lambda>b. bk_id b \<noteq> i) new) =
      map without_error (filter (\<lambda>b. bk_id b \<noteq> i) (filter (\<lambda>b. bk_id b \<notin> Q) old))" by (simp only: swap Q(2))
  also have "\<dots> = map without_error (filter (\<lambda>b. bk_id b \<notin> insert i Q) old)" by (simp add: conj_commute)
  finally show ?thesis using Q(1) assms(2) unfolding rows_after_def by (intro exI [of _ "insert i Q"]) simp
qed

lemma keeps_artifact: "keeps bu_backups (deleteBackupArtifact bh b d srv)"
  unfolding deleteBackupArtifact_def delete_local_file_def delete_spaces_object_def Let_def
  by (intro keeps_intros) simp_all

lemma keeps_with_storage: "keeps bu_backups (with_storage i)"
  unfolding with_storage_def by (intro keeps_intros)

lemma prune_preserves:
  assumes "i \<in> P"
  shows "preserves (\<lambda>s. rows_after P old (bu_backups s)) (pruneBackup bh i)"
  unfolding pruneBackup_def
proof (rule preserves_andThen)
  show "preserves (\<lambda>s. rows_after P old (bu_backups s)) (with_storage i)"
    by (rule preserves_keeps [OF keeps_with_storage]) simp
  fix found
  have "preserves (\<lambda>s. rows_after P old (bu_backups s)) (deleteBackupArtifact bh b d srv)" for b d srv
    by (rule preserves_keeps [OF keeps_artifact]) simp
  moreover have "preserves (\<lambda>s. rows_after P old (bu_backups s)) (drop_backup i)"
    unfolding drop_backup_def using assms by (intro preserves_intros) (simp add: rows_after_drop)
  moreover have "preserves (\<lambda>s. rows_after P old (bu_backups s)) (set_backup i (\<lambda>r. r\<lparr>bk_lastRotationError := e\<rparr>))" for e
    unfolding set_backup_def update_row_def by (intro preserves_intros) (simp add: rows_after_update)
  ultimately show "preserves (\<lambda>s. rows_after P old (bu_backups s))
      (case found of None \<Rightarrow> ret None
       | Some (b, d, srv) \<Rightarrow>
           andThen (deleteBackupArtifact bh b d srv) (\<lambda>result.
             case result of
               Some error \<Rightarrow> andThen (set_backup i (\<lambda>r. r\<lparr>bk_lastRotationError := Some error\<rparr>)) (\<lambda>_. ret (Some error))
             | None \<Rightarrow> andThen (drop_backup i) (\<lambda>_. ret None)))"
    by (auto intro!: preserves_intros split: option.split prod.split)
qed

lemma prune_each_preserves:
  "bk_id ` set cs \<subseteq> P \<Longrightarrow> preserves (\<lambda>s. rows_after P old (bu_backups s)) (prune_each bh cs p)"
  by (induction cs arbitrary: p) (auto intro!: preserves_intros prune_preserves)

lemma notice_preserves: "preserves (\<lambda>s. rows_after P old (bu_backups s)) (rotation_notice i errors)"
  unfolding rotation_notice_def by (intro preserves_intros) simp

lemma prune_list_preserves:
  assumes "bk_id ` set pruneList \<subseteq> P"
  shows "preserves (\<lambda>s. rows_after P old (bu_backups s)) (prune_list bh i trigger keepList pruneList capped)"
  unfolding prune_list_def Let_def
  by (intro preserves_intros prune_each_preserves notice_preserves assms) (auto intro!: rows_after_update)

definition completed_count :: "ident \<Rightarrow> backup_row list \<Rightarrow> int" where
  "completed_count i bs = int (length (filter (\<lambda>b. bk_databaseId b = i \<and> bk_status b = BackupCompleted) bs))"

lemma completed_split:
  "completed_count i bs = int (length (filter (exempt_backup i) bs)) + int (length (filter (prunable i) bs))"
  by (induction bs) (auto simp: completed_count_def exempt_backup_def prunable_def, (metis backup_type.exhaust)+)

lemma completed_without_error: "completed_count i (map without_error bs) = completed_count i bs"
  by (simp add: completed_count_def comp_def)

lemma completed_left:
  assumes "distinct (map bk_id bs)" and "distinct keep" and "set keep \<subseteq> bk_id ` set (filter (prunable i) bs)"
    and "\<And>b. b \<in> set bs \<Longrightarrow> bk_id b \<in> Q \<Longrightarrow> prunable i b \<and> bk_id b \<notin> set keep"
  shows "int (length (filter (exempt_backup i) bs)) + int (length keep) \<le> completed_count i (filter (\<lambda>b. bk_id b \<notin> Q) bs)"
proof -
  have "filter (exempt_backup i) (filter (\<lambda>b. bk_id b \<notin> Q) bs) = filter (exempt_backup i) bs"
    using assms(4) by (auto intro!: filter_cong simp: exempt_backup_def prunable_def)
  moreover have "length keep \<le> length (filter (prunable i) (filter (\<lambda>b. bk_id b \<notin> Q) bs))"
  proof -
    have "set keep \<subseteq> bk_id ` set (filter (prunable i) (filter (\<lambda>b. bk_id b \<notin> Q) bs))"
      using assms(3,4) by auto
    then have "card (set keep) \<le> card (bk_id ` set (filter (prunable i) (filter (\<lambda>b. bk_id b \<notin> Q) bs)))"
      by (intro card_mono) auto
    also have "\<dots> \<le> length (filter (prunable i) (filter (\<lambda>b. bk_id b \<notin> Q) bs))"
      by (rule order_trans [OF card_image_le card_length]) simp
    finally show ?thesis using assms(2) by (simp add: distinct_card)
  qed
  ultimately show ?thesis by (simp add: completed_split)
qed

text \<open>A rotation that is not skipped and no dry run is \<open>prune_list\<close> on the candidates that are not kept.\<close>

lemma rotation_rows:
  assumes run: "rotateDatabase bh databaseId opts s = (r, s')"
    and policy: "policy = (case ro_policy opts of Some p \<Rightarrow> p | None \<Rightarrow> effective_policy databaseId s)"
    and localDay: "localDay = bh_localDay bh (non_empty (ss_timezone (bu_settings s)) ''UTC'')"
    and cs: "cs = by_newest (filter (prunable databaseId) (bu_backups s))"
    and kd: "keep_decision localDay policy cs (filter (exempt_backup databaseId) (bu_backups s)) = (keep, capped)"
  shows "rows_after (bk_id ` set (filter (\<lambda>c. bk_id c \<notin> set keep) cs)) (bu_backups s) (bu_backups s') \<and>
     (ro_dryRun opts \<longrightarrow> bu_backups s' = bu_backups s)"
proof -
  let ?pruneList = "filter (\<lambda>c. bk_id c \<notin> set keep) cs" and ?keepList = "filter (\<lambda>c. bk_id c \<in> set keep) cs"
  let ?skip = "(ro_trigger opts = ''sweep'' \<or> ro_trigger opts = ''post-backup'') \<and> rp_autoApplied policy \<and> ro_policy opts = None"
  have shape: "rotateDatabase bh databaseId opts s =
    (if ?skip
     then (Inr \<lparr>rr_keep = map bk_id (filter (prunable databaseId) (bu_backups s)), rr_prune = [], rr_bytesFreed = 0,
                rr_cappedButUnreachable = None, rr_errors = None\<rparr>, s)
     else if ro_dryRun opts
     then (Inr \<lparr>rr_keep = map bk_id ?keepList, rr_prune = map bk_id ?pruneList,
                rr_bytesFreed = sum_list (map bk_size ?pruneList), rr_cappedButUnreachable = Some capped, rr_errors = None\<rparr>, s)
     else prune_list bh databaseId (ro_trigger opts) ?keepList ?pruneList capped s)"
    using kd unfolding policy localDay cs
    by (cases "ro_policy opts") (simp_all add: rotateDatabase_def resolveRetentionPolicy_def io_simps Let_def)
  show ?thesis
  proof (cases "?skip \<or> ro_dryRun opts")
    case True
    with shape run have "s' = s" by (auto split: if_splits)
    then show ?thesis by (simp add: rows_after_refl)
  next
    case False
    then have n: "\<not> ?skip" "\<not> ro_dryRun opts" by blast+
    have pruned: "prune_list bh databaseId (ro_trigger opts) ?keepList ?pruneList capped s = (r, s')"
      using shape run by (simp only: if_not_P [OF n(1)] if_not_P [OF n(2)])
    have "preserves (\<lambda>t. rows_after (bk_id ` set ?pruneList) (bu_backups s) (bu_backups t))
        (prune_list bh databaseId (ro_trigger opts) ?keepList ?pruneList capped)"
      by (rule prune_list_preserves) simp
    from preservesD [OF this _ pruned] have "rows_after (bk_id ` set ?pruneList) (bu_backups s) (bu_backups s')"
      by (simp add: rows_after_refl)
    with n(2) show ?thesis by simp
  qed
qed

lemma distinct_candidates:
  "distinct (map bk_id bs) \<Longrightarrow> distinct (map bk_id (by_newest (filter P bs)))"
proof -
  assume "distinct (map bk_id bs)"
  then have "distinct (map bk_id (filter P bs))" by (rule distinct_map_filter)
  moreover have "mset (map bk_id (by_newest (filter P bs))) = mset (map bk_id (filter P bs))" by simp
  ultimately show ?thesis using mset_eq_imp_distinct_iff by blast
qed

text \<open>C6: a rotation, whether it returns or throws, deletes only completed, scheduled, unpinned backups of its
  database, none in a dry run, never one that a retention tier selects unless there is a size cap; it
  leaves at least as many completed backups as the policy's floor or as there were, and changes nothing
  else about any backup than its recorded error.\<close>

theorem rotation_safe:
  assumes "distinct (map bk_id (bu_backups s))" and "rotateDatabase bh databaseId opts s = (r, s')"
    and "policy = (case ro_policy opts of Some p \<Rightarrow> p | None \<Rightarrow> effective_policy databaseId s)"
    and "localDay = bh_localDay bh (non_empty (ss_timezone (bu_settings s)) ''UTC'')"
  shows "\<exists>Q. map without_error (bu_backups s') = map without_error (filter (\<lambda>b. bk_id b \<notin> Q) (bu_backups s)) \<and>
           (\<forall>b \<in> set (bu_backups s). bk_id b \<in> Q \<longrightarrow> prunable databaseId b) \<and>
           (ro_dryRun opts \<longrightarrow> Q = {}) \<and>
           (rp_maxTotalBytes policy = None \<longrightarrow>
              Q \<inter> set (selectKeep localDay (by_newest (filter (prunable databaseId) (bu_backups s))) policy) = {}) \<and>
           min (rp_minFloor policy) (completed_count databaseId (bu_backups s)) \<le> completed_count databaseId (bu_backups s')"
proof -
  define bs where "bs = bu_backups s"
  define cs where "cs = by_newest (filter (prunable databaseId) bs)"
  obtain keep capped where kd: "keep_decision localDay policy cs (filter (exempt_backup databaseId) bs) = (keep, capped)" by fastforce
  have "distinct (map bk_id cs)" unfolding cs_def bs_def by (rule distinct_candidates [OF assms(1)])
  note kp = keep_decision_props [OF this kd]
  have scs: "set cs = {b \<in> set bs. prunable databaseId b}" by (simp add: cs_def)
  obtain Q where Q: "Q \<subseteq> bk_id ` set (filter (\<lambda>c. bk_id c \<notin> set keep) cs)"
      "map without_error (bu_backups s') = map without_error (filter (\<lambda>b. bk_id b \<notin> Q) bs)" "ro_dryRun opts \<longrightarrow> bu_backups s' = bs"
    using rotation_rows [OF assms(2-4), of cs keep capped] kd unfolding rows_after_def cs_def bs_def by blast
  define R where "R = (if ro_dryRun opts then {} else Q)"
  have R: "R \<subseteq> bk_id ` set (filter (\<lambda>c. bk_id c \<notin> set keep) cs)"
    "map without_error (bu_backups s') = map without_error (filter (\<lambda>b. bk_id b \<notin> R) bs)"
    using Q by (auto simp: R_def)
  have victim: "prunable databaseId b \<and> bk_id b \<notin> set keep" if "b \<in> set bs" "bk_id b \<in> R" for b
  proof -
    from that(2) R(1) obtain c where "c \<in> set bs" "prunable databaseId c" "bk_id c \<notin> set keep" "bk_id c = bk_id b"
      using scs by auto
    with that(1) assms(1) show ?thesis by (auto simp: bs_def distinct_map dest!: inj_onD)
  qed
  have after: "completed_count databaseId (bu_backups s') = completed_count databaseId (filter (\<lambda>b. bk_id b \<notin> R) bs)"
    by (metis R(2) completed_without_error)
  have "min (rp_minFloor policy) (completed_count databaseId bs) \<le> completed_count databaseId (bu_backups s')"
  proof (cases "set keep = bk_id ` set cs")
    case True
    with R(1) have "R = {}" by auto
    then show ?thesis using after by simp
  next
    case False
    with kp(3) have "rp_minFloor policy \<le> int (length (filter (exempt_backup databaseId) bs)) + int (length keep)" by simp
    also have "\<dots> \<le> completed_count databaseId (filter (\<lambda>b. bk_id b \<notin> R) bs)"
      by (rule completed_left [OF _ kp(1)]) (use assms(1) kp(2) scs victim in \<open>auto simp: bs_def\<close>)
    finally show ?thesis using after by simp
  qed
  moreover have "R \<inter> set (selectKeep localDay cs policy) = {}" if "rp_maxTotalBytes policy = None"
    using R(1) kp(4) that by auto
  ultimately show ?thesis
    using R(2) victim by (intro exI [of _ R]) (auto simp: bs_def cs_def R_def)
qed


text \<open>Three daily backups, one recent to keep and a floor of two: the oldest goes.\<close>

definition sample_backup_host :: "unit backup_host" where
  "sample_backup_host =
     \<lparr>bh_host = quiet_host, bh_credentials = (\<lambda>_ w. (Inr None, w)), bh_spacesConfig = (\<lambda>_ w. (Inr False, w)),
      bh_deleteObject = (\<lambda>_ _ _ w. (None, w)), bh_localDay = (\<lambda>_ t. t)\<rparr>"

definition sample_backup_db :: "unit backup_db" where
  "sample_backup_db =
     \<lparr>db_world = (), db_ops = [], db_servers = [], db_services = [], db_sds = [], db_images = [], db_digests = [],
      db_imageHistory = [], db_deployments = [], db_artifacts = [], db_autoManageCompose = [], db_defaultLogLines = 0,
      db_events = [], bu_backups = sample_days,
      bu_databases = [\<lparr>da_id = ''d'', da_name = ''d'', da_environmentId = ''e'', da_serverId = None, da_spacesBucket = None,
                        da_pgDumpTimeoutMs = 0, da_type = ''sqlite'', da_host = None, da_port = None, da_databaseName = None,
                        da_encryptedCredentials = None, da_credentialsNonce = None, da_filePath = None,
                        da_backupCommand = None, da_backupStorageType = ''local'', da_backupLocalPath = None,
                        da_spacesPrefix = None, da_backupFormat = ''plain'', da_backupCompression = ''none'',
                        da_backupCompressionLevel = 6, da_pgDumpOptions = None\<rparr>],
      bu_policies = [],
      bu_settings = \<lparr>ss_timezone = ''UTC'', ss_retention = sample_policy None, ss_failedBackupRetentionDays = 3, ss_pgDumpTimeoutMs = 0\<rparr>\<rparr>"

theorem rotation_safe_witness:
  "map bk_id (bu_backups (snd (rotateDatabase sample_backup_host ''d'' \<lparr>ro_dryRun = False, ro_trigger = ''sweep'', ro_policy = None\<rparr>
     sample_backup_db))) = [''b'', ''c''] \<and>
   2 \<le> completed_count ''d'' (bu_backups (snd (rotateDatabase sample_backup_host ''d''
     \<lparr>ro_dryRun = False, ro_trigger = ''sweep'', ro_policy = None\<rparr> sample_backup_db)))"
proof -
  let ?o = "\<lparr>ro_dryRun = False, ro_trigger = ''sweep'', ro_policy = None\<rparr>"
  obtain r s' where run: "rotateDatabase sample_backup_host ''d'' ?o sample_backup_db = (r, s')" by fastforce
  have "map bk_id (bu_backups (snd (rotateDatabase sample_backup_host ''d'' ?o sample_backup_db))) = [''b'', ''c'']" by code_simp
  moreover have "distinct (map bk_id (bu_backups sample_backup_db))" by code_simp
  moreover have "rp_minFloor (effective_policy ''d'' sample_backup_db) = 2" by code_simp
  moreover have "completed_count ''d'' (bu_backups sample_backup_db) = 3" by code_simp
  ultimately show ?thesis
    using rotation_safe [OF _ run, of "effective_policy ''d'' sample_backup_db"] run by auto
qed

end
