(* ===== verification/Backup_Run.thy ===== *)
theory Backup_Run
  imports Backup_Retention
begin

text \<open>
  Running backups, the rest of \<open>src/services/database-backup.ts\<close>: storing the credentials of a database, creating a
  backup row, executing it (dump, download, upload), the schedules that start backups, and downloads. The file
  system of the server process, the command clients with their exit codes, the object store and the cipher are
  parameters. An execution that \<open>createBackup\<close> starts in the background is a job in a list, run later by \<open>run_job\<close>.
  A handler that may loop forever in the computation of the next run is an option.
\<close>

section \<open>Clients\<close>

datatype backup_client = LocalShell | SshShell server_row

record exec_options =
  eo_password :: "string option"
  eo_timeout :: int

record pg_options =
  pg_noOwner :: bool
  pg_clean :: bool
  pg_ifExists :: bool
  pg_schemaOnly :: bool
  pg_dataOnly :: bool

definition no_pg_options :: pg_options where
  "no_pg_options = \<lparr>pg_noOwner = False, pg_clean = False, pg_ifExists = False, pg_schemaOnly = False, pg_dataOnly = False\<rparr>"

record 'w run_host = "'w backup_host" +
  rh_newId :: "'w \<Rightarrow> ident \<times> 'w"
  rh_connect :: "backup_client \<Rightarrow> 'w \<Rightarrow> (string + unit) \<times> 'w"
  rh_exec :: "backup_client \<Rightarrow> string \<Rightarrow> exec_options option \<Rightarrow> 'w \<Rightarrow> (string + exec_result) \<times> 'w"
  rh_disconnect :: "backup_client \<Rightarrow> 'w \<Rightarrow> (string + unit) \<times> 'w"
  rh_encrypt :: "string \<Rightarrow> 'w \<Rightarrow> (string + (string \<times> string)) \<times> 'w"
  rh_decrypt :: "string \<Rightarrow> string \<Rightarrow> 'w \<Rightarrow> (string + string) \<times> 'w"
  rh_parsePgOptions :: "string \<Rightarrow> pg_options option"
  rh_fromBase64 :: "string \<Rightarrow> string"
  rh_tmpdir :: string
  rh_readFile :: "string \<Rightarrow> 'w \<Rightarrow> (string + string) \<times> 'w"
  rh_writeFile :: "string \<Rightarrow> string \<Rightarrow> 'w \<Rightarrow> (string + unit) \<times> 'w"
  rh_unlink :: "string \<Rightarrow> 'w \<Rightarrow> (string + unit) \<times> 'w"
  rh_putObject :: "ident \<Rightarrow> string \<Rightarrow> string \<Rightarrow> string \<Rightarrow> string \<Rightarrow> 'w \<Rightarrow> (string + unit) \<times> 'w"
  rh_signedUrl :: "ident \<Rightarrow> string \<Rightarrow> string \<Rightarrow> string \<Rightarrow> 'w \<Rightarrow> (string + string) \<times> 'w"

record schedule_row =
  sch_databaseId :: ident
  sch_cronExpression :: string
  sch_retentionDays :: int
  sch_enabled :: bool
  sch_lastRunAt :: "millis option"
  sch_nextRunAt :: "millis option"

record 'w run_db = "'w backup_db" +
  rd_schedules :: "schedule_row list"
  rd_jobs :: "ident list"
  rd_downloadAllowed :: "ident list"

section \<open>Credentials\<close>

text \<open>One text of user name and password, encrypted; \<open>creds.split(':')\<close> with its first two parts.\<close>

definition credentials_text :: "string \<Rightarrow> string \<Rightarrow> string" where
  "credentials_text username password = username @ '':'' @ password"

definition credential_columns :: "'w run_host \<Rightarrow> string option \<Rightarrow> string option \<Rightarrow>
    (('w, 'z) backup_db_scheme, (string option \<times> string option) option) io" where
  "credential_columns rh username password =
     (if username = None \<or> password = None then ret None
      else if truthy username \<and> truthy password
      then andThen (on_world (rh_encrypt rh (credentials_text (the username) (the password)))) (\<lambda>(ciphertext, nonce).
           ret (Some (Some ciphertext, Some nonce)))
      else ret (Some (None, None)))"

text \<open>An array pattern that is longer than the array binds \<open>undefined\<close>, printed as such.\<close>

definition split_credentials :: "string \<Rightarrow> string \<times> string option" where
  "split_credentials creds =
     (case split_on (CHR '':'') creds of
        u # p # _ \<Rightarrow> (u, Some p)
      | [u] \<Rightarrow> (u, None)
      | [] \<Rightarrow> ([], None))"

section \<open>The dump command\<close>

definition backup_extension :: "database_row \<Rightarrow> string" where
  "backup_extension db =
     (if da_backupFormat db = ''custom'' then ''.dump'' else if da_backupFormat db = ''tar'' then ''.tar'' else ''.sql'')
   @ (if da_backupCompression db = ''gzip'' \<and> da_backupFormat db = ''plain'' then ''.gz'' else [])"

text \<open>\<open>replace(/\{\{(\w+)\}\}/g, ...)\<close> with the own keys of \<open>vars\<close>.\<close>

definition template_key :: "string \<Rightarrow> (string \<times> string) option" where
  "template_key s =
     (if take 2 s \<noteq> ''{{'' then None
      else let key = takeWhile word_char (drop 2 s); r = dropWhile word_char (drop 2 s) in
        if key \<noteq> [] \<and> take 2 r = ''}}'' then Some (key, drop 2 r) else None)"

lemma template_key_shorter: "template_key s = Some (key, r) \<Longrightarrow> length r < length s"
proof -
  assume a: "template_key s = Some (key, r)"
  then have "r = drop 2 (dropWhile word_char (drop 2 s))" "take 2 s = ''{{''"
    by (auto simp: template_key_def Let_def split: if_splits)
  moreover have "length (dropWhile word_char (drop 2 s)) \<le> length (drop 2 s)" by (rule length_dropWhile_le)
  moreover have "2 \<le> length s" using \<open>take 2 s = _\<close> by (metis length_Cons length_take list.size(3) min.absorb_iff2 min_def numeral_2_eq_2)
  ultimately show ?thesis by simp
qed

function fill_template :: "(string \<times> string) list \<Rightarrow> string \<Rightarrow> string" where
  "fill_template vars s =
     (case s of
        [] \<Rightarrow> []
      | c # cs \<Rightarrow>
          (case template_key s of
             Some (key, r) \<Rightarrow> shellEscape (nullish (map_of vars key) []) @ fill_template vars r
           | None \<Rightarrow> c # fill_template vars cs))"
  by pat_completeness auto
termination by (relation "measure (length \<circ> snd)") (auto dest: template_key_shorter)

definition template_vars :: "database_row \<Rightarrow> string \<Rightarrow> string \<Rightarrow> string \<Rightarrow> (string \<times> string) list" where
  "template_vars db username password targetPath =
     [(''host'', non_empty (nullish (da_host db) []) ''localhost''),
      (''port'', (case da_port db of None \<Rightarrow> [] | Some p \<Rightarrow> if p = 0 then [] else int_str p)),
      (''databaseName'', nullish (da_databaseName db) []), (''username'', username), (''password'', password),
      (''filePath'', nullish (da_filePath db) []), (''outputFile'', targetPath)]"

definition contains :: "string \<Rightarrow> string \<Rightarrow> bool" where
  "contains s needle \<longleftrightarrow> list_ex (\<lambda>n. take (length needle) (drop n s) = needle) [0..<Suc (length s)]"

definition pg_format_flag :: "string \<Rightarrow> string" where
  "pg_format_flag format = (if format = ''custom'' then ''-Fc'' else if format = ''tar'' then ''-Ft'' else ''-Fp'')"

definition null_text :: "string option \<Rightarrow> string" where
  "null_text v = nullish v ''null''"

definition pg_arguments :: "database_row \<Rightarrow> pg_options \<Rightarrow> string \<Rightarrow> string list" where
  "pg_arguments db pgOpts username =
     [''pg_dump'', ''--no-password'', pg_format_flag (da_backupFormat db)]
       @ (if pg_noOwner pgOpts then [''--no-owner''] else []) @ (if pg_clean pgOpts then [''--clean''] else [])
       @ (if pg_ifExists pgOpts then [''--if-exists''] else []) @ (if pg_schemaOnly pgOpts then [''--schema-only''] else [])
       @ (if pg_dataOnly pgOpts then [''--data-only''] else [])
       @ [''-h '' @ shellEscape (null_text (da_host db)), ''-p '' @ int_str (truthy_int (nullish (da_port db) 0) 5432),
          ''-U '' @ shellEscape username, ''-d '' @ shellEscape (null_text (da_databaseName db))]"

definition postgres_dump :: "database_row \<Rightarrow> pg_options \<Rightarrow> string \<Rightarrow> string \<Rightarrow> string" where
  "postgres_dump db pgOpts username targetPath =
     join_with '' '' (pg_arguments db pgOpts username @
         [if da_backupCompression db = ''gzip'' \<and> da_backupFormat db = ''plain''
          then ''| gzip -'' @ int_str (da_backupCompressionLevel db) @ '' > '' @ shellEscape targetPath
          else ''-f '' @ shellEscape targetPath])
     @ '' 2>&1''"

definition sqlite_dump :: "database_row \<Rightarrow> string \<Rightarrow> string" where
  "sqlite_dump db dumpPath =
     (let file = shellEscape (null_text (da_filePath db)) in
      ''test -f '' @ file @ '' && sqlite3 '' @ file @ '' '' @ quoted ''.dump''
      @ (if da_backupCompression db = ''gzip'' then '' | gzip -'' @ int_str (da_backupCompressionLevel db) else [])
      @ '' > '' @ shellEscape dumpPath @ '' || (echo '' @ quoted ''Database file not found:'' @ '' '' @ file @ '' >&2 && exit 1)'')"

section \<open>Execution\<close>

text \<open>What the first part of the run decides.\<close>

record dump_job =
  dj_client :: backup_client
  dj_command :: string
  dj_options :: "exec_options option"
  dj_serverTemp :: "string option"

definition dump_options :: "database_row \<Rightarrow> string option \<Rightarrow> exec_options" where
  "dump_options db password = \<lparr>eo_password = password, eo_timeout = truthy_int (da_pgDumpTimeoutMs db) 300000\<rparr>"

definition ssh_client :: "'w run_host \<Rightarrow> database_row \<Rightarrow> server_row \<Rightarrow> (('w, 'z) backup_db_scheme, backup_client) io" where
  "ssh_client rh db srv =
     andThen (on_world (bh_credentials rh (da_environmentId db))) (\<lambda>sshCreds.
     if sshCreds = None then throw ''SSH key not configured for this environment'' else ret (SshShell srv))"

definition server_client :: "'w run_host \<Rightarrow> database_row \<Rightarrow> server_row \<Rightarrow> (('w, 'z) backup_db_scheme, backup_client) io" where
  "server_client rh db srv = (if isLocalhost (srv_hostname srv) then ret LocalShell else ssh_client rh db srv)"

definition plan_dump :: "'w run_host \<Rightarrow> backup_row \<Rightarrow> database_row \<Rightarrow> server_row option \<Rightarrow> string \<Rightarrow> bool
    \<Rightarrow> (('w, 'z) backup_db_scheme, dump_job) io" where
  "plan_dump rh backup db server targetPath useSpaces =
     (let pgOpts = (if truthy (da_pgDumpOptions db)
                    then nullish (rh_parsePgOptions rh (the (da_pgDumpOptions db))) no_pg_options else no_pg_options) in
      andThen (if truthy (da_encryptedCredentials db) \<and> truthy (da_credentialsNonce db)
               then andThen (on_world (rh_decrypt rh (the (da_encryptedCredentials db)) (the (da_credentialsNonce db)))) (\<lambda>creds.
                    ret (split_credentials creds))
               else ret ([], Some [])) (\<lambda>(username, password).
      if truthy (da_backupCommand db) then
        (let dumpCommand = fill_template (template_vars db username (nullish password []) targetPath) (the (da_backupCommand db));
             options = (if truthy password \<and>
                           (da_type db = ''postgres'' \<or> contains dumpCommand ''pg_dump'' \<or> contains dumpCommand ''psql'')
                        then Some (dump_options db password) else None) in
         andThen (case server of Some srv \<Rightarrow> server_client rh db srv | None \<Rightarrow> ret LocalShell) (\<lambda>client.
         ret \<lparr>dj_client = client, dj_command = dumpCommand, dj_options = options, dj_serverTemp = None\<rparr>))
      else if da_type db = ''postgres'' \<and> truthy (da_host db) then
        ret \<lparr>dj_client = LocalShell, dj_command = postgres_dump db pgOpts username targetPath,
             dj_options = Some (dump_options db password), dj_serverTemp = None\<rparr>
      else if da_type db = ''sqlite'' \<and> truthy (da_filePath db) then
        (case server of
           None \<Rightarrow> throw ''SQLite databases require a server to be configured''
         | Some srv \<Rightarrow>
             andThen (server_client rh db srv) (\<lambda>client.
             let serverTemp = (if useSpaces then Some (''/tmp/backup-'' @ bk_id backup @ backup_extension db) else None) in
             ret \<lparr>dj_client = client, dj_command = sqlite_dump db (nullish serverTemp targetPath), dj_options = None,
                  dj_serverTemp = serverTemp\<rparr>))
      else throw (''Unsupported database type or missing configuration: '' @ da_type db)))"

text \<open>\<open>targetPath.substring(0, targetPath.lastIndexOf('/'))\<close>.\<close>

definition directory_of :: "string \<Rightarrow> string" where
  "directory_of path =
     (if CHR ''/'' \<in> set path then rev (drop 1 (dropWhile (\<lambda>c. c \<noteq> CHR ''/'') (rev path))) else [])"

definition run_command :: "'w run_host \<Rightarrow> backup_client \<Rightarrow> string \<Rightarrow> exec_options option \<Rightarrow> (('w, 'z) backup_db_scheme, exec_result) io" where
  "run_command rh client command options = on_world (rh_exec rh client command options)"

definition set_progress :: "ident \<Rightarrow> nat \<Rightarrow> (('w, 'z) backup_db_scheme, unit) io" where
  "set_progress i n = set_backup i (\<lambda>r. r\<lparr>bk_progress := n\<rparr>)"

definition int_or_zero :: "js_num \<Rightarrow> int" where
  "int_or_zero n = (case n of Num q \<Rightarrow> \<lfloor>q\<rfloor> | _ \<Rightarrow> 0)"

definition fetch_dump :: "'w run_host \<Rightarrow> dump_job \<Rightarrow> string \<Rightarrow> (('w, 'z) backup_db_scheme, unit) io" where
  "fetch_dump rh job tempPath =
     (case dj_serverTemp job of
        None \<Rightarrow> ret ()
      | Some serverTemp \<Rightarrow>
          if dj_client job = LocalShell \<and> serverTemp = tempPath then ret ()
          else andThen (run_command rh (dj_client job) (''cat '' @ shellEscape serverTemp @ '' | base64'') None) (\<lambda>downloadResult.
            if ex_code downloadResult \<noteq> 0 then throw (''Failed to download backup from server: '' @ ex_stderr downloadResult)
            else andThen (on_world (rh_writeFile rh tempPath (rh_fromBase64 rh (js_trim (ex_stdout downloadResult))))) (\<lambda>_.
              andThen (run_command rh (dj_client job) (''rm -f '' @ shellEscape serverTemp) None) (\<lambda>_. ret ()))))"

text \<open>The step \<open>dump\<close>: a failing dump command is an error of its own, everything else that fails is thrown.\<close>

definition dump_step :: "'w run_host \<Rightarrow> ident \<Rightarrow> dump_job \<Rightarrow> string \<Rightarrow> string option \<Rightarrow> (('w, 'z) backup_db_scheme, backup_error + int) io" where
  "dump_step rh backupId job targetPath tempPath =
     andThen (set_progress backupId 30) (\<lambda>_.
     andThen (if tempPath = None
              then andThen (run_command rh (dj_client job) (''mkdir -p '' @ shellEscape (directory_of targetPath)) None) (\<lambda>_. ret ())
              else ret ()) (\<lambda>_.
     andThen (run_command rh (dj_client job) (dj_command job) (dj_options job)) (\<lambda>result.
     if ex_code result \<noteq> 0 then
       (let errorOutput = non_empty (ex_stdout result) (non_empty (ex_stderr result) ''Backup command failed (no output)'') in
        ret (Inl \<lparr>be_message = errorOutput, be_step = ''dump'', be_stderr = Some errorOutput, be_exitCode = Some (ex_code result)\<rparr>))
     else
       andThen (set_progress backupId 70) (\<lambda>_.
       let path = shellEscape (nullish (dj_serverTemp job) targetPath) in
       andThen (run_command rh (dj_client job) (''stat -c %s '' @ path @ '' 2>/dev/null || stat -f %z '' @ path) None) (\<lambda>sizeResult.
       andThen (case tempPath of None \<Rightarrow> ret () | Some t \<Rightarrow> fetch_dump rh job t) (\<lambda>_.
       andThen (on_world (rh_disconnect rh (dj_client job))) (\<lambda>_.
       ret (Inr (int_or_zero (parse_int (js_trim (ex_stdout sizeResult))))))))))))"

definition content_type :: "database_row \<Rightarrow> string" where
  "content_type db =
     (if da_backupFormat db = ''custom'' then ''application/octet-stream''
      else if da_backupFormat db = ''tar'' then ''application/x-tar''
      else if da_backupCompression db = ''gzip'' then ''application/gzip'' else ''application/sql'')"

definition upload_step :: "'w run_host \<Rightarrow> backup_row \<Rightarrow> database_row \<Rightarrow> string \<Rightarrow> (('w, 'z) backup_db_scheme, unit) io" where
  "upload_step rh backup db tempPath =
     andThen (set_progress (bk_id backup) 80) (\<lambda>_.
     andThen (on_world (bh_spacesConfig rh (da_environmentId db))) (\<lambda>spacesConfig.
     if \<not> spacesConfig then throw ''Spaces not configured for this environment. Go to Settings > Spaces to configure.''
     else if \<not> truthy (da_spacesBucket db) then throw ''No Spaces bucket configured for this database''
     else
       andThen (on_world (rh_readFile rh tempPath)) (\<lambda>fileContent.
       andThen (on_world (rh_putObject rh (da_environmentId db) (the (da_spacesBucket db)) (bk_storagePath backup) fileContent (content_type db))) (\<lambda>_.
       andThen (trap (on_world (rh_unlink rh tempPath))) (\<lambda>_. ret ())))))"

text \<open>\<open>currentStep\<close>: what is thrown in a part of the run becomes an error of that step.\<close>

definition in_step :: "string \<Rightarrow> ('s, 'a) io \<Rightarrow> ('s, backup_error + 'a) io" where
  "in_step step m =
     catching (andThen m (\<lambda>x. ret (Inr x)))
       (\<lambda>e. ret (Inl \<lparr>be_message = e, be_step = step, be_stderr = None, be_exitCode = None\<rparr>))"

definition or_error :: "('s, backup_error + 'a) io \<Rightarrow> ('a \<Rightarrow> ('s, backup_error + 'b) io) \<Rightarrow> ('s, backup_error + 'b) io" where
  "or_error m f = andThen m (\<lambda>r. case r of Inl e \<Rightarrow> ret (Inl e) | Inr x \<Rightarrow> f x)"

definition backup_body :: "'w run_host \<Rightarrow> backup_row \<Rightarrow> database_row \<Rightarrow> server_row option \<Rightarrow> string \<Rightarrow> string option
    \<Rightarrow> (('w, 'z) backup_db_scheme, backup_error + int) io" where
  "backup_body rh backup db server targetPath tempPath =
     or_error (in_step ''connect''
         (andThen (plan_dump rh backup db server targetPath (tempPath \<noteq> None)) (\<lambda>job.
          andThen (on_world (rh_connect rh (dj_client job))) (\<lambda>_. ret job)))) (\<lambda>job.
     or_error (in_step ''dump'' (dump_step rh (bk_id backup) job targetPath tempPath)) (\<lambda>dumped.
     case dumped of
       Inl e \<Rightarrow> ret (Inl e)
     | Inr bytes \<Rightarrow>
         (case tempPath of
            None \<Rightarrow> ret (Inr bytes)
          | Some t \<Rightarrow> or_error (in_step ''upload'' (upload_step rh backup db t)) (\<lambda>_. ret (Inr bytes)))))"

text \<open>\<open>Math.round(ms / 1000)\<close>.\<close>

definition seconds :: "int \<Rightarrow> int" where
  "seconds ms = (ms + 500) div 1000"

definition complete_backup :: "'w run_host \<Rightarrow> ident \<Rightarrow> database_row \<Rightarrow> millis \<Rightarrow> int \<Rightarrow> (('w, 'z) backup_db_scheme, unit) io" where
  "complete_backup rh backupId db startTime bytes =
     andThen (reads (now (bh_host rh))) (\<lambda>t.
     andThen (set_backup backupId (\<lambda>r. r\<lparr>bk_status := BackupCompleted, bk_size := bytes, bk_progress := 100,
                bk_duration := Some (seconds (t - startTime)), bk_completedAt := Some t\<rparr>)) (\<lambda>_.
     andThen (emit (SystemNotice ''system.backup_success'' (da_environmentId db) [(''databaseName'', Some (da_name db))])) (\<lambda>_.
     emit (Webhook ''backup.completed'' (da_environmentId db)
       [(''backupId'', Some backupId), (''databaseId'', Some (da_id db)), (''databaseName'', Some (da_name db)),
        (''success'', Some ''true''), (''status'', Some ''completed'')]))))"

definition fail_backup :: "'w run_host \<Rightarrow> ident \<Rightarrow> database_row \<Rightarrow> millis \<Rightarrow> string option \<Rightarrow> backup_error
    \<Rightarrow> (('w, 'z) backup_db_scheme, unit) io" where
  "fail_backup rh backupId db startTime tempPath e =
     andThen (case tempPath of None \<Rightarrow> ret () | Some t \<Rightarrow> andThen (trap (on_world (rh_unlink rh t))) (\<lambda>_. ret ())) (\<lambda>_.
     andThen (reads (now (bh_host rh))) (\<lambda>t.
     andThen (set_backup backupId (\<lambda>r. r\<lparr>bk_status := BackupFailed, bk_error := Some e,
                bk_duration := Some (seconds (t - startTime)), bk_completedAt := Some t\<rparr>)) (\<lambda>_.
     andThen (emit (SystemNotice ''system.backup_failed'' (da_environmentId db)
       [(''databaseName'', Some (da_name db)), (''error'', Some (be_message e)), (''step'', Some (be_step e))])) (\<lambda>_.
     andThen (emit (Webhook ''backup.failed'' (da_environmentId db)
       [(''backupId'', Some backupId), (''databaseId'', Some (da_id db)), (''databaseName'', Some (da_name db)),
        (''success'', Some ''false''), (''status'', Some ''failed''), (''error'', Some (be_message e))])) (\<lambda>_.
     throw (be_message e))))))"

definition temp_path :: "'w run_host \<Rightarrow> database_row \<Rightarrow> ident \<Rightarrow> string option" where
  "temp_path rh db backupId =
     (if da_backupStorageType db = ''spaces''
      then Some (rh_tmpdir rh @ ''/backup-'' @ backupId @ backup_extension db) else None)"

definition executeBackup :: "'w run_host \<Rightarrow> ident \<Rightarrow> (('w, 'z) backup_db_scheme, unit) io" where
  "executeBackup rh backupId =
     andThen (reads (now (bh_host rh))) (\<lambda>startTime.
     andThen (reads (backup_of backupId)) (\<lambda>found. andThen (the_row found) (\<lambda>_.
     andThen (set_backup backupId (\<lambda>r. r\<lparr>bk_status := BackupInProgress, bk_progress := 10\<rparr>)) (\<lambda>_.
     andThen (with_storage backupId) (\<lambda>row. andThen (the_row row) (\<lambda>(backup, db, server).
     let tempPath = temp_path rh db backupId;
         targetPath = nullish tempPath (bk_storagePath backup)
     in andThen (backup_body rh backup db server targetPath tempPath) (\<lambda>result.
        case result of
          Inr bytes \<Rightarrow> complete_backup rh backupId db startTime bytes
        | Inl e \<Rightarrow> fail_backup rh backupId db startTime tempPath e)))))))"

section \<open>Creating, scheduling, downloading\<close>

definition zero_pad :: "nat \<Rightarrow> int \<Rightarrow> string" where
  "zero_pad k n = replicate (k - length (int_str n)) (CHR ''0'') @ int_str n"

text \<open>\<open>new Date().toISOString().replace(/[:.]/g, '-')\<close>.\<close>

definition file_timestamp :: "millis \<Rightarrow> string" where
  "file_timestamp t =
     (let d = t div 86400000; ms = t mod 86400000 in
      zero_pad 4 (year_of d) @ ''-'' @ zero_pad 2 (month_of d + 1) @ ''-'' @ zero_pad 2 (date_of d) @ ''T''
      @ zero_pad 2 (ms div 3600000) @ ''-'' @ zero_pad 2 (ms div 60000 mod 60) @ ''-'' @ zero_pad 2 (ms div 1000 mod 60)
      @ ''-'' @ zero_pad 3 (ms mod 1000) @ ''Z'')"

definition storage_path :: "database_row \<Rightarrow> string \<Rightarrow> string" where
  "storage_path db filename =
     (if da_backupStorageType db = ''local'' then non_empty (nullish (da_backupLocalPath db) []) ''/var/backups'' @ ''/'' @ filename
      else nullish (da_spacesPrefix db) [] @ filename)"

definition createBackup :: "'w run_host \<Rightarrow> ident \<Rightarrow> backup_type \<Rightarrow> ('w run_db, ident) io" where
  "createBackup rh databaseId type =
     andThen (reads (database_of databaseId)) (\<lambda>found.
     case found of
       None \<Rightarrow> throw ''Database not found''
     | Some db \<Rightarrow>
         andThen (reads (now (bh_host rh))) (\<lambda>t.
         andThen (on_world (\<lambda>w. case rh_newId rh w of (i, w') \<Rightarrow> (Inr i, w'))) (\<lambda>i.
         andThen (reads (\<lambda>s. i \<in> bk_id ` set (bu_backups s))) (\<lambda>taken.
         if taken then throw ''Unique constraint failed''
         else
           let filename = da_name db @ ''-'' @ file_timestamp t @ backup_extension db in
           andThen (writes (\<lambda>s. s\<lparr>bu_backups := bu_backups s @
             [\<lparr>bk_id = i, bk_filename = filename, bk_size = 0, bk_type = type, bk_status = BackupPending, bk_error = None,
               bk_storageType = da_backupStorageType db, bk_storagePath = storage_path db filename, bk_progress = 0,
               bk_duration = None, bk_createdAt = now (bh_host rh) s, bk_completedAt = None, bk_isPinned = False,
               bk_lastRotationError = None, bk_databaseId = databaseId\<rparr>], rd_jobs := rd_jobs s @ [i]\<rparr>)) (\<lambda>_. ret i)))))"

text \<open>A background execution; its rejection is only logged.\<close>

definition run_job :: "'w run_host \<Rightarrow> ident \<Rightarrow> 'w run_db \<Rightarrow> 'w run_db" where
  "run_job rh i s = snd (trap (executeBackup rh i) (s\<lparr>rd_jobs := remove1 i (rd_jobs s)\<rparr>))"

definition setBackupSchedule :: "'w run_host \<Rightarrow> ident \<Rightarrow> string \<Rightarrow> int \<Rightarrow> bool \<Rightarrow> 'w run_db \<Rightarrow> 'w run_db option" where
  "setBackupSchedule rh databaseId cronExpression retentionDays enabled s =
     map_option
       (\<lambda>nextRunAt.
          let known = (\<exists>r \<in> set (rd_schedules s). sch_databaseId r = databaseId) in
          s\<lparr>rd_schedules := (if known
              then update_row sch_databaseId databaseId (\<lambda>r. r\<lparr>sch_cronExpression := cronExpression,
                     sch_retentionDays := retentionDays, sch_enabled := enabled, sch_nextRunAt := nextRunAt\<rparr>) (rd_schedules s)
              else rd_schedules s @ [\<lparr>sch_databaseId = databaseId, sch_cronExpression = cronExpression,
                     sch_retentionDays = retentionDays, sch_enabled = enabled, sch_lastRunAt = None, sch_nextRunAt = nextRunAt\<rparr>])\<rparr>)
       (if enabled then map_option Some (getNextRunTime cronExpression (now (bh_host rh) s)) else Some None)"

definition getBackupSchedule :: "ident \<Rightarrow> 'w run_db \<Rightarrow> schedule_row option" where
  "getBackupSchedule databaseId s = List.find (\<lambda>r. sch_databaseId r = databaseId) (rd_schedules s)"

definition deleteBackupSchedule :: "ident \<Rightarrow> 'w run_db \<Rightarrow> 'w run_db" where
  "deleteBackupSchedule databaseId s = s\<lparr>rd_schedules := filter (\<lambda>r. sch_databaseId r \<noteq> databaseId) (rd_schedules s)\<rparr>"

definition start_scheduled :: "'w run_host \<Rightarrow> ident \<Rightarrow> 'w run_db \<Rightarrow> 'w run_db" where
  "start_scheduled rh databaseId s =
     snd (andThen (createBackup rh databaseId ScheduledBackup) (\<lambda>_.
            rotateDatabase (backup_host.truncate rh) databaseId \<lparr>ro_dryRun = False, ro_trigger = ''post-backup'', ro_policy = None\<rparr>) s)"

fun check_schedules :: "'w run_host \<Rightarrow> millis \<Rightarrow> schedule_row list \<Rightarrow> 'w run_db \<Rightarrow> 'w run_db option" where
  "check_schedules rh t [] s = Some s"
| "check_schedules rh t (r # rs) s =
     (case isScheduleDue (sch_cronExpression r) (sch_lastRunAt r) t of
        None \<Rightarrow> None
      | Some False \<Rightarrow> check_schedules rh t rs s
      | Some True \<Rightarrow>
          (case getNextRunTime (sch_cronExpression r) t of
             None \<Rightarrow> None
           | Some nextRunAt \<Rightarrow>
               check_schedules rh t rs (start_scheduled rh (sch_databaseId r)
                 (s\<lparr>rd_schedules := update_row sch_databaseId (sch_databaseId r)
                      (\<lambda>r. r\<lparr>sch_lastRunAt := Some t, sch_nextRunAt := Some nextRunAt\<rparr>) (rd_schedules s)\<rparr>))))"

definition checkDueBackups :: "'w run_host \<Rightarrow> 'w run_db \<Rightarrow> 'w run_db option" where
  "checkDueBackups rh s = check_schedules rh (now (bh_host rh) s) (filter sch_enabled (rd_schedules s)) s"

datatype backup_download = DownloadUrl string | DownloadStream string string

definition getBackupDownload :: "'w run_host \<Rightarrow> ident \<Rightarrow> ('w run_db, backup_download) io" where
  "getBackupDownload rh backupId =
     andThen (with_storage backupId) (\<lambda>found.
     case found of
       None \<Rightarrow> throw ''Backup not found''
     | Some (backup, db, server) \<Rightarrow>
         if bk_status backup \<noteq> BackupCompleted then throw ''Backup is not completed''
         else andThen (reads rd_downloadAllowed) (\<lambda>allowed.
           if da_environmentId db \<notin> set allowed then throw ''Backup downloads are not allowed for this environment''
           else if bk_storageType backup = ''spaces'' then
             andThen (on_world (bh_spacesConfig rh (da_environmentId db))) (\<lambda>spacesConfig.
             if \<not> spacesConfig then throw ''Spaces not configured for this environment''
             else if \<not> truthy (da_spacesBucket db) then throw ''No Spaces bucket configured for this database''
             else andThen (on_world (rh_signedUrl rh (da_environmentId db) (the (da_spacesBucket db)) (bk_storagePath backup) (bk_filename backup))) (\<lambda>url.
               ret (DownloadUrl url)))
           else
             (case server of
                None \<Rightarrow> throw ''Database server is not configured''
              | Some srv \<Rightarrow>
                  andThen (server_client rh db srv) (\<lambda>client.
                  andThen (on_world (rh_connect rh client)) (\<lambda>_.
                  andThen (run_command rh client (''cat '' @ shellEscape (bk_storagePath backup) @ '' | base64'') None) (\<lambda>result.
                  andThen (on_world (rh_disconnect rh client)) (\<lambda>_.
                  if ex_code result \<noteq> 0 then throw (''Failed to read backup file: '' @ ex_stderr result)
                  else ret (DownloadStream (bk_filename backup) (rh_fromBase64 rh (js_trim (ex_stdout result)))))))))))"

section \<open>Every execution settles\<close>

text \<open>What a part of the run may touch: the world, and the progress of its own row.\<close>

definition settled_view :: "ident \<Rightarrow> ('w, 'z) backup_db_scheme \<Rightarrow> event list \<times> database_row list \<times> server_row list \<times> backup_row list" where
  "settled_view i s = (db_events s, bu_databases s, db_servers s, map (\<lambda>b. if bk_id b = i then b\<lparr>bk_progress := 0\<rparr> else b) (bu_backups s))"

lemma settled_view_world [simp]: "settled_view i (s\<lparr>db_world := w\<rparr>) = settled_view i s"
  by (simp add: settled_view_def)

lemma keeps_set_progress [keeps_intros]: "keeps (settled_view i) (set_progress i n)"
  unfolding set_progress_def set_backup_def
  by (rule keeps_writes) (auto simp: settled_view_def update_row_def)

lemma keeps_run_command [keeps_intros]: "keeps (settled_view i) (run_command rh c cmd opts)"
  unfolding run_command_def by (intro keeps_intros) simp

lemma keeps_plan_dump: "keeps (settled_view i) (plan_dump rh b d srv t u)"
  unfolding plan_dump_def server_client_def ssh_client_def Let_def by (intro keeps_intros settled_view_world)

lemma keeps_fetch_dump: "keeps (settled_view i) (fetch_dump rh job t)"
  unfolding fetch_dump_def by (intro keeps_intros settled_view_world)

lemma keeps_dump_step: "keeps (settled_view i) (dump_step rh i job t tp)"
  unfolding dump_step_def Let_def by (intro keeps_intros keeps_fetch_dump settled_view_world)

lemma keeps_upload_step: "keeps (settled_view (bk_id b)) (upload_step rh b d t)"
  unfolding upload_step_def by (intro keeps_intros settled_view_world)

lemma keeps_in_step [keeps_intros]: "keeps f m \<Longrightarrow> keeps f (in_step step m)"
  unfolding in_step_def by (intro keeps_intros)

lemma keeps_or_error [keeps_intros]: "keeps f m \<Longrightarrow> (\<And>x. keeps f (g x)) \<Longrightarrow> keeps f (or_error m g)"
  unfolding or_error_def by (intro keeps_intros)

lemma keeps_backup_body: "keeps (settled_view (bk_id b)) (backup_body rh b d srv t tp)"
  unfolding backup_body_def
  by (intro keeps_intros keeps_plan_dump keeps_dump_step keeps_upload_step settled_view_world)

lemma total_in_step [intro!]: "total (in_step step m)"
  unfolding in_step_def by auto

lemma total_or_error [intro!]: "total m \<Longrightarrow> (\<And>x. total (g x)) \<Longrightarrow> total (or_error m g)"
  unfolding or_error_def by auto

lemma total_backup_body: "total (backup_body rh b d srv t tp)"
  unfolding backup_body_def by (auto split: sum.split option.split)

text \<open>The step an error names.\<close>

definition step_of :: "backup_error + 'a \<Rightarrow> bool" where
  "step_of r \<longleftrightarrow> (\<forall>e. r = Inl e \<longrightarrow> be_step e \<in> {''connect'', ''dump'', ''upload''})"

lemma ensures_in_step: "step \<in> {''connect'', ''dump'', ''upload''} \<Longrightarrow> ensures (in_step step m) (\<lambda>r _. step_of r)"
  unfolding in_step_def
  by (rule ensures_catching; (rule ensures_andThen)?; rule ensures_ret) (auto simp: step_of_def)

lemma ensures_or_error:
  "ensures m (\<lambda>r _. step_of r) \<Longrightarrow> (\<And>x. ensures (g x) (\<lambda>r _. step_of r)) \<Longrightarrow> ensures (or_error m g) (\<lambda>r _. step_of r)"
  unfolding or_error_def
  by (erule ensures_bind) (auto simp: step_of_def ensures_def io_simps split: sum.split)

lemma dump_step_error: "ensures (dump_step rh i job t tp) (\<lambda>r _. step_of r)"
  unfolding dump_step_def Let_def
  by (intro ensures_andThen ensures_if; rule ensures_ret) (simp_all add: step_of_def)

lemma ensures_in_step_with:
  "ensures m (\<lambda>x _. Q x) \<Longrightarrow> step \<in> {''connect'', ''dump'', ''upload''} \<Longrightarrow>
     ensures (in_step step m) (\<lambda>r _. step_of r \<and> (\<forall>x. r = Inr x \<longrightarrow> Q x))"
  unfolding in_step_def
  by (rule ensures_catching, erule ensures_bind) (auto simp: ensures_def io_simps step_of_def)

lemma ensures_or_error_with:
  assumes "ensures m (\<lambda>r _. step_of r \<and> (\<forall>x. r = Inr x \<longrightarrow> Q x))"
    and "\<And>x. Q x \<Longrightarrow> ensures (g x) (\<lambda>r _. step_of r \<and> (\<forall>y. r = Inr y \<longrightarrow> R y))"
  shows "ensures (or_error m g) (\<lambda>r _. step_of r \<and> (\<forall>y. r = Inr y \<longrightarrow> R y))"
  unfolding or_error_def
proof (rule ensures_bind [OF assms(1)])
  fix r and s :: 'a
  assume r: "step_of r \<and> (\<forall>x. r = Inr x \<longrightarrow> Q x)"
  show "ensures (case r of Inl e \<Rightarrow> ret (Inl e) | Inr x \<Rightarrow> g x) (\<lambda>r _. step_of r \<and> (\<forall>y. r = Inr y \<longrightarrow> R y))"
    using r assms(2) by (cases r) (simp_all add: ensures_ret step_of_def)
qed

text \<open>A run gets past the dump only if some command exits with 0, and past the upload only if some upload works.\<close>

definition commands_fail :: "'w run_host \<Rightarrow> bool" where
  "commands_fail rh \<longleftrightarrow> (\<forall>c cmd opts w res w'. rh_exec rh c cmd opts w = (Inr res, w') \<longrightarrow> ex_code res \<noteq> 0)"

definition uploads_fail :: "'w run_host \<Rightarrow> bool" where
  "uploads_fail rh \<longleftrightarrow> (\<forall>e b k c ct w. isl (fst (rh_putObject rh e b k c ct w)))"

lemma run_command_fails: "commands_fail rh \<Longrightarrow> ensures (run_command rh c cmd opts) (\<lambda>res _. ex_code res \<noteq> 0)"
  unfolding ensures_def run_command_def on_world_def commands_fail_def by (auto split: prod.splits; metis)

lemma dump_step_result:
  "ensures (dump_step rh i job t tp) (\<lambda>r _. step_of r \<and> (commands_fail rh \<longrightarrow> isl r))"
proof (cases "commands_fail rh")
  case True
  have "ensures (dump_step rh i job t tp) (\<lambda>r _. step_of r \<and> isl r)"
    unfolding dump_step_def Let_def
    apply (rule ensures_andThen, rule ensures_andThen, rule ensures_bind [OF run_command_fails [OF True]])
    by (simp add: ensures_def io_simps step_of_def)
  with True show ?thesis by simp
next
  case False
  with dump_step_error [of rh i job t tp] show ?thesis by simp
qed

lemma upload_step_result: "ensures (upload_step rh b d t) (\<lambda>_ _. \<not> uploads_fail rh)"
proof -
  have "ensures (on_world (rh_putObject rh e bucket k c ct)) (\<lambda>_ _. \<not> uploads_fail rh)" for e bucket k c ct
  proof (cases "uploads_fail rh")
    case True
    then have "isl (fst (rh_putObject rh e bucket k c ct w))" for w by (simp add: uploads_fail_def)
    then have "rh_putObject rh e bucket k c ct w \<noteq> (Inr x, w')" for w x w' by (metis fst_conv sum.disc(2))
    then show ?thesis unfolding ensures_def on_world_def by (auto split: prod.splits) (metis surj_pair)
  qed (simp add: ensures_def)
  note put = ensures_first [OF this]
  have t: "ensures (throw e) P" for e P by (simp add: ensures_def io_simps)
  show ?thesis unfolding upload_step_def
    by (rule ensures_andThen, rule ensures_andThen, rule ensures_if, rule t, rule ensures_if, rule t, rule ensures_andThen, rule put)
qed

lemma backup_body_result:
  "ensures (backup_body rh b d srv t tp)
     (\<lambda>r _. step_of r \<and> (commands_fail rh \<or> tp \<noteq> None \<and> uploads_fail rh \<longrightarrow> isl r))"
proof -
  let ?bad = "commands_fail rh \<or> tp \<noteq> None \<and> uploads_fail rh"
  have tail: "ensures (case x of Inl e \<Rightarrow> ret (Inl e) | Inr bytes \<Rightarrow>
      (case tp of None \<Rightarrow> ret (Inr bytes) | Some t \<Rightarrow> or_error (in_step ''upload'' (upload_step rh b d t)) (\<lambda>_. ret (Inr bytes))))
      (\<lambda>r _. step_of r \<and> (\<forall>y. r = Inr y \<longrightarrow> \<not> ?bad))"
    if x: "step_of x \<and> (commands_fail rh \<longrightarrow> isl x)" for x
  proof (cases x)
    case (Inl e)
    with x show ?thesis by (simp add: ensures_def io_simps step_of_def)
  next
    case (Inr bytes)
    with x have c: "\<not> commands_fail rh" by simp
    show ?thesis
    proof (cases tp)
      case None
      with Inr c show ?thesis by (simp add: ensures_def io_simps step_of_def)
    next
      case (Some t)
      have "ensures (or_error (in_step ''upload'' (upload_step rh b d t)) (\<lambda>_. ret (Inr bytes)))
          (\<lambda>r _. step_of r \<and> (\<forall>y. r = Inr y \<longrightarrow> \<not> ?bad))"
        by (rule ensures_or_error_with [OF ensures_in_step_with [OF upload_step_result]])
          (use c in \<open>auto simp: ensures_def io_simps step_of_def\<close>)
      with Inr Some show ?thesis by simp
    qed
  qed
  have "ensures (backup_body rh b d srv t tp) (\<lambda>r _. step_of r \<and> (\<forall>y. r = Inr y \<longrightarrow> \<not> ?bad))"
    unfolding backup_body_def
  proof (rule ensures_or_error_with [OF ensures_in_step_with [where Q = "\<lambda>_. True"]])
    fix job
    show "ensures (or_error (in_step ''dump'' (dump_step rh (bk_id b) job t tp)) (\<lambda>dumped.
        case dumped of Inl e \<Rightarrow> ret (Inl e) | Inr bytes \<Rightarrow>
          (case tp of None \<Rightarrow> ret (Inr bytes) | Some t \<Rightarrow> or_error (in_step ''upload'' (upload_step rh b d t)) (\<lambda>_. ret (Inr bytes)))))
      (\<lambda>r _. step_of r \<and> (\<forall>y. r = Inr y \<longrightarrow> \<not> ?bad))"
      by (rule ensures_or_error_with [OF ensures_in_step_with [OF dump_step_result] tail]) simp_all
  qed (simp_all add: ensures_def)
  then show ?thesis unfolding ensures_def by (metis sum.collapse(2))
qed

lemma view_rows:
  assumes "settled_view i s' = settled_view i s"
  shows "db_events s' = db_events s" "bu_databases s' = bu_databases s" "db_servers s' = db_servers s"
    "filter (\<lambda>b. bk_id b \<noteq> i) (bu_backups s') = filter (\<lambda>b. bk_id b \<noteq> i) (bu_backups s)"
    "map bk_id (bu_backups s') = map bk_id (bu_backups s)"
proof -
  let ?f = "\<lambda>b. if bk_id b = i then b\<lparr>bk_progress := 0\<rparr> else b"
  have m: "map ?f (bu_backups s') = map ?f (bu_backups s)" using assms by (simp add: settled_view_def)
  have f: "filter (\<lambda>b. bk_id b \<noteq> i) (map ?f bs) = filter (\<lambda>b. bk_id b \<noteq> i) bs" for bs by (induction bs) auto
  show "filter (\<lambda>b. bk_id b \<noteq> i) (bu_backups s') = filter (\<lambda>b. bk_id b \<noteq> i) (bu_backups s)"
    using arg_cong [OF m, of "filter (\<lambda>b. bk_id b \<noteq> i)"] by (simp only: f)
  have g: "map bk_id (map ?f bs) = map bk_id bs" for bs by (induction bs) auto
  show "map bk_id (bu_backups s') = map bk_id (bu_backups s)"
    using arg_cong [OF m, of "map bk_id"] by (simp only: g)
qed (use assms in \<open>auto simp: settled_view_def\<close>)

definition other_backups :: "ident \<Rightarrow> ('w, 'z) backup_db_scheme \<Rightarrow> backup_row list" where
  "other_backups i s = filter (\<lambda>b. bk_id b \<noteq> i) (bu_backups s)"

lemma find_update_row:
  "List.find (\<lambda>r. bk_id r = i) (update_row bk_id i f rows) =
     (if \<forall>r. bk_id (f r) = bk_id r then map_option f (List.find (\<lambda>r. bk_id r = i) rows)
      else List.find (\<lambda>r. bk_id r = i) (update_row bk_id i f rows))"
  by (induction rows) (auto simp: update_row_def)

lemma find_by_id: "i \<in> bk_id ` set rows \<Longrightarrow> \<exists>b. List.find (\<lambda>r. bk_id r = i) rows = Some b"
  by (induction rows) auto

lemma others_update: "(\<And>r. bk_id (f r) = bk_id r) \<Longrightarrow>
    filter (\<lambda>b. bk_id b \<noteq> i) (update_row bk_id i f rows) = filter (\<lambda>b. bk_id b \<noteq> i) rows"
  by (induction rows) (auto simp: update_row_def)

section \<open>How an execution ends\<close>

text \<open>The state in which the parts of the run start.\<close>

definition execution_started :: "ident \<Rightarrow> ('w, 'z) backup_db_scheme \<Rightarrow> ('w, 'z) backup_db_scheme" where
  "execution_started i s = s\<lparr>bu_backups := update_row bk_id i (\<lambda>r. r\<lparr>bk_status := BackupInProgress, bk_progress := 10\<rparr>) (bu_backups s)\<rparr>"

lemma executeBackup_body:
  assumes "backup_of i s = Some b" and "database_of (bk_databaseId b) s = Some db"
  shows "executeBackup rh i s =
     andThen (backup_body rh (b\<lparr>bk_status := BackupInProgress, bk_progress := 10\<rparr>) db (server_of db s)
                (nullish (temp_path rh db i) (bk_storagePath b)) (temp_path rh db i)) (\<lambda>result.
        case result of
          Inr bytes \<Rightarrow> complete_backup rh i db (now (bh_host rh) s) bytes
        | Inl e \<Rightarrow> fail_backup rh i db (now (bh_host rh) s) (temp_path rh db i) e)
       (execution_started i s)"
proof -
  have "backup_of i (execution_started i s) = Some (b\<lparr>bk_status := BackupInProgress, bk_progress := 10\<rparr>)"
    using assms(1) by (simp add: backup_of_def find_update_row execution_started_def)
  moreover have "database_of (bk_databaseId b) (execution_started i s) = Some db" "server_of db (execution_started i s) = server_of db s"
    using assms(2) by (simp_all add: database_of_def server_of_def execution_started_def)
  ultimately show ?thesis
    using assms(1)
    by (simp add: executeBackup_def with_storage_def set_backup_def the_row_def io_simps Let_def flip: execution_started_def)
qed

text \<open>The events of the two outcomes.\<close>

definition success_events :: "ident \<Rightarrow> database_row \<Rightarrow> event list" where
  "success_events i db =
     [SystemNotice ''system.backup_success'' (da_environmentId db) [(''databaseName'', Some (da_name db))],
      Webhook ''backup.completed'' (da_environmentId db)
        [(''backupId'', Some i), (''databaseId'', Some (da_id db)), (''databaseName'', Some (da_name db)),
         (''success'', Some ''true''), (''status'', Some ''completed'')]]"

definition failure_events :: "ident \<Rightarrow> database_row \<Rightarrow> backup_error \<Rightarrow> event list" where
  "failure_events i db e =
     [SystemNotice ''system.backup_failed'' (da_environmentId db)
        [(''databaseName'', Some (da_name db)), (''error'', Some (be_message e)), (''step'', Some (be_step e))],
      Webhook ''backup.failed'' (da_environmentId db)
        [(''backupId'', Some i), (''databaseId'', Some (da_id db)), (''databaseName'', Some (da_name db)),
         (''success'', Some ''false''), (''status'', Some ''failed''), (''error'', Some (be_message e))]]"

lemma complete_backup_run:
  "complete_backup rh i db t0 bytes s =
     (Inr (), s\<lparr>bu_backups := update_row bk_id i (\<lambda>r. r\<lparr>bk_status := BackupCompleted, bk_size := bytes, bk_progress := 100,
                  bk_duration := Some (seconds (now (bh_host rh) s - t0)), bk_completedAt := Some (now (bh_host rh) s)\<rparr>) (bu_backups s),
                db_events := db_events s @ success_events i db\<rparr>)"
  by (simp add: complete_backup_def set_backup_def emit_def io_simps success_events_def)

lemma fail_backup_run:
  "\<exists>s1. settled_view i s1 = settled_view i s \<and> bu_backups s1 = bu_backups s \<and>
     fail_backup rh i db t0 tp e s =
       (Inl (be_message e), s1\<lparr>bu_backups := update_row bk_id i (\<lambda>r. r\<lparr>bk_status := BackupFailed, bk_error := Some e,
                  bk_duration := Some (seconds (now (bh_host rh) s1 - t0)), bk_completedAt := Some (now (bh_host rh) s1)\<rparr>) (bu_backups s1),
                db_events := db_events s1 @ failure_events i db e\<rparr>)"
proof -
  let ?m = "case tp of None \<Rightarrow> ret () | Some t \<Rightarrow> andThen (trap (on_world (rh_unlink rh t))) (\<lambda>_. ret ())"
  have "total (?m :: (('a, 'b) backup_db_scheme, unit) io)" by (auto split: option.split)
  then obtain s1 where m: "?m s = (Inr (), s1)" using totalD by fastforce
  have "keeps (settled_view i) (?m :: (('a, 'b) backup_db_scheme, unit) io)" by (intro keeps_intros settled_view_world)
  from keepsD [OF this m] have "settled_view i s1 = settled_view i s" .
  moreover have "keeps bu_backups (?m :: (('a, 'b) backup_db_scheme, unit) io)" by (intro keeps_intros) simp_all
  from keepsD [OF this m] have "bu_backups s1 = bu_backups s" .
  moreover have "fail_backup rh i db t0 tp e s =
       (Inl (be_message e), s1\<lparr>bu_backups := update_row bk_id i (\<lambda>r. r\<lparr>bk_status := BackupFailed, bk_error := Some e,
                  bk_duration := Some (seconds (now (bh_host rh) s1 - t0)), bk_completedAt := Some (now (bh_host rh) s1)\<rparr>) (bu_backups s1),
                db_events := db_events s1 @ failure_events i db e\<rparr>)"
    using m by (simp add: fail_backup_def set_backup_def emit_def failure_events_def andThen_eval(1) io_simps)
  ultimately show ?thesis by blast
qed

lemma settled_row:
  assumes "settled_view i s1 = settled_view i s" and "backup_of i s = Some b" and "\<And>r. bk_id (f r) = bk_id r"
  shows "\<exists>b1. backup_of i s1 = Some b1 \<and> backup_of i (s1\<lparr>bu_backups := update_row bk_id i f (bu_backups s1), db_events := ev\<rparr>) = Some (f b1)"
    and "other_backups i (s1\<lparr>bu_backups := update_row bk_id i f (bu_backups s1), db_events := ev\<rparr>) = other_backups i s"
proof -
  have "i \<in> set (map bk_id (bu_backups s))" using assms(2) by (auto simp: backup_of_def dest: find_SomeD)
  then have "i \<in> bk_id ` set (bu_backups s1)" by (simp only: view_rows(5) [OF assms(1), symmetric] set_map)
  from find_by_id [OF this] obtain b1 where "backup_of i s1 = Some b1" by (auto simp: backup_of_def)
  then show "\<exists>b1. backup_of i s1 = Some b1 \<and> backup_of i (s1\<lparr>bu_backups := update_row bk_id i f (bu_backups s1), db_events := ev\<rparr>) = Some (f b1)"
    by (simp add: backup_of_def find_update_row assms(3))
  show "other_backups i (s1\<lparr>bu_backups := update_row bk_id i f (bu_backups s1), db_events := ev\<rparr>) = other_backups i s"
    by (simp add: other_backups_def others_update assms(3) view_rows(4) [OF assms(1)])
qed

text \<open>
  The progress that the row shows in each step: 10 before the dump, 30 and 70 around the dump command, 80 during the
  upload. A failed row keeps the progress it had.
\<close>

definition reached :: "string \<Rightarrow> nat \<Rightarrow> bool" where
  "reached step p \<longleftrightarrow> step = ''connect'' \<and> p = 10 \<or> step = ''dump'' \<and> p \<in> {30, 70} \<or> step = ''upload'' \<and> p = 80"

definition progress_in :: "ident \<Rightarrow> nat set \<Rightarrow> ('w, 'z) backup_db_scheme \<Rightarrow> bool" where
  "progress_in i P s \<longleftrightarrow> (\<forall>b \<in> set (bu_backups s). bk_id b = i \<longrightarrow> bk_progress b \<in> P)"

lemma progress_in_keeps: "keeps bu_backups m \<Longrightarrow> preserves (progress_in i P) m"
  by (rule preserves_keeps) (auto simp: progress_in_def)

lemma keeps_rows_world [keeps_intros]: "keeps bu_backups (on_world f)" "keeps bu_backups (run_command rh c cmd opts)"
  by (rule keepsI, simp add: run_command_def on_world_def split: prod.split)+

lemma keeps_rows_plan_dump: "keeps bu_backups (plan_dump rh b d srv t u)"
  unfolding plan_dump_def server_client_def ssh_client_def Let_def by (intro keeps_intros) simp_all

lemma keeps_rows_fetch: "keeps bu_backups (fetch_dump rh job t)"
  unfolding fetch_dump_def by (intro keeps_intros) simp_all

lemma progress_update:
  assumes "\<And>r. bk_id (f r) = bk_id r" and "\<And>r. bk_progress (f r) \<in> P"
  shows "progress_in i P (s\<lparr>bu_backups := update_row bk_id i f (bu_backups s)\<rparr>)"
proof -
  have "bk_progress b \<in> P" if "b \<in> set (update_row bk_id i f rows)" "bk_id b = i" for b rows
    using that assms by (induction rows) (auto simp: update_row_def split: if_splits)
  then show ?thesis by (simp add: progress_in_def)
qed

lemma set_progress_run: "set_progress i n s = (Inr (), s\<lparr>bu_backups := update_row bk_id i (\<lambda>r. r\<lparr>bk_progress := n\<rparr>) (bu_backups s)\<rparr>)"
  by (simp add: set_progress_def set_backup_def io_simps)

lemma set_progress_reaches: "\<exists>s'. set_progress i n s = (Inr (), s') \<and> progress_in i {n} s'"
  by (simp add: set_progress_run progress_update)

lemma set_progress_preserves: "n \<in> P \<Longrightarrow> preserves (progress_in i P) (set_progress i n)"
  by (rule preservesI) (simp add: set_progress_run progress_update)

text \<open>What holds after a call, whatever held before it.\<close>

definition establishes :: "('s \<Rightarrow> bool) \<Rightarrow> ('s, 'a) io \<Rightarrow> bool" where
  "establishes I m \<longleftrightarrow> (\<forall>s. I (snd (m s)))"

lemma establishes_andThen: "establishes I m \<Longrightarrow> (\<And>x. preserves I (g x)) \<Longrightarrow> establishes I (andThen m g)"
  unfolding establishes_def preserves_def andThen_def by (auto split: prod.split sum.split) (metis snd_conv)+

lemma establishes_progress: "n \<in> P \<Longrightarrow> establishes (progress_in i P) (set_progress i n)"
  by (simp add: establishes_def set_progress_run progress_update)

lemmas progress_intros = preserves_intros set_progress_preserves progress_in_keeps [OF keeps_rows_fetch]
  progress_in_keeps [OF keeps_rows_world(1)] progress_in_keeps [OF keeps_rows_world(2)]

lemma dump_establishes: "establishes (progress_in i {30, 70}) (dump_step rh i job t tp)"
  unfolding dump_step_def Let_def
  by (rule establishes_andThen, rule establishes_progress, simp) (intro progress_intros, simp_all add: progress_in_def)

lemma upload_establishes: "establishes (progress_in (bk_id b) {80}) (upload_step rh b d t)"
  unfolding upload_step_def
  by (rule establishes_andThen, rule establishes_progress, simp) (intro progress_intros, simp_all add: progress_in_def)

lemma dump_progress: "dump_step rh i job t tp s = (r, s') \<Longrightarrow> progress_in i {30, 70} s'"
  using dump_establishes [of i rh job t tp] unfolding establishes_def by (metis snd_conv)

lemma upload_progress: "upload_step rh b d t s = (r, s') \<Longrightarrow> progress_in (bk_id b) {80} s'"
  using upload_establishes [of b rh d t] unfolding establishes_def by (metis snd_conv)

lemma in_step_cases:
  assumes "in_step step m s = (Inr x, s')"
  obtains (failed) msg where "x = Inl \<lparr>be_message = msg, be_step = step, be_stderr = None, be_exitCode = None\<rparr>" "m s = (Inl msg, s')"
  | (passed) y where "x = Inr y" "m s = (Inr y, s')"
  using assms by (auto simp: in_step_def catching_def andThen_def io_simps split: prod.splits sum.splits)

lemma or_error_cases:
  assumes "or_error m f s = (Inr x, s')"
  obtains (failed) e where "x = Inl e" "m s = (Inr (Inl e), s')"
  | (passed) y s1 where "m s = (Inr (Inr y), s1)" "f y s1 = (Inr x, s')"
  using assms by (auto simp: or_error_def andThen_def io_simps split: prod.splits sum.splits)

lemma reached_steps: "{p. reached ''connect'' p} = {10}" "{p. reached ''dump'' p} = {30, 70}" "{p. reached ''upload'' p} = {80}"
  by (auto simp: reached_def)

lemma dump_step_names: "dump_step rh i job t tp s = (Inr (Inl e), s') \<Longrightarrow> be_step e = ''dump''"
proof -
  have "ensures (dump_step rh i job t tp) (\<lambda>r _. \<forall>e. r = Inl e \<longrightarrow> be_step e = ''dump'')"
    unfolding dump_step_def Let_def by (intro ensures_andThen ensures_if; rule ensures_ret) simp_all
  then show "dump_step rh i job t tp s = (Inr (Inl e), s') \<Longrightarrow> be_step e = ''dump''" using ensuresD by fastforce
qed

lemma body_progress:
  assumes run: "backup_body rh b d srv t tp s = (Inr (Inl e), s')" and start: "progress_in (bk_id b) {10} s"
  shows "progress_in (bk_id b) {p. reached (be_step e) p} s'"
  using run unfolding backup_body_def
proof (cases rule: or_error_cases)
  case (failed e')
  then have "e' = e" by simp
  have conn: "preserves (progress_in (bk_id b) {10})
      (andThen (plan_dump rh b d srv t (tp \<noteq> None)) (\<lambda>job. andThen (on_world (rh_connect rh (dj_client job))) (\<lambda>_. ret job)))"
    by (intro preserves_intros progress_in_keeps [OF keeps_rows_plan_dump] progress_in_keeps [OF keeps_rows_world(1)])
  from failed(2) show ?thesis
  proof (cases rule: in_step_cases)
    case (failed msg)
    with \<open>e' = e\<close> preservesD [OF conn start failed(2)] show ?thesis by (auto simp: reached_steps)
  qed simp
next
  case (passed job s1)
  from passed(2) show ?thesis
  proof (cases rule: or_error_cases)
    case (failed e')
    from failed(2) show ?thesis
    proof (cases rule: in_step_cases)
      case (failed msg)
      with \<open>Inl e = Inl e'\<close> dump_progress [OF failed(2)] show ?thesis by (simp add: reached_steps)
    qed simp
  next
    case dumped: (passed res s2)
    from dumped(1) have d: "dump_step rh (bk_id b) job t tp s1 = (Inr res, s2)" by (cases rule: in_step_cases) auto
    show ?thesis
    proof (cases res)
      case (Inl e2)
      with dumped(2) have "e2 = e" "s' = s2" by (auto simp: io_simps)
      moreover have "be_step e2 = ''dump''" using dump_step_names [OF d [unfolded Inl]] .
      ultimately show ?thesis using dump_progress [OF d] by (simp add: reached_steps)
    next
      case (Inr bytes)
      with dumped(2) obtain t' where up: "or_error (in_step ''upload'' (upload_step rh b d t')) (\<lambda>_. ret (Inr bytes)) s2 = (Inr (Inl e), s')"
        by (cases tp) (auto simp: io_simps)
      from up show ?thesis
      proof (cases rule: or_error_cases)
        case (failed e')
        from failed(2) show ?thesis
        proof (cases rule: in_step_cases)
          case (failed msg)
          with \<open>Inl e = Inl e'\<close> upload_progress [OF failed(2)] show ?thesis by (simp add: reached_steps)
        qed simp
      next
        case (passed y s3)
        then show ?thesis by (simp add: io_simps)
      qed
    qed
  qed
qed

text \<open>What an execution leaves behind: its row run_settled, the other rows as they were, two events.\<close>

definition run_settled :: "ident \<Rightarrow> database_row \<Rightarrow> string + unit \<Rightarrow> ('w, 'z) backup_db_scheme \<Rightarrow> ('w, 'z) backup_db_scheme \<Rightarrow> bool" where
  "run_settled i db r s s' \<longleftrightarrow> other_backups i s' = other_backups i s \<and>
     (\<exists>row. backup_of i s' = Some row \<and> bk_completedAt row \<noteq> None \<and> bk_duration row \<noteq> None \<and>
        (case r of
           Inr _ \<Rightarrow> bk_status row = BackupCompleted \<and> bk_progress row = 100 \<and> db_events s' = db_events s @ success_events i db
         | Inl m \<Rightarrow> bk_status row = BackupFailed \<and>
             (\<exists>e. bk_error row = Some e \<and> be_message e = m \<and> reached (be_step e) (bk_progress row) \<and>
                  db_events s' = db_events s @ failure_events i db e)))"

lemma settled_completed:
  assumes v: "settled_view i s1 = settled_view i s" and b: "backup_of i s = Some b"
    and run: "complete_backup rh i db t0 bytes s1 = (r, s')"
  shows "run_settled i db r s s' \<and> r = Inr ()"
proof -
  let ?f = "\<lambda>r. r\<lparr>bk_status := BackupCompleted, bk_size := bytes, bk_progress := 100,
      bk_duration := Some (seconds (now (bh_host rh) s1 - t0)), bk_completedAt := Some (now (bh_host rh) s1)\<rparr>"
  have s': "s' = s1\<lparr>bu_backups := update_row bk_id i ?f (bu_backups s1), db_events := db_events s1 @ success_events i db\<rparr>"
    and r: "r = Inr ()"
    using run by (simp_all add: complete_backup_run)
  note row = settled_row [OF v b, of ?f "db_events s1 @ success_events i db", folded s']
  obtain b1 where "backup_of i s' = Some (?f b1)" using row(1) by auto
  moreover have "other_backups i s' = other_backups i s" using row(2) by simp
  moreover have "db_events s' = db_events s @ success_events i db" by (simp add: s' view_rows(1) [OF v])
  ultimately show ?thesis by (simp add: run_settled_def r)
qed

lemma settled_failed:
  assumes v: "settled_view i s1 = settled_view i s" and b: "backup_of i s = Some b"
    and run: "fail_backup rh i db t0 tp e s1 = (r, s')" and "progress_in i {p. reached (be_step e) p} s1"
  shows "run_settled i db r s s' \<and> isl r"
proof -
  obtain s2 where v2: "settled_view i s2 = settled_view i s1" and same: "bu_backups s2 = bu_backups s1" and s2: "fail_backup rh i db t0 tp e s1 =
       (Inl (be_message e), s2\<lparr>bu_backups := update_row bk_id i (\<lambda>r. r\<lparr>bk_status := BackupFailed, bk_error := Some e,
                  bk_duration := Some (seconds (now (bh_host rh) s2 - t0)), bk_completedAt := Some (now (bh_host rh) s2)\<rparr>) (bu_backups s2),
                db_events := db_events s2 @ failure_events i db e\<rparr>)"
    using fail_backup_run by blast
  let ?f = "\<lambda>r. r\<lparr>bk_status := BackupFailed, bk_error := Some e,
      bk_duration := Some (seconds (now (bh_host rh) s2 - t0)), bk_completedAt := Some (now (bh_host rh) s2)\<rparr>"
  have v': "settled_view i s2 = settled_view i s" using v v2 by simp
  have s': "s' = s2\<lparr>bu_backups := update_row bk_id i ?f (bu_backups s2), db_events := db_events s2 @ failure_events i db e\<rparr>"
    and r: "r = Inl (be_message e)"
    using run s2 by simp_all
  note row = settled_row [OF v' b, of ?f "db_events s2 @ failure_events i db e", folded s']
  obtain b1 where b1: "backup_of i s2 = Some b1" "backup_of i s' = Some (?f b1)" using row(1) by auto
  then have "b1 \<in> set (bu_backups s1)" "bk_id b1 = i" using same by (auto simp: backup_of_def dest: find_SomeD)
  with assms(4) have "reached (be_step e) (bk_progress b1)" by (auto simp: progress_in_def)
  moreover note b1(2)
  moreover have "other_backups i s' = other_backups i s" using row(2) by simp
  moreover have "db_events s' = db_events s @ failure_events i db e" by (simp add: s' view_rows(1) [OF v'])
  ultimately show ?thesis by (simp add: run_settled_def r)
qed

lemma view_execution_started: "backup_of i s = Some b \<Longrightarrow> \<exists>b'. backup_of i (execution_started i s) = Some b'"
  by (auto simp: backup_of_def find_update_row execution_started_def)

lemma settled_from_started: "run_settled i db r (execution_started i s) s' = run_settled i db r s s'"
proof -
  have "other_backups i (execution_started i s) = other_backups i s"
    by (simp add: other_backups_def execution_started_def others_update)
  moreover have "db_events (execution_started i s) = db_events s" by (simp add: execution_started_def)
  ultimately show ?thesis by (simp only: run_settled_def)
qed

text \<open>C7: An execution of an existing backup always ends with its row completed, at full progress, when it returns, or failed with the error it throws and the step it failed in, which is the one its progress has reached; the other rows stay as they were and exactly one notice and one webhook event follow. It never completes when no command exits with 0, nor, with object storage, when no upload succeeds.\<close>

theorem backup_run_settles:
  assumes "backup_of i s = Some b" and "database_of (bk_databaseId b) s = Some db"
    and "executeBackup rh i s = (r, s')"
  shows "run_settled i db r s s' \<and>
     (commands_fail rh \<or> da_backupStorageType db = ''spaces'' \<and> uploads_fail rh \<longrightarrow> isl r)"
proof -
  let ?b = "b\<lparr>bk_status := BackupInProgress, bk_progress := 10\<rparr>" and ?tp = "temp_path rh db i" and ?s = "execution_started i s"
  let ?body = "backup_body rh ?b db (server_of db s) (nullish ?tp (bk_storagePath b)) ?tp"
  obtain res s1 where body: "?body ?s = (Inr res, s1)" using totalD [OF total_backup_body] by blast
  have i: "bk_id ?b = i" using assms(1) by (auto simp: backup_of_def dest: find_SomeD)
  have v: "settled_view i s1 = settled_view i ?s" using keepsD [OF keeps_backup_body body] by (simp only: i)
  have fine: "commands_fail rh \<or> ?tp \<noteq> None \<and> uploads_fail rh \<Longrightarrow> isl res"
    using ensuresD [OF backup_body_result body] by auto
  obtain b' where b': "backup_of i ?s = Some b'" using view_execution_started [OF assms(1)] by blast
  have tp: "?tp \<noteq> None \<longleftrightarrow> da_backupStorageType db = ''spaces''" by (simp add: temp_path_def)
  show ?thesis
  proof (cases res)
    case (Inl e)
    then have "fail_backup rh i db (now (bh_host rh) s) ?tp e s1 = (r, s')"
      using assms(3) executeBackup_body [OF assms(1,2)] body by (simp add: andThen_eval(1))
    moreover have "progress_in i {p. reached (be_step e) p} s1"
    proof -
      have "progress_in i {10} ?s" by (simp add: execution_started_def progress_update)
      with body_progress [OF body [unfolded Inl]] i show ?thesis by simp
    qed
    ultimately show ?thesis using settled_failed [OF v b'] Inl by (simp add: settled_from_started)
  next
    case (Inr bytes)
    then have "complete_backup rh i db (now (bh_host rh) s) bytes s1 = (r, s')"
      using assms(3) executeBackup_body [OF assms(1,2)] body by (simp add: andThen_eval(1))
    from settled_completed [OF v b' this] Inr fine tp show ?thesis by (auto simp: settled_from_started)
  qed
qed

section \<open>Credentials\<close>

text \<open>C13: Stored credentials are read back as the user name and password they were stored for exactly when neither holds a colon.\<close>

theorem credentials_split_iff:
  "split_credentials (credentials_text username password) = (username, Some password) \<longleftrightarrow>
     CHR '':'' \<notin> set username \<and> CHR '':'' \<notin> set password"
proof
  assume a: "split_credentials (credentials_text username password) = (username, Some password)"
  obtain u p ps where s: "split_on (CHR '':'') (credentials_text username password) = u # p # ps"
    using a by (auto simp: split_credentials_def split: list.splits)
  then have "u = username" "p = password" using a by (simp_all add: split_credentials_def)
  moreover have "CHR '':'' \<notin> set u" "CHR '':'' \<notin> set p"
    using s split_on_free [of _ "CHR '':''" "credentials_text username password"] by auto
  ultimately show "CHR '':'' \<notin> set username \<and> CHR '':'' \<notin> set password" by simp
next
  assume "CHR '':'' \<notin> set username \<and> CHR '':'' \<notin> set password"
  then show "split_credentials (credentials_text username password) = (username, Some password)"
    by (simp add: split_credentials_def credentials_text_def split_on_append split_on_word)
qed

text \<open>A compressed dump is a pipeline, so its exit code is the one of \<open>gzip\<close>.\<close>

lemma join_with_snoc: "xs \<noteq> [] \<Longrightarrow> join_with sep (xs @ [y]) = join_with sep xs @ sep @ y"
proof (induction xs)
  case (Cons x xs)
  then show ?case by (cases xs) auto
qed simp

lemma compressed_dump_is_a_pipeline:
  assumes "da_backupCompression db = ''gzip''" and "da_backupFormat db = ''plain''"
  shows "postgres_dump db opts username path = join_with '' '' (pg_arguments db opts username)
     @ '' | gzip -'' @ int_str (da_backupCompressionLevel db) @ '' > '' @ shellEscape path @ '' 2>&1''"
proof -
  have "pg_arguments db opts username \<noteq> []" by (simp add: pg_arguments_def)
  then show ?thesis using assms by (simp add: postgres_dump_def join_with_snoc)
qed

section \<open>A due schedule starts one backup\<close>

lemma next_run_after: "getNextRunTime e t = Some r \<Longrightarrow> t < r"
proof -
  assume a: "getNextRunTime e t = Some r"
  have "t < 60000 * m" if "cron_search k c (t div 60000 + 1) = Some m" for k c m
    using cron_search_least [OF that] div_less_int [of 60000 t m] by simp
  with a show "t < r" by (auto simp: getNextRunTime_def Let_def simp del: cron_search.simps split: if_splits option.splits)
qed

lemma keeps_schedules [simp]:
  "rd_schedules (s\<lparr>db_world := w\<rparr>) = rd_schedules s" "rd_schedules (s\<lparr>bu_backups := bs\<rparr>) = rd_schedules s"
  "rd_schedules (s\<lparr>db_events := es\<rparr>) = rd_schedules s" "rd_schedules (s\<lparr>db_ops := os\<rparr>) = rd_schedules s"
  by simp_all

lemma keeps_schedules_prune_each: "keeps rd_schedules (prune_each bh cs p)"
  by (induction cs arbitrary: p)
    (auto simp: pruneBackup_def with_storage_def deleteBackupArtifact_def delete_local_file_def delete_spaces_object_def
      set_backup_def drop_backup_def Let_def intro!: keeps_intros)

lemma keeps_schedules_rotate: "keeps rd_schedules (rotateDatabase bh d opts)"
  unfolding rotateDatabase_def resolveRetentionPolicy_def prune_list_def rotation_notice_def emit_def Let_def
  by (intro keeps_intros keeps_schedules keeps_schedules_prune_each)

lemma keeps_schedules_create: "keeps rd_schedules (createBackup rh d type)"
  unfolding createBackup_def Let_def by (intro keeps_intros) simp_all

lemma start_scheduled_schedules: "rd_schedules (start_scheduled rh d s) = rd_schedules s"
proof -
  have "keeps rd_schedules (andThen (createBackup rh d ScheduledBackup) (\<lambda>_.
      rotateDatabase (backup_host.truncate rh) d \<lparr>ro_dryRun = False, ro_trigger = ''post-backup'', ro_policy = None\<rparr>))"
    by (intro keeps_intros keeps_schedules_create keeps_schedules_rotate)
  then show ?thesis by (simp add: start_scheduled_def keeps_def)
qed

text \<open>A schedule that is not due.\<close>

definition quiet :: "millis \<Rightarrow> schedule_row \<Rightarrow> bool" where
  "quiet t r \<longleftrightarrow> isScheduleDue (sch_cronExpression r) (sch_lastRunAt r) t = Some False"

lemma quiet_after_run:
  "getNextRunTime (sch_cronExpression r) t = Some n \<Longrightarrow> quiet t (r\<lparr>sch_lastRunAt := Some t, sch_nextRunAt := nx\<rparr>)"
  using next_run_after by (fastforce simp: quiet_def isScheduleDue_def)

lemma check_quiet: "list_all (quiet t) rs \<Longrightarrow> check_schedules rh t rs s = Some s"
  by (induction rs) (simp_all add: quiet_def)

text \<open>What a pass over some of the schedules leaves of all of them.\<close>

definition passed :: "millis \<Rightarrow> schedule_row list \<Rightarrow> schedule_row list \<Rightarrow> schedule_row list \<Rightarrow> bool" where
  "passed t rs old new \<longleftrightarrow> map sch_databaseId new = map sch_databaseId old \<and>
     (\<forall>row \<in> set new. if sch_databaseId row \<in> sch_databaseId ` set rs then quiet t row else row \<in> set old)"

lemma check_schedules_passed:
  "check_schedules rh t rs s = Some s' \<Longrightarrow> distinct (map sch_databaseId (rd_schedules s)) \<Longrightarrow> distinct (map sch_databaseId rs) \<Longrightarrow>
     set rs \<subseteq> set (rd_schedules s) \<Longrightarrow> passed t rs (rd_schedules s) (rd_schedules s')"
proof (induction rs arbitrary: s)
  case Nil
  then show ?case by (simp add: passed_def)
next
  case (Cons r rs)
  have only: "row = r" if "row \<in> set (rd_schedules s)" "sch_databaseId row = sch_databaseId r" for row
    using Cons.prems(2,4) that by (simp add: distinct_map inj_on_def)
  show ?case
  proof (cases "isScheduleDue (sch_cronExpression r) (sch_lastRunAt r) t = Some False")
    case True
    then have "passed t rs (rd_schedules s) (rd_schedules s')" using Cons by simp
    moreover have "quiet t r" using True by (simp add: quiet_def)
    ultimately show ?thesis using only by (auto simp: passed_def) metis+
  next
    case False
    then obtain n where n: "getNextRunTime (sch_cronExpression r) t = Some n"
      and run: "check_schedules rh t rs (start_scheduled rh (sch_databaseId r)
          (s\<lparr>rd_schedules := update_row sch_databaseId (sch_databaseId r)
             (\<lambda>r. r\<lparr>sch_lastRunAt := Some t, sch_nextRunAt := Some n\<rparr>) (rd_schedules s)\<rparr>)) = Some s'"
      using Cons.prems(1) by (auto split: option.splits bool.splits)
    let ?new = "update_row sch_databaseId (sch_databaseId r) (\<lambda>r. r\<lparr>sch_lastRunAt := Some t, sch_nextRunAt := Some n\<rparr>) (rd_schedules s)"
    have ids: "map sch_databaseId ?new = map sch_databaseId (rd_schedules s)" by (simp add: update_row_def)
    have "q \<in> set ?new" if "q \<in> set rs" for q
    proof -
      have "q \<in> set (rd_schedules s)" "sch_databaseId q \<noteq> sch_databaseId r" using Cons.prems(3,4) that by (auto simp: image_iff)
      then show ?thesis unfolding update_row_def set_map by (intro image_eqI [of _ _ q]) simp_all
    qed
    then have sub: "set rs \<subseteq> set ?new" by blast
    have "passed t rs ?new (rd_schedules s')"
      using Cons.IH [OF run] ids sub Cons.prems(2,3) by (simp add: start_scheduled_schedules)
    moreover have "if sch_databaseId row = sch_databaseId r then quiet t row else row \<in> set (rd_schedules s)" if "row \<in> set ?new" for row
      using that only quiet_after_run [OF n] by (auto simp: update_row_def)
    ultimately show ?thesis by (auto simp: passed_def ids split: if_splits)
  qed
qed

text \<open>A second check at the same time starts nothing: every schedule that was due has a next run later than the check.\<close>

theorem due_backups_run_once:
  assumes "distinct (map sch_databaseId (rd_schedules s))" and "checkDueBackups rh s = Some s'"
    and "now (bh_host rh) s' = now (bh_host rh) s"
  shows "checkDueBackups rh s' = Some s'"
proof -
  let ?t = "now (bh_host rh) s" and ?rs = "filter sch_enabled (rd_schedules s)"
  have "passed ?t ?rs (rd_schedules s) (rd_schedules s')"
    using assms(1,2) by (intro check_schedules_passed) (auto simp: checkDueBackups_def distinct_map inj_on_def)
  then have "list_all (quiet ?t) (filter sch_enabled (rd_schedules s'))"
    by (auto simp: passed_def list_all_iff split: if_splits)
  from check_quiet [OF this] show ?thesis by (simp add: checkDueBackups_def assms(3))
qed

lemma check_starts_due:
  "isScheduleDue (sch_cronExpression r) (sch_lastRunAt r) t = Some True \<Longrightarrow> getNextRunTime (sch_cronExpression r) t = Some n \<Longrightarrow>
     check_schedules rh t [r] s = Some (start_scheduled rh (sch_databaseId r)
       (s\<lparr>rd_schedules := update_row sch_databaseId (sch_databaseId r)
          (\<lambda>r. r\<lparr>sch_lastRunAt := Some t, sch_nextRunAt := Some n\<rparr>) (rd_schedules s)\<rparr>))"
  by simp

section \<open>Downloads\<close>

lemma download_authorised:
  assumes "getBackupDownload rh i s = (Inr d, s')"
  shows "\<exists>b db. backup_of i s = Some b \<and> database_of (bk_databaseId b) s = Some db \<and> bk_status b = BackupCompleted \<and>
     da_environmentId db \<in> set (rd_downloadAllowed s)"
  using assms
  by (auto simp: getBackupDownload_def with_storage_def the_row_def io_simps elim!: andThen_InrE split: option.splits if_splits)

section \<open>Concrete runs\<close>

text \<open>A host whose commands all exit with the given code, and a store with one backup row and one schedule.\<close>

definition sample_run_host :: "int \<Rightarrow> unit run_host" where
  "sample_run_host code =
     \<lparr>bh_host = quiet_host, bh_credentials = (\<lambda>_ w. (Inr None, w)), bh_spacesConfig = (\<lambda>_ w. (Inr False, w)),
      bh_deleteObject = (\<lambda>_ _ _ w. (None, w)), bh_localDay = (\<lambda>_ t. t), rh_newId = (\<lambda>w. (''n'', w)),
      rh_connect = (\<lambda>_ w. (Inr (), w)),
      rh_exec = (\<lambda>_ _ _ w. (Inr \<lparr>ex_code = code, ex_stdout = ''42'', ex_stderr = []\<rparr>, w)),
      rh_disconnect = (\<lambda>_ w. (Inr (), w)), rh_encrypt = (\<lambda>t w. (Inr (t, []), w)), rh_decrypt = (\<lambda>t _ w. (Inr t, w)),
      rh_parsePgOptions = (\<lambda>_. None), rh_fromBase64 = (\<lambda>t. t), rh_tmpdir = ''/tmp'',
      rh_readFile = (\<lambda>_ w. (Inr [], w)), rh_writeFile = (\<lambda>_ _ w. (Inr (), w)), rh_unlink = (\<lambda>_ w. (Inr (), w)),
      rh_putObject = (\<lambda>_ _ _ _ _ w. (Inr (), w)), rh_signedUrl = (\<lambda>_ _ _ _ w. (Inr [], w))\<rparr>"

definition sample_database :: database_row where
  "sample_database =
     \<lparr>da_id = ''d'', da_name = ''d'', da_environmentId = ''e'', da_serverId = None, da_spacesBucket = None,
      da_pgDumpTimeoutMs = 0, da_type = ''postgres'', da_host = Some ''h'', da_port = Some 1, da_databaseName = Some ''d'',
      da_encryptedCredentials = None, da_credentialsNonce = None, da_filePath = None, da_backupCommand = None,
      da_backupStorageType = ''local'', da_backupLocalPath = None, da_spacesPrefix = None, da_backupFormat = ''plain'',
      da_backupCompression = ''none'', da_backupCompressionLevel = 6, da_pgDumpOptions = None\<rparr>"

definition sample_run_db :: "unit run_db" where
  "sample_run_db =
     \<lparr>db_world = (), db_ops = [], db_servers = [], db_services = [], db_sds = [], db_images = [], db_digests = [],
      db_imageHistory = [], db_deployments = [], db_artifacts = [], db_autoManageCompose = [], db_defaultLogLines = 0,
      db_events = [], bu_backups = [sample_backup ''a'' 1], bu_databases = [sample_database],
      bu_policies = [],
      bu_settings = \<lparr>ss_timezone = ''UTC'', ss_retention = sample_policy None, ss_failedBackupRetentionDays = 3, ss_pgDumpTimeoutMs = 0\<rparr>,
      rd_schedules = [\<lparr>sch_databaseId = ''d'', sch_cronExpression = ''daily'', sch_retentionDays = 7, sch_enabled = True,
                       sch_lastRunAt = None, sch_nextRunAt = None\<rparr>],
      rd_jobs = [], rd_downloadAllowed = []\<rparr>"

theorem backup_run_settles_witness:
  "run_settled ''a'' sample_database (Inr ()) sample_run_db (snd (executeBackup (sample_run_host 0) ''a'' sample_run_db)) \<and>
   isl (fst (executeBackup (sample_run_host 1) ''a'' sample_run_db))"
proof -
  have rows: "backup_of ''a'' sample_run_db = Some (sample_backup ''a'' 1)"
    "database_of (bk_databaseId (sample_backup ''a'' 1)) sample_run_db = Some sample_database" by code_simp+
  have "fst (executeBackup (sample_run_host 0) ''a'' sample_run_db) = Inr ()" by code_simp
  then have "executeBackup (sample_run_host 0) ''a'' sample_run_db =
      (Inr (), snd (executeBackup (sample_run_host 0) ''a'' sample_run_db))" by (metis prod.collapse)
  moreover have "commands_fail (sample_run_host 1)" by (simp add: commands_fail_def sample_run_host_def)
  ultimately show ?thesis
    using backup_run_settles [OF rows, of "sample_run_host 0"] backup_run_settles [OF rows, of "sample_run_host 1"] by (metis prod.collapse)
qed

theorem due_backups_run_once_witness:
  "\<exists>s. checkDueBackups (sample_run_host 0) sample_run_db = Some s \<and> rd_jobs s = [''n''] \<and> checkDueBackups (sample_run_host 0) s = Some s"
proof -
  have "map_option rd_jobs (checkDueBackups (sample_run_host 0) sample_run_db) = Some [''n'']" by code_simp
  then obtain s where s: "checkDueBackups (sample_run_host 0) sample_run_db = Some s" "rd_jobs s = [''n'']" by auto
  have "now (bh_host (sample_run_host 0)) s = now (bh_host (sample_run_host 0)) sample_run_db" by (simp add: now_def)
  with s show ?thesis using due_backups_run_once [OF _ s(1)] by (simp add: sample_run_db_def)
qed

end
