(* ===== verification/Text_Diff.thy ===== *)
theory Text_Diff
  imports Prelude "HOL-Library.Sublist"
begin

text \<open>
  The text functions of a dry run, \<open>src/lib/dry-run.ts\<close>: whether a request asks for one, the redaction of secret
  values in rendered text, and the unified diff of two texts by a table of longest common subsequences. A request's
  query and headers are maps of the values that are strings.
\<close>

section \<open>Requests\<close>

definition isDryRun :: "(string \<rightharpoonup> string) \<Rightarrow> (string \<rightharpoonup> string) \<Rightarrow> bool" where
  "isDryRun query headers \<longleftrightarrow> query ''dryRun'' = Some ''true'' \<or> headers ''x-dry-run'' = Some ''true''"

section \<open>Redaction\<close>

text \<open>\<open>text.split(separator)\<close> at the leftmost occurrences of a separator that is not empty.\<close>

function split_by :: "string \<Rightarrow> string \<Rightarrow> string list" where
  "split_by sep s =
     (case s of
        [] \<Rightarrow> [[]]
      | c # cs \<Rightarrow>
          if sep \<noteq> [] \<and> prefix sep s then [] # split_by sep (drop (length sep) s)
          else (case split_by sep cs of [] \<Rightarrow> [[c]] | p # ps \<Rightarrow> (c # p) # ps))"
  by pat_completeness auto
termination by (relation "measure (length \<circ> snd)") auto

declare split_by.simps [simp del]

definition redact_value :: "string \<Rightarrow> string \<Rightarrow> string" where
  "redact_value content value = join_with ''***'' (split_by value content)"

definition redactSecretValues :: "string \<Rightarrow> string list \<Rightarrow> string" where
  "redactSecretValues content secretValues =
     (if content = [] then content
      else foldl redact_value content (sort_key (\<lambda>v. - int (length v)) (filter (\<lambda>v. 0 < length v) secretValues)))"

definition redactEnvSecrets :: "(string \<times> string) list \<Rightarrow> string list \<Rightarrow> (string \<times> string) list" where
  "redactEnvSecrets env secretValues = map (\<lambda>(key, value). (key, redactSecretValues value secretValues)) env"

subsection \<open>No secret is left\<close>

lemma split_by_Cons:
  "split_by sep (c # cs) =
     (if sep \<noteq> [] \<and> prefix sep (c # cs) then [] # split_by sep (drop (length sep) (c # cs))
      else (case split_by sep cs of [] \<Rightarrow> [[c]] | p # ps \<Rightarrow> (c # p) # ps))"
  by (subst split_by.simps) simp

lemma split_by_Nil [simp]: "split_by sep [] = [[]]"
  by (subst split_by.simps) simp

lemma split_by_nonempty: "split_by sep s \<noteq> []"
  by (cases s) (auto simp: split_by_Cons split: list.splits)

lemma split_by_hd_prefix: "prefix (hd (split_by sep s)) s"
proof (induction s)
  case (Cons c cs)
  then show ?case by (auto simp: split_by_Cons split: list.splits)
qed simp

lemma split_by_sublist: "p \<in> set (split_by sep s) \<Longrightarrow> sublist p s"
proof (induction s arbitrary: p rule: length_induct)
  case (1 s)
  show ?case
  proof (cases s)
    case (Cons c cs)
    show ?thesis
    proof (cases "sep \<noteq> [] \<and> prefix sep s")
      case True
      then consider "p = []" | "p \<in> set (split_by sep (drop (length sep) s))" using 1(2) by (auto simp: Cons split_by_Cons)
      then show ?thesis
      proof cases
        case 2
        moreover have "length (drop (length sep) s) < length s" using True Cons by simp
        ultimately have "sublist p (drop (length sep) s)" using 1(1) by blast
        then show ?thesis by (rule sublist_order.order_trans) simp
      qed simp
    next
      case False
      then obtain q qs where q: "split_by sep cs = q # qs" "p = c # q \<or> p \<in> set qs"
        using 1(2) split_by_nonempty [of sep cs] by (auto simp: Cons split_by_Cons split: list.splits)
      then show ?thesis
      proof (elim disjE)
        assume "p = c # q"
        then have "prefix p s" using split_by_hd_prefix [of sep cs] q(1) by (simp add: Cons)
        then show ?thesis by simp
      next
        assume "p \<in> set qs"
        then have "sublist p cs" using 1(1) q(1) by (auto simp: Cons)
        then show ?thesis by (simp add: Cons sublist_Cons_right)
      qed
    qed
  qed (use 1(2) in simp)
qed

lemma split_by_free: "v \<noteq> [] \<Longrightarrow> p \<in> set (split_by v s) \<Longrightarrow> \<not> sublist v p"
proof (induction s arbitrary: p rule: length_induct)
  case (1 s)
  show ?case
  proof (cases s)
    case (Cons c cs)
    show ?thesis
    proof (cases "prefix v s")
      case True
      then have "p = [] \<or> p \<in> set (split_by v (drop (length v) s))" using 1(2,3) by (auto simp: Cons split_by_Cons)
      moreover have "length (drop (length v) s) < length s" using 1(2) Cons by simp
      ultimately show ?thesis using 1(1) [rule_format, of "drop (length v) s"] 1(2) by auto
    next
      case False
      then obtain q qs where q: "split_by v cs = q # qs" "p = c # q \<or> p \<in> set qs"
        using 1(3) split_by_nonempty [of v cs] by (auto simp: Cons split_by_Cons split: list.splits)
      have free: "\<not> sublist v r" if "r \<in> set (q # qs)" for r using 1(1,2) q(1) that Cons by auto
      have "\<not> prefix v (c # q)"
        using False split_by_hd_prefix [of v cs] q(1) by (auto simp: Cons dest: prefix_order.order_trans [of v "c # q" "c # cs"])
      with free q(2) show ?thesis by (auto simp: sublist_Cons_right)
    qed
  qed (use 1 in simp)
qed

lemma sublist_around: "sublist v (x @ c # y) \<Longrightarrow> c \<notin> set v \<Longrightarrow> sublist v x \<or> sublist v y"
  by (auto simp: sublist_append sublist_Cons_right prefix_Cons)

lemma sublist_join:
  "sublist v (join_with ''***'' ps) \<Longrightarrow> v \<noteq> [] \<Longrightarrow> CHR ''*'' \<notin> set v \<Longrightarrow> \<exists>p \<in> set ps. sublist v p"
proof (induction "''***''" ps rule: join_with.induct)
  case (3 x y ys)
  from 3(2) have "sublist v (x @ CHR ''*'' # (CHR ''*'' # CHR ''*'' # join_with ''***'' (y # ys)))" by simp
  from sublist_around [OF this 3(4)] have "sublist v x \<or> sublist v (join_with ''***'' (y # ys))"
    using 3(3,4) by (auto simp: sublist_Cons_right prefix_Cons)
  with 3 show ?case by auto
qed auto

lemma redact_value_free: "v \<noteq> [] \<Longrightarrow> CHR ''*'' \<notin> set v \<Longrightarrow> \<not> sublist v (redact_value s v)"
  unfolding redact_value_def using sublist_join split_by_free by blast

lemma redact_value_keeps_free:
  "v \<noteq> [] \<Longrightarrow> CHR ''*'' \<notin> set v \<Longrightarrow> \<not> sublist v s \<Longrightarrow> \<not> sublist v (redact_value s u)"
  unfolding redact_value_def using sublist_join split_by_sublist sublist_order.order_trans by meson

lemma redact_fold_free:
  "v \<noteq> [] \<Longrightarrow> CHR ''*'' \<notin> set v \<Longrightarrow> \<not> sublist v s \<or> v \<in> set us \<Longrightarrow> \<not> sublist v (foldl redact_value s us)"
  by (induction us arbitrary: s) (auto simp: redact_value_free redact_value_keeps_free)

lemma split_by_absent: "\<not> sublist v s \<Longrightarrow> split_by v s = [s]"
  by (induction s) (auto simp: split_by_Cons sublist_Cons_right)

lemma redact_fold_absent: "\<forall>v \<in> set vs. \<not> sublist v s \<Longrightarrow> foldl redact_value s vs = s"
  by (induction vs) (auto simp: redact_value_def split_by_absent)

lemma redacted_free: "v \<in> set vs \<Longrightarrow> v \<noteq> [] \<Longrightarrow> CHR ''*'' \<notin> set v \<Longrightarrow> \<not> sublist v (redactSecretValues content vs)"
  by (auto simp: redactSecretValues_def redact_fold_free)

lemma redact_Nil [simp]: "redactSecretValues [] vs = []"
  by (simp add: redactSecretValues_def)

text \<open>No secret value without an asterisk is left in a redacted text, and a text that holds no secret value stays as it is.\<close>

theorem redaction_complete:
  "(\<forall>v \<in> set secretValues. v \<noteq> [] \<longrightarrow> CHR ''*'' \<notin> set v \<longrightarrow> \<not> sublist v (redactSecretValues content secretValues)) \<and>
   ((\<forall>v \<in> set secretValues. v \<noteq> [] \<longrightarrow> \<not> sublist v content) \<longrightarrow> redactSecretValues content secretValues = content)"
  by (auto simp: redacted_free) (auto simp: redactSecretValues_def redact_fold_absent)

theorem redaction_complete_witness:
  "redactSecretValues ''a=pw&b=token'' [''pw'', ''token''] = ''a=***&b=***'' \<and> \<not> sublist ''token'' ''a=***&b=***'' \<and>
     redactSecretValues ''a=b'' [''pw'', ''token''] = ''a=b''"
proof -
  have r: "redactSecretValues ''a=pw&b=token'' [''pw'', ''token''] = ''a=***&b=***''" by code_simp
  have "\<not> sublist ''pw'' ''a=b''" "\<not> sublist ''token'' ''a=b''" by (simp_all add: sublist_Cons_right prefix_Cons)
  then show ?thesis
    using redaction_complete [of "[''pw'', ''token'']" "''a=pw&b=token''"] redaction_complete [of "[''pw'', ''token'']" "''a=b''"] r by simp
qed

text \<open>Values of one length that overlap: the result depends on their order, and a rest of one of them stays.\<close>

lemma redaction_order_matters:
  "redactSecretValues ''abc'' [''ab'', ''bc''] = ''***c''" "redactSecretValues ''abc'' [''bc'', ''ab''] = ''a***''"
  by code_simp+

section \<open>Differences\<close>

text \<open>The rows of the table from the bottom up: \<open>lcs[i][j]\<close> from \<open>lcs[i + 1][j + 1]\<close>, \<open>lcs[i + 1][j]\<close> and \<open>lcs[i][j + 1]\<close>.\<close>

fun lcs_row :: "string \<Rightarrow> string list \<Rightarrow> nat list \<Rightarrow> nat list" where
  "lcs_row a [] below = [0]"
| "lcs_row a (b # bs) below =
     (let row = lcs_row a bs (tl below) in
      (if a = b then below ! 1 + 1 else max (below ! 0) (row ! 0)) # row)"

fun lcs_table :: "string list \<Rightarrow> string list \<Rightarrow> nat list list" where
  "lcs_table [] bLines = [replicate (length bLines + 1) 0]"
| "lcs_table (a # aLines) bLines = (let table = lcs_table aLines bLines in lcs_row a bLines (table ! 0) # table)"

record diff_op =
  op_type :: char
  op_line :: string

function diff_ops :: "string list \<Rightarrow> string list \<Rightarrow> nat list list \<Rightarrow> nat \<Rightarrow> nat \<Rightarrow> diff_op list" where
  "diff_ops aLines bLines lcs i j =
     (if i < length aLines \<and> j < length bLines then
        if aLines ! i = bLines ! j
        then \<lparr>op_type = CHR '' '', op_line = aLines ! i\<rparr> # diff_ops aLines bLines lcs (i + 1) (j + 1)
        else if lcs ! (i + 1) ! j \<ge> lcs ! i ! (j + 1)
        then \<lparr>op_type = CHR ''-'', op_line = aLines ! i\<rparr> # diff_ops aLines bLines lcs (i + 1) j
        else \<lparr>op_type = CHR ''+'', op_line = bLines ! j\<rparr> # diff_ops aLines bLines lcs i (j + 1)
      else map (\<lambda>l. \<lparr>op_type = CHR ''-'', op_line = l\<rparr>) (drop i aLines)
         @ map (\<lambda>l. \<lparr>op_type = CHR ''+'', op_line = l\<rparr>) (drop j bLines))"
  by pat_completeness auto
termination by (relation "measure (\<lambda>(a, b, t, i, j). (length a - i) + (length b - j))") auto

declare diff_ops.simps [simp del]

definition line_feed :: char where
  "line_feed = CHR 0x0A"

definition unifiedDiff :: "string \<Rightarrow> string \<Rightarrow> string option \<Rightarrow> string option \<Rightarrow> string" where
  "unifiedDiff before after fromLabel toLabel =
     (if before = after then []
      else let aLines = split_on line_feed before; bLines = split_on line_feed after;
               ops = diff_ops aLines bLines (lcs_table aLines bLines) 0 0 in
        join_with [line_feed]
          ([''--- '' @ nullish fromLabel ''current'', ''+++ '' @ nullish toLabel ''rendered'',
            ''@@ -1,'' @ nat_str (length aLines) @ '' +1,'' @ nat_str (length bLines) @ '' @@'']
           @ map (\<lambda>op. op_type op # op_line op) ops))"

subsection \<open>The table holds the lengths of longest common subsequences\<close>

fun lcs_length :: "string list \<Rightarrow> string list \<Rightarrow> nat" where
  "lcs_length (a # as) (b # bs) =
     (if a = b then lcs_length as bs + 1 else max (lcs_length as (b # bs)) (lcs_length (a # as) bs))"
| "lcs_length _ _ = 0"

lemma lcs_length_Nil [simp]: "lcs_length [] bs = 0" "lcs_length as [] = 0"
  by (cases as; simp)+

lemma lcs_row_length: "lcs_row a bs (map (\<lambda>j. lcs_length as (drop j bs)) [0..<Suc (length bs)]) =
    map (\<lambda>j. lcs_length (a # as) (drop j bs)) [0..<Suc (length bs)]"
proof (induction bs)
  case (Cons b bs)
  have shift: "map f [0..<Suc (length (b # bs))] = f 0 # map (\<lambda>j. f (Suc j)) [0..<Suc (length bs)]" for f :: "nat \<Rightarrow> nat"
    by (simp add: map_upt_Suc del: upt_Suc)
  have hd: "map (\<lambda>j. lcs_length (a # as) (drop j bs)) [0..<Suc (length bs)] ! 0 = lcs_length (a # as) bs"
    "map (\<lambda>j. lcs_length as (drop j bs)) [0..<Suc (length bs)] ! 0 = lcs_length as bs"
    by (simp_all add: nth_append del: upt_Suc)
  show ?case unfolding shift by (simp add: Cons.IH hd Let_def del: upt_Suc)
qed simp

lemma lcs_table_length: "i \<le> length as \<Longrightarrow> j \<le> length bs \<Longrightarrow> lcs_table as bs ! i ! j = lcs_length (drop i as) (drop j bs)"
proof -
  have "lcs_table as bs ! i = map (\<lambda>j. lcs_length (drop i as) (drop j bs)) [0..<Suc (length bs)]" if "i \<le> length as" for i
    using that
  proof (induction as arbitrary: i)
    case Nil
    then show ?case by (simp add: map_replicate_const)
  next
    case (Cons a as)
    then show ?case by (cases i) (auto simp: Let_def lcs_row_length simp del: upt_Suc)
  qed
  then show "i \<le> length as \<Longrightarrow> j \<le> length bs \<Longrightarrow> lcs_table as bs ! i ! j = lcs_length (drop i as) (drop j bs)"
    by (simp del: upt_Suc)
qed

text \<open>No common subsequence is longer.\<close>

lemma lcs_length_upper: "subseq cs as \<Longrightarrow> subseq cs bs \<Longrightarrow> length cs \<le> lcs_length as bs"
proof (induction as bs arbitrary: cs rule: lcs_length.induct)
  case (1 a as b bs)
  show ?case
  proof (cases "a = b")
    case True
    then show ?thesis
      using 1 by (cases cs) (auto simp: subseq_Cons2_iff split: if_splits dest: subseq_Cons')
  next
    case False
    then have "subseq cs as \<or> subseq cs bs" using 1(4,5) by (cases cs) (auto split: if_splits)
    then show ?thesis using 1(2,3) [OF False] 1(4,5) False by (auto simp: le_max_iff_disj)
  qed
qed auto

definition op_side :: "char \<Rightarrow> diff_op list \<Rightarrow> string list" where
  "op_side c ops = map op_line (filter (\<lambda>op. op_type op = CHR '' '' \<or> op_type op = c) ops)"

lemma drop_step: "i < length xs \<Longrightarrow> drop i xs = xs ! i # drop (Suc i) xs"
  by (simp add: Cons_nth_drop_Suc)

lemma diff_ops_end: "\<not> (i < length as \<and> j < length bs) \<Longrightarrow> diff_ops as bs t i j =
    map (\<lambda>l. \<lparr>op_type = CHR ''-'', op_line = l\<rparr>) (drop i as) @ map (\<lambda>l. \<lparr>op_type = CHR ''+'', op_line = l\<rparr>) (drop j bs)"
  by (subst diff_ops.simps) (rule if_not_P)

lemma diff_ops_sides:
  "op_side (CHR ''-'') (diff_ops as bs t i j) = drop i as \<and> op_side (CHR ''+'') (diff_ops as bs t i j) = drop j bs"
proof (induction as bs t i j rule: diff_ops.induct)
  case (1 as bs t i j)
  have rest: "op_side (CHR ''-'') (map (\<lambda>l. \<lparr>op_type = CHR ''-'', op_line = l\<rparr>) xs @ map (\<lambda>l. \<lparr>op_type = CHR ''+'', op_line = l\<rparr>) ys) = xs"
    "op_side (CHR ''+'') (map (\<lambda>l. \<lparr>op_type = CHR ''-'', op_line = l\<rparr>) xs @ map (\<lambda>l. \<lparr>op_type = CHR ''+'', op_line = l\<rparr>) ys) = ys" for xs ys
    by (simp_all add: op_side_def filter_map comp_def)
  show ?case
  proof (cases "i < length as \<and> j < length bs")
    case True
    then show ?thesis using 1
      by (subst (1 2) diff_ops.simps) (auto simp: drop_step [of i as] drop_step [of j bs] op_side_def)
  next
    case False
    then show ?thesis by (simp only: diff_ops_end [OF False] rest)
  qed
qed

lemma diff_ops_kept: "length (filter (\<lambda>op. op_type op = CHR '' '') (diff_ops as bs (lcs_table as bs) i j)) = lcs_length (drop i as) (drop j bs)"
proof (induction as bs "lcs_table as bs" i j rule: diff_ops.induct)
  case (1 as bs i j)
  show ?case
  proof (cases "i < length as \<and> j < length bs")
    case True
    then show ?thesis
      using 1 by (subst diff_ops.simps) (auto simp: drop_step [of i as] drop_step [of j bs] lcs_table_length max_def)
  next
    case False
    then have "lcs_length (drop i as) (drop j bs) = 0" by auto
    then show ?thesis by (simp add: diff_ops_end [OF False] filter_map comp_def)
  qed
qed

subsection \<open>The text of a diff\<close>

text \<open>The side of a diff that a character marks, as \<open>patch\<close> would read it.\<close>

definition diff_side :: "char \<Rightarrow> string \<Rightarrow> string" where
  "diff_side c diff =
     join_with [line_feed] (map tl (filter (\<lambda>l. l \<noteq> [] \<and> (hd l = CHR '' '' \<or> hd l = c)) (drop 3 (split_on line_feed diff))))"

lemma split_on_line_free: "\<forall>l \<in> set (split_on c s). c \<notin> set l"
  using split_on_free by blast

lemma nat_str_no_line: "line_feed \<notin> set (nat_str n)"
  using nat_str_digits [of n] by (auto simp: digit_def line_feed_def char_in_def)

lemma side_lines:
  assumes "c = CHR ''-'' \<or> c = CHR ''+''"
  shows "map tl (filter (\<lambda>l. l \<noteq> [] \<and> (hd l = CHR '' '' \<or> hd l = c)) (map (\<lambda>op. op_type op # op_line op) ops)) = op_side c ops"
  by (simp add: op_side_def filter_map comp_def)

lemma diff_ops_lines:
  "op \<in> set (diff_ops as bs t i j) \<Longrightarrow> op_line op \<in> set as \<union> set bs \<and> op_type op \<in> {CHR '' '', CHR ''-'', CHR ''+''}"
proof (induction as bs t i j rule: diff_ops.induct)
  case (1 as bs t i j)
  show ?case
  proof (cases "i < length as \<and> j < length bs")
    case True
    then show ?thesis using 1 by (subst (asm) diff_ops.simps) (auto split: if_splits)
  next
    case False
    with 1(4) show ?thesis by (auto simp: diff_ops_end [OF False] dest: in_set_dropD)
  qed
qed

text \<open>A diff line by line, with the head that names the two texts.\<close>

lemma unified_diff_lines:
  assumes "line_feed \<notin> set (nullish fromLabel ''current'')" and "line_feed \<notin> set (nullish toLabel ''rendered'')" and "before \<noteq> after"
    and "as = split_on line_feed before" and "bs = split_on line_feed after"
  shows "\<exists>x y z. split_on line_feed (unifiedDiff before after fromLabel toLabel) =
           [x, y, z] @ map (\<lambda>op. op_type op # op_line op) (diff_ops as bs (lcs_table as bs) 0 0)"
proof -
  let ?ops = "diff_ops as bs (lcs_table as bs) 0 0"
  let ?head = "[''--- '' @ nullish fromLabel ''current'', ''+++ '' @ nullish toLabel ''rendered'',
            ''@@ -1,'' @ nat_str (length as) @ '' +1,'' @ nat_str (length bs) @ '' @@'']"
  let ?body = "map (\<lambda>op. op_type op # op_line op) ?ops"
  have "\<forall>l \<in> set ?head. line_feed \<notin> set l" using assms(1,2) nat_str_no_line by (auto simp: line_feed_def)
  moreover have "\<forall>l \<in> set ?body. line_feed \<notin> set l"
    using split_on_free [of _ line_feed] assms(4,5) by (fastforce simp: line_feed_def dest!: diff_ops_lines)
  ultimately have "split_on line_feed (join_with [line_feed] (?head @ ?body)) = ?head @ ?body"
    by (intro split_on_join) auto
  moreover have "unifiedDiff before after fromLabel toLabel = join_with [line_feed] (?head @ ?body)"
    using assms(3-5) by (simp add: unifiedDiff_def Let_def)
  ultimately show ?thesis by auto
qed

lemma diff_side_Nil [simp]: "diff_side c [] = []"
  by (simp add: diff_side_def)

lemma unified_diff_sides:
  assumes "line_feed \<notin> set (nullish fromLabel ''current'')" and "line_feed \<notin> set (nullish toLabel ''rendered'')"
  shows "diff_side (CHR ''-'') (unifiedDiff before after fromLabel toLabel) = (if before = after then [] else before)"
    and "diff_side (CHR ''+'') (unifiedDiff before after fromLabel toLabel) = (if before = after then [] else after)"
proof -
  let ?as = "split_on line_feed before" and ?bs = "split_on line_feed after"
  have "diff_side c (unifiedDiff before after fromLabel toLabel) = join_with [line_feed] (op_side c (diff_ops ?as ?bs (lcs_table ?as ?bs) 0 0))"
    if "before \<noteq> after" "c = CHR ''-'' \<or> c = CHR ''+''" for c
    using unified_diff_lines [OF assms that(1) refl refl] side_lines [OF that(2)] by (auto simp: diff_side_def)
  then show "diff_side (CHR ''-'') (unifiedDiff before after fromLabel toLabel) = (if before = after then [] else before)"
    "diff_side (CHR ''+'') (unifiedDiff before after fromLabel toLabel) = (if before = after then [] else after)"
    using diff_ops_sides [of ?as ?bs "lcs_table ?as ?bs" 0 0] by (auto simp: join_split_on) (auto simp: unifiedDiff_def)
qed

text \<open>C9: A diff is empty exactly when the texts agree; otherwise its unmarked and removed lines are the old text, its unmarked and added lines the new one, and no common subsequence of their lines has more lines than it leaves unmarked.\<close>

theorem unified_diff_correct:
  assumes "line_feed \<notin> set (nullish fromLabel ''current'')" and "line_feed \<notin> set (nullish toLabel ''rendered'')"
  shows "(unifiedDiff before after fromLabel toLabel = [] \<longleftrightarrow> before = after) \<and>
    (before \<noteq> after \<longrightarrow>
       diff_side (CHR ''-'') (unifiedDiff before after fromLabel toLabel) = before \<and>
       diff_side (CHR ''+'') (unifiedDiff before after fromLabel toLabel) = after \<and>
       (\<forall>cs. subseq cs (split_on line_feed before) \<longrightarrow> subseq cs (split_on line_feed after) \<longrightarrow>
          length cs \<le> length (filter (\<lambda>l. l \<noteq> [] \<and> hd l = CHR '' '') (drop 3 (split_on line_feed (unifiedDiff before after fromLabel toLabel))))))"
proof (cases "before = after")
  case False
  let ?as = "split_on line_feed before" and ?bs = "split_on line_feed after"
  have "length (filter (\<lambda>l. l \<noteq> [] \<and> hd l = CHR '' '') (drop 3 (split_on line_feed (unifiedDiff before after fromLabel toLabel)))) = lcs_length ?as ?bs"
    using unified_diff_lines [OF assms False refl refl] diff_ops_kept [of ?as ?bs 0 0] by (auto simp: filter_map comp_def)
  moreover have "unifiedDiff before after fromLabel toLabel \<noteq> []" using False by (simp add: unifiedDiff_def Let_def)
  ultimately show ?thesis
    using False lcs_length_upper [of _ ?as ?bs] by (simp add: unified_diff_sides [OF assms])
qed (simp add: unifiedDiff_def)

theorem unified_diff_correct_witness:
  "diff_side (CHR ''+'') (unifiedDiff (''a'' @ [line_feed] @ ''b'') (''a'' @ [line_feed] @ ''c'') None None) = ''a'' @ [line_feed] @ ''c''"
  using unified_diff_correct [of None None "''a'' @ [line_feed] @ ''b''" "''a'' @ [line_feed] @ ''c''"] by (simp add: line_feed_def)

end
