(* ===== verification/Sync_Preview.thy ===== *)
theory Sync_Preview
  imports Config_Sync Text_Diff "HOL-Library.List_Lexorder"
begin

text \<open>
  The dry run of a config file sync, \<open>syncConfigFileToAttachedServicesDryRun\<close> of
  \<open>src/services/config-file-auto-resync.ts\<close>: the targets of the sync, each with the difference of the file on its
  host and the content that would be written, both with their secret values redacted. Targets, groups, client and
  rendering are those of \<open>Config_Sync\<close>, as the code repeats them line by line.
\<close>

section \<open>The report\<close>

record preview_target =
  pv_serverName :: string
  pv_serviceName :: string
  pv_configFileName :: string
  pv_hostPath :: string
  pv_diff :: string
  pv_exists :: bool
  pv_referencingServices :: "string list"
  pv_warnings :: "string list"
  pv_error :: "string option"

text \<open>Services by name; \<open>sort()\<close> compares by characters.\<close>

definition listReferencingServiceNames :: "ident \<Rightarrow> ident \<Rightarrow> ('w, 'z) config_db_scheme \<Rightarrow> string list" where
  "listReferencingServiceNames configFileId serverId s =
     (let on_server = (\<lambda>d. dp_serverId d = serverId);
          rows = filter (\<lambda>sf. sf_configFileId sf = configFileId \<and>
            (case sf_serviceDeploymentId sf of
               Some i \<Rightarrow> list_ex (\<lambda>d. dp_id d = i \<and> on_server d) (db_sds s)
             | None \<Rightarrow> list_ex (\<lambda>d. dp_serviceId d = sf_serviceId sf \<and> on_server d) (db_sds s))) (cd_serviceFiles s);
          names = List.map_filter (\<lambda>sf. map_option se_name (List.find (\<lambda>e. se_id e = sf_serviceId sf) (db_services s))) rows
      in sort (js_unique (filter (\<lambda>n. n \<noteq> []) names)))"

definition preview_row :: "config_file \<Rightarrow> server_row \<Rightarrow> sync_target \<Rightarrow> string \<Rightarrow> bool \<Rightarrow> string list \<Rightarrow> string list \<Rightarrow> string option
    \<Rightarrow> preview_target" where
  "preview_row cf server p diff exists referencing warnings error =
     \<lparr>pv_serverName = srv_name server, pv_serviceName = tg_serviceName p, pv_configFileName = cf_name cf,
      pv_hostPath = sf_targetPath (tg_file p), pv_diff = diff, pv_exists = exists, pv_referencingServices = referencing,
      pv_warnings = warnings, pv_error = error\<rparr>"

text \<open>A target of a server that cannot be reached, with the reason as its warning.\<close>

definition unreached :: "config_file \<Rightarrow> server_row \<Rightarrow> string \<Rightarrow> sync_target \<Rightarrow> preview_target" where
  "unreached cf server reason p = preview_row cf server p [] False [tg_serviceName p] [reason] None"

text \<open>\<open>stdout.replace(/\n$/, '')\<close>.\<close>

definition drop_newline :: "string \<Rightarrow> string" where
  "drop_newline s = (if s \<noteq> [] \<and> last s = line_feed then butlast s else s)"

definition cat_command :: "string \<Rightarrow> string" where
  "cat_command path = ''cat '' @ shellEscape path @ '' 2>/dev/null''"

definition hard_errors :: "resolved \<Rightarrow> string list" where
  "hard_errors res =
     (if rs_templateErrors res \<noteq> [] then [''Template errors: '' @ join_with ''; '' (rs_templateErrors res)] else [])
   @ (if rs_missing res \<noteq> [] then [''Missing secrets: '' @ join_with '', '' (rs_missing res)] else [])"

definition host_content :: "string list \<Rightarrow> string + exec_result \<Rightarrow> string \<times> bool \<times> string list" where
  "host_content secretValues r =
     (case r of
        Inl e \<Rightarrow> ([], False, [''Could not read host file: '' @ e])
      | Inr res \<Rightarrow>
          if ex_code res = 0 then (redactSecretValues (drop_newline (ex_stdout res)) secretValues, True, [])
          else ([], False, []))"

definition preview_pair :: "'w sync_host \<Rightarrow> config_file \<Rightarrow> (string \<times> string) list \<Rightarrow> server_row \<Rightarrow> string list \<Rightarrow> sync_target
    \<Rightarrow> (('w, 'z) config_db_scheme, preview_target) io" where
  "preview_pair sy cf fragments server secretValues p =
     (let path = sf_targetPath (tg_file p) in
      andThen (reads (listReferencingServiceNames (cf_id cf) (srv_id server))) (\<lambda>referencing.
      if cf_isBinary cf then ret (preview_row cf server p [] False referencing [''Binary file: diff omitted''] None)
      else
        andThen (reads (render_for sy cf fragments server)) (\<lambda>rendered.
        case rendered of
          Inl e \<Rightarrow> throw e
        | Inr res \<Rightarrow>
            if hard_errors res \<noteq> [] then
              ret (preview_row cf server p [] False referencing (hard_errors res) (Some (join_with ''; '' (hard_errors res))))
            else
              andThen (trap (remote (sy_host sy) (OpExec (srv_id server) (cat_command path)))) (\<lambda>r.
              let (currentContent, exists, localWarnings) = host_content secretValues r;
                  renderedContent = redactSecretValues (js_trimEnd (rs_content res)) secretValues in
              ret (preview_row cf server p
                     (unifiedDiff currentContent renderedContent (Some (CHR ''a'' # path)) (Some (CHR ''b'' # path)))
                     exists referencing localWarnings None)))))"

text \<open>The rows pushed so far stay when a later target throws.\<close>

fun preview_pairs :: "'w sync_host \<Rightarrow> config_file \<Rightarrow> (string \<times> string) list \<Rightarrow> server_row \<Rightarrow> string list \<Rightarrow> sync_target list
    \<Rightarrow> (('w, 'z) config_db_scheme, preview_target list \<times> string option) io" where
  "preview_pairs sy cf fragments server secretValues [] = ret ([], None)"
| "preview_pairs sy cf fragments server secretValues (p # ps) =
     andThen (trap (preview_pair sy cf fragments server secretValues p)) (\<lambda>r.
     case r of
       Inl e \<Rightarrow> ret ([], Some e)
     | Inr row \<Rightarrow>
         andThen (preview_pairs sy cf fragments server secretValues ps) (\<lambda>(rows, thrown). ret (row # rows, thrown)))"

definition preview_connected :: "'w sync_host \<Rightarrow> config_file \<Rightarrow> (string \<times> string) list \<Rightarrow> server_row \<Rightarrow> string list
    \<Rightarrow> sync_target list \<Rightarrow> (('w, 'z) config_db_scheme, preview_target list) io" where
  "preview_connected sy cf fragments server secretValues members =
     andThen (trap (remote (sy_host sy) (OpConnect (srv_id server)))) (\<lambda>connected.
     andThen (case connected of
                Inl e \<Rightarrow> ret ([], Some e)
              | Inr _ \<Rightarrow> preview_pairs sy cf fragments server secretValues members) (\<lambda>(rows, thrown).
     andThen (remote (sy_host sy) (OpDisconnect (srv_id server))) (\<lambda>_.
     ret (rows @ (case thrown of None \<Rightarrow> [] | Some e \<Rightarrow> map (unreached cf server e) members)))))"

definition preview_group :: "'w sync_host \<Rightarrow> config_file \<Rightarrow> (string \<times> string) list \<Rightarrow> ident \<times> sync_target list
    \<Rightarrow> (('w, 'z) config_db_scheme, preview_target list) io" where
  "preview_group sy cf fragments entry =
     (let group = snd entry; server = tg_server (hd group) in
      andThen (reads (\<lambda>s. getSecretsForEnv (sy_decrypt sy) s (srv_environmentId server))) (\<lambda>secrets.
      case secrets of
        Inl e \<Rightarrow> throw e
      | Inr env \<Rightarrow>
          andThen (createClientForServer sy server) (\<lambda>(client, clientError).
          case client of
            None \<Rightarrow>
              ret (map (unreached cf server
                      (if truthy clientError then the clientError else ''Failed to create SSH client'')) group)
          | Some _ \<Rightarrow> preview_connected sy cf fragments server (map snd env) group)))"

definition syncConfigFileToAttachedServicesDryRun :: "'w sync_host \<Rightarrow> ident
    \<Rightarrow> (('w, 'z) config_db_scheme, preview_target list option) io" where
  "syncConfigFileToAttachedServicesDryRun sy configFileId =
     andThen (reads (\<lambda>s. (find_config configFileId s, included_fragments s configFileId, attachments s configFileId)))
       (\<lambda>(configFile, fragments, services).
       case configFile of
         None \<Rightarrow> ret None
       | Some cf \<Rightarrow>
           andThen (collect (preview_group sy cf fragments) (server_groups (fan_out services))) (\<lambda>results.
           ret (Some (concat results))))"

section \<open>A dry run only reads\<close>

definition read_op :: "remote_op \<Rightarrow> bool" where
  "read_op op \<longleftrightarrow>
     (case op of OpConnect _ \<Rightarrow> True | OpDisconnect _ \<Rightarrow> True | OpExec _ c \<Rightarrow> c \<in> range cat_command | _ \<Rightarrow> False)"

text \<open>Everything but the world and the list of commands.\<close>

definition rows_of :: "('w, 'z) config_db_scheme \<Rightarrow> ('w, 'z) config_db_scheme" where
  "rows_of s = s\<lparr>db_world := undefined, db_ops := []\<rparr>"

definition only_read :: "('w, 'z) config_db_scheme \<Rightarrow> ('w, 'z) config_db_scheme \<Rightarrow> bool" where
  "only_read s st \<longleftrightarrow> rows_of st = rows_of s \<and> (\<exists>ops. db_ops st = db_ops s @ ops \<and> list_all read_op ops)"

lemma only_read_refl: "only_read s s"
  by (simp add: only_read_def)

lemma only_read_world: "preserves (only_read s) (on_world g)"
  by (rule preservesI) (auto simp: only_read_def on_world_def rows_of_def split: prod.split)

lemma only_read_remote: "read_op op \<Longrightarrow> preserves (only_read s) (remote h op)"
  by (rule preservesI) (auto simp: only_read_def remote_def rows_of_def split: prod.split)

lemma read_ops: "read_op (OpConnect i)" "read_op (OpDisconnect i)" "read_op (OpExec i (cat_command path))"
  by (simp_all add: read_op_def)

lemma only_read_client: "preserves (only_read s) (createClientForServer sy server)"
  unfolding createClientForServer_def Let_def by (intro preserves_intros only_read_world)

lemma only_read_pair: "preserves (only_read s) (preview_pair sy cf fragments server secretValues p)"
  unfolding preview_pair_def Let_def by (intro preserves_intros only_read_remote read_ops)

lemma only_read_pairs: "preserves (only_read s) (preview_pairs sy cf fragments server secretValues ps)"
  by (induction ps) (auto intro!: preserves_intros only_read_pair)

lemma only_read_connected: "preserves (only_read s) (preview_connected sy cf fragments server secretValues ps)"
  unfolding preview_connected_def by (intro preserves_intros only_read_pairs only_read_remote read_ops)

lemma only_read_group: "preserves (only_read s) (preview_group sy cf fragments entry)"
  unfolding preview_group_def Let_def
  by (intro preserves_intros only_read_client only_read_connected)

lemma only_read_preview: "preserves (only_read s) (syncConfigFileToAttachedServicesDryRun sy i)"
  unfolding syncConfigFileToAttachedServicesDryRun_def by (intro preserves_intros only_read_group)

section \<open>A dry run shows what the sync would write\<close>

lemma sync_frame_rows: "rows_of st = rows_of s \<Longrightarrow> sync_frame st = sync_frame s"
  by (metis rows_of_def sync_frame_simps(1))

lemma keeps_rows [keeps_intros]: "keeps rows_of (remote h op)" "keeps rows_of (on_world g)"
  by (auto simp: keeps_def remote_def on_world_def rows_of_def split: prod.split)

lemma keeps_rows_client: "keeps rows_of (createClientForServer sy server)"
  unfolding createClientForServer_def Let_def by (intro keeps_intros)

lemma keeps_rows_pair: "keeps rows_of (preview_pair sy cf fragments server secretValues p)"
  unfolding preview_pair_def Let_def by (intro keeps_intros)

lemma keeps_rows_pairs: "keeps rows_of (preview_pairs sy cf fragments server secretValues ps)"
  by (induction ps) (auto intro!: keeps_intros keeps_rows_pair)

lemma keeps_rows_group: "keeps rows_of (preview_group sy cf fragments entry)"
  unfolding preview_group_def preview_connected_def Let_def by (intro keeps_intros keeps_rows_client keeps_rows_pairs)

text \<open>What the row of a target may say.\<close>

definition row_names :: "config_file \<Rightarrow> server_row \<Rightarrow> sync_target \<Rightarrow> preview_target \<Rightarrow> bool" where
  "row_names cf server p r \<longleftrightarrow>
     pv_serverName r = srv_name server \<and> pv_serviceName r = tg_serviceName p \<and> pv_configFileName r = cf_name cf \<and>
     pv_hostPath r = sf_targetPath (tg_file p)"

definition preview_row_ok :: "'w sync_host \<Rightarrow> config_file \<Rightarrow> (string \<times> string) list \<Rightarrow> server_row \<Rightarrow> string list \<Rightarrow> ('w, 'z) config_db_scheme
    \<Rightarrow> sync_target \<Rightarrow> preview_target \<Rightarrow> bool" where
  "preview_row_ok sy cf fragments server secretValues s p r \<longleftrightarrow> row_names cf server p r \<and>
     (pv_error r = None \<and> pv_diff r = [] \<or>
      (\<exists>res. \<not> cf_isBinary cf \<and> render_for sy cf fragments server s = Inr res \<and>
        (if hard_errors res \<noteq> [] then pv_error r = Some (join_with ''; '' (hard_errors res)) \<and> pv_diff r = []
         else pv_error r = None \<and>
           (\<exists>current. pv_diff r = unifiedDiff (redactSecretValues current secretValues)
              (redactSecretValues (js_trimEnd (rs_content res)) secretValues)
              (Some (CHR ''a'' # pv_hostPath r)) (Some (CHR ''b'' # pv_hostPath r))))))"

lemma host_content_redacted: "\<exists>current. fst (host_content vs r) = redactSecretValues current vs"
  by (cases r) (auto simp: host_content_def intro: exI [of _ "[]"])

lemma preview_pair_run:
  assumes "rows_of st = rows_of s" and "preview_pair sy cf fragments server vs p st = (x, st')"
  shows "case x of Inl e \<Rightarrow> \<not> cf_isBinary cf \<and> render_for sy cf fragments server s = Inl e
     | Inr r \<Rightarrow> preview_row_ok sy cf fragments server vs s p r \<and> (cf_isBinary cf \<or> \<not> isl (render_for sy cf fragments server s))"
proof -
  have render: "render_for sy cf fragments server st = render_for sy cf fragments server s"
    by (rule render_for_frame [OF sync_frame_rows [OF assms(1)]])
  show ?thesis
  proof (cases "cf_isBinary cf")
    case True
    then show ?thesis using assms(2) by (auto simp: preview_pair_def io_simps Let_def preview_row_ok_def row_names_def preview_row_def)
  next
    case False
    show ?thesis
    proof (cases "render_for sy cf fragments server s")
      case (Inl e)
      with False render show ?thesis using assms(2) by (auto simp: preview_pair_def io_simps Let_def)
    next
      case (Inr res)
      show ?thesis
      proof (cases "hard_errors res = []")
        case True
        obtain r2 st2 where rem: "trap (remote (sy_host sy) (OpExec (srv_id server) (cat_command (sf_targetPath (tg_file p))))) st = (Inr r2, st2)"
          by (cases "remote (sy_host sy) (OpExec (srv_id server) (cat_command (sf_targetPath (tg_file p)))) st") (simp add: trap_def)
        obtain current ex lw where hc: "host_content vs r2 = (current, ex, lw)" by (cases "host_content vs r2")
        then obtain c where "current = redactSecretValues c vs" using host_content_redacted [of vs r2] by auto
        with False Inr True render rem hc show ?thesis using assms(2)
          by (auto simp: preview_pair_def io_simps Let_def preview_row_ok_def row_names_def preview_row_def)
      qed (use False Inr render assms(2) in \<open>auto simp: preview_pair_def io_simps Let_def preview_row_ok_def row_names_def preview_row_def\<close>)
    qed
  qed
qed

lemma preview_pairs_run:
  "rows_of st = rows_of s \<Longrightarrow> preview_pairs sy cf fragments server vs ps st = (Inr (rows, thrown), st') \<Longrightarrow>
     (if thrown = None then list_all2 (preview_row_ok sy cf fragments server vs s) ps rows
      else rows = [] \<and> \<not> cf_isBinary cf \<and> isl (render_for sy cf fragments server s))"
proof (induction ps arbitrary: st rows st')
  case (Cons p ps)
  obtain x st1 where x: "preview_pair sy cf fragments server vs p st = (x, st1)" by fastforce
  note px = preview_pair_run [OF Cons.prems(1) x]
  have st1: "rows_of st1 = rows_of s" using keepsD [OF keeps_rows_pair x] Cons.prems(1) by simp
  show ?case
  proof (cases x)
    case (Inl e)
    with Cons.prems(2) x px show ?thesis by (auto simp: trap_def io_simps)
  next
    case (Inr r)
    with Cons.prems(2) x obtain rows' st2 where rest: "preview_pairs sy cf fragments server vs ps st1 = (Inr (rows', thrown), st2)"
      and rows: "rows = r # rows'"
      by (auto simp: trap_def io_simps elim!: andThen_InrE)
    from Cons.IH [OF st1 rest] px Inr rows show ?thesis by (auto split: if_splits)
  qed
qed (simp add: io_simps)

lemma unreached_ok: "preview_row_ok sy cf fragments server vs s p (unreached cf server reason p)"
  by (simp add: preview_row_ok_def row_names_def unreached_def preview_row_def)

lemma unreached_all: "list_all2 (preview_row_ok sy cf fragments server vs s) ps (map (unreached cf server reason) ps)"
  by (simp add: list_all2_conv_all_nth unreached_ok)

lemma preview_connected_run:
  assumes "rows_of st = rows_of s" and "preview_connected sy cf fragments server vs members st = (Inr rows, st')"
  shows "list_all2 (preview_row_ok sy cf fragments server vs s) members rows"
proof -
  from assms(2) obtain connected st2 rows' thrown st3
    where conn: "trap (remote (sy_host sy) (OpConnect (srv_id server))) st = (Inr connected, st2)"
      and mid: "(case connected of Inl e \<Rightarrow> ret ([], Some e) | Inr _ \<Rightarrow> preview_pairs sy cf fragments server vs members) st2 = (Inr (rows', thrown), st3)"
      and rows: "rows = rows' @ (case thrown of None \<Rightarrow> [] | Some e \<Rightarrow> map (unreached cf server e) members)"
    unfolding preview_connected_def by (auto simp: io_simps elim!: andThen_InrE)
  have st2: "rows_of st2 = rows_of s" using keepsD [OF keeps_trap [OF keeps_rows(1)] conn] assms(1) by simp
  show ?thesis
  proof (cases connected)
    case (Inl e)
    with mid rows show ?thesis by (auto simp: io_simps unreached_all)
  next
    case (Inr u)
    with mid have "preview_pairs sy cf fragments server vs members st2 = (Inr (rows', thrown), st3)" by simp
    from preview_pairs_run [OF st2 this] rows show ?thesis by (cases thrown) (simp_all add: unreached_all)
  qed
qed

lemma preview_group_run:
  assumes "rows_of st = rows_of s" and "preview_group sy cf fragments entry st = (Inr rows, st')"
    and "server = tg_server (hd (snd entry))"
  shows "\<exists>env. getSecretsForEnv (sy_decrypt sy) s (srv_environmentId server) = Inr env \<and>
     list_all2 (preview_row_ok sy cf fragments server (map snd env) s) (snd entry) rows"
proof -
  have same: "getSecretsForEnv (sy_decrypt sy) st e = getSecretsForEnv (sy_decrypt sy) s e" for e
    using sync_frame_fields(3) [OF sync_frame_rows [OF assms(1)]] by (simp add: getSecretsForEnv_def)
  obtain env where env: "getSecretsForEnv (sy_decrypt sy) s (srv_environmentId server) = Inr env"
    using assms(2,3) same by (auto simp: preview_group_def io_simps Let_def split: sum.splits)
  then obtain client clientError st1 where con: "createClientForServer sy server st = (Inr (client, clientError), st1)"
    and rest: "(case client of
        None \<Rightarrow> ret (map (unreached cf server
                  (if truthy clientError then the clientError else ''Failed to create SSH client'')) (snd entry))
      | Some _ \<Rightarrow> preview_connected sy cf fragments server (map snd env) (snd entry)) st1 = (Inr rows, st')"
    using assms(2) same unfolding preview_group_def Let_def assms(3) [symmetric] by (auto simp: io_simps elim!: andThen_InrE)
  have st1: "rows_of st1 = rows_of s" using keepsD [OF keeps_rows_client con] assms(1) by simp
  have "list_all2 (preview_row_ok sy cf fragments server (map snd env) s) (snd entry) rows"
  proof (cases client)
    case None
    with rest show ?thesis by (auto simp: io_simps unreached_all)
  next
    case (Some c)
    with rest show ?thesis by (simp add: preview_connected_run [OF st1])
  qed
  with env show ?thesis by blast
qed

text \<open>The row of a target against what a sync in this state would do there.\<close>

definition previewed :: "'w sync_host \<Rightarrow> config_file \<Rightarrow> (string \<times> string) list \<Rightarrow> ('w, 'z) config_db_scheme \<Rightarrow> sync_target
    \<Rightarrow> preview_target \<Rightarrow> bool" where
  "previewed sy cf fragments s p r \<longleftrightarrow>
     (\<exists>env. getSecretsForEnv (sy_decrypt sy) s (srv_environmentId (tg_server p)) = Inr env \<and>
        preview_row_ok sy cf fragments (tg_server p) (map snd env) s p r)"

lemma preview_rows:
  assumes "collect (preview_group sy cf fragments) (server_groups (fan_out (attachments s i))) s = (Inr rss, s')"
  shows "list_all2 (previewed sy cf fragments s) (concat (map snd (server_groups (fan_out (attachments s i))))) (concat rss)"
proof -
  let ?ps = "fan_out (attachments s i)"
  have "list_all2 (\<lambda>e rows. list_all2 (previewed sy cf fragments s) (snd e) rows) (server_groups ?ps) rss"
  proof (rule collect_all2 [where I = "\<lambda>st. rows_of st = rows_of s", OF assms])
    show "preserves (\<lambda>st. rows_of st = rows_of s) (preview_group sy cf fragments e)" for e
      by (rule preserves_keeps [OF keeps_rows_group]) simp
    show "list_all2 (previewed sy cf fragments s) (snd e) rows"
      if e: "e \<in> set (server_groups ?ps)" and st: "rows_of s1 = rows_of s" and run: "preview_group sy cf fragments e s1 = (Inr rows, s2)"
      for e s1 rows s2
    proof -
      obtain k members where em: "e = (k, members)" by (cases e)
      note g = server_groups_group [OF e [unfolded em]]
      have same: "tg_server p = tg_server (hd members)" if "p \<in> set members" for p
      proof -
        have "p \<in> set ?ps" "hd members \<in> set ?ps" using that g(1,3) by auto
        moreover have "srv_id (tg_server p) = srv_id (tg_server (hd members))" using that g(1,2) by simp
        ultimately show ?thesis by (metis fan_out_server option.inject)
      qed
      from preview_group_run [OF st run refl] obtain env
        where env: "getSecretsForEnv (sy_decrypt sy) s (srv_environmentId (tg_server (hd members))) = Inr env"
          "list_all2 (preview_row_ok sy cf fragments (tg_server (hd members)) (map snd env) s) members rows"
        by (auto simp: em)
      have "list_all2 (previewed sy cf fragments s) members rows"
        by (rule list.rel_mono_strong [OF env(2)]) (simp add: previewed_def same env(1))
      then show ?thesis by (simp add: em)
    qed
  qed (simp_all add: preserves_def)
  then have "list_all2 (list_all2 (previewed sy cf fragments s)) (map snd (server_groups ?ps)) rss"
    by (simp add: list_all2_map1)
  then show ?thesis by (rule list_all2_concat)
qed

text \<open>Neither side of a shown difference holds a secret, and its new side is the content a sync writes, redacted. Two
  kinds of values are left out: those with an asterisk, which the mask itself may spell, and those that end in white space,
  since the sync trims the end of the file first (\<open>trimmed_secret_shown\<close> below).\<close>

definition shows_write :: "'w sync_host \<Rightarrow> config_file \<Rightarrow> (string \<times> string) list \<Rightarrow> ('w, 'z) config_db_scheme \<Rightarrow> sync_target
    \<Rightarrow> preview_target \<Rightarrow> bool" where
  "shows_write sy cf fragments s p r \<longleftrightarrow>
     (\<exists>env res. getSecretsForEnv (sy_decrypt sy) s (srv_environmentId (tg_server p)) = Inr env \<and>
        \<not> cf_isBinary cf \<and> render_for sy cf fragments (tg_server p) s = Inr res \<and> rs_templateErrors res = [] \<and> rs_missing res = [] \<and>
        diff_side (CHR ''+'') (pv_diff r) = redactSecretValues (js_trimEnd (rs_content res)) (map snd env) \<and>
        (\<forall>v \<in> snd ` set env. v \<noteq> [] \<longrightarrow> CHR ''*'' \<notin> set v \<longrightarrow> js_trimEnd v = v \<longrightarrow>
           \<not> sublist v (diff_side (CHR ''+'') (pv_diff r)) \<and> \<not> sublist v (diff_side (CHR ''-'') (pv_diff r))))"

lemma previewed_write:
  assumes "previewed sy cf fragments s p r" and "pv_diff r \<noteq> []" and "line_feed \<notin> set (pv_hostPath r)"
  shows "shows_write sy cf fragments s p r"
proof -
  from assms(1) obtain env where env: "getSecretsForEnv (sy_decrypt sy) s (srv_environmentId (tg_server p)) = Inr env"
    and ok: "preview_row_ok sy cf fragments (tg_server p) (map snd env) s p r" by (auto simp: previewed_def)
  from ok assms(2) obtain res current where res: "\<not> cf_isBinary cf" "render_for sy cf fragments (tg_server p) s = Inr res" "hard_errors res = []"
    and diff: "pv_diff r = unifiedDiff (redactSecretValues current (map snd env))
        (redactSecretValues (js_trimEnd (rs_content res)) (map snd env)) (Some (CHR ''a'' # pv_hostPath r)) (Some (CHR ''b'' # pv_hostPath r))"
    unfolding preview_row_ok_def by (auto split: if_splits)
  have labels: "line_feed \<notin> set (nullish (Some (CHR ''a'' # pv_hostPath r)) ''current'')"
    "line_feed \<notin> set (nullish (Some (CHR ''b'' # pv_hostPath r)) ''rendered'')"
    using assms(3) by (auto simp: line_feed_def nullish_def)
  note sides = unified_diff_sides [OF labels]
  have differ: "redactSecretValues current (map snd env) \<noteq> redactSecretValues (js_trimEnd (rs_content res)) (map snd env)"
    using assms(2) diff by (auto simp: unifiedDiff_def)
  have errors: "rs_templateErrors res = []" "rs_missing res = []" using res(3) by (auto simp: hard_errors_def split: if_splits)
  have plus: "diff_side (CHR ''+'') (pv_diff r) = redactSecretValues (js_trimEnd (rs_content res)) (map snd env)"
    and minus: "diff_side (CHR ''-'') (pv_diff r) = redactSecretValues current (map snd env)"
    using differ unfolding diff sides by simp_all
  have "\<forall>v \<in> snd ` set env. v \<noteq> [] \<longrightarrow> CHR ''*'' \<notin> set v \<longrightarrow> js_trimEnd v = v \<longrightarrow>
      \<not> sublist v (diff_side (CHR ''+'') (pv_diff r)) \<and> \<not> sublist v (diff_side (CHR ''-'') (pv_diff r))"
    unfolding plus minus using redacted_free [of _ "map snd env"] by auto
  then show ?thesis
    unfolding shows_write_def by (intro exI [of _ env] exI [of _ res] conjI env res errors plus)
qed

text \<open>A sync of the target reports an error instead of writing it.\<close>

definition refused :: "'w sync_host \<Rightarrow> config_file \<Rightarrow> (string \<times> string) list \<Rightarrow> ('w, 'z) config_db_scheme \<Rightarrow> sync_target \<Rightarrow> bool" where
  "refused sy cf fragments s p \<longleftrightarrow> \<not> cf_isBinary cf \<and>
     (\<exists>res. render_for sy cf fragments (tg_server p) s = Inr res \<and> (rs_templateErrors res \<noteq> [] \<or> rs_missing res \<noteq> []))"

lemma previewed_names:
  assumes "previewed sy cf fragments s p r"
  shows "row_names cf (tg_server p) p r" and "pv_error r \<noteq> None \<Longrightarrow> refused sy cf fragments s p"
proof -
  from assms obtain vs where ok: "preview_row_ok sy cf fragments (tg_server p) vs s p r" unfolding previewed_def by blast
  then show "row_names cf (tg_server p) p r" by (simp add: preview_row_ok_def)
  show "refused sy cf fragments s p" if "pv_error r \<noteq> None"
    using ok that by (auto simp: preview_row_ok_def refused_def hard_errors_def split: if_splits)
qed

lemma preview_cases:
  assumes "syncConfigFileToAttachedServicesDryRun sy i s = (Inr (Some rows), s')" and "find_config i s = Some cf"
  obtains rss where "collect (preview_group sy cf (included_fragments s i)) (server_groups (fan_out (attachments s i))) s = (Inr rss, s')"
    "rows = concat rss"
  using assms by (auto simp: syncConfigFileToAttachedServicesDryRun_def io_simps elim!: andThen_InrE)

text \<open>C8: A dry run of a config file sync changes no row and sends only connections and reads. It has one row for every
  delivery of the file, with the names of its server, service, file and path, marked with an error only where the sync
  refuses to write. A difference that it shows has the content the sync would write, redacted, as its new side, and neither
  side holds a secret value of the server's environment. The statement on differences is for target paths without a line
  feed, and the one on secrets for whole values without an asterisk that do not end in white space. Assumed: the keys of
  the schema.\<close>

theorem preview_shows_the_sync:
  assumes "syncConfigFileToAttachedServicesDryRun sy i s = (Inr (Some rows), s')" and "find_config i s = Some cf"
    and "config_fks s"
  shows "only_read s s' \<and>
    (\<exists>ds. mset ds = mset (deliveries s i) \<and>
      list_all2 (\<lambda>(sf, d) r. pv_serverName r = srv_name (delivery_server s d) \<and> pv_configFileName r = cf_name cf \<and>
        pv_hostPath r = sf_targetPath sf \<and>
        (\<exists>e \<in> set (db_services s). se_id e = sf_serviceId sf \<and> pv_serviceName r = se_name e) \<and>
        (pv_error r \<noteq> None \<longrightarrow> refused sy cf (included_fragments s i) s (delivery_target s (sf, d))) \<and>
        (pv_diff r \<noteq> [] \<longrightarrow> line_feed \<notin> set (pv_hostPath r) \<longrightarrow>
           shows_write sy cf (included_fragments s i) s (delivery_target s (sf, d)) r)) ds rows)"
proof
  show "only_read s s'" using preservesD [OF only_read_preview only_read_refl assms(1)] .
  from preview_cases [OF assms(1,2)] obtain rss where
    run: "collect (preview_group sy cf (included_fragments s i)) (server_groups (fan_out (attachments s i))) s = (Inr rss, s')"
    and rows: "rows = concat rss" .
  have "mset (concat (map snd (server_groups (fan_out (attachments s i))))) = image_mset (delivery_target s) (mset (deliveries s i))"
    by (simp add: server_groups_mset fan_out_deliveries [OF assms(3)])
  from mset_map_preimage [OF this] obtain ds where ds: "mset ds = mset (deliveries s i)"
    "concat (map snd (server_groups (fan_out (attachments s i)))) = map (delivery_target s) ds" by blast
  have all: "list_all2 (\<lambda>x r. previewed sy cf (included_fragments s i) s (delivery_target s x) r) ds rows"
    using preview_rows [OF run] by (simp add: rows ds(2) list_all2_map1)
  have "list_all2 (\<lambda>(sf, d) r. pv_serverName r = srv_name (delivery_server s d) \<and> pv_configFileName r = cf_name cf \<and>
        pv_hostPath r = sf_targetPath sf \<and>
        (\<exists>e \<in> set (db_services s). se_id e = sf_serviceId sf \<and> pv_serviceName r = se_name e) \<and>
        (pv_error r \<noteq> None \<longrightarrow> refused sy cf (included_fragments s i) s (delivery_target s (sf, d))) \<and>
        (pv_diff r \<noteq> [] \<longrightarrow> line_feed \<notin> set (pv_hostPath r) \<longrightarrow>
           shows_write sy cf (included_fragments s i) s (delivery_target s (sf, d)) r)) ds rows"
  proof (rule list.rel_mono_strong [OF all], clarify)
    fix sf d r
    assume x: "(sf, d) \<in> set ds" and r: "previewed sy cf (included_fragments s i) s (delivery_target s (sf, d)) r"
    from x ds(1) have "(sf, d) \<in> set (deliveries s i)" by (metis set_mset_mset)
    then have "sf \<in> set (cd_serviceFiles s)" by (auto simp: deliveries_def)
    with assms(3) obtain e where "List.find (\<lambda>e. se_id e = sf_serviceId sf) (db_services s) = Some e"
      unfolding config_fks_def by blast
    with find_SomeD [OF this] have "\<exists>e \<in> set (db_services s). se_id e = sf_serviceId sf \<and> tg_serviceName (delivery_target s (sf, d)) = se_name e"
      by (auto simp: delivery_target_def)
    with previewed_names [OF r] previewed_write [OF r]
    show "pv_serverName r = srv_name (delivery_server s d) \<and> pv_configFileName r = cf_name cf \<and>
        pv_hostPath r = sf_targetPath sf \<and>
        (\<exists>e \<in> set (db_services s). se_id e = sf_serviceId sf \<and> pv_serviceName r = se_name e) \<and>
        (pv_error r \<noteq> None \<longrightarrow> refused sy cf (included_fragments s i) s (delivery_target s (sf, d))) \<and>
        (pv_diff r \<noteq> [] \<longrightarrow> line_feed \<notin> set (pv_hostPath r) \<longrightarrow>
           shows_write sy cf (included_fragments s i) s (delivery_target s (sf, d)) r)"
      by (simp add: row_names_def delivery_target_def)
  qed
  with ds(1) show "\<exists>ds. mset ds = mset (deliveries s i) \<and>
      list_all2 (\<lambda>(sf, d) r. pv_serverName r = srv_name (delivery_server s d) \<and> pv_configFileName r = cf_name cf \<and>
        pv_hostPath r = sf_targetPath sf \<and>
        (\<exists>e \<in> set (db_services s). se_id e = sf_serviceId sf \<and> pv_serviceName r = se_name e) \<and>
        (pv_error r \<noteq> None \<longrightarrow> refused sy cf (included_fragments s i) s (delivery_target s (sf, d))) \<and>
        (pv_diff r \<noteq> [] \<longrightarrow> line_feed \<notin> set (pv_hostPath r) \<longrightarrow>
           shows_write sy cf (included_fragments s i) s (delivery_target s (sf, d)) r)) ds rows"
    by blast
qed

theorem preview_shows_the_sync_witness:
  "\<exists>rows s'. syncConfigFileToAttachedServicesDryRun sample_sync_host ''f'' sample_db = (Inr (Some rows), s') \<and>
     map pv_hostPath rows = [''/b/env'', ''/a/env''] \<and> only_read sample_db s'"
proof -
  have "(case syncConfigFileToAttachedServicesDryRun sample_sync_host ''f'' sample_db of
      (r, s') \<Rightarrow> (case r of Inr (Some rows) \<Rightarrow> map pv_hostPath rows | _ \<Rightarrow> [])) = [''/b/env'', ''/a/env'']" by code_simp
  then obtain rows s' where run: "syncConfigFileToAttachedServicesDryRun sample_sync_host ''f'' sample_db = (Inr (Some rows), s')"
    and paths: "map pv_hostPath rows = [''/b/env'', ''/a/env'']"
    by (auto split: prod.splits sum.splits option.splits)
  have "find_config ''f'' sample_db = Some (sample_file ''f'' ''e'' ''A=1'')" by code_simp
  moreover have "config_fks sample_db"
    by (simp add: config_fks_def sample_db_def sample_deployment_def sample_server_def sample_service_def)
  ultimately have "only_read sample_db s'" using preview_shows_the_sync [OF run] by blast
  with run paths show ?thesis by auto
qed

text \<open>A secret that ends in a line feed and stands at the end of a file: the trimmed text no longer holds its whole value.\<close>

lemma trimmed_secret_shown:
  "redactSecretValues (js_trimEnd (''K=ab'' @ [line_feed])) [''ab'' @ [line_feed]] = ''K=ab''"
  by code_simp

end
