(* ===== verification/Downsample.thy ===== *)
theory Downsample
  imports Prelude Complex_Main
begin

text \<open>
  \<open>src/lib/metrics-downsample.ts\<close>: a table of metrics, one row per series over shared timestamps, reduced to a given
  number of points. Finite numbers are rationals, and \<open>num\<close> is the rounding of one operation on doubles: the theorem
  assumes of it the bound of IEEE 754 on its relative error, without overflow. The requested number of points is any number, as the query schema allows; an array
  of a fractional length is a range error.
\<close>

section \<open>Samples\<close>

type_synonym samples = "rat option list"

definition cell :: "samples \<Rightarrow> nat \<Rightarrow> rat option" where
  "cell row j = (if j < length row then row ! j else None)"

record downsampled =
  ds_timestamps :: "string list"
  ds_rows :: "samples list"

section \<open>Buckets\<close>

definition bucket_edge :: "(rat \<Rightarrow> rat) \<Rightarrow> rat \<Rightarrow> nat \<Rightarrow> nat" where
  "bucket_edge num bucketSize i = nat \<lfloor>num (of_nat i * bucketSize)\<rfloor> + 1"

definition bucket_boundaries :: "(rat \<Rightarrow> rat) \<Rightarrow> nat \<Rightarrow> nat \<Rightarrow> (nat \<times> nat) list" where
  "bucket_boundaries num n interior =
     (let bucketSize = num (of_nat (n - 2) / of_nat interior) in
      map (\<lambda>i. (bucket_edge num bucketSize i, min (bucket_edge num bucketSize (i + 1)) (n - 1))) [0..<interior])"

section \<open>The choice of an anchor\<close>

text \<open>The average of the samples in a range of indices, with their number, if there is one.\<close>

definition next_average :: "(rat \<Rightarrow> rat) \<Rightarrow> nat \<Rightarrow> nat \<Rightarrow> samples \<Rightarrow> (rat \<times> rat) option" where
  "next_average num nextStart nextEnd row =
     (case fold (\<lambda>j (nxSum, nySum, nCount).
              case cell row j of
                None \<Rightarrow> (nxSum, nySum, nCount)
              | Some v \<Rightarrow> (num (nxSum + of_nat j), num (nySum + v), nCount + 1)) [nextStart..<nextEnd] (0, 0, 0) of
        (nxSum, nySum, nCount) \<Rightarrow>
          if 0 < nCount then Some (num (nxSum / of_nat nCount), num (nySum / of_nat nCount)) else None)"

definition triangle_area :: "(rat \<Rightarrow> rat) \<Rightarrow> rat \<Rightarrow> rat \<Rightarrow> rat \<Rightarrow> rat \<Rightarrow> rat \<Rightarrow> rat \<Rightarrow> rat" where
  "triangle_area num px py cx cy nx ny =
     \<bar>num (num (num (px - nx) * num (cy - py)) - num (num (px - cx) * num (ny - py)))\<bar>"

text \<open>The summed areas of a candidate and the number of rows that contribute.\<close>

definition candidate_score :: "(rat \<Rightarrow> rat) \<Rightarrow> (samples \<times> nat \<times> (rat \<times> rat) option) list \<Rightarrow> nat \<Rightarrow> rat \<times> nat" where
  "candidate_score num rows candidate =
     fold (\<lambda>(row, pIdx, nextAvg) (score, contributing).
        case (cell row candidate, cell row pIdx, nextAvg) of
          (Some cy, Some py, Some (nx, ny)) \<Rightarrow>
            (num (score + triangle_area num (of_nat pIdx) py (of_nat candidate) cy nx ny), contributing + 1)
        | _ \<Rightarrow> (score, contributing)) rows (0, 0)"

text \<open>The first candidate with the highest score; \<open>None\<close> is \<open>-Infinity\<close>.\<close>

definition best_candidate :: "(rat \<Rightarrow> rat) \<Rightarrow> (samples \<times> nat \<times> (rat \<times> rat) option) list \<Rightarrow> nat \<Rightarrow> nat \<Rightarrow> nat" where
  "best_candidate num rows bStart bEnd =
     fst (fold (\<lambda>candidate (bestIdx, bestScore :: rat option).
        case candidate_score num rows candidate of
          (score, contributing) \<Rightarrow>
            if 0 < contributing \<and> (case bestScore of None \<Rightarrow> True | Some b \<Rightarrow> b < score) then (candidate, Some score)
            else (bestIdx, bestScore)) [bStart..<bEnd] (bStart, None))"

fun select_indices :: "(rat \<Rightarrow> rat) \<Rightarrow> samples list \<Rightarrow> nat \<Rightarrow> (nat \<times> nat) list \<Rightarrow> nat list \<Rightarrow> nat list" where
  "select_indices num rows n [] prevIdxByRow = []"
| "select_indices num rows n ((bStart, bEnd) # buckets) prevIdxByRow =
     (if bEnd \<le> bStart then bStart # select_indices num rows n buckets prevIdxByRow
      else
        let (nextStart, nextEnd) = (case buckets of [] \<Rightarrow> (n - 1, n) | b # _ \<Rightarrow> b);
            nextAvgPerRow = map (next_average num nextStart nextEnd) rows;
            bestIdx = best_candidate num (zip rows (zip prevIdxByRow nextAvgPerRow)) bStart bEnd;
            prev = map2 (\<lambda>row p. if cell row bestIdx \<noteq> None then bestIdx else p) rows prevIdxByRow
        in bestIdx # select_indices num rows n buckets prev)"

section \<open>The reduced table\<close>

text \<open>The anchor's sample, or the last one of the bucket.\<close>

definition bucket_sample :: "samples \<Rightarrow> (nat \<times> nat) \<times> nat \<Rightarrow> rat option" where
  "bucket_sample row b =
     (case b of ((bStart, bEnd), anchor) \<Rightarrow>
        (case cell row anchor of
           Some v \<Rightarrow> Some v
         | None \<Rightarrow>
             (case List.find (\<lambda>j. cell row j \<noteq> None) (rev [bStart..<bEnd]) of None \<Rightarrow> None | Some j \<Rightarrow> cell row j)))"

definition project_row :: "(nat \<times> nat) list \<Rightarrow> nat list \<Rightarrow> nat \<Rightarrow> samples \<Rightarrow> samples" where
  "project_row boundaries selectedIndices n row =
     cell row 0 # map (bucket_sample row) (zip boundaries selectedIndices) @ [cell row (n - 1)]"

definition downsampleColumnar :: "(rat \<Rightarrow> rat) \<Rightarrow> string list \<Rightarrow> samples list \<Rightarrow> rat \<Rightarrow> string + downsampled" where
  "downsampleColumnar num timestamps rows maxPoints =
     (let n = length timestamps in
      if of_nat n \<le> maxPoints \<or> maxPoints < 3 then Inr \<lparr>ds_timestamps = timestamps, ds_rows = rows\<rparr>
      else if maxPoints \<notin> \<int> then Inl ''Invalid array length''
      else
        let interior = nat \<lfloor>maxPoints - 2\<rfloor>;
            boundaries = bucket_boundaries num n interior;
            selectedIndices = select_indices num rows n boundaries (replicate (length rows) 0)
        in Inr \<lparr>ds_timestamps = map (\<lambda>i. timestamps ! i) (0 # selectedIndices @ [n - 1]),
                ds_rows = map (project_row boundaries selectedIndices n) rows\<rparr>)"

section \<open>Rounded bucket edges\<close>

definition rounds :: "(rat \<Rightarrow> rat) \<Rightarrow> bool" where
  "rounds num \<longleftrightarrow> (\<forall>q. \<bar>num q - q\<bar> \<le> \<bar>q\<bar> / 2 ^ 53)"

lemma rounded_product:
  fixes x q :: rat
  assumes num: "rounds num" and "0 \<le> x" and "0 \<le> q" and xq: "x * q \<le> 1048576"
  shows "x * q - 1 / 1073741824 \<le> num (x * num q)" and "num (x * num q) \<le> x * q + 1 / 1073741824"
proof -
  have "\<bar>num q - q\<bar> \<le> q / 9007199254740992" using num [unfolded rounds_def, rule_format, of q] assms(3) by simp
  then have "x * \<bar>num q - q\<bar> \<le> x * (q / 9007199254740992)" using assms(2) by (intro mult_left_mono) auto
  moreover have "x * \<bar>num q - q\<bar> = \<bar>x * num q - x * q\<bar>"
    using assms(2) by (simp add: abs_mult flip: right_diff_distrib)
  ultimately have d: "\<bar>x * num q - x * q\<bar> \<le> x * q / 9007199254740992" by simp
  have "\<bar>num (x * num q) - x * num q\<bar> \<le> \<bar>x * num q\<bar> / 9007199254740992"
    using num [unfolded rounds_def, rule_format, of "x * num q"] by simp
  moreover have "\<bar>x * num q\<bar> \<le> 2097152" using d xq mult_nonneg_nonneg [OF assms(2,3)] by linarith
  ultimately show "x * q - 1 / 1073741824 \<le> num (x * num q)" "num (x * num q) \<le> x * q + 1 / 1073741824"
    using d xq by linarith+
qed

lemma edge_step:
  fixes N I i :: nat
  assumes num: "rounds num" and "0 < I" and "I < N" and "N \<le> 2 ^ 20"
    and p: "p = (\<lambda>i. num (of_nat i * num (of_nat N / of_nat I)))"
  shows "Suc i \<le> I \<Longrightarrow> p i + 1 \<le> p (Suc i)" and "p 0 = 0"
    and "i < I \<Longrightarrow> p i < of_nat N - 1" and "of_nat N - 1 \<le> p I" and "p I < of_nat N + 1"
proof -
  let ?q = "of_nat N / of_nat I :: rat" and ?d = "1 / 1073741824 :: rat"
  have near: "of_nat i * ?q - ?d \<le> p i" "p i \<le> of_nat i * ?q + ?d" if "i \<le> I" for i
  proof -
    have "of_nat i * ?q \<le> of_nat I * ?q" using that by (intro mult_right_mono) simp_all
    moreover have "(of_nat N :: rat) \<le> of_nat (2 ^ 20)" using assms(4) by (simp only: of_nat_le_iff)
    ultimately have "of_nat i * ?q \<le> 1048576" using assms(2) by simp
    then show "of_nat i * ?q - ?d \<le> p i" "p i \<le> of_nat i * ?q + ?d"
      unfolding p by (intro rounded_product [OF num]; simp)+
  qed
  have "(of_nat I :: rat) \<le> of_nat (2 ^ 20)" using assms(3,4) by (simp only: of_nat_le_iff)
  then have I: "(of_nat I :: rat) \<le> 1048576" by simp
  have "(of_nat (Suc I) :: rat) \<le> of_nat N" using assms(3) by (simp only: of_nat_le_iff)
  then have "of_nat (Suc I) / of_nat I \<le> ?q" by (intro divide_right_mono) simp_all
  then have "1 + 1 / of_nat I \<le> ?q" using assms(2) by (simp add: add_divide_distrib)
  moreover have "1 / 1048576 \<le> (1 / of_nat I :: rat)" using I assms(2) by (intro divide_left_mono) auto
  ultimately have q: "1 + 1 / 1048576 \<le> ?q" by linarith
  show "p i + 1 \<le> p (Suc i)" if "Suc i \<le> I"
  proof -
    have "of_nat (Suc i) * ?q = of_nat i * ?q + ?q" by (simp add: distrib_right add_divide_distrib)
    then show ?thesis using near(2) [of i] near(1) [of "Suc i"] that q by linarith
  qed
  show "p 0 = 0" using num [unfolded rounds_def, rule_format, of 0] by (simp add: p)
  have top: "of_nat I * ?q = of_nat N" using assms(2) by simp
  show "p i < of_nat N - 1" if "i < I"
  proof -
    have "(of_nat (Suc i) :: rat) \<le> of_nat I" using that by (simp only: of_nat_le_iff Suc_leI)
    then have "(of_nat (Suc i) :: rat) * ?q \<le> of_nat I * ?q" by (intro mult_right_mono) simp_all
    moreover have "of_nat (Suc i) * ?q = of_nat i * ?q + ?q" by (simp add: distrib_right add_divide_distrib)
    ultimately show ?thesis using near(2) [of i] that q top by linarith
  qed
  show "of_nat N - 1 \<le> p I" "p I < of_nat N + 1"
    using near [of I] top by linarith+
qed

text \<open>The edges: strictly increasing from 1 to one of the last two indices before the end.\<close>

definition edges :: "(rat \<Rightarrow> rat) \<Rightarrow> nat \<Rightarrow> nat \<Rightarrow> nat list" where
  "edges num n I = map (\<lambda>i. min (bucket_edge num (num (of_nat (n - 2) / of_nat I)) i) (n - 1)) [0..<Suc I]"

lemma raw_edges:
  assumes num: "rounds num" and "0 < I" and "I + 2 < n" and "n \<le> 2 ^ 20" and b: "b = num (of_nat (n - 2) / of_nat I)"
  shows "i < j \<Longrightarrow> j \<le> I \<Longrightarrow> bucket_edge num b i < bucket_edge num b j" and "bucket_edge num b 0 = 1"
    and "i < I \<Longrightarrow> bucket_edge num b i < n - 1" and "bucket_edge num b I \<in> {n - 2, n - 1}"
proof -
  let ?N = "n - 2"
  define p where "p = (\<lambda>i. num (of_nat i * num (of_nat ?N / of_nat I)))"
  have N: "I < ?N" "?N \<le> 2 ^ 20" using assms(3,4) by simp_all
  note step = edge_step [OF num assms(2) N p_def]
  have edge: "bucket_edge num b i = nat \<lfloor>p i\<rfloor> + 1" for i by (simp add: bucket_edge_def p_def b)
  have pos: "i \<le> I \<Longrightarrow> 0 \<le> p i" for i
  proof (induction i)
    case (Suc i)
    then show ?case using step(1) [of i] by simp
  qed (simp add: step(2))
  have up: "bucket_edge num b i < bucket_edge num b (Suc i)" if "Suc i \<le> I" for i
  proof -
    have "\<lfloor>p i\<rfloor> + 1 \<le> \<lfloor>p (Suc i)\<rfloor>" using step(1) [OF that] by linarith
    moreover have "0 \<le> \<lfloor>p i\<rfloor>" using pos [of i] that by simp
    ultimately have "nat \<lfloor>p i\<rfloor> < nat \<lfloor>p (Suc i)\<rfloor>" by (subst nat_mono_iff) linarith+
    then show ?thesis by (simp only: edge add_less_cancel_right)
  qed
  show "bucket_edge num b i < bucket_edge num b j" if "i < j" "j \<le> I"
    using that
  proof (induction j)
    case (Suc j)
    then show ?case using up [of j] by (cases "i = j") auto
  qed simp
  show "bucket_edge num b 0 = 1" by (simp add: edge step(2))
  have two: "2 \<le> n" using assms(3) by simp
  show "bucket_edge num b i < n - 1" if "i < I"
  proof -
    have "p i < of_int (int ?N - 1)" using step(3) [OF that] by simp
    then have "\<lfloor>p i\<rfloor> < int ?N - 1" by (simp add: floor_less_iff)
    moreover have "0 \<le> \<lfloor>p i\<rfloor>" using pos [of i] that by simp
    moreover obtain k where "\<lfloor>p i\<rfloor> = int k" using \<open>0 \<le> \<lfloor>p i\<rfloor>\<close> by (rule nonneg_int_cases)
    ultimately show ?thesis using two by (simp add: edge)
  qed
  have "of_int (int ?N - 1) \<le> p I" "p I < of_int (int ?N + 1)" using step(4,5) by simp_all
  then have "\<lfloor>p I\<rfloor> \<ge> int ?N - 1" "\<lfloor>p I\<rfloor> < int ?N + 1" by (simp_all only: le_floor_iff floor_less_iff)
  then show "bucket_edge num b I \<in> {n - 2, n - 1}" using N two by (auto simp: edge)
qed

lemma edges_correct:
  assumes "rounds num" and "0 < I" and "I + 2 < n" and "n \<le> 2 ^ 20"
  shows "sorted_wrt (<) (edges num n I)" and "edges num n I ! 0 = 1" and "edges num n I ! I \<in> {n - 2, n - 1}"
    and "bucket_boundaries num n I = map (\<lambda>i. (edges num n I ! i, edges num n I ! Suc i)) [0..<I]"
    and "i < I \<Longrightarrow> edges num n I ! i < n - 1"
proof -
  define b where "b = num (of_nat (n - 2) / of_nat I)"
  let ?e = "bucket_edge num b"
  note raw = raw_edges [OF assms b_def]
  have nth: "edges num n I ! i = min (?e i) (n - 1)" if "i \<le> I" for i
    using that by (simp add: edges_def b_def [symmetric] del: upt_Suc)
  have len: "length (edges num n I) = Suc I" by (simp add: edges_def)
  have "edges num n I ! i < edges num n I ! j" if "i < j" "j \<le> I" for i j
    using raw(1) [OF that] raw(3) [of i] that nth by simp
  then show "sorted_wrt (<) (edges num n I)" by (simp add: sorted_wrt_iff_nth_less len)
  show "edges num n I ! 0 = 1" using raw(2) assms(3) nth [of 0] by simp
  show "edges num n I ! I \<in> {n - 2, n - 1}" using raw(4) nth [of I] by auto
  have small: "edges num n I ! i = ?e i" if "i < I" for i using nth [of i] raw(3) [OF that] that by simp
  show "bucket_boundaries num n I = map (\<lambda>i. (edges num n I ! i, edges num n I ! Suc i)) [0..<I]"
    by (auto simp: bucket_boundaries_def Let_def b_def [symmetric] small nth)
  show "i < I \<Longrightarrow> edges num n I ! i < n - 1" using small raw(3) by simp
qed

section \<open>Anchors and samples\<close>

lemma best_candidate_range:
  assumes "bStart < bEnd"
  shows "bStart \<le> best_candidate num rows bStart bEnd \<and> best_candidate num rows bStart bEnd < bEnd"
proof -
  let ?f = "\<lambda>candidate (bestIdx, bestScore :: rat option).
        case candidate_score num rows candidate of
          (score, contributing) \<Rightarrow>
            if 0 < contributing \<and> (case bestScore of None \<Rightarrow> True | Some b \<Rightarrow> b < score) then (candidate, Some score)
            else (bestIdx, bestScore)"
  have "fst (fold ?f xs acc) \<in> insert (fst acc) (set xs)" for xs acc
  proof (induction xs arbitrary: acc)
    case (Cons x xs)
    have "fst (?f x acc) \<in> {fst acc, x}" by (cases acc) (auto split: prod.split)
    with Cons.IH [of "?f x acc"] show ?case by auto
  qed simp
  from this [of "[bStart..<bEnd]" "(bStart, None)"] assms show ?thesis by (auto simp: best_candidate_def)
qed

lemma select_indices_step:
  assumes "bStart < bEnd"
  shows "\<exists>best prev'. select_indices num rows n ((bStart, bEnd) # buckets) prev = best # select_indices num rows n buckets prev' \<and>
     bStart \<le> best \<and> best < bEnd"
proof -
  obtain lo hi where "(case buckets of [] \<Rightarrow> (n - 1, n) | b # _ \<Rightarrow> b) = (lo, hi)" by fastforce
  then show ?thesis using best_candidate_range [OF assms] assms by (auto simp: Let_def)
qed

lemma select_indices_range:
  "list_all (\<lambda>b. fst b < snd b) buckets \<Longrightarrow>
     list_all2 (\<lambda>b i. fst b \<le> i \<and> i < snd b) buckets (select_indices num rows n buckets prev)"
proof (induction buckets arbitrary: prev)
  case (Cons b buckets)
  obtain s e where b: "b = (s, e)" by (cases b)
  with Cons.prems obtain best prev' where "select_indices num rows n (b # buckets) prev = best # select_indices num rows n buckets prev'"
    "s \<le> best" "best < e" using select_indices_step [of s e num rows n buckets prev] by auto
  then show ?case using Cons.IH [of prev'] Cons.prems by (simp add: b del: select_indices.simps)
qed simp

lemma bucket_sample_spec:
  assumes "fst b \<le> i" and "i < snd b"
  shows "bucket_sample row (b, i) = Some v \<Longrightarrow> \<exists>j. fst b \<le> j \<and> j < snd b \<and> cell row j = Some v"
    and "bucket_sample row (b, i) = None \<longleftrightarrow> (\<forall>j. fst b \<le> j \<longrightarrow> j < snd b \<longrightarrow> cell row j = None)"
proof -
  obtain s e where b: "b = (s, e)" by (cases b)
  let ?found = "List.find (\<lambda>j. cell row j \<noteq> None) (rev [s..<e])"
  have hit: "s \<le> j \<and> j < e \<and> cell row j \<noteq> None" if "?found = Some j" for j using find_SomeD [OF that] by auto
  have miss: "cell row j = None" if "?found = None" "s \<le> j" "j < e" for j using find_NoneD [OF that(1)] that by auto
  show "\<exists>j. fst b \<le> j \<and> j < snd b \<and> cell row j = Some v" if v: "bucket_sample row (b, i) = Some v"
  proof (cases "cell row i")
    case None
    with v obtain j where "?found = Some j" "cell row j = Some v" by (auto simp: bucket_sample_def b split: option.splits)
    then show ?thesis using hit by (auto simp: b)
  next
    case (Some x)
    with v assms show ?thesis by (intro exI [of _ i]) (simp add: bucket_sample_def b)
  qed
  show "bucket_sample row (b, i) = None \<longleftrightarrow> (\<forall>j. fst b \<le> j \<longrightarrow> j < snd b \<longrightarrow> cell row j = None)"
  proof (cases "cell row i")
    case None
    show ?thesis
    proof (cases ?found)
      case (Some j)
      with None hit [OF Some] show ?thesis by (auto simp: bucket_sample_def b)
    qed (use None miss in \<open>simp add: bucket_sample_def b\<close>)
  next
    case (Some x)
    with assms show ?thesis by (auto simp: bucket_sample_def)
  qed
qed

section \<open>The reduction\<close>

text \<open>What a reduced row says of the row it comes from, given the edges of the buckets.\<close>

definition row_reduced :: "nat list \<Rightarrow> nat \<Rightarrow> nat \<Rightarrow> samples \<Rightarrow> samples \<Rightarrow> bool" where
  "row_reduced E n m row out \<longleftrightarrow> length out = m \<and> out ! 0 = cell row 0 \<and> out ! (m - 1) = cell row (n - 1) \<and>
     (\<forall>k. 0 < k \<longrightarrow> k < m - 1 \<longrightarrow>
        (\<forall>v. out ! k = Some v \<longrightarrow> (\<exists>j. E ! (k - 1) \<le> j \<and> j < E ! k \<and> cell row j = Some v)) \<and>
        (out ! k = None \<longleftrightarrow> (\<forall>j. E ! (k - 1) \<le> j \<longrightarrow> j < E ! k \<longrightarrow> cell row j = None)))"

lemma project_row_reduced:
  assumes "length sel = I" and "length E = Suc I" and "\<And>i. i < I \<Longrightarrow> E ! i \<le> sel ! i \<and> sel ! i < E ! Suc i"
  shows "row_reduced E n (I + 2) row (project_row (map (\<lambda>i. (E ! i, E ! Suc i)) [0..<I]) sel n row)"
proof -
  let ?out = "project_row (map (\<lambda>i. (E ! i, E ! Suc i)) [0..<I]) sel n row"
  have mid: "?out ! Suc i = bucket_sample row ((E ! i, E ! Suc i), sel ! i)" if "i < I" for i
    using that assms(1) by (simp add: project_row_def nth_append)
  have "(\<forall>v. ?out ! k = Some v \<longrightarrow> (\<exists>j. E ! (k - 1) \<le> j \<and> j < E ! k \<and> cell row j = Some v)) \<and>
        (?out ! k = None \<longleftrightarrow> (\<forall>j. E ! (k - 1) \<le> j \<longrightarrow> j < E ! k \<longrightarrow> cell row j = None))" if k: "0 < k" "k < Suc I" for k
  proof -
    obtain i where i: "k = Suc i" "i < I" using k by (cases k) auto
    note b = bucket_sample_spec [of "(E ! i, E ! Suc i)" "sel ! i" row]
    show ?thesis using b(1) b(2) assms(3) [OF i(2)] by (simp add: i(1) mid [OF i(2)])
  qed
  moreover have "?out ! Suc I = cell row (n - 1)" using assms(1) by (simp add: project_row_def nth_append)
  moreover have "length ?out = I + 2" "?out ! 0 = cell row 0" using assms(1) by (simp_all add: project_row_def)
  ultimately show ?thesis by (simp add: row_reduced_def)
qed

lemma anchors_sorted:
  fixes n :: nat
  assumes "length sel = I" and "sorted_wrt (<) E" and "length E = Suc I" and "E ! 0 = 1" and "E ! I \<le> n - 1"
    and sel: "\<And>i. i < I \<Longrightarrow> E ! i \<le> sel ! i \<and> sel ! i < E ! Suc i" and "1 < n"
  shows "sorted_wrt (<) (0 # sel @ [n - 1])"
proof -
  have E: "E ! i \<le> E ! j" if "i \<le> j" "j \<le> I" for i j
    using assms(2,3) that by (cases "i = j") (auto simp: sorted_wrt_iff_nth_less intro: less_imp_le)
  have "sel ! i < sel ! j" if "i < j" "j < I" for i j
    using sel [of i] sel [of j] E [of "Suc i" j] that by linarith
  then have "sorted_wrt (<) sel" by (simp add: sorted_wrt_iff_nth_less assms(1))
  moreover have "0 < x \<and> x < n - 1" if "x \<in> set sel" for x
  proof -
    from that obtain i where "i < I" "x = sel ! i" by (auto simp: in_set_conv_nth assms(1))
    then show ?thesis using sel [of i] E [of 0 i] E [of "Suc i" I] assms(4,5) by simp
  qed
  ultimately show ?thesis using assms(7) by (auto simp: sorted_wrt_append)
qed

text \<open>C10: A table with more timestamps than points is reduced to exactly that many: the first and the last timestamp and one of every bucket, in increasing order. The buckets are consecutive and hold all indices between, up to at most the one before the last; a reduced row has a sample of its own bucket at every point, and none only where its bucket has none.\<close>

theorem downsample_correct:
  assumes "rounds num" and "3 \<le> m" and "m < length timestamps" and "length timestamps \<le> 2 ^ 20"
    and run: "downsampleColumnar num timestamps rows (of_nat m) = Inr d"
  shows "\<exists>idx E. length idx = m \<and> sorted_wrt (<) idx \<and> idx ! 0 = 0 \<and> idx ! (m - 1) = length timestamps - 1 \<and>
      ds_timestamps d = map (\<lambda>i. timestamps ! i) idx \<and>
      length E = m - 1 \<and> sorted_wrt (<) E \<and> E ! 0 = 1 \<and> E ! (m - 2) \<in> {length timestamps - 2, length timestamps - 1} \<and>
      (\<forall>k. 0 < k \<longrightarrow> k < m - 1 \<longrightarrow> E ! (k - 1) \<le> idx ! k \<and> idx ! k < E ! k) \<and>
      list_all2 (row_reduced E (length timestamps) m) rows (ds_rows d)"
proof -
  let ?n = "length timestamps"
  define I where "I = m - 2"
  have m: "m = I + 2" "0 < I" using assms(2) by (simp_all add: I_def)
  have n: "I + 2 < ?n" using assms(3) m(1) by simp
  note E = edges_correct [OF assms(1) m(2) n assms(4)]
  let ?E = "edges num ?n I" and ?prev = "replicate (length rows) 0"
  define sel where "sel = select_indices num rows ?n (bucket_boundaries num ?n I) ?prev"
  have len: "length ?E = Suc I" by (simp add: edges_def)
  have inc: "?E ! i < ?E ! Suc i" if "i < I" for i using E(1) that len by (simp add: sorted_wrt_iff_nth_less)
  have "list_all (\<lambda>b. fst b < snd b) (bucket_boundaries num ?n I)" using inc by (auto simp: E(4) list_all_iff)
  then have "list_all2 (\<lambda>b i. fst b \<le> i \<and> i < snd b) (bucket_boundaries num ?n I) sel"
    unfolding sel_def by (rule select_indices_range)
  then have sel: "length sel = I" "\<And>i. i < I \<Longrightarrow> ?E ! i \<le> sel ! i \<and> sel ! i < ?E ! Suc i"
    by (auto simp: list_all2_conv_all_nth E(4))
  have range: "of_nat m - 2 = (of_nat I :: rat)" "\<not> (of_nat ?n :: rat) \<le> of_nat m" "\<not> (of_nat m :: rat) < 3"
    using assms(2,3) by (simp_all add: m(1))
  have d: "ds_timestamps d = map (\<lambda>i. timestamps ! i) (0 # sel @ [?n - 1])"
    "ds_rows d = map (project_row (map (\<lambda>i. (?E ! i, ?E ! Suc i)) [0..<I]) sel ?n) rows"
    using run range by (auto simp: downsampleColumnar_def Let_def sel_def E(4) m(1))
  have "sorted_wrt (<) (0 # sel @ [?n - 1])"
    by (rule anchors_sorted [OF sel(1) E(1) len E(2) _ sel(2)]) (use E(3) n in auto)
  moreover have "list_all2 (row_reduced ?E ?n m) rows (ds_rows d)"
    unfolding d(2) m(1) by (auto simp only: list_all2_conv_all_nth length_map nth_map intro!: project_row_reduced [OF sel(1) len sel(2)])
  moreover have "?E ! (k - 1) \<le> (0 # sel @ [?n - 1]) ! k \<and> (0 # sel @ [?n - 1]) ! k < ?E ! k" if "0 < k" "k < m - 1" for k
    using that sel m(1) by (cases k) (auto simp: nth_append)
  ultimately show ?thesis
    using d(1) E(1-3) len sel(1) m by (intro exI [of _ "0 # sel @ [?n - 1]"] exI [of _ ?E]) (auto simp: nth_append)
qed

text \<open>Five samples reduced to four points, without rounding.\<close>

theorem downsample_correct_witness:
  "\<exists>d idx. downsampleColumnar (\<lambda>q. q) [''a'', ''b'', ''c'', ''d'', ''e''] [[Some 0, None, Some 5, Some 1, Some 0]] 4 = Inr d \<and>
     length idx = 4 \<and> sorted_wrt (<) idx \<and> ds_timestamps d = map (\<lambda>i. [''a'', ''b'', ''c'', ''d'', ''e''] ! i) idx"
proof -
  have "rounds (\<lambda>q. q)" by (simp add: rounds_def)
  moreover have "\<exists>d. downsampleColumnar (\<lambda>q. q) [''a'', ''b'', ''c'', ''d'', ''e''] [[Some 0, None, Some 5, Some 1, Some 0]] (of_nat 4) = Inr d"
    by (simp add: downsampleColumnar_def Let_def)
  ultimately show ?thesis
    using downsample_correct [of "\<lambda>q. q" 4 "[''a'', ''b'', ''c'', ''d'', ''e'']" "[[Some 0, None, Some 5, Some 1, Some 0]]"] by fastforce
qed

text \<open>A number of points that is not an integer.\<close>

lemma fractional_points_throw: "downsampleColumnar num (replicate 20 t) rows (21 / 2) = Inl ''Invalid array length''"
proof -
  have "(21 / 2 :: rat) \<notin> \<int>"
  proof
    assume "(21 / 2 :: rat) \<in> \<int>"
    then obtain k :: int where "(21 / 2 :: rat) = of_int k" by (rule Ints_cases)
    then have "(21 :: rat) = of_int (2 * k)" by simp
    then have "21 = 2 * k" by (metis of_int_eq_iff of_int_numeral)
    then show False by presburger
  qed
  then show ?thesis by (simp add: downsampleColumnar_def)
qed

end
