(* ===== verification/Notification_Queue.thy ===== *)
theory Notification_Queue
  imports Prelude
begin

text \<open>
  \<open>src/services/notification-queue.ts\<close>: the queue of notification jobs inside the process. \<open>enqueue\<close> and the parts of
  \<open>drain\<close> between two calls of the processor run without interruption, so they are the steps; the processor is called
  for one job and finishes later, whether it returns or throws. Every call of \<open>drain\<close> that got past its guards is a
  frame of \<open>nq_drains\<close> with its own snapshot: the job it waits for and the jobs after it; nothing in the state keeps
  two of them from overlapping. \<open>nq_ticks\<close> counts the drains that \<open>setImmediate\<close> has
  scheduled, \<open>nq_calls\<close> lists the jobs the processor was called with. The scheduler and the flush at shutdown call
  \<open>drain\<close> as well, at any time. Identifiers come from \<open>randomUUID\<close> and do not repeat.
\<close>

section \<open>The queue\<close>

record notification_job =
  jb_id :: ident
  jb_typeCode :: string
  jb_environmentId :: "ident option"
  jb_enqueuedAt :: int

record queue_state =
  nq_queue :: "(ident \<times> notification_job) list"
  nq_draining :: bool
  nq_drains :: "(notification_job \<times> notification_job list) list"
  nq_softCapWarned :: bool
  nq_ticks :: nat
  nq_calls :: "notification_job list"

definition soft_cap :: nat where
  "soft_cap = 1000"

definition empty_queue :: queue_state where
  "empty_queue = \<lparr>nq_queue = [], nq_draining = False, nq_drains = [], nq_softCapWarned = False, nq_ticks = 0, nq_calls = []\<rparr>"

definition enqueue :: "notification_job \<Rightarrow> queue_state \<Rightarrow> queue_state" where
  "enqueue job s =
     (let queue = set_pair (jb_id job) job (nq_queue s); warned = nq_softCapWarned s in
      s\<lparr>nq_queue := queue,
        nq_softCapWarned := (if soft_cap \<le> length queue \<and> \<not> warned then True
                             else if length queue < soft_cap div 2 \<and> warned then False else warned),
        nq_ticks := nq_ticks s + 1\<rparr>)"

text \<open>The processor is called: the drain waits for it with the rest of its snapshot.\<close>

type_synonym drain_frame = "notification_job \<times> notification_job list"

definition call_processor :: "notification_job \<Rightarrow> notification_job list \<Rightarrow> queue_state \<Rightarrow> drain_frame option \<times> queue_state" where
  "call_processor job rest s = (Some (job, rest), s\<lparr>nq_calls := nq_calls s @ [job]\<rparr>)"

text \<open>
  The loop of one drain from the point where none of its jobs is running: the next job of its snapshot, or a new
  snapshot, or the end. Without a processor the jobs of the snapshot are dropped and the loop finds the queue empty.
\<close>

definition drain_loop :: "bool \<Rightarrow> notification_job list \<Rightarrow> queue_state \<Rightarrow> drain_frame option \<times> queue_state" where
  "drain_loop registered snapshot s =
     (case snapshot of
        job # rest \<Rightarrow> call_processor job rest s
      | [] \<Rightarrow>
          (case map snd (nq_queue s) of
             [] \<Rightarrow> (None, s\<lparr>nq_draining := False\<rparr>)
           | job # rest \<Rightarrow>
               if registered then call_processor job rest (s\<lparr>nq_queue := []\<rparr>)
               else (None, s\<lparr>nq_queue := [], nq_draining := False\<rparr>)))"

definition drain :: "bool \<Rightarrow> queue_state \<Rightarrow> queue_state" where
  "drain registered s =
     (if nq_draining s then s
      else if nq_queue s = [] then s
      else case drain_loop registered [] (s\<lparr>nq_draining := True\<rparr>) of
             (None, s') \<Rightarrow> s'
           | (Some frame, s') \<Rightarrow> s'\<lparr>nq_drains := nq_drains s' @ [frame]\<rparr>)"

text \<open>The processor settles for the drain at position \<open>k\<close>, which goes on with its own snapshot.\<close>

definition resume_drain :: "bool \<Rightarrow> nat \<Rightarrow> queue_state \<Rightarrow> queue_state" where
  "resume_drain registered k s =
     (case drain_loop registered (snd (nq_drains s ! k)) s of
        (None, s') \<Rightarrow> s'\<lparr>nq_drains := take k (nq_drains s') @ drop (Suc k) (nq_drains s')\<rparr>
      | (Some frame, s') \<Rightarrow> s'\<lparr>nq_drains := (nq_drains s')[k := frame]\<rparr>)"

section \<open>Interleavings\<close>

datatype queue_event = Enqueued notification_job | Tick | Drained | Finished nat

fun enqueued_jobs :: "queue_event list \<Rightarrow> notification_job list" where
  "enqueued_jobs [] = []"
| "enqueued_jobs (Enqueued j # evs) = j # enqueued_jobs evs"
| "enqueued_jobs (_ # evs) = enqueued_jobs evs"

inductive queue_step :: "bool \<Rightarrow> queue_state \<Rightarrow> queue_event \<Rightarrow> queue_state \<Rightarrow> bool" for registered where
  enqueued: "queue_step registered s (Enqueued j) (enqueue j s)"
| tick: "0 < nq_ticks s \<Longrightarrow> queue_step registered s Tick (drain registered (s\<lparr>nq_ticks := nq_ticks s - 1\<rparr>))"
| drained: "queue_step registered s Drained (drain registered s)"
| finished: "k < length (nq_drains s) \<Longrightarrow> queue_step registered s (Finished k) (resume_drain registered k s)"

inductive_cases queue_stepE: "queue_step registered s ev s'"

text \<open>A run from the empty queue, with the identifiers of the jobs different from each other.\<close>

inductive queue_run :: "bool \<Rightarrow> queue_event list \<Rightarrow> queue_state \<Rightarrow> bool" for registered where
  start: "queue_run registered [] empty_queue"
| step: "queue_run registered evs s \<Longrightarrow> queue_step registered s ev s' \<Longrightarrow>
    (\<And>j. ev = Enqueued j \<Longrightarrow> jb_id j \<notin> jb_id ` set (enqueued_jobs evs)) \<Longrightarrow> queue_run registered (evs @ [ev]) s'"

section \<open>Every job once and in order\<close>

lemma enqueued_append [simp]: "enqueued_jobs (evs @ evs') = enqueued_jobs evs @ enqueued_jobs evs'"
  by (induction evs rule: enqueued_jobs.induct) auto

lemma set_pair_new: "k \<notin> fst ` set m \<Longrightarrow> set_pair k v m = m @ [(k, v)]"
  by (induction k v m rule: set_pair.induct) auto

text \<open>The jobs that drains have taken from the queue and not called yet, and those that wait altogether.\<close>

definition taken :: "queue_state \<Rightarrow> notification_job list" where
  "taken s = concat (map snd (nq_drains s))"

definition pending :: "queue_state \<Rightarrow> notification_job list" where
  "pending s = taken s @ map snd (nq_queue s)"

text \<open>The invariant: the jobs called, taken and of the queue are the enqueued ones in order, and the flag says whether
  there is a drain; there is at most one, and it waits for the job called last.\<close>

definition queue_ok :: "notification_job list \<Rightarrow> queue_state \<Rightarrow> bool" where
  "queue_ok jobs s \<longleftrightarrow> nq_calls s @ pending s = jobs \<and> distinct (map jb_id jobs) \<and>
     (\<forall>(k, j) \<in> set (nq_queue s). k = jb_id j) \<and> (nq_draining s \<longleftrightarrow> nq_drains s \<noteq> []) \<and> length (nq_drains s) \<le> 1 \<and>
     (\<forall>(j, rest) \<in> set (nq_drains s). nq_calls s \<noteq> [] \<and> j = last (nq_calls s)) \<and>
     (nq_queue s \<noteq> [] \<longrightarrow> nq_draining s \<or> 0 < nq_ticks s)"

text \<open>An idle queue has no drain, a draining one has a single one.\<close>

lemma queue_ok_cases:
  assumes "queue_ok jobs s"
  obtains (idle) "\<not> nq_draining s" "nq_drains s = []"
  | (busy) j rest where "nq_draining s" "nq_drains s = [(j, rest)]"
proof (cases "nq_drains s")
  case Nil
  with assms idle show ?thesis by (simp add: queue_ok_def)
next
  case (Cons f fs)
  with assms have "fs = []" by (simp add: queue_ok_def)
  with Cons assms busy show ?thesis by (cases f) (auto simp: queue_ok_def)
qed

lemma enqueue_ok:
  assumes "queue_ok jobs s" and "jb_id j \<notin> jb_id ` set jobs"
  shows "queue_ok (jobs @ [j]) (enqueue j s)"
proof -
  have "jobs = nq_calls s @ taken s @ map snd (nq_queue s)" using assms(1) by (simp add: queue_ok_def pending_def)
  then have "snd ` set (nq_queue s) \<subseteq> set jobs" by auto
  moreover have "fst p = jb_id (snd p)" if "p \<in> set (nq_queue s)" for p using assms(1) that by (auto simp: queue_ok_def)
  ultimately have "jb_id j \<notin> fst ` set (nq_queue s)" using assms(2) by fastforce
  from set_pair_new [OF this] show ?thesis
    using assms by (auto simp: queue_ok_def enqueue_def Let_def pending_def taken_def)
qed

lemma drain_ok: "queue_ok jobs s \<Longrightarrow> queue_ok jobs (drain True (s\<lparr>nq_ticks := n\<rparr>))"
proof -
  assume ok: "queue_ok jobs s"
  then show ?thesis
  proof (cases rule: queue_ok_cases)
    case idle
    with ok show ?thesis
      by (cases "nq_queue s") (auto simp: drain_def drain_loop_def call_processor_def queue_ok_def pending_def taken_def)
  next
    case busy
    with ok show ?thesis by (auto simp: drain_def queue_ok_def pending_def taken_def)
  qed
qed

lemma resume_ok:
  assumes "queue_ok jobs s" and "k < length (nq_drains s)"
  shows "queue_ok jobs (resume_drain True k s)"
  using assms(1)
proof (cases rule: queue_ok_cases)
  case idle
  with assms(2) show ?thesis by simp
next
  case (busy j rest)
  with assms show ?thesis
    by (cases rest; cases "nq_queue s")
       (auto simp: resume_drain_def drain_loop_def call_processor_def queue_ok_def pending_def taken_def)
qed

lemma queue_run_ok: "queue_run True evs s \<Longrightarrow> queue_ok (enqueued_jobs evs) s"
proof (induction rule: queue_run.induct)
  case start
  show ?case by (simp add: queue_ok_def pending_def taken_def empty_queue_def)
next
  case (step evs s ev s')
  from step.hyps(2) show ?case
  proof (cases rule: queue_step.cases)
    case (enqueued j)
    with step show ?thesis by (simp add: enqueue_ok)
  next
    case tick
    with step.IH show ?thesis by (simp add: drain_ok)
  next
    case drained
    with drain_ok [OF step.IH, of "nq_ticks s"] show ?thesis by simp
  next
    case (finished k)
    with resume_ok [OF step.IH] show ?thesis by simp
  qed
qed

text \<open>Without further jobs, finishing what runs empties the queue.\<close>

definition work_left :: "queue_state \<Rightarrow> nat" where
  "work_left s = 2 * length (pending s) + length (nq_drains s)"

text \<open>A run with work left can go on without a new job, and has less work left then.\<close>

lemma drain_progress:
  assumes "queue_run True evs s" and "pending s \<noteq> [] \<or> nq_drains s \<noteq> []"
  shows "\<exists>ev s'. queue_run True (evs @ [ev]) s' \<and> enqueued_jobs [ev] = [] \<and> work_left s' < work_left s"
proof -
  note ok = queue_run_ok [OF assms(1)]
  from ok show ?thesis
  proof (cases rule: queue_ok_cases)
    case idle
    then have "nq_queue s \<noteq> []" using assms(2) by (simp add: pending_def taken_def)
    with idle have "work_left (drain True s) < work_left s"
      by (cases "nq_queue s") (auto simp: drain_def drain_loop_def call_processor_def work_left_def pending_def taken_def)
    moreover have "queue_run True (evs @ [Drained]) (drain True s)"
      using assms(1) by (rule queue_run.step) (auto intro: queue_step.drained)
    ultimately show ?thesis by (intro exI [of _ Drained]) auto
  next
    case (busy j rest)
    then have "work_left (resume_drain True 0 s) < work_left s"
      by (cases rest; cases "nq_queue s")
         (auto simp: resume_drain_def drain_loop_def call_processor_def work_left_def pending_def taken_def)
    moreover have "queue_run True (evs @ [Finished 0]) (resume_drain True 0 s)"
      using assms(1) by (rule queue_run.step) (use busy in \<open>auto intro: queue_step.finished\<close>)
    ultimately show ?thesis by (intro exI [of _ "Finished 0"]) auto
  qed
qed

lemma drains_out:
  "queue_run True evs s \<Longrightarrow> \<exists>evs' s'. queue_run True (evs @ evs') s' \<and> enqueued_jobs evs' = [] \<and>
     nq_drains s' = [] \<and> nq_calls s' = enqueued_jobs evs"
proof (induction "work_left s" arbitrary: evs s rule: less_induct)
  case less
  show ?case
  proof (cases "pending s = [] \<and> nq_drains s = []")
    case True
    with queue_run_ok [OF less.prems] less.prems show ?thesis
      by (intro exI [of _ "[]"] exI [of _ s]) (auto simp: queue_ok_def)
  next
    case False
    with drain_progress [OF less.prems] obtain ev s1 where ev: "queue_run True (evs @ [ev]) s1" "enqueued_jobs [ev] = []"
      "work_left s1 < work_left s" by blast
    from less.hyps [OF ev(3,1)] obtain evs' s' where "queue_run True ((evs @ [ev]) @ evs') s'" "enqueued_jobs evs' = []"
      "nq_drains s' = []" "nq_calls s' = enqueued_jobs (evs @ [ev])" by blast
    with ev(2) enqueued_append [of "[ev]" evs'] show ?thesis by (intro exI [of _ "ev # evs'"] exI [of _ s']) simp
  qed
qed

text \<open>C11: In every interleaving the processor is called with the enqueued jobs in their order, each at most once. There
  is never more than one drain under way, so the processor runs for one job at a time, the one called last. A job that
  waits has a drain under way or scheduled, and without further jobs the drains lead to a state in which every job was
  called and no drain is left.\<close>

theorem notification_jobs_once:
  assumes "queue_run True evs s"
  shows "distinct (map jb_id (nq_calls s)) \<and> nq_calls s = take (length (nq_calls s)) (enqueued_jobs evs) \<and>
    length (nq_drains s) \<le> 1 \<and> (\<forall>(j, rest) \<in> set (nq_drains s). nq_calls s \<noteq> [] \<and> j = last (nq_calls s)) \<and>
    (nq_calls s \<noteq> enqueued_jobs evs \<longrightarrow> nq_drains s \<noteq> [] \<or> 0 < nq_ticks s) \<and>
    (\<exists>evs' s'. queue_run True (evs @ evs') s' \<and> enqueued_jobs evs' = [] \<and> nq_drains s' = [] \<and> nq_calls s' = enqueued_jobs evs)"
proof -
  note ok = queue_run_ok [OF assms, unfolded queue_ok_def]
  have jobs: "enqueued_jobs evs = nq_calls s @ pending s" using ok by simp
  have "nq_calls s \<noteq> enqueued_jobs evs \<longrightarrow> nq_drains s \<noteq> [] \<or> 0 < nq_ticks s" using ok by (auto simp: jobs pending_def taken_def)
  moreover have "distinct (map jb_id (nq_calls s))" using ok by (simp add: jobs)
  moreover have "nq_calls s = take (length (nq_calls s)) (enqueued_jobs evs)" by (simp add: jobs)
  ultimately show ?thesis using ok drains_out [OF assms] by blast
qed

definition sample_job :: "string \<Rightarrow> notification_job" where
  "sample_job i = \<lparr>jb_id = i, jb_typeCode = ''t'', jb_environmentId = None, jb_enqueuedAt = 0\<rparr>"

theorem notification_jobs_once_witness:
  "\<exists>s. queue_run True [Enqueued (sample_job ''a''), Tick, Enqueued (sample_job ''b''), Drained, Finished 0] s \<and>
     nq_calls s = [sample_job ''a'', sample_job ''b''] \<and> nq_drains s = [(sample_job ''b'', [])] \<and> length (nq_drains s) \<le> 1"
proof -
  let ?s1 = "enqueue (sample_job ''a'') empty_queue"
  let ?s2 = "drain True (?s1\<lparr>nq_ticks := nq_ticks ?s1 - 1\<rparr>)"
  let ?s3 = "enqueue (sample_job ''b'') ?s2"
  let ?s4 = "drain True ?s3"
  let ?s5 = "resume_drain True 0 ?s4"
  have "nq_ticks ?s1 = 1" by code_simp
  then have ticks: "0 < nq_ticks ?s1" by simp
  have "length (nq_drains ?s4) = 1" by code_simp
  then have running: "0 < length (nq_drains ?s4)" by simp
  have r1: "queue_run True ([] @ [Enqueued (sample_job ''a'')]) ?s1"
    by (rule queue_run.step [OF queue_run.start queue_step.enqueued]) simp
  have r2: "queue_run True (([] @ [Enqueued (sample_job ''a'')]) @ [Tick]) ?s2"
    by (rule queue_run.step [OF r1 queue_step.tick [OF ticks]]) simp
  have r3: "queue_run True ((([] @ [Enqueued (sample_job ''a'')]) @ [Tick]) @ [Enqueued (sample_job ''b'')]) ?s3"
    by (rule queue_run.step [OF r2 queue_step.enqueued]) (simp add: sample_job_def)
  have r4: "queue_run True (((([] @ [Enqueued (sample_job ''a'')]) @ [Tick]) @ [Enqueued (sample_job ''b'')]) @ [Drained]) ?s4"
    by (rule queue_run.step [OF r3 queue_step.drained]) simp
  have run: "queue_run True ((((([] @ [Enqueued (sample_job ''a'')]) @ [Tick]) @ [Enqueued (sample_job ''b'')]) @ [Drained]) @ [Finished 0]) ?s5"
    by (rule queue_run.step [OF r4 queue_step.finished [OF running]]) simp
  moreover have "nq_calls ?s5 = [sample_job ''a'', sample_job ''b'']" by code_simp
  moreover have "nq_drains ?s5 = [(sample_job ''b'', [])]" by code_simp
  ultimately show ?thesis using notification_jobs_once [OF run] by (intro exI [of _ ?s5]) simp
qed

end
