(* ===== verification/Image_Names.thy ===== *)
theory Image_Names
  imports Prelude "HOL-Library.Product_Lexorder"
begin

text \<open>
  \<open>src/lib/image-utils.ts\<close>: the parts of an image name, and which of several tags of a digest is shown. The regular
  expression that \<open>matchesTagFilter\<close> builds of a pattern is the pattern with every \<open>*\<close> as any number of tag characters and
  every other character as itself.
\<close>

section \<open>Parts of an image name\<close>

definition name_without_tag :: "string \<Rightarrow> string" where
  "name_without_tag imageName = hd (split_on (CHR '':'') imageName)"

definition on_docker_hub :: "string list \<Rightarrow> bool" where
  "on_docker_hub parts \<longleftrightarrow> length parts = 1 \<or> (length parts = 2 \<and> CHR ''.'' \<notin> set (hd parts))"

definition parseRegistryFromImage :: "string \<Rightarrow> string \<times> bool" where
  "parseRegistryFromImage imageName =
     (let parts = split_on (CHR ''/'') (name_without_tag imageName) in
      if on_docker_hub parts then (''docker.io'', True) else (hd parts, False))"

definition extractImageName :: "string \<Rightarrow> string" where
  "extractImageName fullImagePath = last (split_on (CHR ''/'') (name_without_tag fullImagePath))"

fun position_of :: "'a \<Rightarrow> 'a list \<Rightarrow> nat option" where
  "position_of x [] = None"
| "position_of x (y # ys) = (if y = x then Some 0 else map_option Suc (position_of x ys))"

definition extractRepoName :: "string \<Rightarrow> string option \<Rightarrow> string" where
  "extractRepoName imageName repositoryPrefix =
     (let parts = split_on (CHR ''/'') imageName in
      case repositoryPrefix of
        None \<Rightarrow> last parts
      | Some p \<Rightarrow>
          if p \<noteq> [] \<and> 1 < length parts then
            (case position_of p parts of
               Some i \<Rightarrow> if i < length parts - 1 then join_with ''/'' (drop (i + 1) parts) else last parts
             | None \<Rightarrow> last parts)
          else last parts)"

definition stripRegistryPrefix :: "string \<Rightarrow> string" where
  "stripRegistryPrefix imageName =
     (let parts = split_on (CHR ''/'') (name_without_tag imageName) in
      if on_docker_hub parts then name_without_tag imageName else join_with ''/'' (tl parts))"

definition formatDigestShort :: "string \<Rightarrow> string" where
  "formatDigestShort digest =
     (let prefixes = filter (\<lambda>i. take 7 (drop i digest) = ''sha256:'') [0..<length digest];
          hashPart = (case prefixes of [] \<Rightarrow> digest | i # _ \<Rightarrow> drop (i + 7) digest)
      in if take 12 hashPart = [] then hashPart else take 12 hashPart)"

section \<open>Tags\<close>

definition parseTagFilter :: "string \<Rightarrow> string list" where
  "parseTagFilter tagFilter = filter (\<lambda>s. 0 < length s) (map js_trim (split_on (CHR '','') tagFilter))"

definition getDefaultTag :: "string \<Rightarrow> string" where
  "getDefaultTag tagFilter =
     (let first = js_trim (hd (split_on (CHR '','') tagFilter)) in if first = [] then ''latest'' else first)"

definition tag_char :: "char \<Rightarrow> bool" where
  "tag_char c \<longleftrightarrow> char_in c ''az'' \<or> char_in c ''AZ'' \<or> digit c \<or> c \<in> set ''._-''"

function glob :: "string \<Rightarrow> string \<Rightarrow> bool" where
  "glob [] tag = (tag = [])"
| "glob (c # p) tag =
     (if c = CHR ''*'' then glob p tag \<or> (case tag of [] \<Rightarrow> False | t # ts \<Rightarrow> tag_char t \<and> glob (c # p) ts)
      else (case tag of [] \<Rightarrow> False | t # ts \<Rightarrow> t = c \<and> glob p ts))"
  by pat_completeness auto
termination by (relation "measures [\<lambda>(p, t). length p + length t]") auto

declare glob.simps(2) [simp del]

definition matchesTagFilter :: "string \<Rightarrow> string list \<Rightarrow> bool" where
  "matchesTagFilter tag patterns = list_ex (\<lambda>pattern. glob pattern tag) patterns"

text \<open>\<open>/^v?\d/\<close>.\<close>

definition semver_like :: "string \<Rightarrow> bool" where
  "semver_like t = (case t of [] \<Rightarrow> False | c # cs \<Rightarrow> digit c \<or> (c = CHR ''v'' \<and> (case cs of [] \<Rightarrow> False | d # _ \<Rightarrow> digit d)))"

text \<open>The comparator puts exact patterns first, then more dot segments, then longer tags; the sort is stable.\<close>

definition tag_rank :: "string list \<Rightarrow> string \<Rightarrow> int \<times> int \<times> int" where
  "tag_rank exactPatterns t =
     (if t \<in> set exactPatterns then - 1 else 0, - int (length (split_on (CHR ''.'') t)), - int (length t))"

definition getBestTag :: "string list \<Rightarrow> string list \<Rightarrow> string option" where
  "getBestTag tags filterPatterns =
     (if tags = [] then None
      else
        let matching = filter (\<lambda>t. matchesTagFilter t filterPatterns) tags;
            nonMatching = filter (\<lambda>t. \<not> matchesTagFilter t filterPatterns) tags in
        if matching \<noteq> [] then
          (let exactPatterns = filter (\<lambda>p. CHR ''*'' \<notin> set p) filterPatterns in
           Some (hd (sort_key (tag_rank exactPatterns) matching)))
        else
          let semverLike = filter semver_like nonMatching;
              named = filter (\<lambda>t. \<not> semver_like t \<and> t \<noteq> ''latest'') nonMatching;
              latest = filter (\<lambda>t. t = ''latest'') nonMatching
          in Some (if semverLike \<noteq> [] then hd semverLike
                   else if named \<noteq> [] then hd named
                   else if latest \<noteq> [] then hd latest
                   else hd tags))"

section \<open>What a pattern matches\<close>

text \<open>The pattern cut at its asterisks, with a word of tag characters for each of them.\<close>

fun fill_glob :: "string list \<Rightarrow> string list \<Rightarrow> string" where
  "fill_glob (p # ps) (w # ws) = p @ w @ fill_glob ps ws"
| "fill_glob ps ws = concat ps"

lemma glob_step:
  "c \<noteq> CHR ''*'' \<Longrightarrow> glob (c # p) [] \<longleftrightarrow> False" "c \<noteq> CHR ''*'' \<Longrightarrow> glob (c # p) (t # ts) \<longleftrightarrow> t = c \<and> glob p ts"
  "glob (CHR ''*'' # p) [] \<longleftrightarrow> glob p []" "glob (CHR ''*'' # p) (t # ts) \<longleftrightarrow> glob p (t # ts) \<or> tag_char t \<and> glob (CHR ''*'' # p) ts"
  by (subst glob.simps; simp)+

lemma glob_literal: "CHR ''*'' \<notin> set p \<Longrightarrow> glob (p @ q) tag \<longleftrightarrow> (\<exists>r. tag = p @ r \<and> glob q r)"
proof (induction p arbitrary: tag)
  case (Cons c p)
  then show ?case by (cases tag) (auto simp: glob_step)
qed simp

lemma glob_star: "glob (CHR ''*'' # q) tag \<longleftrightarrow> (\<exists>w r. tag = w @ r \<and> list_all tag_char w \<and> glob q r)"
proof (induction tag)
  case Nil
  then show ?case by (simp add: glob_step)
next
  case (Cons t ts)
  show ?case
  proof
    assume "glob (CHR ''*'' # q) (t # ts)"
    then consider "glob q (t # ts)" | "tag_char t" "glob (CHR ''*'' # q) ts" by (simp only: glob_step) blast
    then show "\<exists>w r. t # ts = w @ r \<and> list_all tag_char w \<and> glob q r"
    proof cases
      case 1
      then show ?thesis by (intro exI [of _ "[]"] exI [of _ "t # ts"]) simp
    next
      case 2
      with Cons.IH obtain w r where "ts = w @ r" "list_all tag_char w" "glob q r" by blast
      with 2 show ?thesis by (intro exI [of _ "t # w"] exI [of _ r]) simp
    qed
  next
    assume "\<exists>w r. t # ts = w @ r \<and> list_all tag_char w \<and> glob q r"
    then obtain w r where w: "t # ts = w @ r" "list_all tag_char w" "glob q r" by blast
    show "glob (CHR ''*'' # q) (t # ts)"
    proof (cases w)
      case [simp]: (Cons c cs)
      with w have "glob (CHR ''*'' # q) ts" using \<open>glob (CHR ''*'' # q) ts \<longleftrightarrow> _\<close> by auto
      with w show ?thesis by (simp add: glob_step)
    next
      case Nil
      with w have "glob q (t # ts)" by simp
      then show ?thesis by (simp add: glob_step)
    qed
  qed
qed

lemma glob_join:
  "ps \<noteq> [] \<Longrightarrow> \<forall>p \<in> set ps. CHR ''*'' \<notin> set p \<Longrightarrow>
     glob (join_with ''*'' ps) tag \<longleftrightarrow> (\<exists>ws. Suc (length ws) = length ps \<and> list_all (list_all tag_char) ws \<and> tag = fill_glob ps ws)"
proof (induction "''*''" ps arbitrary: tag rule: join_with.induct)
  case (2 p)
  then show ?case using glob_literal [of p "[]"] by auto
next
  case (3 p q ps)
  have "glob (join_with ''*'' (p # q # ps)) tag \<longleftrightarrow>
      (\<exists>w r. tag = p @ w @ r \<and> list_all tag_char w \<and> glob (join_with ''*'' (q # ps)) r)"
    using 3(3) glob_literal [of p "CHR ''*'' # join_with ''*'' (q # ps)"] by (auto simp: glob_star)
  also have "\<dots> \<longleftrightarrow> (\<exists>w ws. Suc (length ws) = length (q # ps) \<and> list_all tag_char w \<and> list_all (list_all tag_char) ws \<and>
      tag = p @ w @ fill_glob (q # ps) ws)"
    using 3(1,3) by auto
  also have "\<dots> \<longleftrightarrow> (\<exists>ws. Suc (length ws) = length (p # q # ps) \<and> list_all (list_all tag_char) ws \<and> tag = fill_glob (p # q # ps) ws)"
    (is "?l \<longleftrightarrow> ?r")
  proof
    assume ?l
    then obtain w ws where "Suc (length ws) = length (q # ps)" "list_all tag_char w" "list_all (list_all tag_char) ws"
      "tag = p @ w @ fill_glob (q # ps) ws" by blast
    then show ?r by (intro exI [of _ "w # ws"]) simp
  next
    assume ?r
    then obtain ws where ws: "Suc (length ws) = length (p # q # ps)" "list_all (list_all tag_char) ws" "tag = fill_glob (p # q # ps) ws" by blast
    then obtain w ws' where "ws = w # ws'" by (cases ws) auto
    with ws show ?l by (intro exI [of _ w] exI [of _ ws']) simp
  qed
  finally show ?case .
qed simp

text \<open>A tag passes a filter pattern exactly when it is the pattern with every asterisk replaced by a word of letters, digits, dots, underscores and dashes; any other character of the pattern stands for itself.\<close>

theorem tag_filter_matches_iff:
  "matchesTagFilter tag patterns \<longleftrightarrow>
     (\<exists>pattern \<in> set patterns. \<exists>ws. Suc (length ws) = length (split_on (CHR ''*'') pattern) \<and>
        list_all (list_all tag_char) ws \<and> tag = fill_glob (split_on (CHR ''*'') pattern) ws)"
proof -
  have "glob pattern tag \<longleftrightarrow> (\<exists>ws. Suc (length ws) = length (split_on (CHR ''*'') pattern) \<and>
        list_all (list_all tag_char) ws \<and> tag = fill_glob (split_on (CHR ''*'') pattern) ws)" for pattern
    using glob_join [of "split_on (CHR ''*'') pattern" tag] split_on_free by (simp add: join_split_on)
  then show ?thesis by (simp add: matchesTagFilter_def list_ex_iff)
qed

section \<open>The tag that is shown\<close>

lemma sort_key_hd: "xs \<noteq> [] \<Longrightarrow> hd (sort_key f xs) \<in> set xs \<and> (\<forall>y \<in> set xs. f (hd (sort_key f xs)) \<le> f y)"
proof -
  assume "xs \<noteq> []"
  then obtain y ys where s: "sort_key f xs = y # ys" by (metis list.exhaust set_empty set_sort)
  then have "set (y # ys) = set xs" by (metis set_sort)
  moreover have "sorted (map f (y # ys))" by (metis s sorted_sort_key)
  ultimately show ?thesis using s by auto
qed

text \<open>An exact pattern before others, then more dot segments, then the longer tag.\<close>

definition outranks :: "string list \<Rightarrow> string \<Rightarrow> string \<Rightarrow> bool" where
  "outranks patterns t u \<longleftrightarrow>
     (let exact = \<lambda>x. x \<in> set patterns \<and> CHR ''*'' \<notin> set x; dots = \<lambda>x. length (split_on (CHR ''.'') x) in
      (exact u \<longrightarrow> exact t) \<and>
      (exact u = exact t \<longrightarrow> dots u < dots t \<or> (dots u = dots t \<and> length u \<le> length t)))"

text \<open>C12: The best of several tags is one of them; when some pass the filter it passes it too, and among those an exact pattern comes first, then more dot segments, then the longer tag; otherwise a version comes before a name, and \<open>latest\<close> is shown only when there is no other tag.\<close>

theorem best_tag_correct:
  "(getBestTag tags patterns = None \<longleftrightarrow> tags = []) \<and>
   (\<forall>t. getBestTag tags patterns = Some t \<longrightarrow> t \<in> set tags \<and>
      (\<forall>u \<in> set tags. matchesTagFilter u patterns \<longrightarrow> matchesTagFilter t patterns \<and> outranks patterns t u) \<and>
      ((\<forall>u \<in> set tags. \<not> matchesTagFilter u patterns) \<longrightarrow>
         (\<forall>u \<in> set tags. (semver_like u \<longrightarrow> semver_like t) \<and> (t = ''latest'' \<longrightarrow> u = ''latest''))))"
proof (cases "\<exists>u \<in> set tags. matchesTagFilter u patterns")
  case True
  let ?m = "filter (\<lambda>t. matchesTagFilter t patterns) tags" and ?e = "filter (\<lambda>p. CHR ''*'' \<notin> set p) patterns"
  have ne: "?m \<noteq> []" "tags \<noteq> []" using True by (auto simp: filter_empty_conv)
  then have best: "getBestTag tags patterns = Some (hd (sort_key (tag_rank ?e) ?m))" by (simp add: getBestTag_def)
  define t where "t = hd (sort_key (tag_rank ?e) ?m)"
  have t: "t \<in> set ?m" "\<And>u. u \<in> set ?m \<Longrightarrow> tag_rank ?e t \<le> tag_rank ?e u"
    using sort_key_hd [OF ne(1), of "tag_rank ?e"] by (simp_all add: t_def)
  have rank: "outranks patterns t u" if "u \<in> set tags" "matchesTagFilter u patterns" for u
    using t(2) [of u] that by (auto simp: outranks_def Let_def tag_rank_def less_eq_prod_def split: if_splits)
  have "getBestTag tags patterns = Some t" by (simp only: best t_def)
  moreover have "t \<in> set tags" "matchesTagFilter t patterns" using t(1) by simp_all
  moreover have "\<not> (\<forall>u \<in> set tags. \<not> matchesTagFilter u patterns)" using True by blast
  ultimately show ?thesis using rank ne(2) by auto
next
  case False
  then have none: "filter (\<lambda>t. matchesTagFilter t patterns) tags = []" "filter (\<lambda>t. \<not> matchesTagFilter t patterns) tags = tags"
    by (auto simp: filter_empty_conv filter_id_conv)
  let ?s = "filter semver_like tags" and ?n = "filter (\<lambda>t. \<not> semver_like t \<and> t \<noteq> ''latest'') tags"
    and ?l = "filter (\<lambda>t. t = ''latest'') tags"
  have latest: "\<not> semver_like ''latest''" by code_simp
  have best: "getBestTag tags patterns = (if tags = [] then None else
      Some (if ?s \<noteq> [] then hd ?s else if ?n \<noteq> [] then hd ?n else if ?l \<noteq> [] then hd ?l else hd tags))"
    unfolding getBestTag_def none Let_def by (rule if_cong [OF refl refl]) (rule if_not_P, simp)
  have "t \<in> set tags \<and> (\<forall>u \<in> set tags. (semver_like u \<longrightarrow> semver_like t) \<and> (t = ''latest'' \<longrightarrow> u = ''latest''))"
    if t: "getBestTag tags patterns = Some t" for t
  proof -
    have ne: "tags \<noteq> []" and eq: "t = (if ?s \<noteq> [] then hd ?s else if ?n \<noteq> [] then hd ?n else if ?l \<noteq> [] then hd ?l else hd tags)"
      using t unfolding best by (cases "tags = []", simp_all only: if_True if_False option.inject option.distinct simp_thms)+
    have "x \<in> set ?s \<or> x \<in> set ?n \<or> x \<in> set ?l" if "x \<in> set tags" for x using that by auto
    with ne have "\<not> (?s = [] \<and> ?n = [] \<and> ?l = [])" by (metis hd_in_set empty_iff list.set(1))
    then consider "?s \<noteq> []" "t = hd ?s" | "?s = []" "?n \<noteq> []" "t = hd ?n" | "?s = []" "?n = []" "t = hd ?l" "?l \<noteq> []"
      unfolding eq by (meson)
    then show ?thesis
    proof cases
      case 1
      have "t \<in> set ?s" unfolding 1(2) by (rule hd_in_set [OF 1(1)])
      with latest show ?thesis by auto
    next
      case 2
      have "t \<in> set ?n" unfolding 2(3) by (rule hd_in_set [OF 2(2)])
      with 2(1) show ?thesis by (auto simp: filter_empty_conv)
    next
      case 3
      have "t \<in> set ?l" unfolding 3(3) by (rule hd_in_set [OF 3(4)])
      with 3(1,2) show ?thesis by (auto simp: filter_empty_conv)
    qed
  qed
  moreover have "getBestTag tags patterns = None \<longleftrightarrow> tags = []" unfolding best by simp
  ultimately show ?thesis using False by blast
qed

theorem best_tag_correct_witness:
  "getBestTag [''1'', ''1.2'', ''edge''] [''1*''] = Some ''1.2'' \<and> outranks [''1*''] ''1.2'' ''1'' \<and>
     getBestTag [''latest'', ''edge''] [] = Some ''edge''"
proof -
  have "getBestTag [''1'', ''1.2'', ''edge''] [''1*''] = Some ''1.2''" "getBestTag [''latest'', ''edge''] [] = Some ''edge''"
    "matchesTagFilter ''1'' [''1*'']" by code_simp+
  then show ?thesis using best_tag_correct [of "[''1'', ''1.2'', ''edge'']" "[''1*'']"] by simp
qed

section \<open>Registries\<close>

text \<open>A registry with a port loses everything behind the colon and is taken for Docker Hub.\<close>

lemma registry_port_lost:
  "parseRegistryFromImage ''r.example.com:5000/team/app'' = (''docker.io'', True)"
  "stripRegistryPrefix ''r.example.com:5000/team/app'' = ''r.example.com''"
  "extractImageName ''r.example.com:5000/team/app'' = ''r.example.com''"
  by code_simp+

lemma split_on_notin: "c \<notin> set s \<Longrightarrow> split_on c (s @ c # r) = s # split_on c r"
  by (rule split_on_append)

lemma image_reference_parts:
  assumes "CHR '':'' \<notin> set registry" and "CHR '':'' \<notin> set repository" and "CHR ''/'' \<notin> set registry"
    and "CHR ''.'' \<in> set registry" and "img = registry @ ''/'' @ repository @ (if tag = [] then [] else CHR '':'' # tag)"
  shows "parseRegistryFromImage img = (registry, False)" and "stripRegistryPrefix img = repository"
proof -
  have "name_without_tag img = registry @ CHR ''/'' # repository"
    using assms(1,2,5) split_on_append [of "CHR '':''" "registry @ CHR ''/'' # repository" tag]
      split_on_word [of "CHR '':''" "registry @ CHR ''/'' # repository"]
    by (auto simp: name_without_tag_def)
  moreover have parts: "split_on (CHR ''/'') (registry @ CHR ''/'' # repository) = registry # split_on (CHR ''/'') repository"
    using assms(3) by (rule split_on_append)
  ultimately show "parseRegistryFromImage img = (registry, False)" "stripRegistryPrefix img = repository"
    using assms(4) by (simp_all add: parseRegistryFromImage_def stripRegistryPrefix_def on_docker_hub_def join_split_on Let_def)
qed

end
