(* ===== verification/Compose_Artifacts.thy ===== *)
theory Compose_Artifacts
  imports Config_Sync Text_Diff
begin

text \<open>
  \<open>src/services/compose.ts\<close>: the compose file and the config files of a deployment, and their preview in a dry run
  with secret values redacted. SHA-256 and \<open>YAML.stringify\<close> are parameters. The columns that only this file reads stand
  in tables of their own, by the id of the row; objects keep their keys in insertion order, as JavaScript does for keys
  that are no array indices. The validation of a compose file is in \<open>Hosts\<close>.
\<close>

section \<open>JSON columns\<close>

text \<open>A number of a parsed document: a whole number, or another one by the text that JavaScript prints for it.\<close>

datatype json_number = Whole int | OtherNumber string

text \<open>A property of a parsed object, as far as the code looks at it.\<close>

datatype js_value = JsUndefined | JsNull | JsBool bool | JsNumber json_number | JsString string | JsObject

record port_entry =
  pe_host :: js_value
  pe_container :: js_value
  pe_protocol :: js_value
  pe_hostIp :: js_value

text \<open>\<open>exposedPorts\<close>: unreadable, something that is not an array, or an array with \<open>None\<close> for an entry that is no object.\<close>

datatype ports_json = UnreadablePorts | NoPortArray | PortArray "port_entry option list"

text \<open>\<open>baseEnv\<close> and \<open>envOverrides\<close> are written as objects with string values.\<close>

datatype env_json = UnreadableEnv | EnvObject "(string \<times> string) list"



section \<open>Ports\<close>

definition isWildcardHostIp :: "string option \<Rightarrow> bool" where
  "isWildcardHostIp hostIp \<longleftrightarrow> \<not> truthy hostIp \<or> hostIp = Some ''0.0.0.0'' \<or> hostIp = Some ''::''"

definition formatHostIpPrefix :: "string option \<Rightarrow> string" where
  "formatHostIpPrefix hostIp =
     (if isWildcardHostIp hostIp then []
      else if CHR '':'' \<in> set (the hostIp) then ''['' @ the hostIp @ '']:''
      else the hostIp @ '':'')"

definition VALID_PROTOCOLS :: "string list" where
  "VALID_PROTOCOLS = [''tcp'', ''udp'', ''sctp'']"

fun valid_port :: "js_value \<Rightarrow> int option" where
  "valid_port (JsNumber (Whole i)) = (if i \<le> 0 \<or> i > 65535 then None else Some i)"
| "valid_port _ = None"

definition host_port :: "js_value \<Rightarrow> int \<Rightarrow> int option" where
  "host_port h container = (case h of JsNull \<Rightarrow> Some container | JsUndefined \<Rightarrow> Some container | _ \<Rightarrow> valid_port h)"

definition port_protocol :: "js_value \<Rightarrow> string" where
  "port_protocol v =
     (let rawProtocol = (case v of JsString p \<Rightarrow> js_lower p | _ \<Rightarrow> ''tcp'') in
      if rawProtocol \<in> set VALID_PROTOCOLS then rawProtocol else ''tcp'')"

fun string_property :: "js_value \<Rightarrow> string option" where
  "string_property (JsString s) = Some s"
| "string_property _ = None"

text \<open>The text of one entry, or \<open>None\<close> where the loop goes on without it.\<close>

definition port_text :: "port_entry option \<Rightarrow> string option" where
  "port_text raw =
     (case raw of
        None \<Rightarrow> None
      | Some entry \<Rightarrow>
          (case valid_port (pe_container entry) of
             None \<Rightarrow> None
           | Some container \<Rightarrow>
               (case host_port (pe_host entry) container of
                  None \<Rightarrow> None
                | Some host \<Rightarrow>
                    let protocol = port_protocol (pe_protocol entry);
                        suffix = (if protocol = ''tcp'' then [] else ''/'' @ protocol);
                        ipPrefix = formatHostIpPrefix (string_property (pe_hostIp entry))
                    in Some (ipPrefix @ int_str host @ '':'' @ int_str container @ suffix))))"

fun serialize_loop :: "port_entry option list \<Rightarrow> string list \<Rightarrow> string list" where
  "serialize_loop [] result = result"
| "serialize_loop (raw # raws) result =
     (case port_text raw of
        None \<Rightarrow> serialize_loop raws result
      | Some portString \<Rightarrow>
          if portString \<in> set result then serialize_loop raws result else serialize_loop raws (result @ [portString]))"

definition serializeExposedPorts :: "ports_json option \<Rightarrow> string list" where
  "serializeExposedPorts exposedPortsJson =
     (case exposedPortsJson of Some (PortArray parsed) \<Rightarrow> serialize_loop parsed [] | _ \<Rightarrow> [])"

section \<open>Environment variables\<close>



section \<open>Config files\<close>

record generated_file =
  gf_name :: string
  gf_content :: string
  gf_checksum :: string
  gf_mountPath :: string
  gf_isBinary :: bool








section \<open>The compose file\<close>







record generated_artifacts =
  ga_composeName :: string
  ga_composeContent :: string
  ga_composeChecksum :: string
  ga_configFiles :: "generated_file list"



section \<open>Saved artifacts\<close>

record artifact_row =
  aw_type :: string
  aw_name :: string
  aw_content :: string
  aw_checksum :: string
  aw_deploymentId :: ident

definition saveDeploymentArtifacts :: "ident \<Rightarrow> generated_artifacts \<Rightarrow> artifact_row list \<Rightarrow> artifact_row list" where
  "saveDeploymentArtifacts deploymentId a table =
     table @ \<lparr>aw_type = ''compose'', aw_name = ga_composeName a, aw_content = ga_composeContent a,
              aw_checksum = ga_composeChecksum a, aw_deploymentId = deploymentId\<rparr>
       # map (\<lambda>cf. \<lparr>aw_type = ''config'', aw_name = gf_name cf, aw_content = gf_content cf, aw_checksum = gf_checksum cf,
                     aw_deploymentId = deploymentId\<rparr>) (ga_configFiles a)"

text \<open>\<open>orderBy: { type: 'asc' }\<close>, over the three types.\<close>

definition getDeploymentArtifacts :: "ident \<Rightarrow> artifact_row list \<Rightarrow> artifact_row list" where
  "getDeploymentArtifacts deploymentId table =
     (let rows = filter (\<lambda>r. aw_deploymentId r = deploymentId) table in
      concat (map (\<lambda>ty. filter (\<lambda>r. aw_type r = ty) rows) [''compose'', ''config'', ''env'']))"

section \<open>The preview\<close>






section \<open>Ports are published as they were discovered\<close>

text \<open>What an entry of \<open>ports:\<close> means: host address, host port, container port and protocol, read back from its text.\<close>

type_synonym port_binding = "string option \<times> int \<times> int \<times> string"

definition published :: "port_entry option \<Rightarrow> port_binding option" where
  "published raw =
     Option.bind raw (\<lambda>e. Option.bind (valid_port (pe_container e)) (\<lambda>container.
       Option.bind (host_port (pe_host e) container) (\<lambda>host.
         Some (let ip = string_property (pe_hostIp e) in if isWildcardHostIp ip then None else ip,
               host, container, port_protocol (pe_protocol e)))))"

definition after_last :: "char \<Rightarrow> string \<Rightarrow> string" where
  "after_last c s = rev (takeWhile (\<lambda>x. x \<noteq> c) (rev s))"

definition before_last :: "char \<Rightarrow> string \<Rightarrow> string" where
  "before_last c s = rev (drop 1 (dropWhile (\<lambda>x. x \<noteq> c) (rev s)))"

definition unbracketed :: "string \<Rightarrow> string" where
  "unbracketed s = (if CHR '':'' \<in> set s then butlast (drop 1 s) else s)"

definition parse_port :: "string \<Rightarrow> port_binding" where
  "parse_port s =
     (let front = before_last CHR '':'' s; target = after_last CHR '':'' s;
          proto = drop 1 (dropWhile (\<lambda>c. c \<noteq> CHR ''/'') target) in
      (if CHR '':'' \<in> set front then Some (unbracketed (before_last CHR '':'' front)) else None,
       int (digits_value (if CHR '':'' \<in> set front then after_last CHR '':'' front else front)),
       int (digits_value (takeWhile (\<lambda>c. c \<noteq> CHR ''/'') target)),
       if proto = [] then ''tcp'' else proto))"

lemma last_split [simp]:
  "c \<notin> set b \<Longrightarrow> after_last c (a @ c # b) = b" "c \<notin> set b \<Longrightarrow> before_last c (a @ c # b) = a"
proof -
  assume "c \<notin> set b"
  then have "\<forall>x \<in> set (rev b). x \<noteq> c" by auto
  then have "takeWhile (\<lambda>x. x \<noteq> c) (rev b @ c # rev a) = rev b" "dropWhile (\<lambda>x. x \<noteq> c) (rev b @ c # rev a) = c # rev a"
    by (simp_all add: takeWhile_append dropWhile_append)
  then show "after_last c (a @ c # b) = b" "before_last c (a @ c # b) = a"
    by (simp_all add: after_last_def before_last_def)
qed

lemma digits_free: "\<not> digit c \<Longrightarrow> c \<notin> set (nat_str n)"
  using nat_str_digits by blast

lemma port_chars [simp]:
  "CHR '':'' \<notin> set (nat_str n)" "CHR ''/'' \<notin> set (nat_str n)"
  by (rule digits_free, simp add: digit_def char_in_def less_eq_char_def)+

definition port_print :: "port_binding \<Rightarrow> string" where
  "port_print b =
     (case b of (ip, host, container, protocol) \<Rightarrow>
        formatHostIpPrefix ip @ int_str host @ '':'' @ int_str container @ (if protocol = ''tcp'' then [] else ''/'' @ protocol))"

lemma port_text_published: "port_text raw = map_option port_print (published raw)"
  by (auto simp: port_text_def published_def port_print_def Let_def formatHostIpPrefix_def isWildcardHostIp_def split: option.splits)

definition binding_ok :: "port_binding \<Rightarrow> bool" where
  "binding_ok b \<longleftrightarrow>
     (case b of (ip, host, container, protocol) \<Rightarrow>
        (ip = None \<or> \<not> isWildcardHostIp ip) \<and> 0 < host \<and> host \<le> 65535 \<and> 0 < container \<and> container \<le> 65535 \<and>
        protocol \<in> set VALID_PROTOCOLS)"

lemma valid_port_range: "valid_port v = Some i \<Longrightarrow> 0 < i \<and> i \<le> 65535"
  by (induction v rule: valid_port.induct) (auto split: if_splits)

lemma host_port_range: "host_port h c = Some i \<Longrightarrow> 0 < c \<Longrightarrow> c \<le> 65535 \<Longrightarrow> 0 < i \<and> i \<le> 65535"
  by (cases h) (auto simp: host_port_def dest: valid_port_range)

lemma port_protocol_valid: "port_protocol v \<in> set VALID_PROTOCOLS"
  by (auto simp: port_protocol_def Let_def VALID_PROTOCOLS_def)

lemma published_ok:
  assumes "published raw = Some b"
  shows "binding_ok b"
proof -
  from assms obtain e where raw: "raw = Some e" by (cases raw) (auto simp: published_def)
  with assms obtain container where c: "valid_port (pe_container e) = Some container"
    by (cases "valid_port (pe_container e)") (auto simp: published_def)
  with raw assms obtain host where h: "host_port (pe_host e) container = Some host"
    by (cases "host_port (pe_host e) container") (auto simp: published_def)
  from valid_port_range [OF c] host_port_range [OF h] port_protocol_valid [of "pe_protocol e"] assms
  show ?thesis by (auto simp: published_def raw c h binding_ok_def Let_def split: if_splits)
qed

lemma parse_port_print:
  assumes "binding_ok b"
  shows "parse_port (port_print b) = b"
proof -
  obtain ip host container protocol where b: "b = (ip, host, container, protocol)" by (cases b)
  from assms have ok: "ip = None \<or> \<not> isWildcardHostIp ip" "0 < host" "0 < container" "protocol \<in> set VALID_PROTOCOLS"
    by (auto simp: b binding_ok_def)
  define target where "target = int_str container @ (if protocol = ''tcp'' then [] else ''/'' @ protocol)"
  have ints: "int_str host = nat_str (nat host)" "int_str container = nat_str (nat container)"
    using ok(2,3) by (simp_all add: int_str_def)
  have colon: "CHR '':'' \<notin> set target"
    using ok(4) by (auto simp: target_def ints VALID_PROTOCOLS_def)
  have slash: "\<forall>c \<in> set (nat_str (nat container)). c \<noteq> CHR ''/''" by (metis port_chars(2))
  have number: "takeWhile (\<lambda>c. c \<noteq> CHR ''/'') target = nat_str (nat container)"
    and proto: "drop 1 (dropWhile (\<lambda>c. c \<noteq> CHR ''/'') target) = (if protocol = ''tcp'' then [] else protocol)"
    using slash by (auto simp: target_def ints takeWhile_append dropWhile_append takeWhile_eq_all_conv)
  have shown: "port_print b = (formatHostIpPrefix ip @ nat_str (nat host)) @ CHR '':'' # target"
    by (simp add: port_print_def b target_def ints)
  have parts: "after_last CHR '':'' (port_print b) = target"
    "before_last CHR '':'' (port_print b) = formatHostIpPrefix ip @ nat_str (nat host)"
    unfolding shown by (simp_all only: last_split colon not_False_eq_True)
  have nonempty: "protocol \<noteq> []" using ok(4) by (auto simp: VALID_PROTOCOLS_def)
  show ?thesis
  proof (cases "isWildcardHostIp ip")
    case True
    with ok(1) have "ip = None" by blast
    with True show ?thesis
      using ok(2,3) nonempty unfolding parse_port_def Let_def parts number proto by (simp add: b formatHostIpPrefix_def)
  next
    case False
    then obtain a where ip: "ip = Some a" "a \<noteq> []" by (cases ip) (auto simp: isWildcardHostIp_def)
    obtain q where q: "formatHostIpPrefix ip = q @ '':''" "unbracketed q = a"
      using False by (cases "CHR '':'' \<in> set a") (auto simp: formatHostIpPrefix_def ip unbracketed_def)
    have front: "formatHostIpPrefix ip @ nat_str (nat host) = q @ CHR '':'' # nat_str (nat host)" by (simp add: q)
    show ?thesis
      using ok(2,3) nonempty unfolding parse_port_def Let_def parts number proto front by (simp add: b ip q)
  qed
qed

lemma js_unique_snoc: "js_unique (xs @ [x]) = (if x \<in> set xs then js_unique xs else js_unique xs @ [x])"
  by (simp add: js_unique_def)

lemma set_js_unique [simp]: "set (js_unique xs) = set xs"
  by (simp add: js_unique_def)

lemma js_unique_inverse: "\<forall>x \<in> set xs. g (f x) = x \<Longrightarrow> map g (js_unique (map f xs)) = js_unique xs"
proof (induction xs rule: rev_induct)
  case (snoc x xs)
  moreover have "f x \<in> f ` set xs \<longleftrightarrow> x \<in> set xs" using snoc.prems by (metis UnCI imageE image_eqI list.set_intros(1) set_append)
  ultimately show ?case by (simp add: js_unique_snoc)
qed (simp add: js_unique_def)

lemma serialize_loop_unique: "serialize_loop raws (js_unique result) = js_unique (result @ List.map_filter port_text raws)"
proof (induction raws arbitrary: result)
  case (Cons raw raws)
  show ?case
  proof (cases "port_text raw")
    case None
    with Cons show ?thesis by (simp add: map_filter_simps)
  next
    case (Some t)
    have "serialize_loop (raw # raws) (js_unique result) = serialize_loop raws (js_unique (result @ [t]))"
      by (simp add: Some js_unique_snoc)
    with Cons [of "result @ [t]"] Some show ?thesis by (simp add: map_filter_simps)
  qed
qed (simp add: map_filter_simps)

lemma map_filter_published: "List.map_filter port_text raws = map port_print (List.map_filter published raws)"
  by (induction raws) (auto simp: map_filter_simps port_text_published split: option.split)

lemma published_all_ok: "b \<in> set (List.map_filter published raws) \<Longrightarrow> binding_ok b"
  by (auto simp: map_filter_def dest: published_ok)

text \<open>Read back, the entries written under ports are the discovered bindings, each once and in their order: the host address unless it is a wildcard, the host port, by default the container port, the container port and the protocol, both ports between 1 and 65535.\<close>

theorem ports_published:
  "map parse_port (serializeExposedPorts (Some (PortArray raws))) = js_unique (List.map_filter published raws)"
proof -
  have "serializeExposedPorts (Some (PortArray raws)) = js_unique (map port_print (List.map_filter published raws))"
    using serialize_loop_unique [of raws "[]"] by (simp add: serializeExposedPorts_def map_filter_published js_unique_def)
  also have "map parse_port \<dots> = js_unique (List.map_filter published raws)"
    by (rule js_unique_inverse) (blast intro: parse_port_print published_all_ok)
  finally show ?thesis .
qed

section \<open>The preview against the generation\<close>





















end
