(* ===== verification/Activity_Throttle.thy ===== *)
theory Activity_Throttle
  imports Prelude
begin

text \<open>
  \<open>src/lib/last-active-throttle.ts\<close>: at most one time-stamp write per id and window, with a bounded map that drops the
  older half when it grows too large. A dropped id is written again within its window; the theorem says how many
  other ids that takes.
\<close>

record throttle =
  th_windowMs :: int
  th_maxEntries :: nat
  th_stamps :: "(ident \<times> millis) list"

definition createThrottle :: "int option \<Rightarrow> nat option \<Rightarrow> throttle" where
  "createThrottle windowMs maxEntries =
     \<lparr>th_windowMs = nullish windowMs 60000, th_maxEntries = nullish maxEntries 10000, th_stamps = []\<rparr>"

definition evict_half :: "(ident \<times> millis) list \<Rightarrow> (ident \<times> millis) list" where
  "evict_half stamps =
     (let entries = sort_key snd stamps;
          evict = take (length entries div 2) entries
      in filter (\<lambda>e. fst e \<notin> fst ` set evict) stamps)"

definition grant :: "ident \<Rightarrow> millis \<Rightarrow> throttle \<Rightarrow> throttle" where
  "grant i t th =
     (let stamps = set_pair i t (th_stamps th)
      in th\<lparr>th_stamps := (if th_maxEntries th < length stamps then evict_half stamps else stamps)\<rparr>)"

definition shouldWrite :: "ident \<Rightarrow> millis \<Rightarrow> throttle \<Rightarrow> bool \<times> throttle" where
  "shouldWrite i t th =
     (case map_of (th_stamps th) i of
        Some stamp \<Rightarrow> if t - stamp < th_windowMs th then (False, th) else (True, grant i t th)
      | None \<Rightarrow> (True, grant i t th))"

definition reset_throttle :: "throttle \<Rightarrow> throttle" where
  "reset_throttle th = th\<lparr>th_stamps := []\<rparr>"

definition throttle_size :: "throttle \<Rightarrow> nat" where
  "throttle_size th = length (th_stamps th)"

text \<open>A run of calls, and the calls that were told to write.\<close>

fun throttle_run :: "(ident \<times> millis) list \<Rightarrow> throttle \<Rightarrow> (ident \<times> millis) list \<times> throttle" where
  "throttle_run [] th = ([], th)"
| "throttle_run ((i, t) # calls) th =
     (case shouldWrite i t th of
        (b, th') \<Rightarrow> (case throttle_run calls th' of (g, th'') \<Rightarrow> (if b then (i, t) # g else g, th'')))"

section \<open>Eviction\<close>

lemma filter_fst_card:
  "distinct (map fst xs) \<Longrightarrow> set ys \<subseteq> set xs \<Longrightarrow> distinct ys \<Longrightarrow>
     length (filter (\<lambda>e. fst e \<notin> fst ` set ys) xs) = length xs - length ys"
proof -
  assume d: "distinct (map fst xs)" and sub: "set ys \<subseteq> set xs" and dy: "distinct ys"
  have inj: "inj_on fst (set xs)" and dx: "distinct xs" using d by (auto simp: distinct_map)
  have "set (filter (\<lambda>e. fst e \<notin> fst ` set ys) xs) = set xs - set ys"
    using inj sub by (auto simp: inj_on_def image_iff subset_iff)
  then have "card (set (filter (\<lambda>e. fst e \<notin> fst ` set ys) xs)) = card (set xs) - card (set ys)"
    using sub by (simp add: card_Diff_subset)
  moreover have "card (set (filter (\<lambda>e. fst e \<notin> fst ` set ys) xs)) = length (filter (\<lambda>e. fst e \<notin> fst ` set ys) xs)"
    by (rule distinct_card) (simp add: dx)
  ultimately show ?thesis using dx dy by (simp add: distinct_card)
qed

lemma evict_half_props:
  assumes "distinct (map fst xs)"
  shows "distinct (map fst (evict_half xs)) \<and> length (evict_half xs) = length xs - length xs div 2"
proof -
  have "mset (sort_key snd xs) = mset xs" by simp
  moreover have "distinct xs" using assms by (simp add: distinct_map)
  ultimately have "distinct (sort_key snd xs)" by simp
  then have "distinct (take (length xs div 2) (sort_key snd xs))" by simp
  moreover have "set (take (length xs div 2) (sort_key snd xs)) \<subseteq> set xs" by (metis set_sort set_take_subset)
  ultimately show ?thesis
    using filter_fst_card [OF assms] assms by (simp add: evict_half_def Let_def distinct_map_filter)
qed

text \<open>Whoever is dropped is no younger than any who stay.\<close>

lemma evicted_older:
  assumes d: "distinct (map fst xs)" and e: "e \<in> set xs" "e \<notin> set (evict_half xs)" and f: "f \<in> set (evict_half xs)"
  shows "snd e \<le> snd f"
proof -
  let ?n = "length xs div 2" and ?ys = "sort_key snd xs"
  from e obtain e' where e': "e' \<in> set (take ?n ?ys)" "fst e' = fst e"
    by (auto simp: evict_half_def Let_def)
  then have "e' \<in> set xs" by (metis in_set_takeD set_sort)
  with e' d e(1) have eq: "e' = e" by (auto simp: distinct_map inj_on_def)
  have "f \<in> set ?ys" "f \<notin> set (take ?n ?ys)" using f by (auto simp: evict_half_def Let_def)
  then have "f \<in> set (drop ?n ?ys)" by (metis Un_iff append_take_drop_id set_append)
  moreover have "sorted (map snd (take ?n ?ys @ drop ?n ?ys))" by (simp only: append_take_drop_id sorted_sort_key)
  ultimately show ?thesis using e' eq by (auto simp only: map_append sorted_append set_map image_iff)
qed

section \<open>What a write within the window takes\<close>

definition half :: "throttle \<Rightarrow> nat" where
  "half th = (th_maxEntries th + 1) div 2"

definition others :: "(ident \<times> millis) list \<Rightarrow> ident \<Rightarrow> millis \<Rightarrow> ident set" where
  "others g i t = {k. k \<noteq> i \<and> (\<exists>u. (k, u) \<in> set g \<and> t \<le> u)}"

lemma finite_others [simp]: "finite (others g i t)"
  by (rule finite_subset [of _ "fst ` set g"]) (force simp: others_def)+

lemma others_mono: "set g \<subseteq> set g' \<Longrightarrow> t' \<le> t \<Longrightarrow> others g i t \<subseteq> others g' i t'"
  unfolding others_def using order_trans by blast

text \<open>Against the writes granted so far: a stamp is the last write of its id, and an id whose last write is not
  stamped has been overtaken by half a table of others.\<close>

definition throttle_inv :: "(ident \<times> millis) list \<Rightarrow> throttle \<Rightarrow> bool" where
  "throttle_inv g th \<longleftrightarrow>
     distinct (map fst (th_stamps th)) \<and> length (th_stamps th) \<le> max 1 (th_maxEntries th) \<and> set (th_stamps th) \<subseteq> set g \<and>
     (\<forall>(i, t) \<in> set g. (\<exists>u \<ge> t. (i, u) \<in> set (th_stamps th)) \<or> half th \<le> card (others g i t))"

lemma evict_leaves_half:
  assumes d: "distinct (map fst xs)" and "th_maxEntries th < length xs" and sub: "set xs \<subseteq> set g"
    and e: "(i, t) \<in> set xs" "(i, t) \<notin> set (evict_half xs)"
  shows "half th \<le> card (others g i t)"
proof -
  have stay: "fst ` set (evict_half xs) \<subseteq> others g i t"
  proof
    fix k assume "k \<in> fst ` set (evict_half xs)"
    then obtain u where ku: "(k, u) \<in> set (evict_half xs)" by auto
    then have "(k, u) \<in> set xs" by (auto simp: evict_half_def Let_def)
    moreover have "t \<le> u" using evicted_older [OF d e ku] by simp
    moreover have "k \<noteq> i" using e ku \<open>(k, u) \<in> set xs\<close> eq_key_imp_eq_value [OF d] by metis
    ultimately show "k \<in> others g i t" using sub by (auto simp: others_def)
  qed
  have "card (fst ` set (evict_half xs)) = length (evict_half xs)"
    using evict_half_props [OF d] by (metis distinct_card length_map set_map)
  moreover have "half th \<le> length (evict_half xs)"
    using evict_half_props [OF d] assms(2) by (auto simp: half_def)
  ultimately show ?thesis using card_mono [OF finite_others stay] by simp
qed

lemma set_set_pair: "distinct (map fst m) \<Longrightarrow> set (set_pair k v m) = insert (k, v) {e \<in> set m. fst e \<noteq> k}"
  by (induction k v m rule: set_pair.induct) (auto simp: image_iff)

lemma length_set_pair: "length (set_pair k v m) \<le> Suc (length m)"
  by (induction k v m rule: set_pair.induct) auto

lemma grant_inv:
  assumes inv: "throttle_inv g th" and late: "\<forall>(k, u) \<in> set g. u \<le> t"
  shows "throttle_inv (g @ [(i, t)]) (grant i t th)"
proof -
  let ?xs = "set_pair i t (th_stamps th)" and ?g = "g @ [(i, t)]"
  have d0: "distinct (map fst (th_stamps th))" and sub0: "set (th_stamps th) \<subseteq> set g"
    and len0: "length (th_stamps th) \<le> max 1 (th_maxEntries th)"
    and last0: "\<forall>(j, u) \<in> set g. (\<exists>v \<ge> u. (j, v) \<in> set (th_stamps th)) \<or> half th \<le> card (others g j u)"
    using inv by (simp_all add: throttle_inv_def)
  have d: "distinct (map fst ?xs)" using d0 by (rule fst_set_pair(2))
  have sub: "set ?xs \<subseteq> set ?g" using sub0 d0 by (auto simp: set_set_pair)
  have last: "(\<exists>v \<ge> u. (j, v) \<in> set ?xs) \<or> half th \<le> card (others ?g j u)" if "(j, u) \<in> set ?g" for j u
  proof (cases "j = i")
    case True
    with that late have "u \<le> t" by auto
    with True d0 show ?thesis by (auto simp: set_set_pair)
  next
    case False
    with that have "(j, u) \<in> set g" by simp
    with last0 consider v where "u \<le> v" "(j, v) \<in> set (th_stamps th)" | "half th \<le> card (others g j u)" by blast
    then show ?thesis
    proof cases
      case 1 with False d0 show ?thesis by (auto simp: set_set_pair)
    next
      case 2 then show ?thesis
        using card_mono [OF finite_others others_mono [of g ?g u u j]] by fastforce
    qed
  qed
  show ?thesis
  proof (cases "th_maxEntries th < length ?xs")
    case False
    then show ?thesis using d sub last by (auto simp: throttle_inv_def grant_def half_def)
  next
    case True
    have "length ?xs - length ?xs div 2 \<le> max 1 (th_maxEntries th)"
      using length_set_pair [of i t "th_stamps th"] len0 by linarith
    moreover have "(\<exists>v \<ge> u. (j, v) \<in> set (evict_half ?xs)) \<or> half th \<le> card (others ?g j u)" if "(j, u) \<in> set ?g" for j u
      using last [OF that]
    proof
      assume "\<exists>v \<ge> u. (j, v) \<in> set ?xs"
      then obtain v where v: "u \<le> v" "(j, v) \<in> set ?xs" by blast
      then have "(j, v) \<in> set (evict_half ?xs) \<or> half th \<le> card (others ?g j v)"
        using evict_leaves_half [OF d True sub] by blast
      then show ?thesis
        using v card_mono [OF finite_others others_mono [OF order_refl, of u v ?g j]] by (meson order_trans)
    qed simp
    moreover have "set (evict_half ?xs) \<subseteq> set ?g" using sub by (auto simp: evict_half_def Let_def)
    ultimately show ?thesis
      using True evict_half_props [OF d] by (auto simp: throttle_inv_def grant_def half_def)
  qed
qed

section \<open>Runs\<close>

definition spaced :: "throttle \<Rightarrow> (ident \<times> millis) list \<Rightarrow> bool" where
  "spaced th g \<longleftrightarrow> (\<forall>j < length g. \<forall>i < j. fst (g ! i) = fst (g ! j) \<longrightarrow>
     th_windowMs th \<le> snd (g ! j) - snd (g ! i) \<or> half th \<le> card (others (take j g) (fst (g ! i)) (snd (g ! i))))"

lemma grant_limits [simp]: "th_windowMs (grant i t th) = th_windowMs th" "half (grant i t th) = half th"
  by (simp_all add: grant_def half_def Let_def)

lemma spaced_snoc:
  assumes "spaced th g" and inv: "throttle_inv g th" and "shouldWrite i t th = (True, th')"
  shows "spaced th (g @ [(i, t)])"
proof -
  have new: "th_windowMs th \<le> t - u \<or> half th \<le> card (others g i u)" if u: "(i, u) \<in> set g" for u
  proof -
    from inv u consider v where "u \<le> v" "(i, v) \<in> set (th_stamps th)" | "half th \<le> card (others g i u)"
      unfolding throttle_inv_def by blast
    then show ?thesis
    proof cases
      case 1
      with inv have "map_of (th_stamps th) i = Some v" by (simp add: throttle_inv_def map_of_is_SomeI)
      with 1 assms(3) show ?thesis by (auto simp: shouldWrite_def split: if_splits)
    qed simp
  qed
  have "(i, snd (g ! k)) \<in> set g" if "k < length g" "fst (g ! k) = i" for k
    using that by (metis nth_mem prod.collapse)
  then show ?thesis
    using assms(1) new by (auto simp: spaced_def nth_append less_Suc_eq)
qed

lemma throttle_run_inv:
  assumes "throttle_inv g th" and "spaced th g" and "sorted (map snd calls)" and "\<forall>(k, u) \<in> set g. \<forall>c \<in> set calls. u \<le> snd c"
    and "throttle_run calls th = (granted, th')"
  shows "throttle_inv (g @ granted) th' \<and> spaced th (g @ granted) \<and> half th' = half th \<and> th_maxEntries th' = th_maxEntries th"
  using assms
proof (induction calls th arbitrary: g granted th' rule: throttle_run.induct)
  case (2 i t calls th)
  obtain b th1 where sw: "shouldWrite i t th = (b, th1)" by fastforce
  obtain g1 where run: "throttle_run calls th1 = (g1, th')" "granted = (if b then (i, t) # g1 else g1)"
    using "2.prems"(5) sw by (auto split: prod.splits)
  show ?case
  proof (cases b)
    case True
    then have th1: "th1 = grant i t th" using sw by (auto simp: shouldWrite_def split: option.splits if_splits)
    have "\<forall>(k, u) \<in> set g. u \<le> t" using "2.prems"(4) by auto
    then have "throttle_inv (g @ [(i, t)]) th1" unfolding th1 by (rule grant_inv [OF "2.prems"(1)])
    moreover have "spaced th1 (g @ [(i, t)])"
      using spaced_snoc [OF "2.prems"(2,1)] sw True th1 by (simp add: spaced_def)
    ultimately have "throttle_inv ((g @ [(i, t)]) @ g1) th' \<and> spaced th1 ((g @ [(i, t)]) @ g1) \<and> half th' = half th1 \<and>
        th_maxEntries th' = th_maxEntries th1"
      using "2.IH" [OF sw [symmetric], of "g @ [(i, t)]" g1 th'] "2.prems"(3,4) run(1) by auto
    then show ?thesis using run(2) True th1 by (simp add: spaced_def) (simp add: grant_def Let_def)
  next
    case False
    then have "th1 = th" using sw by (auto simp: shouldWrite_def split: option.splits if_splits)
    then show ?thesis using "2.IH" [OF sw [symmetric], of g g1 th'] "2.prems" run False by auto
  qed
qed simp

text \<open>C32: two writes granted to one id are a window apart, unless in between at least half a table of other ids was
  granted a write; and the table never holds more than its maximum (one entry when that is zero).\<close>

theorem throttle_spaces_writes:
  assumes "throttle_run calls (createThrottle windowMs maxEntries) = (granted, th)" and "sorted (map snd calls)"
  shows "length (th_stamps th) \<le> max 1 (nullish maxEntries 10000) \<and>
     (\<forall>j < length granted. \<forall>i < j. fst (granted ! i) = fst (granted ! j) \<longrightarrow>
        nullish windowMs 60000 \<le> snd (granted ! j) - snd (granted ! i) \<or>
        (nullish maxEntries 10000 + 1) div 2 \<le>
          card {k. k \<noteq> fst (granted ! i) \<and> (\<exists>u. (k, u) \<in> set (take j granted) \<and> snd (granted ! i) \<le> u)})"
proof -
  let ?th = "createThrottle windowMs maxEntries"
  have "throttle_inv [] ?th" "spaced ?th []" by (simp_all add: throttle_inv_def spaced_def createThrottle_def)
  from throttle_run_inv [OF this assms(2) _ assms(1)]
  have "throttle_inv granted th" "spaced ?th granted" "th_maxEntries th = th_maxEntries ?th" by simp_all
  then show ?thesis
    by (simp add: throttle_inv_def spaced_def createThrottle_def half_def others_def)
qed

theorem throttle_spaces_writes_witness:
  "length (th_stamps (snd (throttle_run [(''a'', 0), (''b'', 5), (''a'', 8), (''c'', 9), (''a'', 11)] (createThrottle (Some 10) (Some 2))))) \<le> 2 \<and>
   fst (throttle_run [(''a'', 0), (''b'', 5), (''a'', 8), (''c'', 9), (''a'', 11)] (createThrottle (Some 10) (Some 2))) =
     [(''a'', 0), (''b'', 5), (''c'', 9), (''a'', 11)]"
  using throttle_spaces_writes [of "[(''a'', 0), (''b'', 5), (''a'', 8), (''c'', 9), (''a'', 11)]" "Some 10" "Some 2", OF prod.collapse [symmetric]]
  by (simp add: createThrottle_def shouldWrite_def grant_def evict_half_def)

end
