(* ===== verification/Readonly_Fields.thy ===== *)
theory Readonly_Fields
  imports Prelude
begin

text \<open>
  \<open>src/lib/errors.ts\<close> and \<open>src/lib/readonly-fields.ts\<close>: the error codes of the interface with their status codes, and
  the fields of each model that an update must not name. A request body is given by its keys, in order.
\<close>

section \<open>Error codes\<close>

datatype error_code =
    ValidationError | ReadonlyField | Unauthorized | ForbiddenScope | ForbiddenRole | NotFound | Conflict
  | IdempotencyKeyReused | RateLimited | ServiceUnavailable | InternalError

fun statusForCode :: "error_code \<Rightarrow> nat" where
  "statusForCode ValidationError = 400"
| "statusForCode ReadonlyField = 422"
| "statusForCode Unauthorized = 401"
| "statusForCode ForbiddenScope = 403"
| "statusForCode ForbiddenRole = 403"
| "statusForCode NotFound = 404"
| "statusForCode Conflict = 409"
| "statusForCode IdempotencyKeyReused = 409"
| "statusForCode RateLimited = 429"
| "statusForCode ServiceUnavailable = 503"
| "statusForCode InternalError = 500"

definition codeForStatus :: "nat \<Rightarrow> error_code" where
  "codeForStatus status =
     (if status = 400 then ValidationError
      else if status = 401 then Unauthorized
      else if status = 403 then ForbiddenScope
      else if status = 404 then NotFound
      else if status = 409 then Conflict
      else if status = 429 then RateLimited
      else if status = 503 then ServiceUnavailable
      else if 500 \<le> status then InternalError
      else if 400 \<le> status then ValidationError
      else InternalError)"

record api_error =
  ae_code :: error_code
  ae_message :: string
  ae_statusCode :: nat
  ae_field :: "string option"
  ae_hint :: "string option"

definition ApiError :: "error_code \<Rightarrow> string \<Rightarrow> api_error" where
  "ApiError code message =
     \<lparr>ae_code = code, ae_message = message, ae_statusCode = statusForCode code, ae_field = None, ae_hint = None\<rparr>"

section \<open>Read-only fields\<close>

datatype readonly_model =
    ServiceModel | ServiceDeploymentModel | ServerModel | ConfigFileModel | ConfigFragmentModel
  | ContainerImageModel | DatabaseModel | RegistryModel | SecretModel | VarModel
  | UserModel

text \<open>The key of a model in the registry.\<close>

fun model_name :: "readonly_model \<Rightarrow> string" where
  "model_name ServiceModel = ''service''"
| "model_name ServiceDeploymentModel = ''serviceDeployment''"
| "model_name ServerModel = ''server''"
| "model_name ConfigFileModel = ''configFile''"
| "model_name ConfigFragmentModel = ''configFragment''"
| "model_name ContainerImageModel = ''containerImage''"
| "model_name DatabaseModel = ''database''"
| "model_name RegistryModel = ''registry''"
| "model_name SecretModel = ''secret''"
| "model_name VarModel = ''var''"
| "model_name UserModel = ''user''"

fun READONLY_FIELDS_BY_MODEL :: "readonly_model \<Rightarrow> string list" where
  "READONLY_FIELDS_BY_MODEL ServiceModel =
     [''id'', ''createdAt'', ''updatedAt'', ''environmentId'', ''status'', ''containerStatus'', ''healthStatus'',
      ''discoveryStatus'', ''exposedPorts'', ''lastCheckedAt'', ''lastDiscoveredAt'', ''lastDeployedAt'',
      ''lastHealthCheckAt'', ''lastHealthCheckStatus'', ''lastHealthCheckType'', ''lastHealthCheckDurationMs'',
      ''lastHealthCheckError'', ''agentHealthSuccess'', ''agentHealthStatusCode'', ''agentHealthDurationMs'',
      ''agentHealthCheckedAt'', ''agentTcpCheckResults'', ''agentTcpCheckedAt'', ''agentCertCheckResults'',
      ''agentCertCheckedAt'', ''envOverrides'', ''imageDigestId'']"
| "READONLY_FIELDS_BY_MODEL ServiceDeploymentModel =
     [''id'', ''createdAt'', ''updatedAt'', ''serviceId'', ''serverId'', ''status'', ''containerStatus'',
      ''healthStatus'', ''discoveryStatus'', ''exposedPorts'', ''lastCheckedAt'', ''lastDiscoveredAt'',
      ''lastDeployedAt'', ''lastHealthCheckAt'', ''lastHealthCheckStatus'', ''lastHealthCheckType'',
      ''lastHealthCheckDurationMs'', ''lastHealthCheckError'', ''imageDigestId'', ''agentHealthSuccess'',
      ''agentHealthStatusCode'', ''agentHealthDurationMs'', ''agentHealthCheckedAt'', ''agentTcpCheckResults'',
      ''agentTcpCheckedAt'', ''agentCertCheckResults'', ''agentCertCheckedAt'']"
| "READONLY_FIELDS_BY_MODEL ServerModel =
     [''id'', ''createdAt'', ''updatedAt'', ''environmentId'', ''status'', ''serverType'', ''agentToken'',
      ''agentStatus'', ''agentVersion'', ''agentStatusChangedAt'', ''lastAgentPushAt'', ''lastCheckedAt'',
      ''lastHealthCheckAt'', ''lastHealthCheckStatus'', ''lastHealthCheckType'', ''lastHealthCheckDurationMs'',
      ''lastHealthCheckError'', ''metricsMode'']"
| "READONLY_FIELDS_BY_MODEL ConfigFileModel =
     [''id'', ''createdAt'', ''updatedAt'', ''environmentId'']"
| "READONLY_FIELDS_BY_MODEL ConfigFragmentModel =
     [''id'', ''createdAt'', ''updatedAt'', ''environmentId'']"
| "READONLY_FIELDS_BY_MODEL ContainerImageModel =
     [''id'', ''createdAt'', ''updatedAt'', ''environmentId'', ''lastCheckedAt'', ''updateAvailable'',
      ''deployedDigestId'']"
| "READONLY_FIELDS_BY_MODEL DatabaseModel =
     [''id'', ''createdAt'', ''updatedAt'', ''environmentId'', ''encryptedCredentials'', ''credentialsNonce'',
      ''monitoringStatus'', ''lastCollectedAt'', ''lastMonitoringError'']"
| "READONLY_FIELDS_BY_MODEL RegistryModel =
     [''id'', ''createdAt'', ''updatedAt'', ''environmentId'', ''encryptedToken'', ''tokenNonce'',
      ''encryptedPassword'', ''passwordNonce'', ''lastRefreshAt'']"
| "READONLY_FIELDS_BY_MODEL SecretModel =
     [''id'', ''createdAt'', ''updatedAt'', ''environmentId'', ''key'', ''encryptedValue'', ''nonce'']"
| "READONLY_FIELDS_BY_MODEL VarModel =
     [''id'', ''createdAt'', ''updatedAt'', ''environmentId'', ''key'']"
| "READONLY_FIELDS_BY_MODEL UserModel =
     [''id'', ''createdAt'', ''updatedAt'', ''email'', ''passwordHash'', ''lastActiveAt'']"

text \<open>U+2014, as bytes of UTF-8.\<close>

definition em_dash :: string where
  "em_dash = [CHR 0xE2, CHR 0x80, CHR 0x94]"

definition HINTS_BY_FIELD :: "(string \<times> string) list" where
  "HINTS_BY_FIELD =
     [(''service.exposedPorts'', ''Exposed ports are discovered from the running container. Change the ports mapping in the compose file at composePath and redeploy.''),
      (''service.status'', ''Service status is derived from container + URL health checks. Trigger a health check via POST /api/services/:id/deployments/:depId/health to refresh.''),
      (''service.containerStatus'', ''Container status is derived from `docker inspect`. Trigger a health check or container discovery to refresh.''),
      (''service.discoveryStatus'', ''Discovery status flips automatically when the container is found/missing on a health check or scheduler scan.''),
      (''serviceDeployment.exposedPorts'', ''Exposed ports are discovered from the running container. Change the ports mapping in the compose file at composePath and redeploy.''),
      (''serviceDeployment.status'', ''Status is derived from container + URL health checks. Trigger a health check to refresh.''),
      (''serviceDeployment.containerStatus'', ''Container status is derived from `docker inspect`. Trigger a health check or container discovery to refresh.''),
      (''serviceDeployment.discoveryStatus'', ''Discovery status flips automatically when the container is found/missing on a health check or scheduler scan.''),
      (''server.status'', ''Server status is computed by `POST /api/servers/:id/health` and the scheduled health-check job.''),
      (''server.agentStatus'', ''Agent status is reported by the agent push pipeline; switch agent mode via PATCH /api/servers/:id/metrics-mode instead.''),
      (''server.metricsMode'', ''Use PATCH /api/servers/:id/metrics-mode '' @ em_dash @
        '' it deploys/removes the agent as part of the mode flip.''),
      (''containerImage.updateAvailable'', ''Set by the scheduled image-update check; cleared on successful deploy.''),
      (''containerImage.deployedDigestId'', ''Set when a deploy succeeds. Trigger a deploy to update.''),
      (''database.monitoringStatus'', ''Monitoring status is set by the monitoring collector; configure monitoring via PATCH /api/environments/:envId/databases/:id/monitoring.''),
      (''var.key'', ''Var keys cannot be changed after creation. Delete and recreate to change the key.''),
      (''var.environmentId'', ''Vars cannot be moved between environments. Delete and recreate in the target environment.''),
      (''user.email'', ''Email cannot be changed via this endpoint. Use the dedicated email-change flow.''),
      (''user.passwordHash'', ''Passwords must be changed via the password-reset / change-password flow, not the generic PATCH.''),
      (''user.lastActiveAt'', ''lastActiveAt is updated by the auth middleware on each authenticated request.'')]"

definition DEFAULT_HINT :: string where
  "DEFAULT_HINT = ''This field is derived/system-managed and cannot be set via PATCH. Remove it from the request body.''"

text \<open>\<open>Set.has\<close> on the keys of the body; the result is the thrown error, if any.\<close>

definition assertNoReadonlyFields :: "readonly_model \<Rightarrow> string list \<Rightarrow> api_error option" where
  "assertNoReadonlyFields model keys =
     (case filter (\<lambda>k. k \<in> set (READONLY_FIELDS_BY_MODEL model)) keys of
        [] \<Rightarrow> None
      | first # others \<Rightarrow>
          Some ((ApiError ReadonlyField
                  (if others = [] then ''Field '' @ quoted first @ '' is read-only and cannot be set via PATCH.''
                   else ''Fields '' @ join_with '', '' (map quoted (first # others)) @ '' are read-only and cannot be set via PATCH.''))
                \<lparr>ae_field := Some first,
                 ae_hint := Some (nullish (map_of HINTS_BY_FIELD (model_name model @ ''.'' @ first)) DEFAULT_HINT)\<rparr>))"

lemma readonly_rejected_iff: "assertNoReadonlyFields m keys = None \<longleftrightarrow> set keys \<inter> set (READONLY_FIELDS_BY_MODEL m) = {}"
proof -
  have "assertNoReadonlyFields m keys = None \<longleftrightarrow> filter (\<lambda>k. k \<in> set (READONLY_FIELDS_BY_MODEL m)) keys = []"
    by (simp add: assertNoReadonlyFields_def split: list.split)
  then show ?thesis by (auto simp: filter_empty_conv)
qed

lemma readonly_error:
  assumes "assertNoReadonlyFields m keys = Some e"
  shows "ae_statusCode e = 422 \<and> (\<exists>f \<in> set keys. ae_field e = Some f \<and> f \<in> set (READONLY_FIELDS_BY_MODEL m))"
proof (cases "filter (\<lambda>k. k \<in> set (READONLY_FIELDS_BY_MODEL m)) keys")
  case Nil
  with assms show ?thesis by (simp add: assertNoReadonlyFields_def)
next
  case (Cons f fs)
  then have "f \<in> set (filter (\<lambda>k. k \<in> set (READONLY_FIELDS_BY_MODEL m)) keys)" by simp
  then have "f \<in> set keys \<and> f \<in> set (READONLY_FIELDS_BY_MODEL m)" by simp
  with Cons assms show ?thesis by (auto simp: assertNoReadonlyFields_def ApiError_def)
qed

lemma status_of_code: "400 \<le> statusForCode c \<and> statusForCode c < 600"
  by (cases c) simp_all

end
