(* ===== verification/Access_Control.thy ===== *)
theory Access_Control
  imports Activity_Throttle Readonly_Fields
begin

text \<open>
  Who may call the interface: \<open>src/services/auth.ts\<close> (users, API tokens, passwords), \<open>src/plugins/authenticate.ts\<close> (the
  hook that turns a credential into a principal), \<open>src/plugins/authorize.ts\<close> (role checks) and \<open>src/lib/scopes.ts\<close>.
  The database holds users, service accounts, tokens and the ids of environments; primary keys, unique
  columns and foreign keys are checked as the database does. SHA-256, bcrypt, the JWT library, the random
  generator and the clock are parameters. The writes of \<open>lastActiveAt\<close> and \<open>lastUsedAt\<close> that run in the
  background are done at once.
\<close>

section \<open>Rows\<close>

datatype user_role = Admin | Operator | Viewer

record user_row =
  usr_id :: ident
  usr_email :: string
  usr_passwordHash :: string
  usr_name :: "string option"
  usr_role :: user_role
  usr_lastActiveAt :: "millis option"
  usr_createdAt :: millis

record account_row =
  sac_id :: ident
  sac_name :: string
  sac_description :: "string option"
  sac_role :: user_role
  sac_disabled :: bool
  sac_createdAt :: millis
  sac_createdByUserId :: "ident option"

text \<open>A token with its rows of \<open>ApiTokenEnvironment\<close>.\<close>

record token_row =
  tok_id :: ident
  tok_name :: string
  tok_tokenHash :: string
  tok_tokenPrefix :: "string option"
  tok_role :: user_role
  tok_allEnvironments :: bool
  tok_environments :: "ident list"
  tok_lastUsedAt :: "millis option"
  tok_expiresAt :: "millis option"
  tok_createdAt :: millis
  tok_userId :: "ident option"
  tok_serviceAccountId :: "ident option"

text \<open>Who acted, in an audit entry; and the messages sent to users.\<close>

record actor =
  ac_userId :: "ident option"
  ac_apiTokenId :: "ident option"
  ac_serviceAccountId :: "ident option"

datatype access_event =
    Audited string string ident actor
  | UserNotice string ident

record 'w access_db =
  ad_world :: 'w
  ad_users :: "user_row list"
  ad_accounts :: "account_row list"
  ad_tokens :: "token_row list"
  ad_environments :: "ident list"
  ad_activeUserWindowMin :: int
  ad_userThrottle :: throttle
  ad_tokenThrottle :: throttle
  ad_events :: "access_event list"

record 'w auth_host =
  ah_now :: "'w \<Rightarrow> millis"
  ah_newId :: "'w \<Rightarrow> ident \<times> 'w"
  ah_random :: "'w \<Rightarrow> string \<times> 'w"
  ah_sha256 :: "string \<Rightarrow> string"
  ah_bcryptHash :: "string \<Rightarrow> 'w \<Rightarrow> string \<times> 'w"
  ah_bcryptCompare :: "string \<Rightarrow> string \<Rightarrow> bool"
  ah_jwtVerify :: "string \<Rightarrow> 'w \<Rightarrow> ident option"
  ah_jwtSign :: "ident \<Rightarrow> string \<Rightarrow> 'w \<Rightarrow> string"
  ah_isEmail :: "string \<Rightarrow> bool"

section \<open>Principals and roles\<close>

record token_scope =
  ts_allEnvironments :: bool
  ts_environmentIds :: "ident list"

record auth_user =
  au_id :: ident
  au_email :: string
  au_name :: "string option"
  au_role :: user_role
  au_apiTokenId :: "ident option"
  au_serviceAccountId :: "ident option"
  au_scope :: "token_scope option"

definition session_user :: "user_row \<Rightarrow> auth_user" where
  "session_user u =
     \<lparr>au_id = usr_id u, au_email = usr_email u, au_name = usr_name u, au_role = usr_role u,
      au_apiTokenId = None, au_serviceAccountId = None, au_scope = None\<rparr>"

fun role_level :: "user_role \<Rightarrow> nat" where
  "role_level Admin = 3"
| "role_level Operator = 2"
| "role_level Viewer = 1"

definition hasMinimumRole :: "user_role \<Rightarrow> user_role \<Rightarrow> bool" where
  "hasMinimumRole userRole minimumRole \<longleftrightarrow> role_level minimumRole \<le> role_level userRole"

text \<open>The result of a check is the error it throws, if any.\<close>

definition requireAdmin :: "auth_user option \<Rightarrow> api_error option" where
  "requireAdmin authUser =
     (case authUser of
        None \<Rightarrow> Some (ApiError Unauthorized ''Unauthorized'')
      | Some u \<Rightarrow> if au_role u \<noteq> Admin then Some (ApiError ForbiddenRole ''Admin access required'') else None)"

definition requireOperator :: "auth_user option \<Rightarrow> api_error option" where
  "requireOperator authUser =
     (case authUser of
        None \<Rightarrow> Some (ApiError Unauthorized ''Unauthorized'')
      | Some u \<Rightarrow> if au_role u \<notin> {Admin, Operator} then Some (ApiError ForbiddenRole ''Operator or admin access required'') else None)"

definition requireAdminOrSelf :: "string \<Rightarrow> (string \<times> string) list \<Rightarrow> auth_user option \<Rightarrow> api_error option" where
  "requireAdminOrSelf paramName params authUser =
     (case authUser of
        None \<Rightarrow> Some (ApiError Unauthorized ''Unauthorized'')
      | Some u \<Rightarrow>
          if au_role u = Admin then None
          else if Some (au_id u) \<noteq> map_of params paramName then Some (ApiError ForbiddenRole ''Access denied'')
          else None)"

definition userIdForFk :: "auth_user \<Rightarrow> ident option" where
  "userIdForFk u = (if truthy (au_serviceAccountId u) then None else Some (au_id u))"

definition actorFrom :: "auth_user option \<Rightarrow> actor" where
  "actorFrom user =
     (case user of
        None \<Rightarrow> \<lparr>ac_userId = None, ac_apiTokenId = None, ac_serviceAccountId = None\<rparr>
      | Some u \<Rightarrow>
          if truthy (au_serviceAccountId u)
          then \<lparr>ac_userId = None, ac_apiTokenId = au_apiTokenId u, ac_serviceAccountId = au_serviceAccountId u\<rparr>
          else \<lparr>ac_userId = Some (au_id u), ac_apiTokenId = au_apiTokenId u, ac_serviceAccountId = None\<rparr>)"

section \<open>Scopes\<close>

definition scope_resources :: "string list" where
  "scope_resources = [''services'', ''secrets'', ''servers'', ''environments'']"

definition scopesForRole :: "user_role \<Rightarrow> string list" where
  "scopesForRole role =
     (if role \<in> {Admin, Operator, Viewer} then map (\<lambda>r. r @ '':read'') scope_resources else [])
   @ (if role \<in> {Admin, Operator} then map (\<lambda>r. r @ '':write'') scope_resources else [])
   @ (if role = Admin then [''secrets:reveal'', ''tokens:manage'', ''admin:*''] else [])"

definition computeScopes :: "auth_user \<Rightarrow> string list" where
  "computeScopes authUser = scopesForRole (au_role authUser)"

section \<open>Users and passwords\<close>

definition user_by :: "('w, 'z) access_db_scheme \<Rightarrow> ident \<Rightarrow> user_row option" where
  "user_by s i = List.find (\<lambda>u. usr_id u = i) (ad_users s)"

definition account_by :: "('w, 'z) access_db_scheme \<Rightarrow> ident \<Rightarrow> account_row option" where
  "account_by s i = List.find (\<lambda>a. sac_id a = i) (ad_accounts s)"

definition set_user :: "ident \<Rightarrow> (user_row \<Rightarrow> user_row) \<Rightarrow> ('w, 'z) access_db_scheme \<Rightarrow> ('w, 'z) access_db_scheme" where
  "set_user i f s = s\<lparr>ad_users := update_row usr_id i f (ad_users s)\<rparr>"

definition set_token :: "ident \<Rightarrow> (token_row \<Rightarrow> token_row) \<Rightarrow> ('w, 'z) access_db_scheme \<Rightarrow> ('w, 'z) access_db_scheme" where
  "set_token i f s = s\<lparr>ad_tokens := update_row tok_id i f (ad_tokens s)\<rparr>"

text \<open>\<open>prisma.user.create\<close>: primary key and e-mail are unique.\<close>

definition insert_user :: "'w auth_host \<Rightarrow> string \<Rightarrow> string \<Rightarrow> string option \<Rightarrow> user_role
    \<Rightarrow> ('w, 'z) access_db_scheme \<Rightarrow> (string + user_row) \<times> ('w, 'z) access_db_scheme" where
  "insert_user ah email passwordHash name role s =
     (case ah_newId ah (ad_world s) of
        (i, w) \<Rightarrow>
          let s' = s\<lparr>ad_world := w\<rparr>;
              u = \<lparr>usr_id = i, usr_email = email, usr_passwordHash = passwordHash, usr_name = name, usr_role = role,
                   usr_lastActiveAt = None, usr_createdAt = ah_now ah w\<rparr>
          in if i \<in> usr_id ` set (ad_users s) \<or> email \<in> usr_email ` set (ad_users s)
             then (Inl ''Unique constraint failed'', s')
             else (Inr u, s'\<lparr>ad_users := ad_users s @ [u]\<rparr>))"

definition bcrypt_hash :: "'w auth_host \<Rightarrow> string \<Rightarrow> ('w, 'z) access_db_scheme \<Rightarrow> string \<times> ('w, 'z) access_db_scheme" where
  "bcrypt_hash ah password s = (case ah_bcryptHash ah password (ad_world s) of (h, w) \<Rightarrow> (h, s\<lparr>ad_world := w\<rparr>))"

definition createUser :: "'w auth_host \<Rightarrow> string \<Rightarrow> string \<Rightarrow> string option \<Rightarrow> user_role
    \<Rightarrow> ('w, 'z) access_db_scheme \<Rightarrow> (string + auth_user) \<times> ('w, 'z) access_db_scheme" where
  "createUser ah email password name role s =
     (case bcrypt_hash ah password s of
        (h, s1) \<Rightarrow> (case insert_user ah email h name role s1 of (r, s2) \<Rightarrow> (map_sum id session_user r, s2)))"

definition validatePassword :: "'w auth_host \<Rightarrow> string \<Rightarrow> string \<Rightarrow> ('w, 'z) access_db_scheme \<Rightarrow> auth_user option" where
  "validatePassword ah email password s =
     (case List.find (\<lambda>u. usr_email u = email) (ad_users s) of
        None \<Rightarrow> None
      | Some u \<Rightarrow> if \<not> ah_bcryptCompare ah password (usr_passwordHash u) then None else Some (session_user u))"

definition getUserById :: "ident \<Rightarrow> ('w, 'z) access_db_scheme \<Rightarrow> auth_user option" where
  "getUserById i s = map_option session_user (user_by s i)"

definition bootstrapAdminUser :: "'w auth_host \<Rightarrow> string option \<Rightarrow> string option \<Rightarrow> ('w, 'z) access_db_scheme
    \<Rightarrow> (string + unit) \<times> ('w, 'z) access_db_scheme" where
  "bootstrapAdminUser ah email password s =
     (if \<not> truthy email \<or> \<not> truthy password then (Inr (), s)
      else if ad_users s \<noteq> [] then (Inr (), s)
      else case createUser ah (the email) (the password) (Some ''Admin'') Admin s of (r, s') \<Rightarrow> (map_sum id (\<lambda>_. ()) r, s'))"

section \<open>API tokens\<close>

definition API_TOKEN_PREFIX :: string where
  "API_TOKEN_PREFIX = ''bport_pat_''"

definition generateApiToken :: "'w auth_host \<Rightarrow> ('w, 'z) access_db_scheme \<Rightarrow> (string \<times> string) \<times> ('w, 'z) access_db_scheme" where
  "generateApiToken ah s =
     (case ah_random ah (ad_world s) of
        (r, w) \<Rightarrow> (let token = API_TOKEN_PREFIX @ r in ((token, take (length API_TOKEN_PREFIX + 4) token), s\<lparr>ad_world := w\<rparr>)))"

definition hashToken :: "'w auth_host \<Rightarrow> string \<Rightarrow> string" where
  "hashToken ah token = ah_sha256 ah token"

record token_input =
  ti_name :: string
  ti_ownerUserId :: "ident option"
  ti_ownerServiceAccountId :: "ident option"
  ti_role :: user_role
  ti_allEnvironments :: bool
  ti_environmentIds :: "ident list option"
  ti_expiresAt :: "millis option"

definition resolveOwnerRole :: "ident option \<Rightarrow> ident option \<Rightarrow> ('w, 'z) access_db_scheme \<Rightarrow> user_role option" where
  "resolveOwnerRole ownerUserId ownerServiceAccountId s =
     (if truthy ownerUserId then map_option usr_role (user_by s (the ownerUserId))
      else if truthy ownerServiceAccountId then
        (case account_by s (the ownerServiceAccountId) of
           None \<Rightarrow> None
         | Some sa \<Rightarrow> if sac_disabled sa then None else Some (sac_role sa))
      else None)"

fun role_text :: "user_role \<Rightarrow> string" where
  "role_text Admin = ''admin''"
| "role_text Operator = ''operator''"
| "role_text Viewer = ''viewer''"

text \<open>\<open>prisma.apiToken.create\<close> with its environment rows: unique id and hash, existing owners and environments, no
  environment twice.\<close>

definition insert_token :: "'w auth_host \<Rightarrow> (ident \<Rightarrow> millis \<Rightarrow> token_row) \<Rightarrow> ('w, 'z) access_db_scheme
    \<Rightarrow> (string + token_row) \<times> ('w, 'z) access_db_scheme" where
  "insert_token ah mk s =
     (case ah_newId ah (ad_world s) of
        (i, w) \<Rightarrow>
          let s' = s\<lparr>ad_world := w\<rparr>; t = mk i (ah_now ah w)
          in if i \<in> tok_id ` set (ad_tokens s) \<or> tok_tokenHash t \<in> tok_tokenHash ` set (ad_tokens s)
                \<or> \<not> distinct (tok_environments t)
             then (Inl ''Unique constraint failed'', s')
             else if (case tok_userId t of None \<Rightarrow> False | Some u \<Rightarrow> u \<notin> usr_id ` set (ad_users s))
                \<or> (case tok_serviceAccountId t of None \<Rightarrow> False | Some a \<Rightarrow> a \<notin> sac_id ` set (ad_accounts s))
                \<or> \<not> set (tok_environments t) \<subseteq> set (ad_environments s)
             then (Inl ''Foreign key constraint violated'', s')
             else (Inr t, s'\<lparr>ad_tokens := ad_tokens s @ [t]\<rparr>))"

definition createApiToken :: "'w auth_host \<Rightarrow> token_input \<Rightarrow> ('w, 'z) access_db_scheme
    \<Rightarrow> (string + (string \<times> token_row)) \<times> ('w, 'z) access_db_scheme" where
  "createApiToken ah input s =
     (if \<not> truthy (ti_ownerUserId input) \<and> \<not> truthy (ti_ownerServiceAccountId input)
      then (Inl ''Token must have an owner (user or service account)'', s)
      else if truthy (ti_ownerUserId input) \<and> truthy (ti_ownerServiceAccountId input)
      then (Inl ''Token cannot have both a user and a service account owner'', s)
      else case resolveOwnerRole (ti_ownerUserId input) (ti_ownerServiceAccountId input) s of
        None \<Rightarrow> (Inl ''Owner not found or disabled'', s)
      | Some ownerRole \<Rightarrow>
          if \<not> hasMinimumRole ownerRole (ti_role input)
          then (Inl (''Token role ('' @ role_text (ti_role input) @ '') exceeds owner role ('' @ role_text ownerRole @ '')''), s)
          else
            let envIds = (if ti_allEnvironments input then [] else nullish (ti_environmentIds input) [])
            in if \<not> ti_allEnvironments input \<and> envIds = []
               then (Inl ''Specific-environments scope requires at least one environment ID'', s)
               else case generateApiToken ah s of
                 ((token, displayPrefix), s1) \<Rightarrow>
                   (case insert_token ah (\<lambda>i t. \<lparr>tok_id = i, tok_name = ti_name input, tok_tokenHash = hashToken ah token,
                        tok_tokenPrefix = Some displayPrefix, tok_role = ti_role input,
                        tok_allEnvironments = ti_allEnvironments input, tok_environments = envIds, tok_lastUsedAt = None,
                        tok_expiresAt = ti_expiresAt input, tok_createdAt = t, tok_userId = ti_ownerUserId input,
                        tok_serviceAccountId = ti_ownerServiceAccountId input\<rparr>) s1 of
                      (r, s2) \<Rightarrow> (map_sum id (\<lambda>tokenRecord. (token, tokenRecord)) r, s2)))"

definition touch_token :: "'w auth_host \<Rightarrow> ident \<Rightarrow> ('w, 'z) access_db_scheme \<Rightarrow> ('w, 'z) access_db_scheme" where
  "touch_token ah i s =
     (case shouldWrite i (ah_now ah (ad_world s)) (ad_tokenThrottle s) of
        (b, th) \<Rightarrow>
          let s' = s\<lparr>ad_tokenThrottle := th\<rparr>
          in if b then set_token i (\<lambda>t. t\<lparr>tok_lastUsedAt := Some (ah_now ah (ad_world s))\<rparr>) s' else s')"

text \<open>The principal of a token with its owner; the user comes first.\<close>

definition token_principal :: "token_row \<Rightarrow> user_row option \<Rightarrow> account_row option \<Rightarrow> user_role \<Rightarrow> auth_user" where
  "token_principal t user account role =
     (let scope = \<lparr>ts_allEnvironments = tok_allEnvironments t, ts_environmentIds = tok_environments t\<rparr> in
      case user of
        Some u \<Rightarrow> \<lparr>au_id = usr_id u, au_email = usr_email u, au_name = usr_name u, au_role = role,
                   au_apiTokenId = Some (tok_id t), au_serviceAccountId = None, au_scope = Some scope\<rparr>
      | None \<Rightarrow>
          (let a = the account in
           \<lparr>au_id = ''sa:'' @ sac_id a, au_email = sac_name a @ ''@service-account.local'', au_name = Some (sac_name a),
            au_role = role, au_apiTokenId = Some (tok_id t), au_serviceAccountId = Some (sac_id a), au_scope = Some scope\<rparr>))"

definition validateApiToken :: "'w auth_host \<Rightarrow> string \<Rightarrow> ('w, 'z) access_db_scheme \<Rightarrow> auth_user option \<times> ('w, 'z) access_db_scheme" where
  "validateApiToken ah token s =
     (case List.find (\<lambda>t. tok_tokenHash t = hashToken ah token) (ad_tokens s) of
        None \<Rightarrow> (None, s)
      | Some t \<Rightarrow>
          let user = Option.bind (tok_userId t) (user_by s);
              account = Option.bind (tok_serviceAccountId t) (account_by s)
          in if (case tok_expiresAt t of None \<Rightarrow> False | Some e \<Rightarrow> e < ah_now ah (ad_world s)) then (None, s)
             else if (case account of None \<Rightarrow> False | Some a \<Rightarrow> sac_disabled a) then (None, s)
             else case (case user of Some u \<Rightarrow> Some (usr_role u) | None \<Rightarrow> map_option sac_role account) of
               None \<Rightarrow> (None, s)
             | Some ownerRole \<Rightarrow>
                 let effectiveRole = (if hasMinimumRole ownerRole (tok_role t) then tok_role t else ownerRole)
                 in (Some (token_principal t user account effectiveRole), touch_token ah (tok_id t) s))"

definition listApiTokens :: "ident option \<Rightarrow> ident option \<Rightarrow> ('w, 'z) access_db_scheme \<Rightarrow> token_row list" where
  "listApiTokens userId serviceAccountId s =
     sort_key (\<lambda>t. - tok_createdAt t)
       (filter (\<lambda>t. (userId = None \<or> tok_userId t = userId) \<and> (serviceAccountId = None \<or> tok_serviceAccountId t = serviceAccountId))
         (ad_tokens s))"

definition deleteApiToken :: "ident \<Rightarrow> ('w, 'z) access_db_scheme \<Rightarrow> bool \<times> ('w, 'z) access_db_scheme" where
  "deleteApiToken tokenId s =
     (tokenId \<in> tok_id ` set (ad_tokens s), s\<lparr>ad_tokens := filter (\<lambda>t. tok_id t \<noteq> tokenId) (ad_tokens s)\<rparr>)"

section \<open>The authentication hook\<close>

record http_request =
  hr_method :: string
  hr_route :: "string option"
  hr_url :: string
  hr_params :: "(string \<times> string) list"
  hr_authorization :: "string option"

definition routePattern :: "http_request \<Rightarrow> string" where
  "routePattern r = nullish (hr_route r) (hr_url r)"

definition route_key :: "http_request \<Rightarrow> string" where
  "route_key r = js_upper (hr_method r) @ '' '' @ routePattern r"

definition SCOPE_EXEMPT_ROUTES :: "string list" where
  "SCOPE_EXEMPT_ROUTES = [''GET /api/auth/me'', ''GET /api/environments'', ''POST /mcp'', ''GET /mcp'', ''DELETE /mcp'']"

definition VIEWER_ALLOWED_MUTATIONS :: "string list" where
  "VIEWER_ALLOWED_MUTATIONS =
     [''POST /api/notifications/:id/read'', ''POST /api/notifications/read-all'', ''PUT /api/notifications/preferences/:typeId'',
      ''PATCH /api/users/:id'', ''POST /api/users/:id/change-password'', ''POST /api/databases/:id/backup-policy/preview'',
      ''POST /mcp'', ''DELETE /mcp'']"

definition READONLY_METHODS :: "string list" where
  "READONLY_METHODS = [''GET'', ''HEAD'', ''OPTIONS'']"

definition extractEnvIdFromPath :: "string \<Rightarrow> (string \<times> string) list \<Rightarrow> ident option" where
  "extractEnvIdFromPath pattern params =
     (if take (length ''/api/environments/'') pattern \<noteq> ''/api/environments/'' then None
      else case map_of params ''envId'' of Some i \<Rightarrow> Some i | None \<Rightarrow> map_of params ''id'')"

definition enforceTokenScope :: "auth_user \<Rightarrow> http_request \<Rightarrow> api_error option" where
  "enforceTokenScope user r =
     (case au_scope user of
        None \<Rightarrow> None
      | Some scope \<Rightarrow>
          if ts_allEnvironments scope then None
          else if route_key r \<in> set SCOPE_EXEMPT_ROUTES then None
          else let envId = extractEnvIdFromPath (routePattern r) (hr_params r) in
            if truthy envId then
              (if the envId \<in> set (ts_environmentIds scope) then None
               else Some (ApiError ForbiddenScope ''Token is not scoped to this environment''))
            else Some (ApiError ForbiddenScope ''Token is scoped to specific environments and cannot access global resources''))"

definition enforceRoleForMethod :: "auth_user \<Rightarrow> http_request \<Rightarrow> api_error option" where
  "enforceRoleForMethod user r =
     (if js_upper (hr_method r) \<in> set READONLY_METHODS then None
      else if au_role user = Admin \<or> au_role user = Operator then None
      else if route_key r \<in> set VIEWER_ALLOWED_MUTATIONS then None
      else Some (ApiError ForbiddenRole ''This action requires operator or admin role''))"

definition touch_user :: "'w auth_host \<Rightarrow> ident \<Rightarrow> ('w, 'z) access_db_scheme \<Rightarrow> ('w, 'z) access_db_scheme" where
  "touch_user ah i s =
     (case shouldWrite i (ah_now ah (ad_world s)) (ad_userThrottle s) of
        (b, th) \<Rightarrow>
          let s' = s\<lparr>ad_userThrottle := th\<rparr>
          in if b then set_user i (\<lambda>u. u\<lparr>usr_lastActiveAt := Some (ah_now ah (ad_world s))\<rparr>) s' else s')"

definition authenticate_session :: "'w auth_host \<Rightarrow> string \<Rightarrow> http_request \<Rightarrow> ('w, 'z) access_db_scheme
    \<Rightarrow> (api_error + auth_user) \<times> ('w, 'z) access_db_scheme" where
  "authenticate_session ah token r s =
     (let payload = ah_jwtVerify ah token (ad_world s) in
      if \<not> truthy payload then (Inl (ApiError Unauthorized ''Unauthorized''), s)
      else case getUserById (the payload) s of
        None \<Rightarrow> (Inl (ApiError Unauthorized ''Unauthorized''), s)
      | Some fullUser \<Rightarrow>
          (case enforceRoleForMethod fullUser r of
             Some e \<Rightarrow> (Inl e, s)
           | None \<Rightarrow> (Inr fullUser, touch_user ah (au_id fullUser) s)))"

definition authenticate :: "'w auth_host \<Rightarrow> http_request \<Rightarrow> ('w, 'z) access_db_scheme
    \<Rightarrow> (api_error + auth_user) \<times> ('w, 'z) access_db_scheme" where
  "authenticate ah r s =
     (let header = nullish (hr_authorization r) '''' in
      if take (length ''Bearer '') header \<noteq> ''Bearer '' then (Inl (ApiError Unauthorized ''Unauthorized''), s)
      else let token = drop 7 header in
        case validateApiToken ah token s of
          (Some user, s') \<Rightarrow>
            (case enforceTokenScope user r of
               Some e \<Rightarrow> (Inl e, s')
             | None \<Rightarrow> (case enforceRoleForMethod user r of Some e \<Rightarrow> (Inl e, s') | None \<Rightarrow> (Inr user, s')))
        | (None, s') \<Rightarrow> authenticate_session ah token r s')"

section \<open>What a principal stands on\<close>

definition credential_of :: "http_request \<Rightarrow> string" where
  "credential_of r = drop 7 (nullish (hr_authorization r) '''')"

text \<open>A token that is in force: not expired, its owner present and not disabled; and the role of the owner.\<close>

definition owner_role :: "('w, 'z) access_db_scheme \<Rightarrow> token_row \<Rightarrow> user_role option" where
  "owner_role s t =
     (case Option.bind (tok_userId t) (user_by s) of
        Some u \<Rightarrow> Some (usr_role u)
      | None \<Rightarrow> map_option sac_role (Option.bind (tok_serviceAccountId t) (account_by s)))"

definition in_force :: "millis \<Rightarrow> ('w, 'z) access_db_scheme \<Rightarrow> token_row \<Rightarrow> bool" where
  "in_force t s k \<longleftrightarrow>
     (\<forall>e. tok_expiresAt k = Some e \<longrightarrow> t \<le> e) \<and> owner_role s k \<noteq> None \<and>
     (\<forall>a. Option.bind (tok_serviceAccountId k) (account_by s) = Some a \<longrightarrow> \<not> sac_disabled a)"

text \<open>The part of the database that decides who may do what.\<close>

definition user_access :: "user_row \<Rightarrow> ident \<times> string \<times> string \<times> user_role" where
  "user_access u = (usr_id u, usr_email u, usr_passwordHash u, usr_role u)"

definition token_access :: "token_row \<Rightarrow> token_row" where
  "token_access t = t\<lparr>tok_lastUsedAt := None\<rparr>"

definition access_of :: "('w, 'z) access_db_scheme
    \<Rightarrow> (ident \<times> string \<times> string \<times> user_role) list \<times> (ident \<times> user_role \<times> bool) list \<times> token_row list" where
  "access_of s = (map user_access (ad_users s), map (\<lambda>a. (sac_id a, sac_role a, sac_disabled a)) (ad_accounts s),
                  map token_access (ad_tokens s))"

lemma touch_token_access [simp]:
  "access_of (touch_token ah i s) = access_of s" "ad_users (touch_token ah i s) = ad_users s"
  "ad_accounts (touch_token ah i s) = ad_accounts s" "ad_world (touch_token ah i s) = ad_world s"
  "ad_environments (touch_token ah i s) = ad_environments s" "ad_events (touch_token ah i s) = ad_events s"
  by (auto simp: touch_token_def set_token_def access_of_def token_access_def update_row_other Let_def split: prod.split)

lemma touch_user_access [simp]:
  "access_of (touch_user ah i s) = access_of s" "ad_tokens (touch_user ah i s) = ad_tokens s"
  "ad_accounts (touch_user ah i s) = ad_accounts s" "ad_world (touch_user ah i s) = ad_world s"
  "ad_environments (touch_user ah i s) = ad_environments s" "ad_events (touch_user ah i s) = ad_events s"
  by (auto simp: touch_user_def set_user_def access_of_def user_access_def update_row_other Let_def split: prod.split)

lemma role_level_inj [simp]: "role_level a = role_level b \<longleftrightarrow> a = b"
  by (cases a; cases b) simp_all

lemma token_principal_simps [simp]:
  "au_role (token_principal t user account role) = role"
  "au_apiTokenId (token_principal t user account role) = Some (tok_id t)"
  "au_scope (token_principal t user account role) =
     Some \<lparr>ts_allEnvironments = tok_allEnvironments t, ts_environmentIds = tok_environments t\<rparr>"
  by (simp_all add: token_principal_def Let_def split: option.split)

lemma validated_token:
  assumes "validateApiToken ah token s = (Some u, s')"
  obtains t where "t \<in> set (ad_tokens s)" "tok_tokenHash t = hashToken ah token" "in_force (ah_now ah (ad_world s)) s t"
    "u = token_principal t (Option.bind (tok_userId t) (user_by s)) (Option.bind (tok_serviceAccountId t) (account_by s)) (au_role u)"
    "role_level (au_role u) = min (role_level (tok_role t)) (role_level (the (owner_role s t)))"
    "s' = touch_token ah (tok_id t) s"
proof -
  from assms obtain t where f: "List.find (\<lambda>t. tok_tokenHash t = hashToken ah token) (ad_tokens s) = Some t"
    by (auto simp: validateApiToken_def split: option.splits)
  then have t: "t \<in> set (ad_tokens s)" "tok_tokenHash t = hashToken ah token" using find_SomeD by fastforce+
  let ?user = "Option.bind (tok_userId t) (user_by s)" and ?acc = "Option.bind (tok_serviceAccountId t) (account_by s)"
  from assms f obtain orole where o: "owner_role s t = Some orole"
    "u = token_principal t ?user ?acc (if hasMinimumRole orole (tok_role t) then tok_role t else orole)"
    "s' = touch_token ah (tok_id t) s"
    by (auto simp: validateApiToken_def owner_role_def Let_def split: option.splits if_splits)
  moreover have "in_force (ah_now ah (ad_world s)) s t"
    using assms f o(1) by (auto simp: validateApiToken_def in_force_def Let_def split: option.splits if_splits)
  moreover have "role_level (au_role u) = min (role_level (tok_role t)) (role_level orole)"
    using o(2) by (auto simp: hasMinimumRole_def min_def)
  ultimately show thesis using t that by (metis option.sel token_principal_simps(1))
qed

lemma validated_touch: "validateApiToken ah token s = (Some u, s') \<Longrightarrow> \<exists>i. s' = touch_token ah i s"
  by (erule validated_token) blast

lemma rejected_token: "validateApiToken ah token s = (None, s') \<Longrightarrow> s' = s"
  by (auto simp: validateApiToken_def Let_def split: option.splits if_splits)

lemma authenticate_access: "access_of (snd (authenticate ah r s)) = access_of s \<and> ad_world (snd (authenticate ah r s)) = ad_world s \<and>
    ad_environments (snd (authenticate ah r s)) = ad_environments s \<and> ad_events (snd (authenticate ah r s)) = ad_events s"
proof (cases "validateApiToken ah (drop 7 (nullish (hr_authorization r) '''')) s")
  case (Pair v s')
  show ?thesis
  proof (cases v)
    case None
    with Pair rejected_token have "s' = s" by blast
    with Pair None show ?thesis
      by (auto simp: authenticate_def authenticate_session_def Let_def split: option.split)
  next
    case (Some u)
    with Pair have "validateApiToken ah (drop 7 (nullish (hr_authorization r) '''')) s = (Some u, s')" by simp
    then obtain i where "s' = touch_token ah i s" using validated_touch by blast
    with Pair Some show ?thesis by (auto simp: authenticate_def Let_def split: option.split)
  qed
qed

definition scope_allows :: "token_row \<Rightarrow> http_request \<Rightarrow> bool" where
  "scope_allows t r \<longleftrightarrow>
     tok_allEnvironments t \<or> route_key r \<in> set SCOPE_EXEMPT_ROUTES \<or>
     (\<exists>i \<in> set (tok_environments t). extractEnvIdFromPath (routePattern r) (hr_params r) = Some i)"

lemma enforceTokenScope_passed:
  assumes "enforceTokenScope (token_principal t user account role) r = None"
  shows "scope_allows t r"
  using assms by (auto simp: enforceTokenScope_def scope_allows_def Let_def truthy_def split: if_splits option.splits)

text \<open>C17: whoever passes the authentication hook holds either a valid session of an existing user, with that
  user's current role, or a token in force, with the lower one of the token's and its owner's role, on a route
  inside the token's scope; a viewer passes only for reading or for one of the self-service routes; and the
  hook changes no permission.\<close>

theorem authenticated_stands_on:
  assumes "authenticate ah r s = (Inr u, s')"
  shows "((\<exists>t \<in> set (ad_tokens s). tok_tokenHash t = hashToken ah (credential_of r) \<and> in_force (ah_now ah (ad_world s)) s t \<and>
            au_apiTokenId u = Some (tok_id t) \<and> scope_allows t r \<and>
            role_level (au_role u) = min (role_level (tok_role t)) (role_level (the (owner_role s t)))) \<or>
          (\<exists>row \<in> set (ad_users s). ah_jwtVerify ah (credential_of r) (ad_world s) = Some (usr_id row) \<and> u = session_user row)) \<and>
         (au_role u = Viewer \<longrightarrow> js_upper (hr_method r) \<in> set READONLY_METHODS \<or> route_key r \<in> set VIEWER_ALLOWED_MUTATIONS) \<and>
         access_of s' = access_of s"
proof -
  have acc: "access_of s' = access_of s" using authenticate_access [of ah r s] assms by simp
  obtain v s1 where v: "validateApiToken ah (credential_of r) s = (v, s1)" by fastforce
  show ?thesis
  proof (cases v)
    case None
    with v assms rejected_token have "authenticate_session ah (credential_of r) r s = (Inr u, s')"
      by (fastforce simp: authenticate_def credential_of_def Let_def split: if_splits)
    then obtain i where i: "ah_jwtVerify ah (credential_of r) (ad_world s) = Some i" "getUserById i s = Some u" "enforceRoleForMethod u r = None"
      by (auto simp: authenticate_session_def Let_def truthy_def split: if_splits option.splits)
    then obtain row where row: "user_by s i = Some row" "u = session_user row" by (auto simp: getUserById_def)
    have "row \<in> set (ad_users s)" "usr_id row = i" using find_SomeD [OF row(1) [unfolded user_by_def]] by simp_all
    with i row(2) acc show ?thesis by (auto simp: enforceRoleForMethod_def split: if_splits)
  next
    case (Some w)
    with v assms have u: "w = u" "enforceTokenScope u r = None" "enforceRoleForMethod u r = None"
      by (auto simp: authenticate_def credential_of_def Let_def split: if_splits option.splits)
    from v Some have "validateApiToken ah (credential_of r) s = (Some w, s1)" by simp
    then obtain t where t: "t \<in> set (ad_tokens s)" "tok_tokenHash t = hashToken ah (credential_of r)"
      "in_force (ah_now ah (ad_world s)) s t"
      "w = token_principal t (Option.bind (tok_userId t) (user_by s)) (Option.bind (tok_serviceAccountId t) (account_by s)) (au_role w)"
      "role_level (au_role w) = min (role_level (tok_role t)) (role_level (the (owner_role s t)))"
      by (rule validated_token)
    then have "scope_allows t r" "au_apiTokenId w = Some (tok_id t)"
      using u enforceTokenScope_passed by (metis, metis token_principal_simps(2))
    with t u acc show ?thesis by (auto simp: enforceRoleForMethod_def split: if_splits)
  qed
qed

section \<open>An example\<close>

text \<open>An administrator with an operator token for one environment.\<close>

definition sample_auth_host :: "nat auth_host" where
  "sample_auth_host = \<lparr>ah_now = int, ah_newId = (\<lambda>w. (''n1'', w + 1)), ah_random = (\<lambda>w. (''r'', w + 1)), ah_sha256 = id,
     ah_bcryptHash = (\<lambda>p w. (p, w)), ah_bcryptCompare = (=), ah_jwtVerify = (\<lambda>t w. Some t), ah_jwtSign = (\<lambda>i e w. i),
     ah_isEmail = (\<lambda>e. True)\<rparr>"

definition sample_user :: user_row where
  "sample_user = \<lparr>usr_id = ''u1'', usr_email = ''a@b'', usr_passwordHash = ''secret00'', usr_name = None, usr_role = Admin,
     usr_lastActiveAt = None, usr_createdAt = 0\<rparr>"

definition sample_token :: token_row where
  "sample_token = \<lparr>tok_id = ''t1'', tok_name = ''ci'', tok_tokenHash = ''pat'', tok_tokenPrefix = None, tok_role = Operator,
     tok_allEnvironments = False, tok_environments = [''e1''], tok_lastUsedAt = None, tok_expiresAt = Some 100, tok_createdAt = 0,
     tok_userId = Some ''u1'', tok_serviceAccountId = None\<rparr>"

definition sample_access_db :: "nat access_db" where
  "sample_access_db = \<lparr>ad_world = 5, ad_users = [sample_user], ad_accounts = [], ad_tokens = [sample_token],
     ad_environments = [''e1'', ''e2''], ad_activeUserWindowMin = 15, ad_userThrottle = createThrottle None None,
     ad_tokenThrottle = createThrottle None None, ad_events = []\<rparr>"

definition sample_http :: "string \<Rightarrow> string \<Rightarrow> http_request" where
  "sample_http m env = \<lparr>hr_method = m, hr_route = Some ''/api/environments/:envId/services'', hr_url = '''',
     hr_params = [(''envId'', env)], hr_authorization = Some ''Bearer pat''\<rparr>"

lemmas sample_access_defs =
  sample_auth_host_def sample_user_def sample_token_def sample_access_db_def sample_http_def

theorem authenticated_stands_on_witness:
  "\<exists>u s'. authenticate sample_auth_host (sample_http ''POST'' ''e1'') sample_access_db = (Inr u, s') \<and> au_role u = Operator \<and>
     ((\<exists>t \<in> set (ad_tokens sample_access_db). tok_tokenHash t = hashToken sample_auth_host (credential_of (sample_http ''POST'' ''e1'')) \<and>
        in_force (ah_now sample_auth_host (ad_world sample_access_db)) sample_access_db t \<and>
        au_apiTokenId u = Some (tok_id t) \<and> scope_allows t (sample_http ''POST'' ''e1'') \<and>
        role_level (au_role u) = min (role_level (tok_role t)) (role_level (the (owner_role sample_access_db t)))) \<or>
      (\<exists>row \<in> set (ad_users sample_access_db). ah_jwtVerify sample_auth_host (credential_of (sample_http ''POST'' ''e1''))
        (ad_world sample_access_db) = Some (usr_id row) \<and> u = session_user row)) \<and>
     access_of s' = access_of sample_access_db"
proof -
  have "isl (fst (authenticate sample_auth_host (sample_http ''POST'' ''e1'') sample_access_db)) = False"
    "au_role (projr (fst (authenticate sample_auth_host (sample_http ''POST'' ''e1'') sample_access_db))) = Operator"
    by (simp_all add: authenticate_def validateApiToken_def user_by_def hashToken_def hasMinimumRole_def enforceTokenScope_def
        enforceRoleForMethod_def extractEnvIdFromPath_def route_key_def routePattern_def READONLY_METHODS_def
        SCOPE_EXEMPT_ROUTES_def VIEWER_ALLOWED_MUTATIONS_def js_upper_def char_in_def less_eq_char_def token_principal_def
        sample_access_defs Let_def)
  then obtain u s' where 1: "authenticate sample_auth_host (sample_http ''POST'' ''e1'') sample_access_db = (Inr u, s')" "au_role u = Operator"
    by (metis prod.collapse sum.collapse(2) sum.sel(2))
  with authenticated_stands_on [OF 1(1)] show ?thesis by blast
qed

section \<open>Minted tokens\<close>

lemma find_append_new: "\<forall>x \<in> set xs. \<not> P x \<Longrightarrow> P y \<Longrightarrow> List.find P (xs @ [y]) = Some y"
  by (induction xs) auto

lemma createApiToken_cases:
  assumes "createApiToken ah input s = (Inr (token, t), s')"
  obtains i r w1 w2 where
    "ah_random ah (ad_world s) = (r, w1)" "ah_newId ah w1 = (i, w2)" "token = API_TOKEN_PREFIX @ r"
    "truthy (ti_ownerUserId input) \<noteq> truthy (ti_ownerServiceAccountId input)"
    "t = \<lparr>tok_id = i, tok_name = ti_name input, tok_tokenHash = hashToken ah token,
          tok_tokenPrefix = Some (take (length API_TOKEN_PREFIX + 4) token), tok_role = ti_role input,
          tok_allEnvironments = ti_allEnvironments input,
          tok_environments = (if ti_allEnvironments input then [] else nullish (ti_environmentIds input) []), tok_lastUsedAt = None,
          tok_expiresAt = ti_expiresAt input, tok_createdAt = ah_now ah w2, tok_userId = ti_ownerUserId input,
          tok_serviceAccountId = ti_ownerServiceAccountId input\<rparr>"
    "s' = s\<lparr>ad_world := w2, ad_tokens := ad_tokens s @ [t]\<rparr>"
    "i \<notin> tok_id ` set (ad_tokens s)" "hashToken ah token \<notin> tok_tokenHash ` set (ad_tokens s)"
    "distinct (tok_environments t)" "set (tok_environments t) \<subseteq> set (ad_environments s)"
    "tok_allEnvironments t \<or> tok_environments t \<noteq> []"
    "\<forall>u. ti_ownerUserId input = Some u \<longrightarrow> u \<in> usr_id ` set (ad_users s)"
    "\<forall>a. ti_ownerServiceAccountId input = Some a \<longrightarrow> a \<in> sac_id ` set (ad_accounts s)"
    "\<exists>p. resolveOwnerRole (ti_ownerUserId input) (ti_ownerServiceAccountId input) s = Some p \<and> role_level (ti_role input) \<le> role_level p"
proof -
  from assms obtain o1 where o: "resolveOwnerRole (ti_ownerUserId input) (ti_ownerServiceAccountId input) s = Some o1"
    "role_level (ti_role input) \<le> role_level o1" "truthy (ti_ownerUserId input) \<noteq> truthy (ti_ownerServiceAccountId input)"
    by (auto simp: createApiToken_def hasMinimumRole_def split: if_splits option.splits)
  obtain r w1 i w2 where w: "ah_random ah (ad_world s) = (r, w1)" "ah_newId ah w1 = (i, w2)" by fastforce
  show thesis
    by (rule that [OF w]) (use assms o w in \<open>auto simp: createApiToken_def generateApiToken_def insert_token_def Let_def
        split: if_splits option.splits\<close>)
qed

text \<open>C30: a token that was just created authenticates, until it expires, as its owner with exactly the role and
  the environments it was created for.\<close>

theorem minted_token_authenticates:
  assumes "createApiToken ah input s = (Inr (token, t), s')"
    and "\<forall>e. ti_expiresAt input = Some e \<longrightarrow> ah_now ah (ad_world s') \<le> e"
    and "ti_ownerUserId input \<noteq> Some ''''" and "ti_ownerServiceAccountId input \<noteq> Some ''''"
  shows "\<exists>u. fst (validateApiToken ah token s') = Some u \<and> au_role u = ti_role input \<and> au_apiTokenId u = Some (tok_id t) \<and>
           au_scope u = Some \<lparr>ts_allEnvironments = ti_allEnvironments input, ts_environmentIds = tok_environments t\<rparr> \<and>
           (if truthy (ti_ownerUserId input) then Some (au_id u) = ti_ownerUserId input
            else au_serviceAccountId u = ti_ownerServiceAccountId input)"
proof -
  from assms(1) obtain i r w1 w2 where c: "token = API_TOKEN_PREFIX @ r"
    "truthy (ti_ownerUserId input) \<noteq> truthy (ti_ownerServiceAccountId input)"
    "t = \<lparr>tok_id = i, tok_name = ti_name input, tok_tokenHash = hashToken ah token,
          tok_tokenPrefix = Some (take (length API_TOKEN_PREFIX + 4) token), tok_role = ti_role input,
          tok_allEnvironments = ti_allEnvironments input,
          tok_environments = (if ti_allEnvironments input then [] else nullish (ti_environmentIds input) []), tok_lastUsedAt = None,
          tok_expiresAt = ti_expiresAt input, tok_createdAt = ah_now ah w2, tok_userId = ti_ownerUserId input,
          tok_serviceAccountId = ti_ownerServiceAccountId input\<rparr>"
    "s' = s\<lparr>ad_world := w2, ad_tokens := ad_tokens s @ [t]\<rparr>"
    "hashToken ah token \<notin> tok_tokenHash ` set (ad_tokens s)"
    "\<exists>p. resolveOwnerRole (ti_ownerUserId input) (ti_ownerServiceAccountId input) s = Some p \<and> role_level (ti_role input) \<le> role_level p"
    by (rule createApiToken_cases) blast
  have by_s': "user_by s' = user_by s" "account_by s' = account_by s" by (simp_all add: c(4) user_by_def account_by_def fun_eq_iff)
  have new: "ad_tokens s' = ad_tokens s @ [t]" by (simp add: c(4))
  have "List.find (\<lambda>t. tok_tokenHash t = hashToken ah token) (ad_tokens s') = Some t"
    unfolding new by (rule find_append_new) (metis c(5) imageI, simp add: c(3))
  moreover have "\<not> (\<exists>e. tok_expiresAt t = Some e \<and> e < ah_now ah (ad_world s'))" using assms(2) c(3) by auto
  moreover obtain o1 where o: "resolveOwnerRole (ti_ownerUserId input) (ti_ownerServiceAccountId input) s = Some o1"
    "hasMinimumRole o1 (ti_role input)" using c(6) by (auto simp: hasMinimumRole_def)
  ultimately show ?thesis
  proof (cases "truthy (ti_ownerUserId input)")
    case True
    with o(1) obtain uid row where u: "ti_ownerUserId input = Some uid" "user_by s uid = Some row" "usr_role row = o1"
      by (auto simp: resolveOwnerRole_def truthy_def split: option.splits)
    moreover have "ti_ownerServiceAccountId input = None" using True c(2) assms(4) by (cases "ti_ownerServiceAccountId input") auto
    moreover have "usr_id row = uid" using find_SomeD [OF u(2) [unfolded user_by_def]] by simp
    ultimately show ?thesis
      using True o(2) \<open>List.find _ _ = _\<close> \<open>\<not> (\<exists>e. _ e)\<close> by_s' c(3)
      by (auto simp: validateApiToken_def token_principal_def Let_def split: option.splits)
  next
    case False
    with o(1) c(2) obtain aid row where a: "ti_ownerServiceAccountId input = Some aid" "account_by s aid = Some row"
      "\<not> sac_disabled row" "sac_role row = o1"
      by (auto simp: resolveOwnerRole_def truthy_def split: option.splits if_splits)
    moreover have "ti_ownerUserId input = None" using False assms(3) by (cases "ti_ownerUserId input") auto
    moreover have "sac_id row = aid" using find_SomeD [OF a(2) [unfolded account_by_def]] by simp
    ultimately show ?thesis
      using False o(2) \<open>List.find _ _ = _\<close> \<open>\<not> (\<exists>e. _ e)\<close> by_s' c(3)
      by (auto simp: validateApiToken_def token_principal_def Let_def split: option.splits)
  qed
qed

definition sample_token_input :: token_input where
  "sample_token_input = \<lparr>ti_name = ''deploy'', ti_ownerUserId = Some ''u1'', ti_ownerServiceAccountId = None, ti_role = Operator,
     ti_allEnvironments = False, ti_environmentIds = Some [''e2''], ti_expiresAt = Some 500\<rparr>"

theorem minted_token_authenticates_witness:
  "\<exists>token t s'. createApiToken sample_auth_host sample_token_input sample_access_db = (Inr (token, t), s') \<and>
     (\<exists>u. fst (validateApiToken sample_auth_host token s') = Some u \<and> au_role u = Operator \<and> au_apiTokenId u = Some (tok_id t) \<and>
        au_scope u = Some \<lparr>ts_allEnvironments = False, ts_environmentIds = tok_environments t\<rparr> \<and> Some (au_id u) = Some ''u1'')"
proof -
  have "isl (fst (createApiToken sample_auth_host sample_token_input sample_access_db)) = False"
    "ad_world (snd (createApiToken sample_auth_host sample_token_input sample_access_db)) = 7"
    by (simp_all add: createApiToken_def resolveOwnerRole_def user_by_def hasMinimumRole_def generateApiToken_def insert_token_def
        hashToken_def API_TOKEN_PREFIX_def sample_token_input_def sample_access_defs Let_def)
  then obtain token t s' where 1: "createApiToken sample_auth_host sample_token_input sample_access_db = (Inr (token, t), s')" "ad_world s' = 7"
    by (metis prod.collapse sum.collapse(2))
  have "ah_now sample_auth_host (ad_world s') \<le> 500" by (simp add: 1(2) sample_auth_host_def)
  with minted_token_authenticates [OF 1(1)] 1(1) show ?thesis by (auto simp: sample_token_input_def)
qed

end
