(* ===== verification/Account_Routes.thy ===== *)
theory Account_Routes
  imports Access_Control
begin

text \<open>
  The routes that manage who may call the interface: \<open>src/routes/auth.ts\<close>, \<open>src/routes/users.ts\<close>,
  \<open>src/routes/service-accounts.ts\<close> and \<open>src/routes/api-tokens.ts\<close>, each with its hooks, its body schema, and every
  reply. A body is \<open>None\<close> when a required field is missing or a field has the wrong type; the remaining
  conditions of its schema are written out. Handlers run one after the other. Sending a notification
  is recorded as an event and does not fail.
\<close>

section \<open>Bodies and replies\<close>

record login_body =
  lb_email :: string
  lb_password :: string

record register_body =
  rb_email :: string
  rb_password :: string
  rb_name :: "string option"

record new_user_body =
  nu_email :: string
  nu_password :: string
  nu_name :: "string option"
  nu_role :: "user_role option"

record update_user_body =
  uu_name :: "string option"
  uu_role :: "user_role option"

record password_body =
  pb_currentPassword :: "string option"
  pb_newPassword :: string

record new_account_body =
  na_name :: string
  na_description :: "string option"
  na_role :: "user_role option"

record update_account_body =
  ua_description :: "string option"
  ua_role :: "user_role option"
  ua_disabled :: "bool option"

record new_token_body =
  nt_name :: string
  nt_ownerUserId :: "ident option"
  nt_ownerServiceAccountId :: "ident option"
  nt_role :: user_role
  nt_allEnvironments :: bool
  nt_environmentIds :: "ident list option"
  nt_expiresInDays :: int

record user_view =
  uv_id :: ident
  uv_email :: string
  uv_name :: "string option"
  uv_role :: user_role
  uv_createdAt :: millis

record token_view =
  tv_id :: ident
  tv_name :: string
  tv_tokenPrefix :: "string option"
  tv_role :: user_role
  tv_allEnvironments :: bool
  tv_environments :: "ident list"
  tv_lastUsedAt :: "millis option"
  tv_expiresAt :: "millis option"
  tv_createdAt :: millis
  tv_userId :: "ident option"
  tv_serviceAccountId :: "ident option"

datatype content =
    UsersContent "(user_view \<times> millis option) list"
  | UserContent user_view
  | SessionContent string auth_user
  | MeContent auth_user user_role "ident list" "string list"
  | AccountsContent "(account_row \<times> nat) list"
  | AccountContent account_row nat
  | TokensContent "token_view list"
  | TokenContent string token_view
  | SuccessContent

text \<open>An answer, an error answer of the route itself, a thrown \<open>ApiError\<close>, or another exception.\<close>

datatype reply =
    Replied content
  | Refused nat string
  | Rejected api_error
  | Crashed string

type_synonym 'w handler = "'w access_db \<Rightarrow> reply \<times> 'w access_db"

definition user_view_of :: "user_row \<Rightarrow> user_view" where
  "user_view_of u = \<lparr>uv_id = usr_id u, uv_email = usr_email u, uv_name = usr_name u, uv_role = usr_role u, uv_createdAt = usr_createdAt u\<rparr>"

definition token_view_of :: "token_row \<Rightarrow> token_view" where
  "token_view_of t =
     \<lparr>tv_id = tok_id t, tv_name = tok_name t, tv_tokenPrefix = tok_tokenPrefix t, tv_role = tok_role t,
      tv_allEnvironments = tok_allEnvironments t, tv_environments = tok_environments t, tv_lastUsedAt = tok_lastUsedAt t,
      tv_expiresAt = tok_expiresAt t, tv_createdAt = tok_createdAt t, tv_userId = tok_userId t,
      tv_serviceAccountId = tok_serviceAccountId t\<rparr>"

definition validateBody :: "('b \<Rightarrow> bool) \<Rightarrow> 'b option \<Rightarrow> ('b \<Rightarrow> 'w handler) \<Rightarrow> 'w handler" where
  "validateBody ok body h s =
     (case body of
        Some b \<Rightarrow> if ok b then h b s else (Refused 400 ''Invalid input'', s)
      | None \<Rightarrow> (Refused 400 ''Invalid input'', s))"

definition findOrNotFound :: "'a option \<Rightarrow> string \<Rightarrow> ('a \<Rightarrow> 'w handler) \<Rightarrow> 'w handler" where
  "findOrNotFound entity entityName h s =
     (case entity of None \<Rightarrow> (Refused 404 (entityName @ '' not found''), s) | Some x \<Rightarrow> h x s)"

text \<open>The hooks before a route, and what a route leaves behind.\<close>

definition guarded :: "'w auth_host \<Rightarrow> (auth_user option \<Rightarrow> api_error option) \<Rightarrow> http_request \<Rightarrow> (auth_user \<Rightarrow> 'w handler) \<Rightarrow> 'w handler" where
  "guarded ah check r h s =
     (case authenticate ah r s of
        (Inl e, s') \<Rightarrow> (Rejected e, s')
      | (Inr u, s') \<Rightarrow> (case check (Some u) of Some e \<Rightarrow> (Rejected e, s') | None \<Rightarrow> h u s'))"

definition add_events :: "access_event list \<Rightarrow> 'w access_db \<Rightarrow> 'w access_db" where
  "add_events es s = s\<lparr>ad_events := ad_events s @ es\<rparr>"

section \<open>Signing in\<close>

definition login :: "'w auth_host \<Rightarrow> login_body option \<Rightarrow> 'w handler" where
  "login ah body =
     validateBody (\<lambda>b. ah_isEmail ah (lb_email b) \<and> 8 \<le> length (lb_password b)) body (\<lambda>b s.
       case validatePassword ah (lb_email b) (lb_password b) s of
         None \<Rightarrow> (Refused 401 ''Invalid credentials'', s)
       | Some user \<Rightarrow> (Replied (SessionContent (ah_jwtSign ah (au_id user) (au_email user) (ad_world s)) user), s))"

definition register :: "'w auth_host \<Rightarrow> register_body option \<Rightarrow> 'w handler" where
  "register ah body =
     validateBody (\<lambda>b. ah_isEmail ah (rb_email b) \<and> 8 \<le> length (rb_password b)) body (\<lambda>b s.
       if ad_users s \<noteq> [] then (Refused 403 ''Registration disabled'', s)
       else case createUser ah (rb_email b) (rb_password b) (rb_name b) Admin s of
         (Inl e, s') \<Rightarrow> (Crashed e, s')
       | (Inr user, s') \<Rightarrow> (Replied (SessionContent (ah_jwtSign ah (au_id user) (au_email user) (ad_world s')) user), s'))"

definition me :: "auth_user \<Rightarrow> 'w handler" where
  "me authUser s =
     (let environments = (case au_scope authUser of
            Some scope \<Rightarrow> if \<not> ts_allEnvironments scope then ts_environmentIds scope else ad_environments s
          | None \<Rightarrow> ad_environments s)
      in (Replied (MeContent authUser (au_role authUser) environments (computeScopes authUser)), s))"

section \<open>Users\<close>

definition list_users :: "'w handler" where
  "list_users s =
     (Replied (UsersContent (map (\<lambda>u. (user_view_of u, usr_lastActiveAt u)) (sort_key (\<lambda>u. - usr_createdAt u) (ad_users s)))), s)"

definition active_users :: "'w auth_host \<Rightarrow> 'w handler" where
  "active_users ah s =
     (let cutoffTime = ah_now ah (ad_world s) - ad_activeUserWindowMin s * 60 * 1000;
          active = filter (\<lambda>u. case usr_lastActiveAt u of None \<Rightarrow> False | Some t \<Rightarrow> cutoffTime \<le> t) (ad_users s)
      in (Replied (UsersContent (map (\<lambda>u. (user_view_of u, usr_lastActiveAt u))
            (sort_key (\<lambda>u. - the (usr_lastActiveAt u)) active))), s))"

definition get_user :: "ident \<Rightarrow> 'w handler" where
  "get_user i s = findOrNotFound (user_by s i) ''User'' (\<lambda>u s. (Replied (UserContent (user_view_of u)), s)) s"

definition create_user :: "'w auth_host \<Rightarrow> new_user_body option \<Rightarrow> auth_user \<Rightarrow> 'w handler" where
  "create_user ah body authUser =
     validateBody (\<lambda>b. ah_isEmail ah (nu_email b) \<and> 8 \<le> length (nu_password b)) body (\<lambda>b s.
       if nu_email b \<in> usr_email ` set (ad_users s) then (Refused 409 ''Email already in use'', s)
       else case bcrypt_hash ah (nu_password b) s of
         (h, s1) \<Rightarrow> (case insert_user ah (nu_email b) h (nu_name b) (nullish (nu_role b) Viewer) s1 of
           (Inl e, s2) \<Rightarrow> (Crashed e, s2)
         | (Inr u, s2) \<Rightarrow>
             (Replied (UserContent (user_view_of u)),
              add_events [Audited ''create'' ''user'' (usr_id u) (actorFrom (Some authUser)), UserNotice ''user.account_created'' (usr_id u)] s2)))"

definition update_user :: "ident \<Rightarrow> string list \<Rightarrow> update_user_body option \<Rightarrow> auth_user \<Rightarrow> 'w handler" where
  "update_user i keys body authUser s =
     (case assertNoReadonlyFields UserModel keys of
        Some e \<Rightarrow> (Rejected e, s)
      | None \<Rightarrow>
          validateBody (\<lambda>b. True) body (\<lambda>b s.
            findOrNotFound (user_by s i) ''User'' (\<lambda>existingUser s.
              let isAdmin = (au_role authUser = Admin) in
              if \<not> isAdmin \<and> uu_role b \<noteq> None then (Refused 403 ''Only admins can change user roles'', s)
              else
                let newRole = (if isAdmin then uu_role b else None);
                    f = (\<lambda>u. u\<lparr>usr_name := (case uu_name b of None \<Rightarrow> usr_name u | Some n \<Rightarrow> Some n),
                                usr_role := nullish newRole (usr_role u)\<rparr>);
                    changed = (case newRole of None \<Rightarrow> False | Some r \<Rightarrow> r \<noteq> usr_role existingUser)
                in (Replied (UserContent (user_view_of (f existingUser))),
                    add_events ([Audited ''update'' ''user'' i (actorFrom (Some authUser))]
                                @ (if changed then [UserNotice ''user.role_changed'' i] else [])) (set_user i f s))) s) s)"

text \<open>\<open>prisma.user.delete\<close>: the tokens of the user go with it, accounts forget their creator.\<close>

definition remove_user :: "ident \<Rightarrow> 'w access_db \<Rightarrow> 'w access_db" where
  "remove_user i s =
     s\<lparr>ad_users := filter (\<lambda>u. usr_id u \<noteq> i) (ad_users s),
       ad_tokens := filter (\<lambda>t. tok_userId t \<noteq> Some i) (ad_tokens s),
       ad_accounts := map (\<lambda>a. if sac_createdByUserId a = Some i then a\<lparr>sac_createdByUserId := None\<rparr> else a) (ad_accounts s)\<rparr>"

definition delete_user :: "ident \<Rightarrow> auth_user \<Rightarrow> 'w handler" where
  "delete_user i authUser s =
     (if i = au_id authUser then (Refused 400 ''Cannot delete your own account'', s)
      else findOrNotFound (user_by s i) ''User'' (\<lambda>u s.
        (Replied SuccessContent, add_events [Audited ''delete'' ''user'' i (actorFrom (Some authUser))] (remove_user i s))) s)"

definition change_password :: "'w auth_host \<Rightarrow> ident \<Rightarrow> password_body option \<Rightarrow> auth_user \<Rightarrow> 'w handler" where
  "change_password ah i body authUser =
     validateBody (\<lambda>b. 8 \<le> length (pb_newPassword b) \<and> pb_currentPassword b \<noteq> Some '''') body (\<lambda>b s.
       findOrNotFound (user_by s i) ''User'' (\<lambda>user s.
         let isAdmin = (au_role authUser = Admin); isSelf = (au_id authUser = i) in
         if isSelf \<and> \<not> isAdmin \<and> \<not> truthy (pb_currentPassword b) then (Refused 400 ''Current password is required'', s)
         else if isSelf \<and> \<not> isAdmin \<and> \<not> ah_bcryptCompare ah (the (pb_currentPassword b)) (usr_passwordHash user)
         then (Refused 401 ''Current password is incorrect'', s)
         else case bcrypt_hash ah (pb_newPassword b) s of
           (h, s1) \<Rightarrow>
             (Replied SuccessContent,
              add_events [Audited ''update'' ''user'' i (actorFrom (Some authUser)), UserNotice ''user.password_changed'' i]
                (set_user i (\<lambda>u. u\<lparr>usr_passwordHash := h\<rparr>) s1))) s)"

section \<open>Service accounts\<close>

definition token_count :: "'w access_db \<Rightarrow> ident \<Rightarrow> nat" where
  "token_count s i = length (filter (\<lambda>t. tok_serviceAccountId t = Some i) (ad_tokens s))"

definition name_pattern :: "string \<Rightarrow> bool" where
  "name_pattern n \<longleftrightarrow>
     (let low = (\<lambda>c. char_in c ''az'' \<or> char_in c ''09'') in
      n \<noteq> [] \<and> low (hd n) \<and> (\<forall>c \<in> set (tl n). low c \<or> c = CHR ''_'' \<or> c = CHR ''-''))"

definition valid_description :: "string option \<Rightarrow> bool" where
  "valid_description d \<longleftrightarrow> (case d of None \<Rightarrow> True | Some t \<Rightarrow> length t \<le> 500)"

definition list_accounts :: "'w handler" where
  "list_accounts s =
     (Replied (AccountsContent (map (\<lambda>a. (a, token_count s (sac_id a))) (sort_key (\<lambda>a. - sac_createdAt a) (ad_accounts s)))), s)"

definition get_account :: "ident \<Rightarrow> 'w handler" where
  "get_account i s =
     findOrNotFound (account_by s i) ''Service account'' (\<lambda>a s. (Replied (AccountContent a (token_count s i)), s)) s"

text \<open>\<open>prisma.serviceAccount.create\<close>: unique id and name, an existing creator.\<close>

definition insert_account :: "'w auth_host \<Rightarrow> string \<Rightarrow> string option \<Rightarrow> user_role \<Rightarrow> ident option \<Rightarrow> 'w access_db
    \<Rightarrow> (string + account_row) \<times> 'w access_db" where
  "insert_account ah name description role createdBy s =
     (case ah_newId ah (ad_world s) of
        (i, w) \<Rightarrow>
          let s' = s\<lparr>ad_world := w\<rparr>;
              a = \<lparr>sac_id = i, sac_name = name, sac_description = description, sac_role = role, sac_disabled = False,
                   sac_createdAt = ah_now ah w, sac_createdByUserId = createdBy\<rparr>
          in if i \<in> sac_id ` set (ad_accounts s) \<or> name \<in> sac_name ` set (ad_accounts s) then (Inl ''Unique constraint failed'', s')
             else if (case createdBy of None \<Rightarrow> False | Some u \<Rightarrow> u \<notin> usr_id ` set (ad_users s))
             then (Inl ''Foreign key constraint violated'', s')
             else (Inr a, s'\<lparr>ad_accounts := ad_accounts s @ [a]\<rparr>))"

definition create_account :: "'w auth_host \<Rightarrow> new_account_body option \<Rightarrow> auth_user \<Rightarrow> 'w handler" where
  "create_account ah body authUser =
     validateBody (\<lambda>b. length (na_name b) \<le> 64 \<and> name_pattern (na_name b) \<and> valid_description (na_description b)) body (\<lambda>b s.
       if na_name b \<in> sac_name ` set (ad_accounts s) then (Refused 409 ''Name already in use'', s)
       else case insert_account ah (na_name b) (na_description b) (nullish (na_role b) Viewer) (userIdForFk authUser) s of
         (Inl e, s') \<Rightarrow> (Crashed e, s')
       | (Inr a, s') \<Rightarrow>
           (Replied (AccountContent a 0),
            add_events [Audited ''create'' ''service_account'' (sac_id a) (actorFrom (Some authUser))] s'))"

definition update_account :: "ident \<Rightarrow> update_account_body option \<Rightarrow> auth_user \<Rightarrow> 'w handler" where
  "update_account i body authUser =
     validateBody (\<lambda>b. valid_description (ua_description b)) body (\<lambda>b s.
       findOrNotFound (account_by s i) ''Service account'' (\<lambda>existing s.
         let f = (\<lambda>a. a\<lparr>sac_description := (case ua_description b of None \<Rightarrow> sac_description a | Some d \<Rightarrow> Some d),
                        sac_role := nullish (ua_role b) (sac_role a), sac_disabled := nullish (ua_disabled b) (sac_disabled a)\<rparr>)
         in (Replied (AccountContent (f existing) (token_count s i)),
             add_events [Audited ''update'' ''service_account'' i (actorFrom (Some authUser))]
               (s\<lparr>ad_accounts := update_row sac_id i f (ad_accounts s)\<rparr>))) s)"

text \<open>\<open>prisma.serviceAccount.delete\<close>: the tokens of the account go with it.\<close>

definition remove_account :: "ident \<Rightarrow> 'w access_db \<Rightarrow> 'w access_db" where
  "remove_account i s =
     s\<lparr>ad_accounts := filter (\<lambda>a. sac_id a \<noteq> i) (ad_accounts s),
       ad_tokens := filter (\<lambda>t. tok_serviceAccountId t \<noteq> Some i) (ad_tokens s)\<rparr>"

definition delete_account :: "ident \<Rightarrow> auth_user \<Rightarrow> 'w handler" where
  "delete_account i authUser s =
     findOrNotFound (account_by s i) ''Service account'' (\<lambda>a s.
       (Replied SuccessContent,
        add_events [Audited ''delete'' ''service_account'' i (actorFrom (Some authUser))] (remove_account i s))) s"

section \<open>API tokens\<close>

definition MAX_TOKEN_LIFETIME_DAYS :: int where
  "MAX_TOKEN_LIFETIME_DAYS = 365"

definition valid_token_body :: "new_token_body \<Rightarrow> bool" where
  "valid_token_body b \<longleftrightarrow>
     1 \<le> length (nt_name b) \<and> length (nt_name b) \<le> 100 \<and>
     1 \<le> nt_expiresInDays b \<and> nt_expiresInDays b \<le> MAX_TOKEN_LIFETIME_DAYS \<and>
     truthy (nt_ownerUserId b) \<noteq> truthy (nt_ownerServiceAccountId b) \<and>
     (nt_allEnvironments b \<or> (case nt_environmentIds b of None \<Rightarrow> False | Some es \<Rightarrow> es \<noteq> []))"

definition list_tokens :: "ident option \<Rightarrow> ident option \<Rightarrow> 'w handler" where
  "list_tokens ownerUserId ownerServiceAccountId s =
     (Replied (TokensContent (map token_view_of (listApiTokens ownerUserId ownerServiceAccountId s))), s)"

definition create_token :: "'w auth_host \<Rightarrow> new_token_body option \<Rightarrow> auth_user \<Rightarrow> 'w handler" where
  "create_token ah body authUser =
     validateBody valid_token_body body (\<lambda>b s.
       let expiresAt = ah_now ah (ad_world s) + nt_expiresInDays b * 24 * 60 * 60 * 1000 in
       case createApiToken ah \<lparr>ti_name = nt_name b, ti_ownerUserId = nt_ownerUserId b,
              ti_ownerServiceAccountId = nt_ownerServiceAccountId b, ti_role = nt_role b,
              ti_allEnvironments = nt_allEnvironments b, ti_environmentIds = nt_environmentIds b, ti_expiresAt = Some expiresAt\<rparr> s of
         (Inl e, s') \<Rightarrow> (Refused 400 e, s')
       | (Inr (token, t), s') \<Rightarrow>
           (Replied (TokenContent token (token_view_of t)),
            add_events ([Audited ''create'' ''api_token'' (tok_id t) (actorFrom (Some authUser))]
                        @ (if truthy (nt_ownerUserId b) then [UserNotice ''user.api_token_created'' (the (nt_ownerUserId b))] else [])) s'))"

definition revoke_token :: "ident \<Rightarrow> auth_user \<Rightarrow> 'w handler" where
  "revoke_token i authUser s =
     findOrNotFound (List.find (\<lambda>t. tok_id t = i) (ad_tokens s)) ''Token'' (\<lambda>existing s.
       (Replied SuccessContent,
        add_events [Audited ''delete'' ''api_token'' i (actorFrom (Some authUser))] (snd (deleteApiToken i s)))) s"

section \<open>The routes\<close>

datatype endpoint =
    Login "login_body option"
  | Register "register_body option"
  | Me
  | ListUsers
  | ActiveUsers
  | GetUser ident
  | CreateUser "new_user_body option"
  | UpdateUser ident "string list" "update_user_body option"
  | DeleteUser ident
  | ChangePassword ident "password_body option"
  | ListAccounts
  | GetAccount ident
  | CreateAccount "new_account_body option"
  | UpdateAccount ident "update_account_body option"
  | DeleteAccount ident
  | ListTokens "ident option" "ident option"
  | CreateToken "new_token_body option"
  | RevokeToken ident

text \<open>Method, pattern and parameters.\<close>

fun endpoint_route :: "endpoint \<Rightarrow> string \<times> string \<times> (string \<times> string) list" where
  "endpoint_route (Login b) = (''POST'', ''/api/auth/login'', [])"
| "endpoint_route (Register b) = (''POST'', ''/api/auth/register'', [])"
| "endpoint_route Me = (''GET'', ''/api/auth/me'', [])"
| "endpoint_route ListUsers = (''GET'', ''/api/users'', [])"
| "endpoint_route ActiveUsers = (''GET'', ''/api/users/active'', [])"
| "endpoint_route (GetUser i) = (''GET'', ''/api/users/:id'', [(''id'', i)])"
| "endpoint_route (CreateUser b) = (''POST'', ''/api/users'', [])"
| "endpoint_route (UpdateUser i k b) = (''PATCH'', ''/api/users/:id'', [(''id'', i)])"
| "endpoint_route (DeleteUser i) = (''DELETE'', ''/api/users/:id'', [(''id'', i)])"
| "endpoint_route (ChangePassword i b) = (''POST'', ''/api/users/:id/change-password'', [(''id'', i)])"
| "endpoint_route ListAccounts = (''GET'', ''/api/admin/service-accounts'', [])"
| "endpoint_route (GetAccount i) = (''GET'', ''/api/admin/service-accounts/:id'', [(''id'', i)])"
| "endpoint_route (CreateAccount b) = (''POST'', ''/api/admin/service-accounts'', [])"
| "endpoint_route (UpdateAccount i b) = (''PATCH'', ''/api/admin/service-accounts/:id'', [(''id'', i)])"
| "endpoint_route (DeleteAccount i) = (''DELETE'', ''/api/admin/service-accounts/:id'', [(''id'', i)])"
| "endpoint_route (ListTokens u a) = (''GET'', ''/api/admin/tokens'', [])"
| "endpoint_route (CreateToken b) = (''POST'', ''/api/admin/tokens'', [])"
| "endpoint_route (RevokeToken i) = (''DELETE'', ''/api/admin/tokens/:tokenId'', [(''tokenId'', i)])"

definition endpoint_http :: "endpoint \<Rightarrow> string option \<Rightarrow> http_request" where
  "endpoint_http e authorization =
     (case endpoint_route e of (m, pattern, params) \<Rightarrow>
        \<lparr>hr_method = m, hr_route = Some pattern, hr_url = pattern, hr_params = params, hr_authorization = authorization\<rparr>)"

fun serve :: "'w auth_host \<Rightarrow> endpoint \<Rightarrow> string option \<Rightarrow> 'w handler" where
  "serve ah (Login b) auth = login ah b"
| "serve ah (Register b) auth = register ah b"
| "serve ah Me auth = guarded ah (\<lambda>_. None) (endpoint_http Me auth) me"
| "serve ah ListUsers auth = guarded ah requireAdmin (endpoint_http ListUsers auth) (\<lambda>_. list_users)"
| "serve ah ActiveUsers auth = guarded ah requireAdmin (endpoint_http ActiveUsers auth) (\<lambda>_. active_users ah)"
| "serve ah (GetUser i) auth =
     guarded ah (requireAdminOrSelf ''id'' [(''id'', i)]) (endpoint_http (GetUser i) auth) (\<lambda>_. get_user i)"
| "serve ah (CreateUser b) auth = guarded ah requireAdmin (endpoint_http (CreateUser b) auth) (create_user ah b)"
| "serve ah (UpdateUser i k b) auth =
     guarded ah (requireAdminOrSelf ''id'' [(''id'', i)]) (endpoint_http (UpdateUser i k b) auth) (update_user i k b)"
| "serve ah (DeleteUser i) auth = guarded ah requireAdmin (endpoint_http (DeleteUser i) auth) (delete_user i)"
| "serve ah (ChangePassword i b) auth =
     guarded ah (requireAdminOrSelf ''id'' [(''id'', i)]) (endpoint_http (ChangePassword i b) auth) (change_password ah i b)"
| "serve ah ListAccounts auth = guarded ah requireAdmin (endpoint_http ListAccounts auth) (\<lambda>_. list_accounts)"
| "serve ah (GetAccount i) auth = guarded ah requireAdmin (endpoint_http (GetAccount i) auth) (\<lambda>_. get_account i)"
| "serve ah (CreateAccount b) auth = guarded ah requireAdmin (endpoint_http (CreateAccount b) auth) (create_account ah b)"
| "serve ah (UpdateAccount i b) auth = guarded ah requireAdmin (endpoint_http (UpdateAccount i b) auth) (update_account i b)"
| "serve ah (DeleteAccount i) auth = guarded ah requireAdmin (endpoint_http (DeleteAccount i) auth) (delete_account i)"
| "serve ah (ListTokens u a) auth = guarded ah requireAdmin (endpoint_http (ListTokens u a) auth) (\<lambda>_. list_tokens u a)"
| "serve ah (CreateToken b) auth = guarded ah requireAdmin (endpoint_http (CreateToken b) auth) (create_token ah b)"
| "serve ah (RevokeToken i) auth = guarded ah requireAdmin (endpoint_http (RevokeToken i) auth) (revoke_token i)"

section \<open>Who changes permissions\<close>

definition unrestricted :: "auth_user \<Rightarrow> bool" where
  "unrestricted u \<longleftrightarrow> (case au_scope u of None \<Rightarrow> True | Some scope \<Rightarrow> ts_allEnvironments scope)"

lemma authenticate_scope: "authenticate ah r s = (Inr u, s') \<Longrightarrow> enforceTokenScope u r = None"
  by (auto simp: authenticate_def authenticate_session_def Let_def enforceTokenScope_def getUserById_def session_user_def
      split: if_splits option.splits prod.splits)

lemma upper_methods [simp]:
  "js_upper ''GET'' = ''GET''" "js_upper ''POST'' = ''POST''" "js_upper ''PATCH'' = ''PATCH''" "js_upper ''DELETE'' = ''DELETE''"
  by (simp_all add: js_upper_def char_in_def less_eq_char_def)

text \<open>Every route of this theory but \<open>me\<close> is outside the reach of a token with an environment list.\<close>

lemma global_route:
  assumes "authenticate ah (endpoint_http e auth) s = (Inr u, s')" and "e \<noteq> Me"
  shows "unrestricted u"
proof -
  have "route_key (endpoint_http e auth) \<notin> set SCOPE_EXEMPT_ROUTES"
    "extractEnvIdFromPath (routePattern (endpoint_http e auth)) (hr_params (endpoint_http e auth)) = None"
    using assms(2) by (cases e; simp add: endpoint_http_def route_key_def routePattern_def SCOPE_EXEMPT_ROUTES_def extractEnvIdFromPath_def)+
  with authenticate_scope [OF assms(1)] show ?thesis
    by (auto simp: enforceTokenScope_def unrestricted_def Let_def split: option.splits if_splits)
qed

lemma guarded_cases:
  assumes "guarded ah check r h s = (rep, s')"
  obtains (stopped) "access_of s' = access_of s"
  | (ran) u s1 where "authenticate ah r s = (Inr u, s1)" "check (Some u) = None" "h u s1 = (rep, s')" "access_of s1 = access_of s"
  using assms authenticate_access [of ah r s] by (auto simp: guarded_def split: prod.splits sum.splits option.splits)

lemma requireAdmin_passed [simp]: "requireAdmin (Some u) = None \<longleftrightarrow> au_role u = Admin"
  by (simp add: requireAdmin_def)

lemma requireAdminOrSelf_passed [simp]: "requireAdminOrSelf p ps (Some u) = None \<longleftrightarrow> au_role u = Admin \<or> Some (au_id u) = map_of ps p"
  by (simp add: requireAdminOrSelf_def)

lemma add_events_access [simp]: "access_of (add_events es s) = access_of s" "ad_users (add_events es s) = ad_users s"
  "ad_accounts (add_events es s) = ad_accounts s" "ad_tokens (add_events es s) = ad_tokens s"
  "ad_environments (add_events es s) = ad_environments s"
  by (simp_all add: add_events_def access_of_def)

lemma reading_routes [simp]:
  "snd (me u s) = s" "snd (list_users s) = s" "snd (active_users ah s) = s" "snd (get_user i s) = s" "snd (list_accounts s) = s"
  "snd (get_account i s) = s" "snd (list_tokens a b s) = s" "snd (login ah body s) = s"
  by (auto simp: me_def list_users_def active_users_def get_user_def list_accounts_def get_account_def list_tokens_def login_def
      findOrNotFound_def validateBody_def Let_def split: option.split)

lemma update_user_access:
  assumes "au_role u \<noteq> Admin"
  shows "access_of (snd (update_user i keys body u s)) = access_of s"
proof -
  have "access_of (set_user i (\<lambda>r. r\<lparr>usr_name := f r, usr_role := nullish None (usr_role r)\<rparr>) s) = access_of s" for f
    by (simp add: access_of_def set_user_def user_access_def update_row_other)
  then show ?thesis using assms
    by (auto simp: update_user_def validateBody_def findOrNotFound_def Let_def split: option.split)
qed

lemma change_password_access:
  assumes "au_role u \<noteq> Admin" and "au_id u = i" and "change_password ah i body u s = (rep, s')"
  obtains "access_of s' = access_of s"
  | b row p h where "body = Some b" "user_by s i = Some row" "pb_currentPassword b = Some p" "ah_bcryptCompare ah p (usr_passwordHash row)"
      "access_of s' = apfst (map (\<lambda>(j, m, q, r). (j, m, if j = i then h else q, r))) (access_of s)"
proof (cases "access_of s' = access_of s")
  case False
  then obtain b row where b: "body = Some b" "user_by s i = Some row" "truthy (pb_currentPassword b)"
    "ah_bcryptCompare ah (the (pb_currentPassword b)) (usr_passwordHash row)"
    using assms by (auto simp: change_password_def validateBody_def findOrNotFound_def Let_def split: option.splits if_splits)
  obtain h s1 where h: "bcrypt_hash ah (pb_newPassword b) s = (h, s1)" by fastforce
  then have s1: "s1 = s\<lparr>ad_world := ad_world s1\<rparr>" by (auto simp: bcrypt_hash_def split: prod.splits)
  from False b h assms have "access_of s' = access_of (set_user i (\<lambda>u. u\<lparr>usr_passwordHash := h\<rparr>) s1)"
    by (auto simp: change_password_def validateBody_def findOrNotFound_def Let_def split: option.splits if_splits)
  also have "\<dots> = apfst (map (\<lambda>(j, m, q, r). (j, m, if j = i then h else q, r))) (access_of s)"
    by (subst s1) (auto simp: access_of_def set_user_def user_access_def update_row_def)
  finally have "access_of s' = apfst (map (\<lambda>(j, m, q, r). (j, m, if j = i then h else q, r))) (access_of s)" .
  moreover from b(3) obtain p where p: "pb_currentPassword b = Some p" by (cases "pb_currentPassword b") auto
  moreover have "ah_bcryptCompare ah p (usr_passwordHash row)" using b(4) p by simp
  ultimately show ?thesis using that(2) b by blast
qed (rule that(1))

lemma register_access:
  assumes "register ah body s = (rep, s')" and "access_of s' \<noteq> access_of s"
  shows "ad_users s = [] \<and> map usr_role (ad_users s') = [Admin] \<and> snd (access_of s') = snd (access_of s)"
proof -
  obtain b where b: "body = Some b" "ad_users s = []"
    using assms by (auto simp: register_def validateBody_def split: option.splits if_splits)
  with assms show ?thesis
    by (auto simp: register_def validateBody_def createUser_def bcrypt_hash_def insert_user_def access_of_def Let_def
        split: option.splits if_splits prod.splits sum.splits)
qed

text \<open>C16: a request changes a permission (a user, role or password, a service account, a token) only in three
  cases: its credential authenticates an administrator without environment restriction; it registers the
  first user, while there is none; or it replaces the caller's own password, having shown the current one,
  and then it changes nothing else.\<close>

theorem only_admins_change_access:
  assumes "serve ah e auth s = (rep, s')" and "access_of s' \<noteq> access_of s"
  shows "(\<exists>u s1. authenticate ah (endpoint_http e auth) s = (Inr u, s1) \<and> au_role u = Admin \<and> unrestricted u) \<or>
         (ad_users s = [] \<and> (\<exists>b. e = Register b) \<and> map usr_role (ad_users s') = [Admin] \<and> snd (access_of s') = snd (access_of s)) \<or>
         (\<exists>u s1 i b row p h. authenticate ah (endpoint_http e auth) s = (Inr u, s1) \<and> au_id u = i \<and> e = ChangePassword i (Some b) \<and>
            user_by s1 i = Some row \<and> pb_currentPassword b = Some p \<and> ah_bcryptCompare ah p (usr_passwordHash row) \<and>
            access_of s' = apfst (map (\<lambda>(j, m, q, r). (j, m, if j = i then h else q, r))) (access_of s))"
proof -
  have admin: ?thesis if "guarded ah check (endpoint_http e auth) h s = (rep, s')" "e \<noteq> Me"
    "\<And>u s1. check (Some u) = None \<Longrightarrow> au_role u \<noteq> Admin \<Longrightarrow> access_of (snd (h u s1)) = access_of s1" for check h
    using that(1)
  proof (cases rule: guarded_cases)
    case (ran u s1)
    with that(3) assms(2) have "au_role u = Admin" by (metis snd_conv)
    with ran(1) global_route [OF ran(1) that(2)] show ?thesis by blast
  qed (use assms(2) in simp)
  show ?thesis
  proof (cases e)
    case (ChangePassword i body)
    with assms(1) have "guarded ah (requireAdminOrSelf ''id'' [(''id'', i)]) (endpoint_http e auth) (change_password ah i body) s = (rep, s')"
      by simp
    then show ?thesis
    proof (cases rule: guarded_cases)
      case (ran u s1)
      show ?thesis
      proof (cases "au_role u = Admin")
        case True with ran(1) global_route [OF ran(1)] ChangePassword show ?thesis by blast
      next
        case False
        with ran have self: "au_id u = i" by simp
        show ?thesis
        proof (rule change_password_access [OF False self ran(3)])
          assume "access_of s' = access_of s1"
          with ran(4) assms(2) show ?thesis by simp
        next
          fix b row p h
          assume "body = Some b" "user_by s1 i = Some row" "pb_currentPassword b = Some p" "ah_bcryptCompare ah p (usr_passwordHash row)"
            "access_of s' = apfst (map (\<lambda>(j, m, q, r). (j, m, if j = i then h else q, r))) (access_of s1)"
          with ran self ChangePassword show ?thesis by (intro disjI2) auto
        qed
      qed
    qed (use assms(2) in simp)
  next
    case (Register b)
    with assms register_access [of ah b s rep s'] show ?thesis by simp
  next
    case (UpdateUser i k b)
    with assms(1) show ?thesis by (intro admin [of _ "update_user i k b"]) (simp_all add: update_user_access)
  qed (use assms in \<open>auto intro!: admin intro: global_route elim!: guarded_cases dest: arg_cong [where f = snd]\<close>)
qed

section \<open>The tables stay consistent\<close>

definition token_ok :: "ident set \<Rightarrow> ident set \<Rightarrow> ident set \<Rightarrow> token_row \<Rightarrow> bool" where
  "token_ok users accounts environments t \<longleftrightarrow>
     tok_expiresAt t \<noteq> None \<and>
     (case (tok_userId t, tok_serviceAccountId t) of
        (Some u, None) \<Rightarrow> u \<in> users
      | (None, Some a) \<Rightarrow> a \<in> accounts
      | _ \<Rightarrow> False) \<and>
     (tok_allEnvironments t \<longleftrightarrow> tok_environments t = []) \<and> distinct (tok_environments t) \<and> set (tok_environments t) \<subseteq> environments"

definition accounts_ok :: "'w access_db \<Rightarrow> bool" where
  "accounts_ok s \<longleftrightarrow>
     distinct (map usr_id (ad_users s)) \<and> distinct (map usr_email (ad_users s)) \<and>
     distinct (map sac_id (ad_accounts s)) \<and> distinct (map sac_name (ad_accounts s)) \<and>
     distinct (map tok_id (ad_tokens s)) \<and> distinct (map tok_tokenHash (ad_tokens s)) \<and>
     '''' \<notin> usr_id ` set (ad_users s) \<and> '''' \<notin> sac_id ` set (ad_accounts s) \<and>
     (\<forall>t \<in> set (ad_tokens s). token_ok (usr_id ` set (ad_users s)) (sac_id ` set (ad_accounts s)) (set (ad_environments s)) t)"

text \<open>What that depends on.\<close>

definition identity_of :: "'w access_db \<Rightarrow> (ident \<times> string) list \<times> (ident \<times> string) list \<times> token_row list \<times> ident list" where
  "identity_of s = (map (\<lambda>u. (usr_id u, usr_email u)) (ad_users s), map (\<lambda>a. (sac_id a, sac_name a)) (ad_accounts s),
                    map token_access (ad_tokens s), ad_environments s)"

lemma accounts_ok_identity:
  fixes s s' :: "'w access_db"
  assumes "identity_of s' = identity_of s"
  shows "accounts_ok s' = accounts_ok s"
proof -
  have ok: "token_ok U A E (token_access t) = token_ok U A E t" for U A E t by (simp add: token_ok_def token_access_def)
  have tok: "tok_id (token_access t) = tok_id t" "tok_tokenHash (token_access t) = tok_tokenHash t" for t
    by (simp_all add: token_access_def)
  have by_identity: "accounts_ok s \<longleftrightarrow>
      (case identity_of s of (us, as, ts, es) \<Rightarrow>
         distinct (map fst us) \<and> distinct (map snd us) \<and> distinct (map fst as) \<and> distinct (map snd as) \<and>
         distinct (map tok_id ts) \<and> distinct (map tok_tokenHash ts) \<and> '''' \<notin> fst ` set us \<and> '''' \<notin> fst ` set as \<and>
         (\<forall>t \<in> set ts. token_ok (fst ` set us) (fst ` set as) (set es) t))" for s :: "'w access_db"
    by (simp add: accounts_ok_def identity_of_def comp_def image_image ok tok)
  show ?thesis unfolding by_identity assms ..
qed

lemma authenticate_identity: "identity_of (snd (authenticate ah r s)) = identity_of s"
proof -
  have "map (\<lambda>u. (usr_id u, usr_email u)) (ad_users s') = map (\<lambda>u. (usr_id u, usr_email u)) (ad_users s)"
    if "map user_access (ad_users s') = map user_access (ad_users s)" for s' s :: "'b access_db"
    using arg_cong [OF that, of "map (\<lambda>(i, m, h, r). (i, m))"] by (simp add: comp_def user_access_def)
  moreover have "ad_accounts (snd (authenticate ah r s)) = ad_accounts s"
  proof (cases "validateApiToken ah (drop 7 (nullish (hr_authorization r) '''')) s")
    case (Pair v s')
    then have "ad_accounts s' = ad_accounts s" by (cases v) (auto dest: rejected_token validated_touch)
    with Pair show ?thesis by (auto simp: authenticate_def authenticate_session_def Let_def split: option.split)
  qed
  ultimately show ?thesis using authenticate_access [of ah r s] by (auto simp: identity_of_def access_of_def)
qed

lemma identity_updates [simp]:
  "identity_of (add_events es s) = identity_of s"
  "(\<And>u. usr_id (f u) = usr_id u \<and> usr_email (f u) = usr_email u) \<Longrightarrow> identity_of (set_user i f s) = identity_of s"
  "identity_of (s\<lparr>ad_world := w\<rparr>) = identity_of s"
  by (simp_all add: identity_of_def add_events_def set_user_def update_row_other)

lemma identity_account: "(\<And>a. sac_id (g a) = sac_id a \<and> sac_name (g a) = sac_name a) \<Longrightarrow>
    identity_of (s\<lparr>ad_accounts := update_row sac_id i g (ad_accounts s)\<rparr>) = identity_of s"
  by (simp add: identity_of_def update_row_other)

lemma token_ok_more: "token_ok U A E t \<Longrightarrow> U \<subseteq> U' \<Longrightarrow> A \<subseteq> A' \<Longrightarrow> token_ok U' A' E t"
  by (auto simp: token_ok_def split: option.splits)

lemma insert_user_ok:
  assumes "accounts_ok s" and "\<And>w. fst (ah_newId ah w) \<noteq> ''''"
  shows "accounts_ok (snd (insert_user ah email h name role s))"
proof -
  obtain i w where i: "ah_newId ah (ad_world s) = (i, w)" by fastforce
  with assms(2) [of "ad_world s"] have "i \<noteq> ''''" by simp
  moreover have "token_ok (insert i (usr_id ` set (ad_users s))) (sac_id ` set (ad_accounts s)) (set (ad_environments s)) t"
    if "t \<in> set (ad_tokens s)" for t
    by (rule token_ok_more [of "usr_id ` set (ad_users s)"]) (use that assms(1) in \<open>auto simp: accounts_ok_def\<close>)
  ultimately show ?thesis using assms(1) i by (auto simp: insert_user_def Let_def accounts_ok_def)
qed

lemma insert_account_ok:
  assumes "accounts_ok s" and "\<And>w. fst (ah_newId ah w) \<noteq> ''''"
  shows "accounts_ok (snd (insert_account ah name d role c s))"
proof -
  obtain i w where i: "ah_newId ah (ad_world s) = (i, w)" by fastforce
  with assms(2) [of "ad_world s"] have "i \<noteq> ''''" by simp
  moreover have "token_ok (usr_id ` set (ad_users s)) (insert i (sac_id ` set (ad_accounts s))) (set (ad_environments s)) t"
    if "t \<in> set (ad_tokens s)" for t
    by (rule token_ok_more [of _ "sac_id ` set (ad_accounts s)"]) (use that assms(1) in \<open>auto simp: accounts_ok_def\<close>)
  ultimately show ?thesis using assms(1) i by (auto simp: insert_account_def Let_def accounts_ok_def)
qed

lemma create_token_ok:
  assumes "accounts_ok s" and "ti_expiresAt input \<noteq> None"
  shows "accounts_ok (snd (createApiToken ah input s))"
proof (cases "fst (createApiToken ah input s)")
  case (Inl e)
  then have "identity_of (snd (createApiToken ah input s)) = identity_of s"
    by (auto simp: createApiToken_def generateApiToken_def insert_token_def Let_def split: if_splits option.splits prod.splits)
  with assms(1) show ?thesis using accounts_ok_identity by blast
next
  case (Inr p)
  obtain token t s' where c: "createApiToken ah input s = (Inr (token, t), s')" using Inr by (metis prod.collapse)
  then show ?thesis
  proof (rule createApiToken_cases)
    fix i r w1 w2
    assume t: "t = \<lparr>tok_id = i, tok_name = ti_name input, tok_tokenHash = hashToken ah token,
          tok_tokenPrefix = Some (take (length API_TOKEN_PREFIX + 4) token), tok_role = ti_role input,
          tok_allEnvironments = ti_allEnvironments input,
          tok_environments = (if ti_allEnvironments input then [] else nullish (ti_environmentIds input) []), tok_lastUsedAt = None,
          tok_expiresAt = ti_expiresAt input, tok_createdAt = ah_now ah w2, tok_userId = ti_ownerUserId input,
          tok_serviceAccountId = ti_ownerServiceAccountId input\<rparr>"
      and s': "s' = s\<lparr>ad_world := w2, ad_tokens := ad_tokens s @ [t]\<rparr>"
      and new: "i \<notin> tok_id ` set (ad_tokens s)" "hashToken ah token \<notin> tok_tokenHash ` set (ad_tokens s)"
      and env: "distinct (tok_environments t)" "set (tok_environments t) \<subseteq> set (ad_environments s)"
        "tok_allEnvironments t \<or> tok_environments t \<noteq> []"
      and owner: "truthy (ti_ownerUserId input) \<noteq> truthy (ti_ownerServiceAccountId input)"
        "\<forall>u. ti_ownerUserId input = Some u \<longrightarrow> u \<in> usr_id ` set (ad_users s)"
        "\<forall>a. ti_ownerServiceAccountId input = Some a \<longrightarrow> a \<in> sac_id ` set (ad_accounts s)"
    have "ti_ownerUserId input \<noteq> Some ''''" "ti_ownerServiceAccountId input \<noteq> Some ''''"
      using owner assms(1) by (auto simp: accounts_ok_def)
    then have "token_ok (usr_id ` set (ad_users s)) (sac_id ` set (ad_accounts s)) (set (ad_environments s)) t"
      using owner env assms(2) t by (cases "ti_ownerUserId input"; cases "ti_ownerServiceAccountId input") (auto simp: token_ok_def)
    moreover have "distinct (map tok_id (ad_tokens s @ [t]))" "distinct (map tok_tokenHash (ad_tokens s @ [t]))"
      using new assms(1) t by (auto simp: accounts_ok_def)
    ultimately show ?thesis using assms(1) c s' by (auto simp: accounts_ok_def)
  qed
qed

lemma remove_ok:
  assumes "accounts_ok s"
  shows "accounts_ok (remove_user i s)" "accounts_ok (remove_account i s)" "accounts_ok (snd (deleteApiToken i s))"
proof -
  have ids: "usr_id ` set (filter (\<lambda>u. usr_id u \<noteq> i) us) = usr_id ` set us - {i}"
    "sac_id ` set (filter (\<lambda>a. sac_id a \<noteq> i) as) = sac_id ` set as - {i}"
    for us :: "user_row list" and as :: "account_row list" by auto
  have acc: "map sac_id (ad_accounts (remove_user i s)) = map sac_id (ad_accounts s)"
    "map sac_name (ad_accounts (remove_user i s)) = map sac_name (ad_accounts s)"
    by (simp_all add: remove_user_def)
  have accset: "sac_id ` set (ad_accounts (remove_user i s)) = sac_id ` set (ad_accounts s)"
    using arg_cong [OF acc(1), of set] by (simp only: list.set_map)
  have others: "ad_users (remove_user i s) = filter (\<lambda>u. usr_id u \<noteq> i) (ad_users s)"
    "ad_tokens (remove_user i s) = filter (\<lambda>t. tok_userId t \<noteq> Some i) (ad_tokens s)"
    "ad_environments (remove_user i s) = ad_environments s"
    by (simp_all add: remove_user_def)
  have 1: "token_ok (usr_id ` set (ad_users s) - {i}) A E t"
    if "token_ok (usr_id ` set (ad_users s)) A E t" "tok_userId t \<noteq> Some i" for A E t
    using that by (auto simp: token_ok_def split: option.splits)
  have 2: "token_ok U (sac_id ` set (ad_accounts s) - {i}) E t"
    if "token_ok U (sac_id ` set (ad_accounts s)) E t" "tok_serviceAccountId t \<noteq> Some i" for U E t
    using that by (auto simp: token_ok_def split: option.splits)
  show "accounts_ok (remove_user i s)"
    using assms 1 unfolding accounts_ok_def others acc accset ids(1) by (simp add: distinct_map_filter)
  show "accounts_ok (remove_account i s)"
    using assms 2 by (simp add: accounts_ok_def remove_account_def distinct_map_filter ids(2) [simplified])
  show "accounts_ok (snd (deleteApiToken i s))"
    using assms by (auto simp: accounts_ok_def deleteApiToken_def distinct_map_filter)
qed

text \<open>The handlers one by one; rules for the calls inside them first.\<close>

named_theorems accounts_intros "what keeps the account tables consistent"

lemma accounts_ok_calls:
  "insert_user ah m h n r s = (x, s') \<Longrightarrow> accounts_ok s \<Longrightarrow> (\<And>w. fst (ah_newId ah w) \<noteq> '''') \<Longrightarrow> accounts_ok s'"
  "insert_account ah n2 d r c s = (y, s') \<Longrightarrow> accounts_ok s \<Longrightarrow> (\<And>w. fst (ah_newId ah w) \<noteq> '''') \<Longrightarrow> accounts_ok s'"
  "createApiToken ah input s = (z, s') \<Longrightarrow> accounts_ok s \<Longrightarrow> ti_expiresAt input \<noteq> None \<Longrightarrow> accounts_ok s'"
  using insert_user_ok [of s ah m h n r] insert_account_ok [of s ah n2 d r c] create_token_ok [of s input ah] by auto

lemma accounts_ok_updates [simp]:
  "accounts_ok (add_events es s) = accounts_ok s"
  "accounts_ok (s\<lparr>ad_world := w\<rparr>) = accounts_ok s"
  "(\<And>u. usr_id (f u) = usr_id u \<and> usr_email (f u) = usr_email u) \<Longrightarrow> accounts_ok (set_user i f s) = accounts_ok s"
  "(\<And>a. sac_id (g a) = sac_id a \<and> sac_name (g a) = sac_name a) \<Longrightarrow>
     accounts_ok (s\<lparr>ad_accounts := update_row sac_id i g (ad_accounts s)\<rparr>) = accounts_ok s"
  by (rule accounts_ok_identity; simp add: identity_account)+

lemma accounts_ok_hash: "bcrypt_hash ah p s = (h, s') \<Longrightarrow> accounts_ok s \<Longrightarrow> accounts_ok s'"
  by (auto simp: bcrypt_hash_def split: prod.splits)

lemma register_ok [accounts_intros]:
  "(\<And>w. fst (ah_newId ah w) \<noteq> '''') \<Longrightarrow> accounts_ok s \<Longrightarrow> accounts_ok (snd (register ah b s))"
  by (auto simp: register_def validateBody_def createUser_def split: option.split prod.split sum.split
      dest!: accounts_ok_hash accounts_ok_calls)

lemma create_user_ok [accounts_intros]:
  "(\<And>w. fst (ah_newId ah w) \<noteq> '''') \<Longrightarrow> accounts_ok s \<Longrightarrow> accounts_ok (snd (create_user ah b u s))"
  by (auto simp: create_user_def validateBody_def split: option.split prod.split sum.split dest!: accounts_ok_hash accounts_ok_calls)

lemma create_account_ok [accounts_intros]:
  "(\<And>w. fst (ah_newId ah w) \<noteq> '''') \<Longrightarrow> accounts_ok s \<Longrightarrow> accounts_ok (snd (create_account ah b u s))"
  by (auto simp: create_account_def validateBody_def split: option.split prod.split sum.split dest!: accounts_ok_calls)

lemma updates_ok [accounts_intros]:
  "accounts_ok s \<Longrightarrow> accounts_ok (snd (update_user i k b1 u s))"
  "accounts_ok s \<Longrightarrow> accounts_ok (snd (update_account i b2 u s))"
  by (auto simp: update_user_def update_account_def validateBody_def findOrNotFound_def Let_def split: option.split)

lemma change_password_ok [accounts_intros]: "accounts_ok s \<Longrightarrow> accounts_ok (snd (change_password ah i b u s))"
  by (auto simp: change_password_def validateBody_def findOrNotFound_def Let_def
      split: option.split prod.split dest: accounts_ok_hash)

lemma create_token_route_ok [accounts_intros]: "accounts_ok s \<Longrightarrow> accounts_ok (snd (create_token ah b u s))"
  by (auto simp: create_token_def validateBody_def Let_def split: option.split prod.split sum.split dest!: accounts_ok_calls(3))

lemma removals_ok [accounts_intros]:
  assumes "accounts_ok s"
  shows "accounts_ok (snd (delete_user i u s))" "accounts_ok (snd (delete_account i u s))" "accounts_ok (snd (revoke_token i u s))"
  using assms remove_ok [OF assms]
  by (auto simp: delete_user_def delete_account_def revoke_token_def findOrNotFound_def split: option.split)

lemma guarded_ok [accounts_intros]:
  assumes "accounts_ok s" and "\<And>u s1. accounts_ok s1 \<Longrightarrow> accounts_ok (snd (h u s1))"
  shows "accounts_ok (snd (guarded ah check r h s))"
proof (cases "authenticate ah r s")
  case (Pair v s1)
  with authenticate_identity [of ah r s] assms(1) have "accounts_ok s1" using accounts_ok_identity by fastforce
  with Pair assms(2) show ?thesis by (auto simp: guarded_def split: sum.split option.split)
qed

text \<open>C31: every request keeps the tables consistent: unique ids, e-mails, names and hashes, and every token with an
  expiry, exactly one owner that exists, and either all environments or a non-empty list of existing ones.\<close>

theorem requests_keep_accounts_ok:
  assumes "accounts_ok s" and "\<And>w. fst (ah_newId ah w) \<noteq> ''''"
  shows "accounts_ok (snd (serve ah e auth s))"
  using assms by (cases e) (auto intro!: accounts_intros)

section \<open>Examples\<close>

definition sample_revoke :: "reply \<times> nat access_db" where
  "sample_revoke = serve sample_auth_host (RevokeToken ''t1'') (Some ''Bearer u1'') sample_access_db"

theorem only_admins_change_access_witness:
  "access_of (snd sample_revoke) \<noteq> access_of sample_access_db \<and>
   (\<exists>u s1. authenticate sample_auth_host (endpoint_http (RevokeToken ''t1'') (Some ''Bearer u1'')) sample_access_db = (Inr u, s1) \<and>
      au_role u = Admin \<and> unrestricted u)"
proof -
  have "map token_access (ad_tokens (snd sample_revoke)) = []"
    by (simp add: sample_revoke_def guarded_def authenticate_def authenticate_session_def validateApiToken_def hashToken_def
        getUserById_def user_by_def session_user_def enforceRoleForMethod_def endpoint_http_def sample_access_defs Let_def
        touch_user_def shouldWrite_def createThrottle_def grant_def set_user_def update_row_def requireAdmin_def revoke_token_def
        findOrNotFound_def deleteApiToken_def add_events_def route_key_def routePattern_def READONLY_METHODS_def)
  then have ne: "access_of (snd sample_revoke) \<noteq> access_of sample_access_db"
    by (auto simp: access_of_def sample_access_db_def)
  moreover have "sample_revoke = (fst sample_revoke, snd sample_revoke)" by simp
  ultimately show ?thesis
    using only_admins_change_access [of sample_auth_host "RevokeToken ''t1''" "Some ''Bearer u1''" sample_access_db
        "fst sample_revoke" "snd sample_revoke"] by (auto simp: sample_revoke_def)
qed

theorem requests_keep_accounts_ok_witness:
  "accounts_ok sample_access_db \<and> accounts_ok (snd sample_revoke)"
proof -
  have "accounts_ok sample_access_db"
    by (simp add: accounts_ok_def token_ok_def sample_access_defs)
  with requests_keep_accounts_ok [OF this, of sample_auth_host "RevokeToken ''t1''" "Some ''Bearer u1''"] show ?thesis
    by (simp add: sample_revoke_def sample_auth_host_def)
qed

end
