(* ===== verification/Spec2Isabelle.thy ===== *)
theory Spec2Isabelle
  imports Plan_Execution Bounce_Tracker Keyed_Lock Sync_Batch Webhook_Delivery Response_Cache Idempotency Backup_Run Sync_Preview Downsample Notification_Queue Image_Names Compose_Artifacts Account_Routes
begin

text \<open>
  BRIDGEPORT deploys services to servers: a TypeScript server (\<open>src/\<close>) keeps services, servers, config files and
  secrets in a database, runs deployments over SSH and docker, orders several of them in deployment plans,
  pushes rendered config files, and notifies subscribers. This development models the server's own core
  logic; each theory below opens with what it holds.

  \<^bold>\<open>Foundations.\<close> \<open>Prelude\<close> has the string idioms of the sources and shared lemmas; \<open>Effects\<close> is the model of
  an asynchronous function: it takes the state and returns the thrown message or the value together
  with the state it leaves behind, so writes before an exception stay written. \<open>keeps\<close>, \<open>preserves\<close>,
  \<open>ensures\<close> and \<open>total\<close> are its frame, invariant, postcondition and no-throw judgements, with rule
  collections that prove them along the structure of a handler.

  \<^bold>\<open>Plans.\<close> \<open>Dependency_Order\<close> and \<open>Plan_Builder\<close> model \<open>resolveDependencyOrder\<close> and \<open>buildDeploymentPlan\<close> of
  \<open>services/orchestration.ts\<close>; \<open>Plan_Execution\<close> models \<open>executePlan\<close>, \<open>rollbackPlan\<close> and \<open>cancelPlan\<close> over a
  contract of the deployment and verification workers (locale \<open>plan_workers\<close>), which \<open>Deploy\<close>
  (\<open>services/deploy.ts\<close>) and \<open>Health_Verification\<close> (\<open>services/health-verification.ts\<close>) provide. The depth-first
  search and the level loop run on fuel: the numbers of services and dependencies bound both, and the totality
  theorem shows that it never runs out. The health loop recurses over the remaining attempts.

  \<^bold>\<open>Config files.\<close> \<open>Template_Engine\<close> (\<open>services/template-engine.ts\<close>) writes the regular expressions out as
  scanners, terminating because every step consumes text; \<open>Config_Rendering\<close> has fragments, server
  lookup and placeholder resolution (\<open>services/secrets.ts\<close>, \<open>lib/config-fragments.ts\<close>); \<open>Key_Usage\<close> the usage
  tables; \<open>Config_Sync\<close> the push to every attached deployment (\<open>services/config-file-auto-resync.ts\<close>);
  its deliveries are also stated of the attachment rows alone, and the targets of the code are proved to be those;
  \<open>Sync_Batch\<close> the batches over it with rollback and replay (\<open>services/sync-batch.ts\<close>), where other requests may edit
  config files between the steps of a batch in any way (a parameter \<open>other_edits\<close>).

  \<^bold>\<open>Infrastructure.\<close> \<open>Hosts\<close> holds the rows and the clients' interface; \<open>Keyed_Lock\<close> the promise-chain mutex
  (\<open>lib/keyed-lock.ts\<close>) as a step relation; \<open>Bounce_Tracker\<close> the alert threshold and cooldown.

  \<^bold>\<open>Webhooks.\<close> \<open>Webhook_Guard\<close> and \<open>Webhook_Delivery\<close> model \<open>services/webhook-subscriptions.ts\<close>: the guard against
  internal destinations, compared with addresses as words, and the delivery life cycle. The workers
  of a sweep run concurrently, so the sweep is an inductive step relation whose steps lie between two
  \<open>await\<close>s, interleaved with the other operations; its invariant is proved by rule induction.

  \<^bold>\<open>Requests.\<close> \<open>Idempotency\<close> (\<open>lib/idempotency.ts\<close>) and \<open>Response_Cache\<close> (\<open>lib/response-cache.ts\<close>) are step relations
  over concurrent callers: the first with an invariant on the owners of rows, the second with a
  specification without storage that every run of the cache refines.

  \<^bold>\<open>Backups.\<close> \<open>Calendar\<close> is the calendar behind \<open>Date\<close>; \<open>Cron_Schedule\<close> and \<open>Backup_Retention\<close> model
  \<open>services/database-backup.ts\<close>: when a schedule runs next (its field loop may not end and is a partial function
  into options; the search is bounded by the minutes of 366 days, as in the code), and which backups a
  rotation keeps and deletes. \<open>Backup_Run\<close> models what creates, executes and downloads them: an execution that is
  started in the background is a job that runs later, and every execution settles its row.

  \<^bold>\<open>Dry runs.\<close> \<open>Text_Diff\<close> models \<open>lib/dry-run.ts\<close>: the redaction of secret values, and the unified diff of two texts
  with its table of longest common subsequences. \<open>Sync_Preview\<close> is the dry run of a config file sync over the targets,
  clients and rendering of \<open>Config_Sync\<close>, and is compared with what the sync would write. \<open>Compose_Artifacts\<close> generates the
  compose file and the config files of a deployment (\<open>services/compose.ts\<close>) and previews them; the YAML printer is a
  parameter, and the published ports are read back to the discovered ones.

  \<^bold>\<open>Smaller parts.\<close> \<open>Downsample\<close> reduces a table of metrics to a number of points (\<open>lib/metrics-downsample.ts\<close>, with the
  relative error of a rounding as its only assumption on doubles), \<open>Notification_Queue\<close> is the queue of
  \<open>services/notification-queue.ts\<close> as a step relation in which every drain has a frame with its own snapshot, \<open>Image_Names\<close> takes image names apart and picks tags
  (\<open>lib/image-utils.ts\<close>).

  \<^bold>\<open>Access.\<close> \<open>Access_Control\<close> models users, tokens and the authentication hook (\<open>services/auth.ts\<close>,
  \<open>plugins/authenticate.ts\<close>, \<open>plugins/authorize.ts\<close>, \<open>lib/scopes.ts\<close>), \<open>Activity_Throttle\<close> and \<open>Readonly_Fields\<close> what it
  and the update routes call, \<open>Account_Routes\<close> the routes that create, change and remove principals: its
  theorems say who can change a permission and that the tables stay consistent.

  \<^bold>\<open>What is a parameter.\<close> Docker, SSH, registries, DNS, HTTP and the crypto library are fields of a host
  record: functions from a world to a result and a new world. Theorems hold for every such record;
  where one needs documented behaviour it is an explicit hypothesis with a witness. The database is
  a record of row lists; a query is a filter in insertion order, an update rewrites the rows that match.
  Timestamps are readings of a clock. Integers of the sources stay far below \<open>2 ^ 53\<close> and are natural numbers
  or integers; addresses are compared as numbers, octet by octet.

  \<^bold>\<open>Not modelled.\<close> Request routing and validation schemas outside the account routes, the React interface, the Go programs, mail and
  chat notifications, database drivers, registry HTTP clients and YAML printing:
  they are input and output around the services, or calls of third-party libraries.
\<close>

end
